(* ===== verification/Prelude.thy ===== *)
theory Prelude
  imports Main "HOL-Library.Word" "HOL-Library.Signed_Division"
begin

unbundle bit_operations_syntax

text \<open>
  Shared foundations of the development: the width types of the C code, the ways a C
  computation can go wrong (as values of \<open>cerr\<close>), the error monad \<open>bindE\<close>, bounded
  loops \<open>foldE\<close>, checked array accesses \<open>rd\<close> and \<open>wr\<close>, checked \<open>int\<close> arithmetic
  and left shift, and the lemmas about them that every component uses.
\<close>

section \<open>Types of the C code\<close>

type_synonym u8 = "8 word"
type_synonym u16 = "16 word"
type_synonym u32 = "32 word"
type_synonym u64 = "64 word"

text \<open>
  What the model reports where the C code has undefined behaviour, halts or blocks:
  an array access outside its object, a signed overflow, a shift by an invalid amount, a
  call that would block its caller for ever, a failed debug assertion or fatal error
  (which ends in \<open>chSysHalt\<close>), and a call of \<open>exit\<close>. \<open>Halted\<close> carries the remark of the assertion, by which
  the failed condition can be told; the code halts with the name of the function instead
  (\<open>chDbgAssert\<close> in \<^verbatim>\<open>chdebug.h\<close>), except where it calls \<open>chSysHalt\<close> itself.
\<close>

datatype cerr = OutOfBounds | Overflow | BadShift | Blocked | Halted string | Exited int

type_synonym 'a result = "cerr + 'a"

section \<open>The error monad\<close>

definition bindE :: "'e + 'a \<Rightarrow> ('a \<Rightarrow> 'e + 'b) \<Rightarrow> 'e + 'b" where
  "bindE m f = (case m of Inl e \<Rightarrow> Inl e | Inr x \<Rightarrow> f x)"

primrec foldE :: "('a \<Rightarrow> 's \<Rightarrow> 'e + 's) \<Rightarrow> 'a list \<Rightarrow> 's \<Rightarrow> 'e + 's" where
  "foldE f [] s = Inr s"
| "foldE f (x # xs) s = bindE (f x s) (foldE f xs)"

definition is_ok :: "'e + 'a \<Rightarrow> bool" where
  "is_ok m = (case m of Inl _ \<Rightarrow> False | Inr _ \<Rightarrow> True)"

definition assertE :: "bool \<Rightarrow> cerr \<Rightarrow> unit result" where
  "assertE b e = (if b then Inr () else Inl e)"

text \<open>The result of a loop that is a partial function: one that does not end blocks the caller.\<close>

definition finished :: "'a result option \<Rightarrow> 'a result" where
  "finished x = (case x of None \<Rightarrow> Inl Blocked | Some r \<Rightarrow> r)"

section \<open>C integers, shifts and arrays\<close>

definition INT_MAX :: int where
  "INT_MAX = 2147483647"

definition INT_MIN :: int where
  "INT_MIN = - 2147483648"

definition c_int :: "int \<Rightarrow> int result" where
  "c_int v = (if INT_MIN \<le> v \<and> v \<le> INT_MAX then Inr v else Inl Overflow)"

text \<open>
  \<open>a << n\<close> on \<open>int\<close>: the amount must be below the width and the mathematical result
  representable.
\<close>

definition c_shl :: "int \<Rightarrow> int \<Rightarrow> int result" where
  "c_shl a n = (if n < 0 \<or> 32 \<le> n \<or> a < 0 then Inl BadShift else c_int (a * 2 ^ nat n))"

definition rd :: "'a list \<Rightarrow> int \<Rightarrow> 'a result" where
  "rd xs i = (if 0 \<le> i \<and> i < int (length xs) then Inr (xs ! nat i) else Inl OutOfBounds)"

definition wr :: "'a list \<Rightarrow> int \<Rightarrow> 'a \<Rightarrow> 'a list result" where
  "wr xs i v = (if 0 \<le> i \<and> i < int (length xs) then Inr (xs[nat i := v]) else Inl OutOfBounds)"

section \<open>Lemma collections\<close>

named_theorems checked "unfolding of the checked operations"

lemma bindE_Inr [simp]: "bindE (Inr x) f = f x"
  by (simp add: bindE_def)

lemma bindE_Inl [simp]: "bindE (Inl e) f = Inl e"
  by (simp add: bindE_def)

lemma bindE_eq_Inr: "bindE m f = Inr y \<longleftrightarrow> (\<exists>x. m = Inr x \<and> f x = Inr y)"
  by (cases m) auto

lemma bindE_cong [fundef_cong]:
  "m = m' \<Longrightarrow> (\<And>x. m' = Inr x \<Longrightarrow> f x = f' x) \<Longrightarrow> bindE m f = bindE m' f'"
  by (cases m') auto

lemma bindE_assoc: "bindE (bindE m f) g = bindE m (\<lambda>x. bindE (f x) g)"
  by (cases m) auto

lemma is_ok_iff: "is_ok m \<longleftrightarrow> (\<exists>x. m = Inr x)"
  by (cases m) (auto simp: is_ok_def)

lemma assertE_True [simp]: "assertE True e = Inr ()"
  by (simp add: assertE_def)

lemma assertE_eq_Inr [simp]: "assertE b e = Inr u \<longleftrightarrow> b"
  by (simp add: assertE_def)

lemma foldE_append: "foldE f (xs @ ys) s = bindE (foldE f xs s) (foldE f ys)"
  by (induction xs arbitrary: s) (simp_all add: bindE_def split: sum.splits)

text \<open>
  The loop rule: a body that returns in every state satisfying the invariant, and keeps
  it, makes the loop return in such a state.
\<close>

lemma foldE_invariant:
  assumes "\<And>x s. x \<in> set xs \<Longrightarrow> I s \<Longrightarrow> \<exists>s'. f x s = Inr s' \<and> I s'"
    and "I s"
  shows "\<exists>s'. foldE f xs s = Inr s' \<and> I s'"
  using assms
proof (induction xs arbitrary: s)
  case Nil
  then show ?case by simp
next
  case (Cons x xs)
  obtain s1 where "f x s = Inr s1" "I s1"
    using Cons.prems(1)[of x s] Cons.prems(2) by auto
  with Cons.IH[of s1] Cons.prems(1) show ?case by simp
qed

text \<open>A loop whose body never fails is the pure fold.\<close>

lemma foldE_fold:
  assumes "\<And>x s. x \<in> set xs \<Longrightarrow> I s \<Longrightarrow> f x s = Inr (g x s) \<and> I (g x s)"
    and "I s"
  shows "foldE f xs s = Inr (fold g xs s) \<and> I (fold g xs s)"
  using assms
proof (induction xs arbitrary: s)
  case Nil
  then show ?case by simp
next
  case (Cons x xs)
  have "f x s = Inr (g x s) \<and> I (g x s)"
    using Cons.prems by simp
  with Cons.IH[of "g x s"] Cons.prems(1) show ?case by simp
qed

lemma c_int_ok: "INT_MIN \<le> v \<Longrightarrow> v \<le> INT_MAX \<Longrightarrow> c_int v = Inr v"
  by (simp add: c_int_def)

lemma rd_ok: "0 \<le> i \<Longrightarrow> i < int (length xs) \<Longrightarrow> rd xs i = Inr (xs ! nat i)"
  by (simp add: rd_def)

lemma rd_nat_ok: "i < length xs \<Longrightarrow> rd xs (int i) = Inr (xs ! i)"
  by (simp add: rd_def)

lemma rd_eq_Inr: "rd xs i = Inr v \<longleftrightarrow> 0 \<le> i \<and> i < int (length xs) \<and> v = xs ! nat i"
  by (auto simp: rd_def)

lemma rd_eq_Inl: "rd xs i = Inl e \<longleftrightarrow> \<not> (0 \<le> i \<and> i < int (length xs)) \<and> e = OutOfBounds"
  by (auto simp: rd_def)

lemma wr_ok: "0 \<le> i \<Longrightarrow> i < int (length xs) \<Longrightarrow> wr xs i v = Inr (xs[nat i := v])"
  by (simp add: wr_def)

lemma wr_nat_ok: "i < length xs \<Longrightarrow> wr xs (int i) v = Inr (xs[i := v])"
  by (simp add: wr_def)

lemma wr_eq_Inr:
  "wr xs i v = Inr ys \<longleftrightarrow> 0 \<le> i \<and> i < int (length xs) \<and> ys = xs[nat i := v]"
  by (auto simp: wr_def)

lemma c_shl_ok:
  assumes "0 \<le> n" "n < 32" "0 \<le> a" "a * 2 ^ nat n \<le> INT_MAX"
  shows "c_shl a n = Inr (a * 2 ^ nat n)"
  using assms by (auto simp: c_shl_def c_int_def INT_MIN_def INT_MAX_def intro: order_trans[of _ 0])

lemma bit_1_shift [simp]: "bit (1 * 2 ^ k :: int) n \<longleftrightarrow> n = k"
  by (simp add: bit_simps flip: push_bit_eq_mult)

lemma nat_image_Icc: "0 \<le> l \<Longrightarrow> nat ` {l..u} = {c. l \<le> int c \<and> int c \<le> u}"
  by (force simp: image_iff)

lemma upto_nat: "[0..int n - 1] = map int [0..<n]"
proof (induction n)
  case 0
  then show ?case by simp
next
  case (Suc n)
  have "[0..int (Suc n) - 1] = [0..int n - 1] @ [int n]"
    using upto_rec2[of 0 "int n"] by simp
  with Suc show ?case by simp
qed

lemma foldE_map: "foldE f (map g xs) s = foldE (f \<circ> g) xs s"
  by (induction xs arbitrary: s) (simp_all add: bindE_def split: sum.splits)

text \<open>Nested loops as one loop over the index pairs.\<close>

lemma foldE_nested:
  "foldE (\<lambda>i. foldE (f i) js) is s = foldE (\<lambda>(i, j). f i j) (List.product is js) s"
  by (induction "is" arbitrary: s) (simp_all add: foldE_append foldE_map comp_def bindE_def split: sum.splits)

text \<open>A loop that assigns every element of an array.\<close>

lemma foldE_wr_upto:
  assumes "k \<le> length b"
  shows "foldE (\<lambda>i b. wr b (int i) (f i)) [0..<k] b = Inr (map f [0..<k] @ drop k b)"
  using assms
proof (induction k)
  case 0
  then show ?case by simp
next
  case (Suc k)
  then have "map f [0..<k] @ drop k b = map f [0..<k] @ b ! k # drop (Suc k) b"
    by (simp add: Cons_nth_drop_Suc)
  with Suc show ?case
    by (simp add: foldE_append wr_def list_update_append nat_less_iff)
qed

lemma foldE_wr_all:
  assumes "length b = n"
  shows "foldE (\<lambda>i b. wr b i (f i)) [0..int n - 1] b = Inr (map (\<lambda>i. f (int i)) [0..<n])"
  using foldE_wr_upto[of n b "\<lambda>i. f (int i)"] assms
  by (simp add: upto_nat foldE_map comp_def)

lemma ex_less_3: "(\<exists>i < 3. P i) \<longleftrightarrow> P 0 \<or> P 1 \<or> P (2::nat)"
  by (auto simp: numeral_3_eq_3 numeral_2_eq_2 less_Suc_eq)

lemma all_less_3: "(\<forall>i < 3. P i) \<longleftrightarrow> P 0 \<and> P 1 \<and> P (2::nat)"
  by (auto simp: numeral_3_eq_3 numeral_2_eq_2 less_Suc_eq)

lemmas [checked] = rd_ok rd_nat_ok wr_ok wr_nat_ok c_shl_ok c_int_ok

section \<open>Words\<close>

text \<open>The lowest bit of a word, and what subtracting one does to it.\<close>

lemma least_bit:
  fixes m :: u32
  assumes "m \<noteq> 0"
  shows "\<exists>i < 32. bit m i \<and> (\<forall>j < i. \<not> bit m j)"
proof -
  have "\<exists>j. bit m j" using assms bit_eq_iff[of m 0] by auto
  then obtain i where i: "bit m i" "\<forall>j < i. \<not> bit m j"
    using exists_least_iff[of "bit m"] by blast
  from bit_imp_le_length[OF i(1)] have "i < 32" by simp
  with i show ?thesis by blast
qed

lemma bit_pred:
  fixes m :: u32
  assumes "bit m i" "\<forall>j < i. \<not> bit m j"
  shows "bit (m - 1) j \<longleftrightarrow> j < i \<or> (i < j \<and> bit m j)"
proof -
  have i: "i < 32" using bit_imp_le_length[OF assms(1)] by simp
  have "m - 2 ^ i = m AND NOT (2 ^ i)"
    by (rule disjunctive_diff) (use assms(1) in \<open>auto simp: bit_exp_iff\<close>)
  moreover have "(m AND NOT (2 ^ i)) + mask i = (m AND NOT (2 ^ i)) OR mask i"
    by (rule disjunctive_add) (use assms(2) in \<open>auto simp: bit_simps\<close>)
  ultimately have "m - 1 = (m AND NOT (2 ^ i)) OR mask i"
    by (simp add: mask_eq_exp_minus_1 flip: \<open>m - 2 ^ i = _\<close>)
  then show ?thesis
    using assms i by (auto simp: bit_simps) (use bit_imp_le_length[of m j] linorder_neqE_nat in fastforce)+
qed

text \<open>The test for a power of two.\<close>

lemma power_of_two_test:
  fixes a :: u32
  assumes "a \<noteq> 0" "a AND (a - 1) = 0"
  shows "\<exists>i < 32. a = 2 ^ i"
proof -
  obtain i where i: "i < 32" "bit a i" "\<forall>j < i. \<not> bit a j"
    using least_bit[OF assms(1)] by blast
  have "\<not> (bit a j \<and> bit (a - 1) j)" for j
    using assms(2) by (metis bit_and_iff bit_0_eq bot_apply bot_bool_def)
  then have "bit a j \<longleftrightarrow> j = i" for j
    using bit_pred[OF i(2,3), of j] i(2,3) by (metis linorder_neqE_nat)
  then have "a = 2 ^ i"
    by (intro bit_word_eqI) (auto simp: bit_exp_iff i(1))
  with i(1) show ?thesis by blast
qed

lemma unat_pow2: "k < 32 \<Longrightarrow> unat (2 ^ k :: u32) = 2 ^ k"
  by transfer simp

text \<open>Clearing the low bits rounds down.\<close>

lemma unat_and_not_mask:
  fixes x :: u32
  shows "unat (x AND NOT (mask k)) = unat x - unat x mod 2 ^ k"
proof -
  have "x - (x AND mask k) = x AND NOT (x AND mask k)"
    by (rule disjunctive_diff) (auto simp: bit_simps)
  moreover have "x AND NOT (x AND mask k) = x AND NOT (mask k)"
    by (rule bit_word_eqI) (auto simp: bit_simps)
  moreover have t: "unat (x AND mask k) = unat x mod 2 ^ k"
    by (metis take_bit_eq_mask take_bit_eq_mod unsigned_take_bit_eq)
  moreover have "x AND mask k \<le> x"
    by (simp add: word_le_nat_alt t)
  ultimately show ?thesis
    by (metis unat_sub)
qed

lemma round_up:
  fixes x a :: nat
  assumes "0 < a"
  shows "x \<le> (x + (a - 1)) div a * a" "(x + (a - 1)) div a * a \<le> x + (a - 1)"
proof -
  have "(x + (a - 1)) div a * a = (x + (a - 1)) - (x + (a - 1)) mod a" by (simp add: minus_mod_eq_div_mult)
  moreover have "(x + (a - 1)) mod a \<le> a - 1" using assms mod_less_divisor[OF assms, of "x + (a - 1)"] by linarith
  ultimately show "x \<le> (x + (a - 1)) div a * a" "(x + (a - 1)) div a * a \<le> x + (a - 1)" by linarith+
qed

end
