(* ===== verification/Types.thy ===== *)
theory Types
  imports Prelude
begin

text \<open>
  The data the parts of the game share: \<^verbatim>\<open>types.h\<close> (bounding boxes, the stack of
  pending screen updates, the video buffer, blocks) and \<^verbatim>\<open>impl.h\<close> (the tables of
  function pointers behind which the two platforms, the STM32 board and the desktop
  simulation, implement hardware access and threads). The video buffer is polymorphic in
  the platform's mutex state \<open>'m\<close>, the tables in the platform's state \<open>'w\<close>.
\<close>

section \<open>types.h\<close>

record bbox_t =
  bbox_x :: int
  bbox_y :: int
  bbox_sizex :: int
  bbox_sizey :: int

definition STACKSIZE :: nat where
  "STACKSIZE = 16"

record bbox_stack_t =
  stk_size :: nat
  stk_arr :: "bbox_t list"

definition DISP_COLS :: nat where
  "DISP_COLS = 240"

definition DISP_ROWS :: nat where
  "DISP_ROWS = 30"

record 'm vbuf_t =
  vb_buf :: "u8 list list"
  upd_stack :: bbox_stack_t
  clear_flag :: bool
  vb_mtx :: 'm

definition GRID_STEP :: int where
  "GRID_STEP = 8"

definition BLOCK_HEIGHT :: int where
  "BLOCK_HEIGHT = 3"

text \<open>
  The enumerators of \<open>enum ori_e\<close> by their values; the field \<open>ori\<close> of a block holds
  the value of the enum object, since the code computes with it.
\<close>

definition ORI_NORTH :: int where "ORI_NORTH = 0"
definition ORI_EAST :: int where "ORI_EAST = 1"
definition ORI_SOUTH :: int where "ORI_SOUTH = 2"
definition ORI_WEST :: int where "ORI_WEST = 3"

type_synonym pattern_t = "u8 list"

record block_t =
  blk_ptrs :: "pattern_t list"
  blk_ori :: int
  blk_x :: int
  blk_y :: int

section \<open>impl.h\<close>

record ('w, 'm) hwiface_t =
  hw_init :: "'w \<Rightarrow> (bool \<times> 'w) result"
  hw_loop :: "'m vbuf_t \<Rightarrow> block_t \<Rightarrow> 'w \<Rightarrow> ('m vbuf_t \<times> block_t \<times> 'w) result"
  hw_millis :: "'w \<Rightarrow> u32 \<times> 'w"
  hw_delay :: "u32 \<Rightarrow> 'w \<Rightarrow> 'w"
  hw_display_init :: "'w \<Rightarrow> (bool \<times> 'w) result"
  hw_display_update :: "'m vbuf_t \<Rightarrow> 'w \<Rightarrow> 'w result"
  hw_display_update_rect :: "'m vbuf_t \<Rightarrow> bbox_t \<Rightarrow> 'w \<Rightarrow> 'w result"
  hw_display_cmd :: "u8 list \<Rightarrow> 'w \<Rightarrow> 'w"
  hw_serial_getch :: "'w \<Rightarrow> u8 \<times> 'w"
  hw_led_toggle :: "'w \<Rightarrow> 'w"
  hw_fatal_error :: "string \<Rightarrow> 'w \<Rightarrow> 'w result"

text \<open>The working area is given by the size its declaration asks for.\<close>

record thd_handle_t =
  hdl_wa_size :: nat
  hdl_prio :: nat
  hdl_func :: string

record ('w, 'm) thdiface_t =
  thd_create :: "thd_handle_t \<Rightarrow> 'w \<Rightarrow> 'w result"
  thd_exit :: "int \<Rightarrow> 'w \<Rightarrow> 'w result"
  thd_mtx_init :: "'m \<Rightarrow> 'm result"
  thd_lock :: "'m \<Rightarrow> 'm result"
  thd_unlock :: "'m \<Rightarrow> 'm result"

section \<open>Well-formed data\<close>

definition stack_wf :: "bbox_stack_t \<Rightarrow> bool" where
  "stack_wf s \<longleftrightarrow> stk_size s \<le> STACKSIZE \<and> length (stk_arr s) = STACKSIZE"

definition buf_wf :: "u8 list list \<Rightarrow> bool" where
  "buf_wf b \<longleftrightarrow> length b = DISP_COLS \<and> (\<forall>c < DISP_COLS. length (b ! c) = DISP_ROWS)"

definition vbuf_wf :: "'m vbuf_t \<Rightarrow> bool" where
  "vbuf_wf v \<longleftrightarrow> buf_wf (vb_buf v) \<and> stack_wf (upd_stack v)"

definition pattern_wf :: "pattern_t \<Rightarrow> bool" where
  "pattern_wf p \<longleftrightarrow> length p = 3 \<and> (\<forall>r \<in> set p. r < 8)"

lemma buf_wf_update:
  "buf_wf b \<Longrightarrow> c < DISP_COLS \<Longrightarrow> length r = DISP_ROWS \<Longrightarrow> buf_wf (b[c := r])"
  by (auto simp: buf_wf_def nth_list_update)

lemma DISP_COLS_pos [simp]: "0 < DISP_COLS" and DISP_ROWS_pos [simp]: "0 < DISP_ROWS"
  by (simp_all add: DISP_COLS_def DISP_ROWS_def)

end
