(* ===== verification/Display.thy ===== *)
theory Display
  imports Types
begin

text \<open>
  \<^verbatim>\<open>display.c\<close>: the video buffer, one bit per pixel, and the stack of pending updates.
  Drawing operations are specified by the set of pixels they turn on (\<open>draws\<close>), with
  everything else unchanged; the stack is specified by the list it holds.
\<close>

section \<open>The operations\<close>

definition upd_byte :: "u8 list list \<Rightarrow> int \<Rightarrow> int \<Rightarrow> (u8 \<Rightarrow> u8) \<Rightarrow> u8 list list result" where
  "upd_byte b i j f =
     bindE (rd b i) (\<lambda>row. bindE (rd row j) (\<lambda>x. bindE (wr row j (f x)) (\<lambda>row'. wr b i row')))"

definition vbuf_init :: "('w, 'm) thdiface_t \<Rightarrow> 'm vbuf_t \<Rightarrow> 'm vbuf_t result" where
  "vbuf_init thd v =
     bindE (thd_mtx_init thd (vb_mtx v)) (\<lambda>m.
     bindE (foldE (\<lambda>i. foldE (\<lambda>j b. upd_byte b i j (\<lambda>_. 0xFF)) [0..int DISP_ROWS - 1])
              [0..int DISP_COLS - 1] (vb_buf v)) (\<lambda>b.
     Inr (v\<lparr>vb_mtx := m, vb_buf := b\<rparr>)))"

definition vbuf_set_bit :: "'m vbuf_t \<Rightarrow> int \<Rightarrow> int \<Rightarrow> 'm vbuf_t result" where
  "vbuf_set_bit v col row =
     bindE (c_shl 1 (row smod 8)) (\<lambda>m.
     bindE (upd_byte (vb_buf v) col (row sdiv 8) (\<lambda>x. word_of_int (uint x OR m))) (\<lambda>b.
     Inr (v\<lparr>vb_buf := b\<rparr>)))"

definition vbuf_reset_bit :: "'m vbuf_t \<Rightarrow> int \<Rightarrow> int \<Rightarrow> 'm vbuf_t result" where
  "vbuf_reset_bit v col row =
     bindE (c_shl 1 (row smod 8)) (\<lambda>m.
     bindE (upd_byte (vb_buf v) col (row sdiv 8) (\<lambda>x. word_of_int (uint x AND NOT m))) (\<lambda>b.
     Inr (v\<lparr>vb_buf := b\<rparr>)))"

text \<open>The lock is taken around the body and released after it.\<close>

definition with_mtx ::
  "('w, 'm) thdiface_t \<Rightarrow> ('m vbuf_t \<Rightarrow> 'm vbuf_t result) \<Rightarrow> 'm vbuf_t \<Rightarrow> 'm vbuf_t result" where
  "with_mtx thd f v =
     bindE (thd_lock thd (vb_mtx v)) (\<lambda>m.
     bindE (f (v\<lparr>vb_mtx := m\<rparr>)) (\<lambda>v'.
     bindE (thd_unlock thd (vb_mtx v')) (\<lambda>m'. Inr (v'\<lparr>vb_mtx := m'\<rparr>))))"

definition vbuf_clear :: "('w, 'm) thdiface_t \<Rightarrow> 'm vbuf_t \<Rightarrow> 'm vbuf_t result" where
  "vbuf_clear thd =
     with_mtx thd (\<lambda>v.
       bindE (foldE (\<lambda>i b. wr b i (replicate DISP_ROWS 0)) [0..int DISP_COLS - 1] (vb_buf v))
         (\<lambda>b. Inr (v\<lparr>vb_buf := b\<rparr>)))"

text \<open>
  The two loops run while \<open>i < DISP_COLS && i < x+w\<close> and \<open>j < DISP_ROWS*8 && j < y+h\<close>.
\<close>

definition vbuf_draw_rect ::
  "('w, 'm) thdiface_t \<Rightarrow> 'm vbuf_t \<Rightarrow> int \<Rightarrow> int \<Rightarrow> int \<Rightarrow> int \<Rightarrow> 'm vbuf_t result" where
  "vbuf_draw_rect thd v x y h w =
     with_mtx thd
       (foldE (\<lambda>i. foldE (\<lambda>j v. vbuf_set_bit v i j) [y..min (int DISP_ROWS * 8) (y + h) - 1])
          [x..min (int DISP_COLS) (x + w) - 1]) v"

definition vbuf_set_flag :: "('w, 'm) thdiface_t \<Rightarrow> 'm vbuf_t \<Rightarrow> 'm vbuf_t result" where
  "vbuf_set_flag thd = with_mtx thd (\<lambda>v. Inr (v\<lparr>clear_flag := True\<rparr>))"

definition bbox_stack_push :: "bbox_stack_t \<Rightarrow> bbox_t \<Rightarrow> (bool \<times> bbox_stack_t) result" where
  "bbox_stack_push s box =
     (if stk_size s < STACKSIZE
      then bindE (wr (stk_arr s) (int (stk_size s)) box) (\<lambda>a.
             Inr (True, s\<lparr>stk_arr := a, stk_size := stk_size s + 1\<rparr>))
      else Inr (False, s))"

text \<open>\<open>pop\<close> leaves \<open>*box\<close> alone when the stack is empty, so it takes the old value.\<close>

definition bbox_stack_pop ::
  "bbox_stack_t \<Rightarrow> bbox_t \<Rightarrow> (bool \<times> bbox_t \<times> bbox_stack_t) result" where
  "bbox_stack_pop s box =
     (if stk_size s \<noteq> 0
      then bindE (rd (stk_arr s) (int (stk_size s - 1))) (\<lambda>b.
             Inr (True, b, s\<lparr>stk_size := stk_size s - 1\<rparr>))
      else Inr (False, box, s))"

section \<open>Pixels and drawing\<close>

definition pixel :: "'m vbuf_t \<Rightarrow> nat \<Rightarrow> nat \<Rightarrow> bool" where
  "pixel v c r = bit (vb_buf v ! c ! (r div 8)) (r mod 8)"

definition screen :: "(nat \<times> nat) set" where
  "screen = {0..<DISP_COLS} \<times> {0..<DISP_ROWS * 8}"

text \<open>
  \<open>draws free v v' S\<close>: from \<open>v\<close> to \<open>v'\<close> exactly the pixels of \<open>S\<close> are turned on,
  the pending updates and the flag are kept, and the mutex is free again.
\<close>

definition draws ::
  "('m \<Rightarrow> bool) \<Rightarrow> 'm vbuf_t \<Rightarrow> 'm vbuf_t \<Rightarrow> (nat \<times> nat) set \<Rightarrow> bool" where
  "draws free v v' S \<longleftrightarrow>
     vbuf_wf v' \<and> free (vb_mtx v') \<and> upd_stack v' = upd_stack v \<and> clear_flag v' = clear_flag v \<and>
     (\<forall>(c, r) \<in> screen. pixel v' c r \<longleftrightarrow> pixel v c r \<or> (c, r) \<in> S)"

definition rect_pixels :: "int \<Rightarrow> int \<Rightarrow> int \<Rightarrow> int \<Rightarrow> (nat \<times> nat) set" where
  "rect_pixels x y h w =
     {(c, r). (c, r) \<in> screen \<and> x \<le> int c \<and> int c < x + w \<and> y \<le> int r \<and> int r < y + h}"

definition stack_list :: "bbox_stack_t \<Rightarrow> bbox_t list" where
  "stack_list s = take (stk_size s) (stk_arr s)"

section \<open>Byte updates\<close>

lemma upd_byte_ok:
  assumes "buf_wf b" "c < DISP_COLS" "k < DISP_ROWS"
  shows "upd_byte b (int c) (int k) f = Inr (b[c := (b ! c)[k := f (b ! c ! k)]])"
  using assms by (simp add: upd_byte_def buf_wf_def rd_nat_ok wr_nat_ok)

lemma buf_wf_upd_byte:
  assumes "buf_wf b" "c < DISP_COLS"
  shows "buf_wf (b[c := (b ! c)[k := x]])"
  using assms by (intro buf_wf_update) (auto simp: buf_wf_def)

lemma sdiv_8_nat: "int r sdiv 8 = int (r div 8)"
  by (simp add: signed_divide_int_def sgn_if of_nat_div)

lemma smod_8_nat: "int r smod 8 = int (r mod 8)"
  by (cases "r = 0") (simp_all add: signed_modulo_int_def sgn_if of_nat_mod)

lemma c_shl_1_mod8: "c_shl 1 (int (r mod 8)) = Inr (2 ^ (r mod 8))"
proof -
  have "(2::int) ^ (r mod 8) \<le> 2 ^ 8"
    by (rule power_increasing) (simp_all add: less_imp_le)
  then show ?thesis
    using c_shl_ok[of "int (r mod 8)" 1] by (simp add: INT_MAX_def)
qed

lemma bit_or_pow: "bit (word_of_int (uint (x :: u8) OR 2 ^ k) :: u8) n \<longleftrightarrow> bit x n \<or> (n = k \<and> n < 8)"
  using bit_imp_le_length[of x n] by (auto simp: bit_simps)

lemma bit_and_not_pow: "bit (word_of_int (uint (x :: u8) AND NOT (2 ^ k)) :: u8) n \<longleftrightarrow> bit x n \<and> n \<noteq> k"
  using bit_imp_le_length[of x n] by (auto simp: bit_simps)

lemma pixel_upd:
  assumes "buf_wf b" "c0 < DISP_COLS" "r0 < DISP_ROWS * 8" "c < DISP_COLS"
  shows "pixel (v\<lparr>vb_buf := b[c0 := (b ! c0)[r0 div 8 := x]]\<rparr>) c r =
    (if c = c0 \<and> r div 8 = r0 div 8 then bit x (r mod 8) else bit (b ! c ! (r div 8)) (r mod 8))"
  using assms by (auto simp: pixel_def buf_wf_def nth_list_update less_mult_imp_div_less)

lemma div8_mod8_eq: "(r::nat) div 8 = r0 div 8 \<and> r mod 8 = r0 mod 8 \<longleftrightarrow> r = r0"
  by (metis div_mult_mod_eq)

lemma vbuf_set_bit_draws:
  assumes "vbuf_wf v" "free (vb_mtx v)" "c0 < DISP_COLS" "r0 < DISP_ROWS * 8"
  shows "\<exists>v'. vbuf_set_bit v (int c0) (int r0) = Inr v' \<and> draws free v v' {(c0, r0)}"
proof -
  let ?b = "vb_buf v"
  let ?x = "word_of_int (uint (?b ! c0 ! (r0 div 8)) OR 2 ^ (r0 mod 8)) :: u8"
  let ?v = "v\<lparr>vb_buf := ?b[c0 := (?b ! c0)[r0 div 8 := ?x]]\<rparr>"
  have wf: "buf_wf ?b" and r: "r0 div 8 < DISP_ROWS"
    using assms by (auto simp: vbuf_wf_def less_mult_imp_div_less)
  have "vbuf_set_bit v (int c0) (int r0) = Inr ?v"
    using upd_byte_ok[OF wf assms(3) r]
    by (simp add: vbuf_set_bit_def smod_8_nat sdiv_8_nat c_shl_1_mod8)
  moreover have "pixel ?v c r = (pixel v c r \<or> c = c0 \<and> r = r0)" if "c < DISP_COLS" for c r
    using pixel_upd[OF wf assms(3,4) that, where v = v and x = ?x and r = r] div8_mod8_eq[of r r0]
    by (auto simp: bit_or_pow) (auto simp: pixel_def)
  ultimately show ?thesis
    using assms buf_wf_upd_byte[OF wf assms(3)]
    by (auto simp: draws_def screen_def vbuf_wf_def)
qed

lemma vbuf_reset_bit_pixel:
  assumes "vbuf_wf v" "c0 < DISP_COLS" "r0 < DISP_ROWS * 8"
  shows "\<exists>v'. vbuf_reset_bit v (int c0) (int r0) = Inr v' \<and> vbuf_wf v' \<and>
    upd_stack v' = upd_stack v \<and> clear_flag v' = clear_flag v \<and> vb_mtx v' = vb_mtx v \<and>
    (\<forall>(c, r) \<in> screen. pixel v' c r \<longleftrightarrow> pixel v c r \<and> (c, r) \<noteq> (c0, r0))"
proof -
  let ?b = "vb_buf v"
  let ?x = "word_of_int (uint (?b ! c0 ! (r0 div 8)) AND NOT (2 ^ (r0 mod 8))) :: u8"
  let ?v = "v\<lparr>vb_buf := ?b[c0 := (?b ! c0)[r0 div 8 := ?x]]\<rparr>"
  have wf: "buf_wf ?b" and r: "r0 div 8 < DISP_ROWS"
    using assms by (auto simp: vbuf_wf_def less_mult_imp_div_less)
  have "vbuf_reset_bit v (int c0) (int r0) = Inr ?v"
    using upd_byte_ok[OF wf assms(2) r]
    by (simp add: vbuf_reset_bit_def smod_8_nat sdiv_8_nat c_shl_1_mod8)
  moreover have "pixel ?v c r = (pixel v c r \<and> (c, r) \<noteq> (c0, r0))" if "c < DISP_COLS" for c r
    using pixel_upd[OF wf assms(2,3) that, where v = v and x = ?x and r = r] div8_mod8_eq[of r r0]
    by (auto simp: bit_and_not_pow) (auto simp: pixel_def)
  ultimately show ?thesis
    using assms buf_wf_upd_byte[OF wf assms(2)]
    by (auto simp: screen_def vbuf_wf_def)
qed

section \<open>Composing drawing operations\<close>

lemma draws_refl: "vbuf_wf v \<Longrightarrow> free (vb_mtx v) \<Longrightarrow> draws free v v {}"
  by (auto simp: draws_def)

lemma draws_trans: "draws free v v' S \<Longrightarrow> draws free v' v'' T \<Longrightarrow> draws free v v'' (S \<union> T)"
  by (auto simp: draws_def)

lemma draws_wf: "draws free v v' S \<Longrightarrow> vbuf_wf v' \<and> free (vb_mtx v')"
  by (simp add: draws_def)

text \<open>A loop of drawing operations draws the union of what its rounds draw.\<close>

lemma foldE_draws:
  assumes "\<And>x v. x \<in> set xs \<Longrightarrow> vbuf_wf v \<Longrightarrow> free (vb_mtx v) \<Longrightarrow>
      \<exists>v'. f x v = Inr v' \<and> draws free v v' (S x)"
    and "vbuf_wf v" "free (vb_mtx v)"
  shows "\<exists>v'. foldE f xs v = Inr v' \<and> draws free v v' (\<Union>x \<in> set xs. S x)"
  using assms
proof (induction xs arbitrary: v)
  case Nil
  then show ?case by (simp add: draws_refl)
next
  case (Cons x xs)
  obtain v1 where v1: "f x v = Inr v1" "draws free v v1 (S x)"
    using Cons.prems(1)[of x v] Cons.prems(2,3) by auto
  obtain v2 where "foldE f xs v1 = Inr v2" "draws free v1 v2 (\<Union>x \<in> set xs. S x)"
    using Cons.IH[of v1] Cons.prems(1) draws_wf[OF v1(2)] by auto
  with v1 draws_trans[OF v1(2)] show ?case by auto
qed

text \<open>A conditional drawing operation.\<close>

lemma draws_if:
  assumes "b \<Longrightarrow> \<exists>v'. m = Inr v' \<and> draws free v v' S" "vbuf_wf v" "free (vb_mtx v)"
  shows "\<exists>v'. (if b then m else Inr v) = Inr v' \<and> draws free v v' (if b then S else {})"
  using assms by (auto simp: draws_refl)

lemma pixel_mtx [simp]: "pixel (v\<lparr>vb_mtx := m\<rparr>) = pixel v"
  and pixel_stack [simp]: "pixel (v\<lparr>upd_stack := st\<rparr>) = pixel v"
  and pixel_flag [simp]: "pixel (v\<lparr>clear_flag := b\<rparr>) = pixel v"
  by (simp_all add: pixel_def fun_eq_iff)

lemma vbuf_wf_mtx [simp]: "vbuf_wf (v\<lparr>vb_mtx := m\<rparr>) = vbuf_wf v"
  and vbuf_wf_flag [simp]: "vbuf_wf (v\<lparr>clear_flag := b\<rparr>) = vbuf_wf v"
  by (simp_all add: vbuf_wf_def)

lemma draw_rect_body:
  assumes "0 \<le> x" "0 \<le> y" "vbuf_wf v" "free (vb_mtx v)"
  shows "\<exists>v'. foldE (\<lambda>i. foldE (\<lambda>j v. vbuf_set_bit v i j) [y..min (int DISP_ROWS * 8) (y + h) - 1])
          [x..min (int DISP_COLS) (x + w) - 1] v = Inr v' \<and> draws free v v' (rect_pixels x y h w)"
proof -
  let ?is = "[x..min (int DISP_COLS) (x + w) - 1]"
  let ?js = "[y..min (int DISP_ROWS * 8) (y + h) - 1]"
  have bit: "\<exists>v'. vbuf_set_bit v i j = Inr v' \<and> draws free v v' {(nat i, nat j)}"
    if "i \<in> set ?is" "j \<in> set ?js" "vbuf_wf v" "free (vb_mtx v)" for i j and v :: "'a vbuf_t"
    using vbuf_set_bit_draws[of v free "nat i" "nat j"] that assms(1,2)
    by (simp add: nat_less_iff)
  have row: "\<exists>v'. foldE (\<lambda>j v. vbuf_set_bit v i j) ?js v = Inr v' \<and>
      draws free v v' (\<Union>j \<in> set ?js. {(nat i, nat j)})"
    if "i \<in> set ?is" "vbuf_wf v" "free (vb_mtx v)" for i and v :: "'a vbuf_t"
    using bit[OF that(1)] that(2,3) by (rule foldE_draws)
  have "(\<Union>i \<in> set ?is. \<Union>j \<in> set ?js. {(nat i, nat j)}) = nat ` set ?is \<times> nat ` set ?js"
    by auto
  also have "\<dots> = rect_pixels x y h w"
    using assms(1,2) by (auto simp: nat_image_Icc rect_pixels_def screen_def)
  finally have "(\<Union>i \<in> set ?is. \<Union>j \<in> set ?js. {(nat i, nat j)}) = rect_pixels x y h w" .
  moreover have "\<exists>v'. foldE (\<lambda>i. foldE (\<lambda>j v. vbuf_set_bit v i j) ?js) ?is v = Inr v' \<and>
      draws free v v' (\<Union>i \<in> set ?is. \<Union>j \<in> set ?js. {(nat i, nat j)})"
    using row assms(3,4) by (rule foldE_draws)
  ultimately show ?thesis by simp
qed

text \<open>The double loop of \<open>vbuf_init\<close> assigns every byte.\<close>

lemma fill_row:
  assumes "buf_wf b" "c < DISP_COLS"
  shows "foldE (\<lambda>j b. upd_byte b (int c) j (\<lambda>_. x)) [0..int DISP_ROWS - 1] b =
    Inr (b[c := replicate DISP_ROWS x])"
proof -
  have "foldE (\<lambda>j b. upd_byte b (int c) (int j) (\<lambda>_. x)) [0..<k] b =
      Inr (b[c := replicate k x @ drop k (b ! c)])" if "k \<le> DISP_ROWS" for k
    using that
  proof (induction k)
    case 0
    then show ?case by simp
  next
    case (Suc k)
    let ?b = "b[c := replicate k x @ drop k (b ! c)]"
    have len: "length (b ! c) = DISP_ROWS" "c < length b"
      using assms by (auto simp: buf_wf_def)
    have wf: "buf_wf ?b"
      using assms Suc.prems len by (intro buf_wf_update) auto
    have "(replicate k x @ drop k (b ! c))[k := x] = replicate (Suc k) x @ drop (Suc k) (b ! c)"
      using Suc.prems len
      by (simp add: list_update_append Cons_nth_drop_Suc[symmetric] replicate_append_same)
    then show ?case
      using Suc len upd_byte_ok[OF wf assms(2), of k "\<lambda>_. x"] by (simp add: foldE_append)
  qed
  from this[of DISP_ROWS] show ?thesis
    using assms by (simp add: upto_nat foldE_map comp_def buf_wf_def)
qed

lemma fill_ok:
  assumes "buf_wf b"
  shows "foldE (\<lambda>i. foldE (\<lambda>j b. upd_byte b i j (\<lambda>_. x)) [0..int DISP_ROWS - 1])
    [0..int DISP_COLS - 1] b = Inr (replicate DISP_COLS (replicate DISP_ROWS x))"
proof -
  let ?r = "replicate DISP_ROWS x"
  have "foldE (\<lambda>i. foldE (\<lambda>j b. upd_byte b (int i) j (\<lambda>_. x)) [0..int DISP_ROWS - 1]) [0..<k] b =
      Inr (replicate k ?r @ drop k b)" if "k \<le> DISP_COLS" for k
    using that
  proof (induction k)
    case 0
    then show ?case by simp
  next
    case (Suc k)
    have len: "length b = DISP_COLS"
      using assms by (simp add: buf_wf_def)
    have wf: "buf_wf (replicate k ?r @ drop k b)"
      using assms Suc.prems by (auto simp: buf_wf_def nth_append)
    have "(replicate k ?r @ drop k b)[k := ?r] = replicate (Suc k) ?r @ drop (Suc k) b"
      using Suc.prems len
      by (simp add: list_update_append Cons_nth_drop_Suc[symmetric] replicate_append_same)
    then show ?case
      using Suc fill_row[OF wf, of k x] by (simp add: foldE_append)
  qed
  from this[of DISP_COLS] show ?thesis
    using assms by (simp add: upto_nat foldE_map comp_def buf_wf_def)
qed

section \<open>The mutex interface\<close>

text \<open>
  What the video buffer relies on of a platform's mutex: in a state where the calling
  thread may take it (\<open>free\<close>) the lock returns with the mutex held, and unlocking a held
  mutex makes it free again; initialisation of a state in \<open>raw\<close> makes it free.
\<close>

locale thd_mutex =
  fixes thd :: "('w, 'm) thdiface_t"
    and raw :: "'m \<Rightarrow> bool"
    and free :: "'m \<Rightarrow> bool"
    and held :: "'m \<Rightarrow> bool"
  assumes mtx_init: "raw m \<Longrightarrow> \<exists>m'. thd_mtx_init thd m = Inr m' \<and> free m'"
    and lock: "free m \<Longrightarrow> \<exists>m'. thd_lock thd m = Inr m' \<and> held m'"
    and unlock: "held m \<Longrightarrow> \<exists>m'. thd_unlock thd m = Inr m' \<and> free m'"
begin

lemma with_mtx_draws:
  assumes body: "\<And>v. vbuf_wf v \<Longrightarrow> held (vb_mtx v) \<Longrightarrow> \<exists>v'. f v = Inr v' \<and> draws held v v' S"
    and "vbuf_wf v" "free (vb_mtx v)"
  shows "\<exists>v'. with_mtx thd f v = Inr v' \<and> draws free v v' S"
proof -
  obtain m where m: "thd_lock thd (vb_mtx v) = Inr m" "held m"
    using lock[OF assms(3)] by auto
  obtain v1 where v1: "f (v\<lparr>vb_mtx := m\<rparr>) = Inr v1" "draws held (v\<lparr>vb_mtx := m\<rparr>) v1 S"
    using body[of "v\<lparr>vb_mtx := m\<rparr>"] assms(2) m(2) by auto
  obtain m' where "thd_unlock thd (vb_mtx v1) = Inr m'" "free m'"
    using unlock v1(2) by (auto simp: draws_def)
  with m v1 show ?thesis by (simp add: with_mtx_def draws_def)
qed

lemma vbuf_draw_rect_draws:
  assumes "vbuf_wf v" "free (vb_mtx v)" "0 \<le> x" "0 \<le> y"
  shows "\<exists>v'. vbuf_draw_rect thd v x y h w = Inr v' \<and> draws free v v' (rect_pixels x y h w)"
  unfolding vbuf_draw_rect_def
  using draw_rect_body[OF assms(3,4), where free = held] assms(1,2) by (rule with_mtx_draws)

lemma vbuf_set_flag_ok:
  assumes "vbuf_wf v" "free (vb_mtx v)"
  shows "\<exists>v'. vbuf_set_flag thd v = Inr v' \<and> vbuf_wf v' \<and> free (vb_mtx v') \<and>
    clear_flag v' \<and> vb_buf v' = vb_buf v \<and> upd_stack v' = upd_stack v"
proof -
  obtain m where m: "thd_lock thd (vb_mtx v) = Inr m" "held m"
    using lock[OF assms(2)] by auto
  obtain m' where "thd_unlock thd m = Inr m'" "free m'"
    using unlock[OF m(2)] by auto
  with m assms(1) show ?thesis by (simp add: vbuf_set_flag_def with_mtx_def)
qed

lemma vbuf_clear_ok:
  assumes "vbuf_wf v" "free (vb_mtx v)"
  shows "\<exists>v'. vbuf_clear thd v = Inr v' \<and> vbuf_wf v' \<and> free (vb_mtx v') \<and>
    vb_buf v' = replicate DISP_COLS (replicate DISP_ROWS 0) \<and>
    upd_stack v' = upd_stack v \<and> clear_flag v' = clear_flag v"
proof -
  obtain m where m: "thd_lock thd (vb_mtx v) = Inr m" "held m"
    using lock[OF assms(2)] by auto
  obtain m' where "thd_unlock thd m = Inr m'" "free m'"
    using unlock[OF m(2)] by auto
  moreover have "foldE (\<lambda>i b. wr b i (replicate DISP_ROWS 0)) [0..int DISP_COLS - 1] (vb_buf v) =
      Inr (replicate DISP_COLS (replicate DISP_ROWS 0))"
    using assms(1) foldE_wr_all[of "vb_buf v" DISP_COLS "\<lambda>_. replicate DISP_ROWS 0"]
    by (simp add: vbuf_wf_def buf_wf_def map_replicate_const)
  moreover have "buf_wf (replicate DISP_COLS (replicate DISP_ROWS 0))"
    by (simp add: buf_wf_def)
  ultimately show ?thesis
    using m(1) assms(1) by (simp add: vbuf_clear_def with_mtx_def vbuf_wf_def)
qed

lemma vbuf_init_ok:
  assumes "vbuf_wf v" "raw (vb_mtx v)"
  shows "\<exists>v'. vbuf_init thd v = Inr v' \<and> vbuf_wf v' \<and> free (vb_mtx v') \<and>
    vb_buf v' = replicate DISP_COLS (replicate DISP_ROWS 0xFF) \<and>
    upd_stack v' = upd_stack v \<and> clear_flag v' = clear_flag v"
proof -
  obtain m where m: "thd_mtx_init thd (vb_mtx v) = Inr m" "free m"
    using mtx_init[OF assms(2)] by auto
  moreover have "buf_wf (replicate DISP_COLS (replicate DISP_ROWS 0xFF))"
    by (simp add: buf_wf_def)
  ultimately show ?thesis
    using fill_ok[of "vb_buf v"] assms(1) by (simp add: vbuf_init_def vbuf_wf_def)
qed

end

section \<open>The stack of pending updates\<close>

text \<open>
  A container of bounded capacity whose \<open>push\<close> appends, and reports and drops what does
  not fit; a bounded stack also pops what was pushed last.
\<close>

locale bounded_push =
  fixes push :: "'s \<Rightarrow> 'a \<Rightarrow> (bool \<times> 's) result"
    and elems :: "'s \<Rightarrow> 'a list"
    and wf :: "'s \<Rightarrow> bool"
    and cap :: nat
  assumes push_room: "wf s \<Longrightarrow> length (elems s) < cap \<Longrightarrow>
      \<exists>s'. push s a = Inr (True, s') \<and> wf s' \<and> elems s' = elems s @ [a]"
    and push_full: "wf s \<Longrightarrow> \<not> length (elems s) < cap \<Longrightarrow> push s a = Inr (False, s)"
    and bounded: "wf s \<Longrightarrow> length (elems s) \<le> cap"
begin

lemma push_returns:
  assumes "wf s"
  shows "\<exists>s'. push s a = Inr (length (elems s) < cap, s') \<and> wf s' \<and> elems s' = take cap (elems s @ [a])"
  using assms push_room[OF assms, of a] push_full[OF assms, of a] bounded[OF assms]
  by (cases "length (elems s) < cap") auto

text \<open>Pushing a sequence keeps the longest prefix that fits.\<close>

lemma push_many:
  assumes "wf s"
  shows "\<exists>s'. foldE (\<lambda>a s. bindE (push s a) (\<lambda>(_, s'). Inr s')) xs s = Inr s' \<and> wf s' \<and>
    elems s' = take cap (elems s @ xs)"
  using assms
proof (induction xs arbitrary: s)
  case Nil
  then show ?case using bounded by simp
next
  case (Cons x xs)
  obtain s1 where s1: "push s x = Inr (length (elems s) < cap, s1)" "wf s1"
      "elems s1 = take cap (elems s @ [x])"
    using push_returns[OF Cons.prems] by blast
  then show ?case
    using Cons.IH[OF s1(2)] by (auto simp: take_Cons' min_def)
qed

end

locale bounded_stack = bounded_push push elems wf cap
  for push :: "'s \<Rightarrow> 'a \<Rightarrow> (bool \<times> 's) result" and elems wf cap +
  fixes pop :: "'s \<Rightarrow> 'a \<Rightarrow> (bool \<times> 'a \<times> 's) result"
  assumes pop_some: "wf s \<Longrightarrow> elems s \<noteq> [] \<Longrightarrow>
      \<exists>s'. pop s b = Inr (True, last (elems s), s') \<and> wf s' \<and> elems s' = butlast (elems s)"
    and pop_none: "wf s \<Longrightarrow> elems s = [] \<Longrightarrow> pop s b = Inr (False, b, s)"
begin

lemma push_pop:
  assumes "wf s" "length (elems s) < cap"
  shows "\<exists>s1 s2. push s a = Inr (True, s1) \<and> pop s1 b = Inr (True, a, s2) \<and> wf s2 \<and> elems s2 = elems s"
proof -
  obtain s1 where "push s a = Inr (True, s1)" "wf s1" "elems s1 = elems s @ [a]"
    using push_room[OF assms, of a] by auto
  with pop_some[of s1] show ?thesis by auto
qed

end

interpretation bs: bounded_stack bbox_stack_push stack_list stack_wf STACKSIZE bbox_stack_pop
proof
  fix s :: bbox_stack_t and a b :: bbox_t
  assume wf: "stack_wf s"
  show "length (stack_list s) \<le> STACKSIZE"
    using wf by (simp add: stack_list_def stack_wf_def)
  show "bbox_stack_push s a = Inr (False, s)" if "\<not> length (stack_list s) < STACKSIZE"
    using wf that by (simp add: stack_list_def stack_wf_def bbox_stack_push_def)
  show "\<exists>s'. bbox_stack_push s a = Inr (True, s') \<and> stack_wf s' \<and> stack_list s' = stack_list s @ [a]"
    if "length (stack_list s) < STACKSIZE"
    using wf that
    by (auto simp: stack_list_def stack_wf_def bbox_stack_push_def wr_nat_ok take_Suc_conv_app_nth)
  show "\<exists>s'. bbox_stack_pop s b = Inr (True, last (stack_list s), s') \<and> stack_wf s' \<and>
      stack_list s' = butlast (stack_list s)"
    if "stack_list s \<noteq> []"
    using wf that
    by (auto simp: stack_list_def stack_wf_def bbox_stack_pop_def rd_def butlast_take
        last_conv_nth nat_diff_distrib)
  show "bbox_stack_pop s b = Inr (False, b, s)" if "stack_list s = []"
    using wf that by (auto simp: stack_list_def stack_wf_def bbox_stack_pop_def STACKSIZE_def)
qed

end
