(* ===== verification/Common.thy ===== *)
theory Common
  imports Prelude
begin

text \<open>\<^verbatim>\<open>common.c\<close> and the two macros of \<^verbatim>\<open>common.h\<close>.\<close>

definition c_MIN :: "int \<Rightarrow> int \<Rightarrow> int" where
  "c_MIN a b = (if a < b then a else b)"

definition c_MAX :: "int \<Rightarrow> int \<Rightarrow> int" where
  "c_MAX a b = (if a > b then a else b)"

definition c_abs :: "int \<Rightarrow> int result" where
  "c_abs x = (if x \<ge> 0 then Inr x else c_int (- x))"

definition bound :: "int \<Rightarrow> int \<Rightarrow> int \<Rightarrow> int" where
  "bound x left right =
     (let x = (if x < left then left else x) in if x > right then right else x)"

lemma c_MIN_min [simp]: "c_MIN a b = min a b"
  by (simp add: c_MIN_def)

lemma c_MAX_max [simp]: "c_MAX a b = max a b"
  by (simp add: c_MAX_def)

lemma c_abs_eq: "INT_MIN < x \<Longrightarrow> x \<le> INT_MAX \<Longrightarrow> c_abs x = Inr \<bar>x\<bar>"
  by (auto simp: c_abs_def c_int_def INT_MIN_def INT_MAX_def)

lemma bound_clamp: "left \<le> right \<Longrightarrow> bound x left right = max left (min right x)"
  by (auto simp: bound_def Let_def)

end
