(* ===== verification/Tetris.thy ===== *)
theory Tetris
  imports Display Common
begin

text \<open>
  \<^verbatim>\<open>tetris.c\<close> and \<^verbatim>\<open>tetris.h\<close>: the piece and its four patterns, the playing field as
  an array of row words, collision, locking, line detection and removal, the bounding box
  of a pattern, and drawing. The field has \<open>GRID_ROWS\<close> rows (index \<open>x\<close>, downwards) and
  \<open>GRID_COLS\<close> bits per row (index \<open>y\<close>).
\<close>

section \<open>Data\<close>

definition patterns_gamma :: "pattern_t list" where
  "patterns_gamma = [[0b011, 0b001, 0b001], [0b000, 0b111, 0b001],
                     [0b001, 0b001, 0b011], [0b100, 0b111, 0b000]]"

definition block_gamma :: block_t where
  "block_gamma = \<lparr>blk_ptrs = patterns_gamma, blk_ori = ORI_NORTH, blk_x = 0, blk_y = 0\<rparr>"

definition GRID_ROWS :: int where
  "GRID_ROWS = (if int DISP_COLS mod GRID_STEP > 0 then int DISP_COLS div GRID_STEP + 1
                else int DISP_COLS div GRID_STEP)"

definition GRID_COLS :: int where
  "GRID_COLS = (if int DISP_ROWS mod GRID_STEP > 0 then int DISP_ROWS * 8 div GRID_STEP + 1
                else int DISP_ROWS * 8 div GRID_STEP)"

text \<open>\<open>GRID_COLS\<close> is 31, so \<open>grid_row_t\<close> is \<open>uint32_t\<close>.\<close>

type_synonym grid_row_t = u32
type_synonym grid_t = "grid_row_t list"

section \<open>Operations\<close>

definition block_rotr :: "block_t \<Rightarrow> block_t" where
  "block_rotr blk = blk\<lparr>blk_ori := (blk_ori blk + 1) smod 4\<rparr>"

text \<open>
  \<open>(blk->ori - 1) % 4\<close> depends on how the compiler represents \<open>enum ori_e\<close>. As
  \<open>unsigned int\<close> the subtraction wraps; as an 8-bit type (\<open>-fshort-enums\<close>, the default
  of the bare-metal ARM ABI) the operand is promoted to \<open>int\<close>, the remainder can be
  negative, and the store truncates it.
\<close>

definition block_rotl :: "bool \<Rightarrow> block_t \<Rightarrow> block_t" where
  "block_rotl short_enums blk =
     blk\<lparr>blk_ori := (if short_enums then ((blk_ori blk - 1) smod 4) mod 2 ^ 8
                     else ((blk_ori blk - 1) mod 2 ^ 32) mod 4)\<rparr>"

definition suppx_draw :: "('w, 'm) thdiface_t \<Rightarrow> 'm vbuf_t \<Rightarrow> int \<Rightarrow> int \<Rightarrow> 'm vbuf_t result" where
  "suppx_draw thd v x y = vbuf_draw_rect thd v (x * GRID_STEP) (y * GRID_STEP) GRID_STEP GRID_STEP"

text \<open>\<open>blk->ptrs[blk->ori][i]\<close>\<close>

definition pattern_row :: "block_t \<Rightarrow> int \<Rightarrow> u8 result" where
  "pattern_row blk i = bindE (rd (blk_ptrs blk) (blk_ori blk)) (\<lambda>p. rd p i)"

definition block_draw :: "('w, 'm) thdiface_t \<Rightarrow> 'm vbuf_t \<Rightarrow> block_t \<Rightarrow> 'm vbuf_t result" where
  "block_draw thd v blk =
     foldE (\<lambda>i. foldE (\<lambda>j v.
         bindE (pattern_row blk i) (\<lambda>p.
         bindE (c_shl 1 j) (\<lambda>m.
         if uint p AND m \<noteq> 0 then suppx_draw thd v (blk_x blk + i) (blk_y blk + j) else Inr v)))
       [2, 1, 0]) [0, 1, 2] v"

definition grid_clear :: "grid_t \<Rightarrow> grid_t result" where
  "grid_clear grid = foldE (\<lambda>i g. wr g i 0) [0..GRID_ROWS - 1] grid"

text \<open>The loop over \<open>i\<close> with its early return.\<close>

primrec block_collides_loop :: "block_t \<Rightarrow> grid_t \<Rightarrow> int list \<Rightarrow> bool result" where
  "block_collides_loop blk grid [] = Inr False"
| "block_collides_loop blk grid (i # is) =
     bindE (pattern_row blk i) (\<lambda>block_cur.
     bindE (rd grid (blk_x blk + i + 1)) (\<lambda>grid_cur.
     bindE (c_shl (uint block_cur) (blk_y blk)) (\<lambda>s.
     if (word_of_int s :: u32) AND grid_cur \<noteq> 0 then Inr True
     else block_collides_loop blk grid is)))"

definition block_collides :: "block_t \<Rightarrow> grid_t \<Rightarrow> bool result" where
  "block_collides blk grid = block_collides_loop blk grid [0..BLOCK_HEIGHT - 1]"

definition block_add :: "block_t \<Rightarrow> grid_t \<Rightarrow> grid_t result" where
  "block_add blk grid =
     foldE (\<lambda>i g.
       bindE (pattern_row blk (i - blk_x blk)) (\<lambda>p.
       bindE (c_shl (uint p) (blk_y blk)) (\<lambda>s.
       bindE (rd g i) (\<lambda>old. wr g i (old OR word_of_int s)))))
     [blk_x blk..blk_x blk + BLOCK_HEIGHT - 1] grid"

definition grid_draw :: "('w, 'm) thdiface_t \<Rightarrow> 'm vbuf_t \<Rightarrow> grid_t \<Rightarrow> 'm vbuf_t result" where
  "grid_draw thd v grid =
     foldE (\<lambda>i. foldE (\<lambda>j v.
         bindE (rd grid i) (\<lambda>g.
         bindE (c_shl 1 j) (\<lambda>m.
         if g AND word_of_int m \<noteq> 0 then suppx_draw thd v i j else Inr v)))
       [0..GRID_COLS - 1]) [0..GRID_ROWS - 1] v"

text \<open>The counter \<open>i\<close> runs from \<open>start_idx\<close> down while it is positive and row \<open>i\<close> is not empty.\<close>

fun grid_shift_loop :: "nat \<Rightarrow> grid_t \<Rightarrow> grid_t result" where
  "grid_shift_loop 0 grid = Inr grid"
| "grid_shift_loop (Suc i) grid =
     bindE (rd grid (int (Suc i))) (\<lambda>cur.
     if cur \<noteq> 0
     then bindE (rd grid (int i)) (\<lambda>above.
          bindE (wr grid (int (Suc i)) above) (\<lambda>g. grid_shift_loop i g))
     else Inr grid)"

definition grid_shift :: "grid_t \<Rightarrow> nat \<Rightarrow> grid_t result" where
  "grid_shift grid start_idx = grid_shift_loop start_idx grid"

definition grid_check :: "grid_t \<Rightarrow> nat \<Rightarrow> bool result" where
  "grid_check grid idx =
     bindE (rd grid (int idx)) (\<lambda>g.
     Inr (fold (\<lambda>i res. res AND uint (drop_bit i g AND 1)) [0..<nat (GRID_COLS - 1)]
            (uint (g AND 1)) \<noteq> 0))"

definition get_bbox :: "pattern_t \<Rightarrow> bbox_t result" where
  "get_bbox ptr =
     bindE (foldE (\<lambda>i. foldE (\<lambda>j res.
         bindE (rd ptr i) (\<lambda>p.
         Inr (if drop_bit (nat j) p AND 1 \<noteq> 0
              then res\<lparr>bbox_x := c_MIN (bbox_x res) i, bbox_y := c_MIN (bbox_y res) j,
                       bbox_sizex := c_MAX (bbox_sizex res) i,
                       bbox_sizey := c_MAX (bbox_sizey res) j\<rparr>
              else res)))
       [0..BLOCK_HEIGHT - 1]) [0..BLOCK_HEIGHT - 1]
       \<lparr>bbox_x = INT_MAX, bbox_y = INT_MAX, bbox_sizex = INT_MIN, bbox_sizey = INT_MIN\<rparr>) (\<lambda>res.
     bindE (c_int (bbox_x res - 1)) (\<lambda>dx.
     bindE (c_int (bbox_sizex res - dx)) (\<lambda>sx.
     bindE (c_int (bbox_y res - 1)) (\<lambda>dy.
     bindE (c_int (bbox_sizey res - dy)) (\<lambda>sy.
     Inr (res\<lparr>bbox_sizex := sx, bbox_sizey := sy\<rparr>))))))"

definition update_mask :: "block_t \<Rightarrow> bbox_t" where
  "update_mask blk =
     (let mask = \<lparr>bbox_x = 0, bbox_y = (blk_y blk - 2) * GRID_STEP,
                  bbox_sizex = int DISP_COLS * GRID_STEP,
                  bbox_sizey = (BLOCK_HEIGHT + 4) * GRID_STEP\<rparr>
      in mask\<lparr>bbox_y := c_MAX (bbox_y mask) 0, bbox_x := c_MAX (bbox_x mask) 0\<rparr>)"

definition update_block :: "'m vbuf_t \<Rightarrow> block_t \<Rightarrow> 'm vbuf_t result" where
  "update_block v blk =
     bindE (bbox_stack_push (upd_stack v) (update_mask blk)) (\<lambda>(_, st).
     Inr (v\<lparr>upd_stack := st\<rparr>))"

section \<open>Cells\<close>

definition block_wf :: "block_t \<Rightarrow> bool" where
  "block_wf blk \<longleftrightarrow> length (blk_ptrs blk) = 4 \<and> (\<forall>p \<in> set (blk_ptrs blk). pattern_wf p) \<and>
     0 \<le> blk_ori blk \<and> blk_ori blk < 4"

definition cur_pattern :: "block_t \<Rightarrow> pattern_t" where
  "cur_pattern blk = blk_ptrs blk ! nat (blk_ori blk)"

definition grid_wf :: "grid_t \<Rightarrow> bool" where
  "grid_wf grid \<longleftrightarrow> int (length grid) = GRID_ROWS"

definition cell :: "grid_t \<Rightarrow> nat \<Rightarrow> nat \<Rightarrow> bool" where
  "cell grid r c = bit (grid ! r) c"

text \<open>The cells (row, column) a block covers, and the cells a pattern sets.\<close>

definition pattern_cells :: "pattern_t \<Rightarrow> (nat \<times> nat) set" where
  "pattern_cells p = {(i, j). i < 3 \<and> bit (p ! i) j}"

definition block_cells :: "block_t \<Rightarrow> (nat \<times> nat) set" where
  "block_cells blk =
     (\<lambda>(i, j). (nat (blk_x blk) + i, nat (blk_y blk) + j)) ` pattern_cells (cur_pattern blk)"

text \<open>Screen pixels of the cell in row \<open>r\<close> and column \<open>c\<close> of the field.\<close>

definition cell_pixels :: "nat \<times> nat \<Rightarrow> (nat \<times> nat) set" where
  "cell_pixels = (\<lambda>(r, c). rect_pixels (int r * 8) (int c * 8) 8 8)"

definition full_row :: "grid_row_t \<Rightarrow> bool" where
  "full_row g \<longleftrightarrow> (\<forall>c < 30. bit g c)"

lemma GRID_ROWS_eq [simp]: "GRID_ROWS = 30"
  by (simp add: GRID_ROWS_def DISP_COLS_def GRID_STEP_def)

lemma GRID_COLS_eq [simp]: "GRID_COLS = 31"
  by (simp add: GRID_COLS_def DISP_ROWS_def GRID_STEP_def)

lemma grid_wf_length: "grid_wf grid \<longleftrightarrow> length grid = 30"
  by (simp add: grid_wf_def)

lemma upto_3: "[0..BLOCK_HEIGHT - 1] = [0, 1, 2]"
  by (simp add: BLOCK_HEIGHT_def upto_rec1)

lemma block_wf_patterns: "block_wf blk \<Longrightarrow> pattern_wf (cur_pattern blk)"
  by (auto simp: block_wf_def cur_pattern_def nat_less_iff)

lemma pattern_row_ok:
  assumes "block_wf blk" "0 \<le> i" "i < 3"
  shows "pattern_row blk i = Inr (cur_pattern blk ! nat i)"
  using assms block_wf_patterns[OF assms(1)]
  by (auto simp: pattern_row_def block_wf_def cur_pattern_def pattern_wf_def rd_def)

lemma pattern_row_lt8:
  assumes "block_wf blk" "i < 3"
  shows "cur_pattern blk ! i < 8"
  using assms block_wf_patterns[OF assms(1)] by (auto simp: pattern_wf_def)

lemma u8_lt8_bit:
  assumes "(p :: u8) < 8" "bit p j"
  shows "j < 3"
proof -
  have "unat p < 2 ^ 3"
    using assms(1) by (simp add: word_less_nat_alt)
  then have "take_bit 3 (unat p) = unat p"
    by (simp add: take_bit_nat_eq_self)
  moreover have "bit (unat p) j"
    using assms(2) by (simp add: bit_unsigned_iff)
  ultimately show ?thesis
    by (metis bit_take_bit_iff)
qed

lemma word_and_nonzero: "(a :: 'a::len word) AND b \<noteq> 0 \<longleftrightarrow> (\<exists>n. bit a n \<and> bit b n)"
  by (auto simp: bit_eq_iff bit_and_iff dest: bit_imp_le_length)

lemma c_shl_pattern:
  assumes "(p :: u8) < 8" "0 \<le> y" "y \<le> 28"
  shows "c_shl (uint p) y = Inr (push_bit (nat y) (uint p))"
proof -
  have "uint p \<le> 7"
    using assms(1) by (simp add: word_less_def)
  moreover have "(2::int) ^ nat y \<le> 2 ^ 28"
    using assms by (intro power_increasing) auto
  ultimately have "uint p * 2 ^ nat y \<le> 7 * 2 ^ 28"
    by (intro mult_mono) auto
  then show ?thesis
    using assms c_shl_ok[of y "uint p"] by (simp add: INT_MAX_def push_bit_eq_mult)
qed

lemma bit_shifted_pattern:
  assumes "(p :: u8) < 8" "y \<le> 28"
  shows "bit (word_of_int (push_bit y (uint p)) :: u32) n \<longleftrightarrow> y \<le> n \<and> bit p (n - y)"
  using u8_lt8_bit[OF assms(1), of "n - y"] assms(2) by (auto simp: bit_simps)

lemma ex_bit_shifted:
  assumes "(p :: u8) < 8" "y \<le> 28"
  shows "(\<exists>n. bit (word_of_int (push_bit y (uint p)) :: u32) n \<and> bit g n) \<longleftrightarrow>
    (\<exists>j. bit p j \<and> bit g (y + j))"
proof -
  have "y \<le> n \<Longrightarrow> bit g n = bit g (y + (n - y))" for n
    by simp
  then show ?thesis
    unfolding bit_shifted_pattern[OF assms] by (metis diff_add_inverse le_add1)
qed

section \<open>Collision\<close>

text \<open>
  One round of the collision loop looks at one row of the pattern and the row of the field
  below it.
\<close>

lemma block_collides_round:
  assumes "block_wf blk" "grid_wf grid" "0 \<le> blk_x blk" "blk_x blk \<le> 26" "0 \<le> blk_y blk"
    "blk_y blk \<le> 28" "i < 3"
  shows "block_collides_loop blk grid (int i # js) =
    (if \<exists>j. bit (cur_pattern blk ! i) j \<and> cell grid (nat (blk_x blk) + i + 1) (nat (blk_y blk) + j)
     then Inr True else block_collides_loop blk grid js)"
proof -
  let ?p = "cur_pattern blk ! i" and ?g = "grid ! (nat (blk_x blk) + i + 1)"
  let ?s = "push_bit (nat (blk_y blk)) (uint ?p)"
  have p: "?p < 8"
    using pattern_row_lt8[OF assms(1,7)] .
  have "rd grid (blk_x blk + int i + 1) = Inr ?g"
    using assms by (auto simp: rd_def grid_wf_length nat_add_distrib)
  moreover have "(\<exists>n. bit (word_of_int ?s :: u32) n \<and> bit ?g n) \<longleftrightarrow>
      (\<exists>j. bit ?p j \<and> cell grid (nat (blk_x blk) + i + 1) (nat (blk_y blk) + j))"
    using ex_bit_shifted[OF p, of "nat (blk_y blk)" ?g] assms(6) by (simp add: cell_def)
  moreover have "pattern_row blk (int i) = Inr ?p"
    using pattern_row_ok[OF assms(1), of "int i"] assms(7) by simp
  ultimately show ?thesis
    by (simp add: c_shl_pattern[OF p assms(5,6)] word_and_nonzero)
qed

lemma block_cells_iff:
  "(r, c) \<in> block_cells blk \<longleftrightarrow>
    (\<exists>i < 3. \<exists>j. bit (cur_pattern blk ! i) j \<and> r = nat (blk_x blk) + i \<and> c = nat (blk_y blk) + j)"
  by (auto simp: block_cells_def pattern_cells_def)

lemma block_collides_spec:
  assumes "block_wf blk" "grid_wf grid" "0 \<le> blk_x blk" "blk_x blk \<le> 26" "0 \<le> blk_y blk"
    "blk_y blk \<le> 28"
  shows "block_collides blk grid = Inr (\<exists>(r, c) \<in> block_cells blk. cell grid (r + 1) c)"
proof -
  note round = block_collides_round[OF assms, where i = 0 and js = "[1, 2]"]
    block_collides_round[OF assms, where i = 1 and js = "[2]"]
    block_collides_round[OF assms, where i = 2 and js = "[]"]
  have "(\<exists>(r, c) \<in> block_cells blk. cell grid (r + 1) c) \<longleftrightarrow>
      (\<exists>i < 3. \<exists>j. bit (cur_pattern blk ! i) j \<and>
         cell grid (nat (blk_x blk) + i + 1) (nat (blk_y blk) + j))"
    by (auto simp: Bex_def block_cells_iff)
  then show ?thesis
    using round by (auto simp: block_collides_def upto_3 ex_less_3)
qed

text \<open>
  The loop reads row \<open>x + 3\<close> in its last round: with the block on the lowest row it fits
  (\<open>x = 27\<close>) and nothing below its first two rows, that read is outside the field.
\<close>

lemma block_collides_bottom:
  assumes "block_wf blk" "grid_wf grid" "blk_x blk = 27" "0 \<le> blk_y blk" "blk_y blk \<le> 28"
    and "\<not> (\<exists>i < 2. \<exists>j. bit (cur_pattern blk ! i) j \<and> cell grid (28 + i) (nat (blk_y blk) + j))"
  shows "block_collides blk grid = Inl OutOfBounds"
proof -
  have round: "block_collides_loop blk grid (int i # js) = block_collides_loop blk grid js"
    if "i < 2" for i js
  proof -
    let ?p = "cur_pattern blk ! i" and ?g = "grid ! (28 + i)"
    have p: "?p < 8"
      using pattern_row_lt8[OF assms(1), of i] that by simp
    have "rd grid (blk_x blk + int i + 1) = Inr ?g"
      using assms that by (auto simp: rd_def grid_wf_length nat_add_distrib)
    moreover have "(word_of_int (push_bit (nat (blk_y blk)) (uint ?p)) :: u32) AND ?g = 0"
      using ex_bit_shifted[OF p, of "nat (blk_y blk)" ?g] assms(5,6) that word_and_nonzero
      by (fastforce simp: cell_def)
    moreover have "pattern_row blk (int i) = Inr ?p"
      using pattern_row_ok[OF assms(1), of "int i"] that by simp
    ultimately show ?thesis
      by (simp add: c_shl_pattern[OF p assms(4,5)])
  qed
  show ?thesis
    using round[of 0 "[1, 2]"] round[of 1 "[2]"] pattern_row_ok[OF assms(1), of 2] assms(2,3)
    by (simp add: block_collides_def upto_3 rd_def grid_wf_length)
qed

lemma block_collides_touch:
  assumes "block_wf blk" "grid_wf grid" "blk_x blk = 27" "0 \<le> blk_y blk" "blk_y blk \<le> 28"
    and "\<exists>i < 2. \<exists>j. bit (cur_pattern blk ! i) j \<and> cell grid (28 + i) (nat (blk_y blk) + j)"
  shows "block_collides blk grid = Inr True"
proof -
  let ?hit = "\<lambda>i. \<exists>j. bit (cur_pattern blk ! i) j \<and> cell grid (28 + i) (nat (blk_y blk) + j)"
  have round: "block_collides_loop blk grid (int i # js) =
      (if ?hit i then Inr True else block_collides_loop blk grid js)"
    if "i < 2" for i js
  proof -
    let ?p = "cur_pattern blk ! i" and ?g = "grid ! (28 + i)"
    have p: "?p < 8"
      using pattern_row_lt8[OF assms(1), of i] that by simp
    have "rd grid (blk_x blk + int i + 1) = Inr ?g"
      using assms that by (auto simp: rd_def grid_wf_length nat_add_distrib)
    moreover have "(\<exists>n. bit (word_of_int (push_bit (nat (blk_y blk)) (uint ?p)) :: u32) n \<and> bit ?g n) \<longleftrightarrow> ?hit i"
      using ex_bit_shifted[OF p, of "nat (blk_y blk)" ?g] assms(5) by (simp add: cell_def)
    moreover have "pattern_row blk (int i) = Inr ?p"
      using pattern_row_ok[OF assms(1), of "int i"] that by simp
    ultimately show ?thesis
      by (simp add: c_shl_pattern[OF p assms(4,5)] word_and_nonzero)
  qed
  have "?hit 0 \<or> ?hit 1"
    using assms(6) by (auto simp: numeral_2_eq_2 less_Suc_eq)
  then show ?thesis
    using round[of 0 "[1, 2]"] round[of 1 "[2]"]
    unfolding block_collides_def upto_3 by auto
qed

section \<open>Locking a block into the field\<close>

lemma upto_block: "[x..x + BLOCK_HEIGHT - 1] = [x, x + 1, x + 2]"
  by (simp add: BLOCK_HEIGHT_def upto_rec1)

lemma cell_or_row:
  assumes "block_wf blk" "0 \<le> blk_y blk" "blk_y blk \<le> 28" "i < 3" "r < length g" "q < length g"
  shows "cell (g[q := g ! q OR word_of_int (push_bit (nat (blk_y blk)) (uint (cur_pattern blk ! i)))]) r c \<longleftrightarrow>
    cell g r c \<or> (r = q \<and> (\<exists>j. bit (cur_pattern blk ! i) j \<and> c = nat (blk_y blk) + j))"
proof -
  let ?p = "cur_pattern blk ! i" and ?y = "nat (blk_y blk)"
  have "bit (word_of_int (push_bit ?y (uint ?p)) :: u32) c \<longleftrightarrow> (\<exists>j. bit ?p j \<and> c = ?y + j)"
  proof -
    have y: "?y \<le> 28"
      using assms(3) by simp
    show ?thesis
      unfolding bit_shifted_pattern[OF pattern_row_lt8[OF assms(1,4)] y] by (auto simp: le_iff_add)
  qed
  then show ?thesis
    using assms(5,6) by (auto simp: cell_def nth_list_update bit_or_iff)
qed

lemma block_add_spec:
  assumes "block_wf blk" "grid_wf grid" "0 \<le> blk_x blk" "blk_x blk \<le> 27" "0 \<le> blk_y blk"
    "blk_y blk \<le> 28"
  shows "\<exists>g. block_add blk grid = Inr g \<and> grid_wf g \<and>
    (\<forall>r < 30. \<forall>c. cell g r c \<longleftrightarrow> cell grid r c \<or> (r, c) \<in> block_cells blk)"
proof -
  let ?x = "nat (blk_x blk)" and ?y = "nat (blk_y blk)"
  let ?w = "\<lambda>i. word_of_int (push_bit ?y (uint (cur_pattern blk ! i))) :: u32"
  let ?f = "\<lambda>i g. bindE (pattern_row blk (i - blk_x blk)) (\<lambda>p. bindE (c_shl (uint p) (blk_y blk)) (\<lambda>s.
       bindE (rd g i) (\<lambda>old. wr g i (old OR word_of_int s))))"
  let ?u = "\<lambda>i g. g[?x + i := g ! (?x + i) OR ?w i]"
  have len: "length grid = 30"
    using assms(2) by (simp add: grid_wf_length)
  have step: "?f (blk_x blk + int i) g = Inr (?u i g)" if "length g = 30" "i < 3" for i g
    using that assms pattern_row_ok[OF assms(1), of "int i"]
      c_shl_pattern[OF pattern_row_lt8[OF assms(1) that(2)] assms(5,6)]
    by (simp add: rd_def wr_def nat_add_distrib)
  have add: "block_add blk grid = Inr (?u 2 (?u 1 (?u 0 grid)))"
  proof -
    have "?f (blk_x blk) grid = Inr (?u 0 grid)" "?f (blk_x blk + 1) (?u 0 grid) = Inr (?u 1 (?u 0 grid))"
      "?f (blk_x blk + 2) (?u 1 (?u 0 grid)) = Inr (?u 2 (?u 1 (?u 0 grid)))"
      using step[of grid 0] step[of "?u 0 grid" 1] step[of "?u 1 (?u 0 grid)" 2] len by simp_all
    then show ?thesis
      unfolding block_add_def upto_block foldE.simps by (simp only: bindE_Inr)
  qed
  have "cell (?u 2 (?u 1 (?u 0 grid))) r c \<longleftrightarrow> cell grid r c \<or> (r, c) \<in> block_cells blk"
    if "r < 30" for r c
    using that assms(3,4) len
      cell_or_row[OF assms(1,5,6), where i = 2 and g = "?u 1 (?u 0 grid)" and q = "?x + 2"]
      cell_or_row[OF assms(1,5,6), where i = 1 and g = "?u 0 grid" and q = "?x + 1"]
      cell_or_row[OF assms(1,5,6), where i = 0 and g = grid and q = "?x + 0"]
    by (auto simp: block_cells_iff ex_less_3)
  with add len show ?thesis
    by (simp add: grid_wf_length)
qed

section \<open>Lines\<close>

lemma grid_check_fold:
  "fold (\<lambda>i res. res AND uint (drop_bit i g AND 1)) is (of_bool b) =
    (of_bool (b \<and> (\<forall>i \<in> set is. bit (g :: u32) i)) :: int)"
proof (induction "is" arbitrary: b)
  case Nil
  then show ?case by simp
next
  case (Cons i xs)
  have "drop_bit i g AND 1 = of_bool (bit g i)"
    by (simp add: bit_iff_odd_drop_bit and_one_eq mod_2_eq_odd)
  then have "of_bool b AND uint (drop_bit i g AND 1) = (of_bool (b \<and> bit g i) :: int)"
    by simp
  then show ?case
    using Cons.IH[of "b \<and> bit g i"] by simp
qed

lemma grid_check_spec:
  assumes "idx < length grid"
  shows "grid_check grid idx = Inr (full_row (grid ! idx))"
proof -
  have "grid ! idx AND 1 = of_bool (bit (grid ! idx) 0)"
    by (simp add: and_one_eq mod_2_eq_odd bit_0)
  then have "uint (grid ! idx AND 1) = of_bool (bit (grid ! idx) 0)"
    by simp
  then show ?thesis
    using assms grid_check_fold[of "grid ! idx" "[0..<30]" "bit (grid ! idx) 0"]
    by (simp add: grid_check_def rd_nat_ok full_row_def) (auto simp: Ball_def)
qed

text \<open>
  \<open>first_empty n grid\<close> is where the shift from row \<open>n\<close> stops: the nearest empty row at or
  above \<open>n\<close>, or row 0.
\<close>

fun first_empty :: "nat \<Rightarrow> grid_t \<Rightarrow> nat" where
  "first_empty 0 grid = 0"
| "first_empty (Suc i) grid = (if grid ! Suc i = 0 then Suc i else first_empty i grid)"

lemma first_empty_le: "first_empty n grid \<le> n"
  by (induction n) auto

lemma first_empty_update: "n < k \<Longrightarrow> first_empty n (grid[k := v]) = first_empty n grid"
  by (induction n) auto

lemma first_empty_zero: "first_empty n grid \<noteq> 0 \<Longrightarrow> grid ! first_empty n grid = 0"
  by (induction n) (auto split: if_splits)

lemma first_empty_above: "first_empty n grid < i \<Longrightarrow> i \<le> n \<Longrightarrow> grid ! i \<noteq> 0"
  by (induction n) (auto split: if_splits simp: le_Suc_eq)

text \<open>
  The shift removes row \<open>n\<close>, moves the rows between the stopping row and \<open>n\<close> down by one
  and duplicates the stopping row.
\<close>

lemma grid_shift_spec:
  assumes "n < length grid"
  shows "grid_shift grid n =
    Inr (take (Suc (first_empty n grid)) grid @ drop (first_empty n grid) (take n grid) @
         drop (Suc n) grid)"
  unfolding grid_shift_def using assms
proof (induction n arbitrary: grid)
  case 0
  then show ?case by (simp add: take_Suc_conv_app_nth Cons_nth_drop_Suc)
next
  case (Suc n)
  let ?z = "first_empty n grid" and ?g = "grid[Suc n := grid ! n]"
  have z: "?z \<le> n"
    by (rule first_empty_le)
  have "take (Suc ?z) ?g @ drop ?z (take n ?g) @ drop (Suc n) ?g =
      take (Suc ?z) grid @ drop ?z (take (Suc n) grid) @ drop (Suc (Suc n)) grid"
    using Suc.prems z
    by (simp add: drop_update_swap take_Suc_conv_app_nth Cons_nth_drop_Suc[symmetric])
  then show ?case
    using Suc.IH[of ?g] Suc.prems first_empty_update[of n "Suc n" grid]
    by (cases "grid ! Suc n = 0") (simp_all add: rd_def wr_def nat_add_distrib)
qed

section \<open>Bounding boxes\<close>

definition set_cells :: "pattern_t \<Rightarrow> (int \<times> int) set" where
  "set_cells p = {(i, j). 0 \<le> i \<and> i < 3 \<and> 0 \<le> j \<and> j < 3 \<and> bit (p ! nat i) (nat j)}"

text \<open>\<open>b\<close> is the smallest box around \<open>S\<close>: it contains \<open>S\<close> and \<open>S\<close> touches its four sides.\<close>

definition tight_box :: "bbox_t \<Rightarrow> (int \<times> int) set \<Rightarrow> bool" where
  "tight_box b S \<longleftrightarrow>
     (\<forall>(i, j) \<in> S. bbox_x b \<le> i \<and> i < bbox_x b + bbox_sizex b \<and>
                   bbox_y b \<le> j \<and> j < bbox_y b + bbox_sizey b) \<and>
     bbox_x b \<in> fst ` S \<and> bbox_x b + bbox_sizex b - 1 \<in> fst ` S \<and>
     bbox_y b \<in> snd ` S \<and> bbox_y b + bbox_sizey b - 1 \<in> snd ` S"

definition bbox_step :: "(int \<times> int \<Rightarrow> bool) \<Rightarrow> int \<times> int \<Rightarrow> bbox_t \<Rightarrow> bbox_t" where
  "bbox_step P = (\<lambda>(i, j) res.
     if P (i, j)
     then res\<lparr>bbox_x := min (bbox_x res) i, bbox_y := min (bbox_y res) j,
              bbox_sizex := max (bbox_sizex res) i, bbox_sizey := max (bbox_sizey res) j\<rparr>
     else res)"

lemma fold_bbox_step:
  "fold (bbox_step P) ps res =
    res\<lparr>bbox_x := fold min (map fst (filter P ps)) (bbox_x res),
        bbox_y := fold min (map snd (filter P ps)) (bbox_y res),
        bbox_sizex := fold max (map fst (filter P ps)) (bbox_sizex res),
        bbox_sizey := fold max (map snd (filter P ps)) (bbox_sizey res)\<rparr>"
  by (induction ps arbitrary: res) (auto simp: bbox_step_def min.commute max.commute)

lemma fold_min_sentinel:
  assumes "xs \<noteq> []" "\<And>x. x \<in> set xs \<Longrightarrow> x < (a::int)"
  shows "fold min xs a = Min (set xs)"
proof -
  have "fold min xs a = Min (insert a (set xs))"
    using Min.set_eq_fold[of a xs] by simp
  also have "\<dots> = min a (Min (set xs))"
    using assms(1) by (intro Min_insert) auto
  also have "\<dots> = Min (set xs)"
    using assms(1) assms(2)[OF Min_in[of "set xs"]] by simp
  finally show ?thesis .
qed

lemma fold_max_sentinel:
  assumes "xs \<noteq> []" "\<And>x. x \<in> set xs \<Longrightarrow> (a::int) < x"
  shows "fold max xs a = Max (set xs)"
proof -
  have "fold max xs a = Max (insert a (set xs))"
    using Max.set_eq_fold[of a xs] by simp
  also have "\<dots> = max a (Max (set xs))"
    using assms(1) by (intro Max_insert) auto
  also have "\<dots> = Max (set xs)"
    using assms(1) assms(2)[OF Max_in[of "set xs"]] by simp
  finally show ?thesis .
qed

lemma sentinels:
  assumes "xs \<noteq> []" "\<And>x. x \<in> set xs \<Longrightarrow> 0 \<le> x \<and> x < (3::int)"
  shows "fold min xs INT_MAX = Min (set xs)" "fold max xs INT_MIN = Max (set xs)"
proof -
  show "fold min xs INT_MAX = Min (set xs)"
    by (rule fold_min_sentinel) (use assms in \<open>force simp: INT_MAX_def\<close>)+
  show "fold max xs INT_MIN = Max (set xs)"
    by (rule fold_max_sentinel) (use assms in \<open>force simp: INT_MIN_def\<close>)+
qed

lemma bit_test: "drop_bit n (p :: 'a::len word) AND 1 \<noteq> 0 \<longleftrightarrow> bit p n"
  by (simp add: bit_iff_odd_drop_bit and_one_eq mod_2_eq_odd)

lemma get_bbox_loop:
  assumes "length p = 3"
  shows "foldE (\<lambda>i. foldE (\<lambda>j res. bindE (rd p i) (\<lambda>q.
         Inr (if drop_bit (nat j) q AND 1 \<noteq> 0
              then res\<lparr>bbox_x := c_MIN (bbox_x res) i, bbox_y := c_MIN (bbox_y res) j,
                       bbox_sizex := c_MAX (bbox_sizex res) i,
                       bbox_sizey := c_MAX (bbox_sizey res) j\<rparr>
              else res))) [0..BLOCK_HEIGHT - 1]) [0..BLOCK_HEIGHT - 1] res =
    Inr (fold (bbox_step (\<lambda>ij. ij \<in> set_cells p)) (List.product [0..BLOCK_HEIGHT - 1] [0..BLOCK_HEIGHT - 1]) res)"
  unfolding foldE_nested
  by (rule foldE_fold[where I = "\<lambda>_. True", THEN conjunct1])
    (use assms in \<open>auto simp: rd_def bit_test bbox_step_def set_cells_def BLOCK_HEIGHT_def\<close>)

lemma set_cells_product:
  "set (filter (\<lambda>ij. ij \<in> set_cells p) (List.product [0..BLOCK_HEIGHT - 1] [0..BLOCK_HEIGHT - 1])) = set_cells p"
  by (auto simp: set_cells_def BLOCK_HEIGHT_def)

lemma finite_set_cells: "finite (set_cells p)"
  using set_cells_product[of p] by (metis List.finite_set)

lemma get_bbox_empty:
  assumes "length p = 3" "set_cells p = {}"
  shows "get_bbox p = Inl Overflow"
proof -
  have "filter (\<lambda>ij. ij \<in> set_cells p) (List.product [0..BLOCK_HEIGHT - 1] [0..BLOCK_HEIGHT - 1]) = []"
    using set_cells_product[of p] assms(2) by simp
  then show ?thesis
    unfolding get_bbox_def get_bbox_loop[OF assms(1)] fold_bbox_step
    by (simp add: c_int_def INT_MAX_def INT_MIN_def)
qed

lemma get_bbox_spec:
  assumes "length p = 3" "set_cells p \<noteq> {}"
  shows "\<exists>b. get_bbox p = Inr b \<and> tight_box b (set_cells p)"
proof -
  let ?S = "set_cells p"
  let ?ps = "filter (\<lambda>ij. ij \<in> ?S) (List.product [0..BLOCK_HEIGHT - 1] [0..BLOCK_HEIGHT - 1])"
  let ?A = "fst ` ?S" and ?B = "snd ` ?S"
  have ne: "?ps \<noteq> []"
    using set_cells_product[of p] assms(2) by (metis List.set_empty)
  have sets: "set (map fst ?ps) = ?A" "set (map snd ?ps) = ?B"
    using set_cells_product[of p] by (simp_all only: list.set_map)
  have fin: "finite ?A" "finite ?B" "?A \<noteq> {}" "?B \<noteq> {}"
    using finite_set_cells[of p] assms(2) by auto
  have range: "0 \<le> x \<and> x < 3" if "x \<in> ?A \<union> ?B" for x
    using that by (auto simp: set_cells_def)
  have folds: "fold min (map fst ?ps) INT_MAX = Min ?A" "fold min (map snd ?ps) INT_MAX = Min ?B"
    "fold max (map fst ?ps) INT_MIN = Max ?A" "fold max (map snd ?ps) INT_MIN = Max ?B"
    using sentinels[of "map fst ?ps"] sentinels[of "map snd ?ps"] ne range
    unfolding sets by blast+
  have lim: "0 \<le> Min ?A" "Max ?A < 3" "0 \<le> Min ?B" "Max ?B < 3" "Min ?A \<le> Max ?A" "Min ?B \<le> Max ?B"
    using range Min_in[OF fin(1,3)] Max_in[OF fin(1,3)] Min_in[OF fin(2,4)] Max_in[OF fin(2,4)] fin
    by auto
  let ?b = "\<lparr>bbox_x = Min ?A, bbox_y = Min ?B, bbox_sizex = Max ?A - (Min ?A - 1),
      bbox_sizey = Max ?B - (Min ?B - 1)\<rparr>"
  have "get_bbox p = Inr ?b"
    unfolding get_bbox_def get_bbox_loop[OF assms(1)] fold_bbox_step
    using lim folds by (simp add: c_int_def INT_MAX_def INT_MIN_def)
  moreover have "Min ?A \<le> i \<and> i \<le> Max ?A \<and> Min ?B \<le> j \<and> j \<le> Max ?B" if "(i, j) \<in> ?S" for i j
    using fin that by (force intro: Min_le Max_ge)
  then have "tight_box ?b ?S"
    using fin by (auto simp: tight_box_def)
  ultimately show ?thesis by blast
qed

section \<open>Drawing\<close>

lemma c_shl_1: "0 \<le> j \<Longrightarrow> j < 31 \<Longrightarrow> c_shl 1 j = Inr (2 ^ nat j)"
proof -
  assume j: "0 \<le> j" "j < 31"
  then have "(2::int) ^ nat j \<le> 2 ^ 30"
    by (intro power_increasing) auto
  with j show ?thesis
    using c_shl_ok[of j 1] by (simp add: INT_MAX_def)
qed

lemma uint_and_pow: "uint (p :: u8) AND 2 ^ n \<noteq> 0 \<longleftrightarrow> bit p n"
  by (auto simp: and_exp_eq_0_iff_not_bit bit_unsigned_iff dest: bit_imp_le_length)

lemma word_and_pow: "(g :: u32) AND word_of_int (2 ^ n) \<noteq> 0 \<longleftrightarrow> bit g n"
  by (simp add: and_exp_eq_0_iff_not_bit)

lemma GRID_STEP_8 [simp]: "GRID_STEP = 8"
  by (simp add: GRID_STEP_def)

lemma mem_UN_if:
  "q \<in> (\<Union>i \<in> I. \<Union>j \<in> J. if P i j then F i j else {}) \<longleftrightarrow> (\<exists>i \<in> I. \<exists>j \<in> J. P i j \<and> q \<in> F i j)"
  by (auto split: if_splits)

lemma block_pixels_union:
  assumes "block_wf blk" "0 \<le> blk_x blk" "0 \<le> blk_y blk"
  shows "(\<Union>rc \<in> block_cells blk. cell_pixels rc) =
    (\<Union>i \<in> {0, 1, 2}. \<Union>j \<in> {2, 1, 0}. if bit (cur_pattern blk ! nat i) (nat j)
      then cell_pixels (nat (blk_x blk + i), nat (blk_y blk + j)) else {})"
    (is "?L = ?R")
proof (intro set_eqI iffI)
  fix q
  assume "q \<in> ?L"
  then obtain i j where ij: "i < 3" "bit (cur_pattern blk ! i) j"
      "q \<in> cell_pixels (nat (blk_x blk) + i, nat (blk_y blk) + j)"
    by (auto simp: block_cells_def pattern_cells_def)
  moreover have "j < 3"
    using u8_lt8_bit[OF pattern_row_lt8[OF assms(1) ij(1)] ij(2)] .
  ultimately show "q \<in> ?R"
    unfolding mem_UN_if using assms(2,3)
    by (intro bexI[of _ "int i"] bexI[of _ "int j"]) (auto simp: nat_add_distrib)
next
  fix q
  assume "q \<in> ?R"
  then obtain i j where "i \<in> {0, 1, 2}" "j \<in> {2, 1, 0}" "bit (cur_pattern blk ! nat i) (nat j)"
      "q \<in> cell_pixels (nat (blk_x blk + i), nat (blk_y blk + j))"
    unfolding mem_UN_if by blast
  moreover have "(nat (blk_x blk + i), nat (blk_y blk + j)) \<in> block_cells blk"
    unfolding block_cells_iff using calculation assms(2,3)
    by (intro exI[of _ "nat i"] exI[of _ "nat j"] conjI) (auto simp: nat_add_distrib)
  ultimately show "q \<in> ?L" by blast
qed

lemma grid_pixels_union:
  "(\<Union>i \<in> set [0..GRID_ROWS - 1]. \<Union>j \<in> set [0..GRID_COLS - 1].
      if bit (grid ! nat i) (nat j) then cell_pixels (nat i, nat j) else {}) =
    (\<Union>rc \<in> {(r, c). r < 30 \<and> c < 31 \<and> cell grid r c}. cell_pixels rc)"
  (is "?L = ?R")
proof (intro set_eqI iffI)
  fix q
  assume "q \<in> ?L"
  then obtain i j where ij: "i \<in> set [0..GRID_ROWS - 1]" "j \<in> set [0..GRID_COLS - 1]"
      "bit (grid ! nat i) (nat j)" "q \<in> cell_pixels (nat i, nat j)"
    unfolding mem_UN_if by blast
  then have "(nat i, nat j) \<in> {(r, c). r < 30 \<and> c < 31 \<and> cell grid r c}"
    by (auto simp: cell_def)
  with ij(4) show "q \<in> ?R" by blast
next
  fix q
  assume "q \<in> ?R"
  then obtain r c where "r < 30" "c < 31" "cell grid r c" "q \<in> cell_pixels (r, c)"
    by blast
  then show "q \<in> ?L"
    unfolding mem_UN_if
    by (intro bexI[of _ "int r"] bexI[of _ "int c"]) (auto simp: cell_def)
qed

context thd_mutex
begin

lemma suppx_draw_draws:
  assumes "vbuf_wf v" "free (vb_mtx v)" "0 \<le> x" "0 \<le> y"
  shows "\<exists>v'. suppx_draw thd v x y = Inr v' \<and> draws free v v' (cell_pixels (nat x, nat y))"
  using vbuf_draw_rect_draws[OF assms(1,2), of "x * 8" "y * 8" 8 8] assms(3,4)
  by (simp add: suppx_draw_def cell_pixels_def)

lemma block_draw_draws:
  assumes "vbuf_wf v" "free (vb_mtx v)" "block_wf blk" "0 \<le> blk_x blk" "0 \<le> blk_y blk"
  shows "\<exists>v'. block_draw thd v blk = Inr v' \<and> draws free v v' (\<Union>rc \<in> block_cells blk. cell_pixels rc)"
proof -
  let ?p = "cur_pattern blk"
  let ?S = "\<lambda>i j. if bit (?p ! nat i) (nat j)
      then cell_pixels (nat (blk_x blk + i), nat (blk_y blk + j)) else {}"
  have cellj: "\<exists>v'. bindE (pattern_row blk i) (\<lambda>p. bindE (c_shl 1 j) (\<lambda>m.
         if uint p AND m \<noteq> 0 then suppx_draw thd v (blk_x blk + i) (blk_y blk + j) else Inr v)) = Inr v' \<and>
      draws free v v' (?S i j)"
    if "i \<in> set [0, 1, 2]" "j \<in> set [2, 1, 0]" "vbuf_wf v" "free (vb_mtx v)" for i j v
  proof -
    have ij: "0 \<le> i" "i < 3" "0 \<le> j" "j < 31"
      using that by auto
    show ?thesis
      unfolding pattern_row_ok[OF assms(3) ij(1,2)] c_shl_1[OF ij(3,4)] bindE_Inr uint_and_pow
      by (rule draws_if) (use that ij assms suppx_draw_draws in auto)
  qed
  have row: "\<exists>v'. foldE (\<lambda>j v. bindE (pattern_row blk i) (\<lambda>p. bindE (c_shl 1 j) (\<lambda>m.
         if uint p AND m \<noteq> 0 then suppx_draw thd v (blk_x blk + i) (blk_y blk + j) else Inr v)))
       [2, 1, 0] v = Inr v' \<and> draws free v v' (\<Union>j \<in> set [2, 1, 0]. ?S i j)"
    if "i \<in> set [0, 1, 2]" "vbuf_wf v" "free (vb_mtx v)" for i v
    using cellj[OF that(1)] that(2,3) by (rule foldE_draws)
  have "\<exists>v'. block_draw thd v blk = Inr v' \<and>
      draws free v v' (\<Union>i \<in> set [0, 1, 2]. \<Union>j \<in> set [2, 1, 0]. ?S i j)"
    unfolding block_draw_def using row assms(1,2) by (rule foldE_draws)
  moreover have "(\<Union>i \<in> set [0, 1, 2]. \<Union>j \<in> set [2, 1, 0]. ?S i j) =
      (\<Union>rc \<in> block_cells blk. cell_pixels rc)"
    unfolding block_pixels_union[OF assms(3-5)] by auto
  ultimately show ?thesis by simp
qed

lemma grid_draw_draws:
  assumes "vbuf_wf v" "free (vb_mtx v)" "grid_wf grid"
  shows "\<exists>v'. grid_draw thd v grid = Inr v' \<and>
    draws free v v' (\<Union>rc \<in> {(r, c). r < 30 \<and> c < 31 \<and> cell grid r c}. cell_pixels rc)"
proof -
  let ?S = "\<lambda>i j. if bit (grid ! nat i) (nat j) then cell_pixels (nat i, nat j) else {}"
  let ?is = "[0..GRID_ROWS - 1]" and ?js = "[0..GRID_COLS - 1]"
  let ?f = "\<lambda>i j v. bindE (rd grid i) (\<lambda>g. bindE (c_shl 1 j) (\<lambda>m.
         if g AND word_of_int m \<noteq> 0 then suppx_draw thd v i j else Inr v))"
  have cellj: "\<exists>v'. ?f i j v = Inr v' \<and> draws free v v' (?S i j)"
    if "i \<in> set ?is" "j \<in> set ?js" "vbuf_wf v" "free (vb_mtx v)" for i j v
  proof -
    have ij: "0 \<le> i" "i < int (length grid)" "0 \<le> j" "j < 31"
      using that assms(3) by (auto simp: grid_wf_def)
    show ?thesis
      unfolding rd_ok[OF ij(1,2)] c_shl_1[OF ij(3,4)] bindE_Inr word_and_pow
      by (rule draws_if) (use that ij suppx_draw_draws in auto)
  qed
  have row: "\<exists>v'. foldE (?f i) ?js v = Inr v' \<and> draws free v v' (\<Union>j \<in> set ?js. ?S i j)"
    if "i \<in> set ?is" "vbuf_wf v" "free (vb_mtx v)" for i v
    using cellj[OF that(1)] that(2,3) by (rule foldE_draws)
  have "\<exists>v'. grid_draw thd v grid = Inr v' \<and> draws free v v' (\<Union>i \<in> set ?is. \<Union>j \<in> set ?js. ?S i j)"
    unfolding grid_draw_def using row assms(1,2) by (rule foldE_draws)
  moreover have "(\<Union>i \<in> set ?is. \<Union>j \<in> set ?js. ?S i j) =
      (\<Union>rc \<in> {(r, c). r < 30 \<and> c < 31 \<and> cell grid r c}. cell_pixels rc)"
    by (rule grid_pixels_union)
  ultimately show ?thesis by simp
qed

end

end
