(* ===== verification/Text.thy ===== *)
theory Text
  imports Tetris
begin

text \<open>
  \<^verbatim>\<open>text.c\<close> and \<^verbatim>\<open>font.h\<close>: the digit glyphs and the drawing of a number. The number
  is specified by the set of its decimal digits: every digit is drawn at the same place.
\<close>

section \<open>The font\<close>

definition CHAR_SIZE :: int where
  "CHAR_SIZE = 5"

record font_map_t =
  fm_c :: u8
  fm_ptr :: "u8 list"

definition glyph :: "u8 \<Rightarrow> u8 list \<Rightarrow> font_map_t" where
  "glyph c p = \<lparr>fm_c = c, fm_ptr = p\<rparr>"

definition font_map :: "font_map_t list" where
  "font_map =
    [glyph 0 [0b11111, 0b10001, 0b10001, 0b10001, 0b11111],
     glyph 1 [0b00100, 0b00110, 0b00100, 0b00100, 0b01110],
     glyph 2 [0b00010, 0b00101, 0b00100, 0b00010, 0b00111],
     glyph 3 [0b11110, 0b10000, 0b11110, 0b10000, 0b11110],
     glyph 4 [0b10010, 0b10010, 0b11110, 0b10000, 0b10000],
     glyph 5 [0b11110, 0b00010, 0b11110, 0b10000, 0b11110],
     glyph 6 [0b11110, 0b10000, 0b11110, 0b10010, 0b11110],
     glyph 7 [0b11110, 0b10000, 0b01000, 0b00100, 0b00010],
     glyph 8 [0b11110, 0b10010, 0b11110, 0b10010, 0b11110],
     glyph 9 [0b11110, 0b10010, 0b11110, 0b10000, 0b11110]]"

section \<open>Operations\<close>

definition suppx_text_draw :: "('w, 'm) thdiface_t \<Rightarrow> 'm vbuf_t \<Rightarrow> int \<Rightarrow> int \<Rightarrow> 'm vbuf_t result" where
  "suppx_text_draw thd v x y =
     vbuf_draw_rect thd v ((x * GRID_STEP) sdiv 2) ((y * GRID_STEP) sdiv 2)
       (GRID_STEP sdiv 2) (GRID_STEP sdiv 2)"

definition draw_char :: "('w, 'm) thdiface_t \<Rightarrow> 'm vbuf_t \<Rightarrow> u8 list \<Rightarrow> int \<Rightarrow> int \<Rightarrow> 'm vbuf_t result" where
  "draw_char thd v ptr x y =
     foldE (\<lambda>i. foldE (\<lambda>j v.
         bindE (rd ptr i) (\<lambda>p.
         bindE (c_shl 1 j) (\<lambda>m.
         if uint p AND m \<noteq> 0 then suppx_text_draw thd v (x + i) (y + j) else Inr v)))
       [0..4]) [0..4] v"

definition text_draw_char ::
  "('w, 'm) thdiface_t \<Rightarrow> 'm vbuf_t \<Rightarrow> u8 \<Rightarrow> int \<Rightarrow> int \<Rightarrow> 'm vbuf_t result" where
  "text_draw_char thd v c x y =
     (if x smod GRID_STEP \<noteq> 0 \<or> y smod GRID_STEP \<noteq> 0 then Inr v
      else foldE (\<lambda>e v. if c = fm_c e then draw_char thd v (fm_ptr e) x y else Inr v) font_map v)"

function text_draw_number_loop ::
  "('w, 'm) thdiface_t \<Rightarrow> u8 \<Rightarrow> int \<Rightarrow> int \<Rightarrow> 'm vbuf_t \<Rightarrow> 'm vbuf_t result" where
  "text_draw_number_loop thd n x y v =
     (if n > 0
      then bindE (text_draw_char thd v (n mod 10) x y)
             (\<lambda>v'. text_draw_number_loop thd (n div 10) x y v')
      else Inr v)"
  by pat_completeness auto
termination
  by (relation "measure (\<lambda>(thd, n, x, y, v). unat n)") (auto simp: unat_div word_neq_0_conv unat_gt_0)

declare text_draw_number_loop.simps [simp del]

definition text_draw_number ::
  "('w, 'm) thdiface_t \<Rightarrow> 'm vbuf_t \<Rightarrow> u8 \<Rightarrow> int \<Rightarrow> int \<Rightarrow> 'm vbuf_t result" where
  "text_draw_number thd v n x y =
     (if n = 0 then text_draw_char thd v 0 x y else text_draw_number_loop thd n x y v)"

section \<open>What is drawn\<close>

definition glyph_pixels :: "u8 list \<Rightarrow> int \<Rightarrow> int \<Rightarrow> (nat \<times> nat) set" where
  "glyph_pixels ptr x y =
     (\<Union>i \<in> set [0..4]. \<Union>j \<in> set [0..4].
        if bit (ptr ! nat i) (nat j) then rect_pixels ((x + i) * 4) ((y + j) * 4) 4 4 else {})"

definition digit_pixels :: "nat \<Rightarrow> int \<Rightarrow> int \<Rightarrow> (nat \<times> nat) set" where
  "digit_pixels d x y = glyph_pixels (fm_ptr (font_map ! d)) x y"

fun digits :: "nat \<Rightarrow> nat set" where
  "digits n = (if n < 10 then {n} else insert (n mod 10) (digits (n div 10)))"

declare digits.simps [simp del]

lemma digits_lt_10: "d \<in> digits n \<Longrightarrow> d < 10"
proof (induction n rule: digits.induct)
  case (1 n)
  then show ?case by (subst (asm) (2) digits.simps) (auto split: if_splits)
qed

lemma font_map_length: "length font_map = 10"
  by (simp add: font_map_def)

lemma font_map_nth: "d < 10 \<Longrightarrow> fm_c (font_map ! d) = of_nat d \<and> length (fm_ptr (font_map ! d)) = 5"
proof -
  assume "d < 10"
  then have "d \<in> {0, 1, 2, 3, 4, 5, 6, 7, 8, 9}"
    by auto
  then show ?thesis
    by (auto simp: font_map_def glyph_def)
qed

lemma font_code_inj:
  assumes "d < 10" "k < 10" "(of_nat d :: u8) = fm_c (font_map ! k)"
  shows "k = d"
proof -
  have "(of_nat d :: u8) = of_nat k"
    using assms font_map_nth by simp
  then have "unat (of_nat d :: u8) = unat (of_nat k :: u8)"
    by simp
  with assms(1,2) show ?thesis
    by (simp add: unat_of_nat)
qed

text \<open>Exactly one entry of the font matches a digit.\<close>

lemma font_select:
  assumes "d < 10"
  shows "(\<Union>e \<in> set font_map. if of_nat d = fm_c e then glyph_pixels (fm_ptr e) x y else {}) =
    glyph_pixels (fm_ptr (font_map ! d)) x y"
proof -
  have "e = font_map ! d" if "e \<in> set font_map" "of_nat d = fm_c e" for e
    using that font_code_inj[OF assms] by (auto simp: in_set_conv_nth font_map_length)
  moreover have "font_map ! d \<in> set font_map" "of_nat d = fm_c (font_map ! d)"
    using assms font_map_nth font_map_length by (auto intro: nth_mem)
  ultimately show ?thesis
    by (auto split: if_splits)
qed

lemma smod_8_dvd: "8 dvd z \<Longrightarrow> z smod (8::int) = 0"
  by (simp add: signed_modulo_int_def sgn_if)

context thd_mutex
begin

lemma suppx_text_draw_draws:
  assumes "vbuf_wf v" "free (vb_mtx v)" "0 \<le> x" "0 \<le> y"
  shows "\<exists>v'. suppx_text_draw thd v x y = Inr v' \<and> draws free v v' (rect_pixels (x * 4) (y * 4) 4 4)"
proof -
  have "(z * 8) sdiv 2 = z * 4" if "0 \<le> z" for z :: int
    using that by (simp add: signed_divide_int_def sgn_if)
  moreover have "(8::int) sdiv 2 = 4"
    by (simp add: signed_divide_int_def)
  ultimately show ?thesis
    using vbuf_draw_rect_draws[OF assms(1,2), of "x * 4" "y * 4" 4 4] assms(3,4)
    by (simp add: suppx_text_draw_def)
qed

lemma draw_char_draws:
  assumes "vbuf_wf v" "free (vb_mtx v)" "length ptr = 5" "0 \<le> x" "0 \<le> y"
  shows "\<exists>v'. draw_char thd v ptr x y = Inr v' \<and> draws free v v' (glyph_pixels ptr x y)"
proof -
  let ?S = "\<lambda>i j. if bit (ptr ! nat i) (nat j) then rect_pixels ((x + i) * 4) ((y + j) * 4) 4 4 else {}"
  let ?f = "\<lambda>i j v. bindE (rd ptr i) (\<lambda>p. bindE (c_shl 1 j) (\<lambda>m.
         if uint p AND m \<noteq> 0 then suppx_text_draw thd v (x + i) (y + j) else Inr v))"
  have cellj: "\<exists>v'. ?f i j v = Inr v' \<and> draws free v v' (?S i j)"
    if "i \<in> set [0..4]" "j \<in> set [0..4]" "vbuf_wf v" "free (vb_mtx v)" for i j v
  proof -
    have ij: "0 \<le> i" "i < int (length ptr)" "0 \<le> j" "j < 31"
      using that assms(3) by auto
    show ?thesis
      unfolding rd_ok[OF ij(1,2)] c_shl_1[OF ij(3,4)] bindE_Inr uint_and_pow
      by (intro draws_if suppx_text_draw_draws) (use that ij assms in auto)
  qed
  have row: "\<exists>v'. foldE (?f i) [0..4] v = Inr v' \<and> draws free v v' (\<Union>j \<in> set [0..4]. ?S i j)"
    if "i \<in> set [0..4]" "vbuf_wf v" "free (vb_mtx v)" for i v
    using cellj[OF that(1)] that(2,3) by (rule foldE_draws)
  show ?thesis
    unfolding draw_char_def glyph_pixels_def using row assms(1,2) by (rule foldE_draws)
qed

lemma text_draw_char_draws:
  assumes "vbuf_wf v" "free (vb_mtx v)" "0 \<le> x" "0 \<le> y" "8 dvd x" "8 dvd y" "d < 10"
  shows "\<exists>v'. text_draw_char thd v (of_nat d) x y = Inr v' \<and> draws free v v' (digit_pixels d x y)"
proof -
  let ?S = "\<lambda>e. if of_nat d = fm_c e then glyph_pixels (fm_ptr e) x y else {}"
  have "\<exists>v'. (if of_nat d = fm_c e then draw_char thd v (fm_ptr e) x y else Inr v) = Inr v' \<and>
      draws free v v' (?S e)"
    if "e \<in> set font_map" "vbuf_wf v" "free (vb_mtx v)" for e v
    using that font_map_nth assms(3,4)
    by (intro draws_if draw_char_draws) (auto simp: in_set_conv_nth font_map_length)
  then have "\<exists>v'. foldE (\<lambda>e v. if of_nat d = fm_c e then draw_char thd v (fm_ptr e) x y else Inr v)
      font_map v = Inr v' \<and> draws free v v' (\<Union>e \<in> set font_map. ?S e)"
    using assms(1,2) by (rule foldE_draws)
  moreover have "(\<Union>e \<in> set font_map. ?S e) = digit_pixels d x y"
    unfolding digit_pixels_def by (rule font_select[OF assms(7)])
  ultimately show ?thesis
    using assms(5,6) smod_8_dvd by (simp add: text_draw_char_def)
qed

lemma text_draw_number_loop_draws:
  assumes "vbuf_wf v" "free (vb_mtx v)" "0 \<le> x" "0 \<le> y" "8 dvd x" "8 dvd y" "0 < n"
  shows "\<exists>v'. text_draw_number_loop thd n x y v = Inr v' \<and>
    draws free v v' (\<Union>d \<in> digits (unat n). digit_pixels d x y)"
  using assms
proof (induction "unat n" arbitrary: n v rule: less_induct)
  case less
  let ?S = "\<lambda>n. \<Union>d \<in> digits n. digit_pixels d x y"
  have m: "n mod 10 = of_nat (unat n mod 10)"
    by (simp add: word_arith_nat_mod)
  obtain v1 where v1: "text_draw_char thd v (n mod 10) x y = Inr v1"
      "draws free v v1 (digit_pixels (unat n mod 10) x y)"
    using text_draw_char_draws[OF less.prems(1-6), of "unat n mod 10"] m by auto
  note step = text_draw_number_loop.simps[of thd n x y v] digits.simps[of "unat n"]
  show ?case
  proof (cases "unat n < 10")
    case True
    then have "n div 10 = 0"
      by (simp add: word_arith_nat_div)
    then show ?thesis
      using v1 True less.prems(7) step by (simp add: text_draw_number_loop.simps[of _ 0])
  next
    case False
    then have div: "unat (n div 10) = unat n div 10" "0 < n div 10"
      by (simp_all add: unat_div word_gt_0 flip: unat_eq_zero)
    moreover have "unat n div 10 < unat n"
      using False by simp
    ultimately obtain v2 where "text_draw_number_loop thd (n div 10) x y v1 = Inr v2"
        "draws free v1 v2 (?S (unat (n div 10)))"
      using less.hyps[of "n div 10" v1] less.prems draws_wf[OF v1(2)] by auto
    with v1 draws_trans[OF v1(2)] False less.prems(7) step div show ?thesis
      by auto
  qed
qed

lemma text_draw_number_draws:
  assumes "vbuf_wf v" "free (vb_mtx v)" "0 \<le> x" "0 \<le> y" "8 dvd x" "8 dvd y"
  shows "\<exists>v'. text_draw_number thd v n x y = Inr v' \<and>
    draws free v v' (\<Union>d \<in> digits (unat n). digit_pixels d x y)"
proof (cases "n = 0")
  case True
  then show ?thesis
    using text_draw_char_draws[OF assms, of 0] by (simp add: text_draw_number_def digits.simps[of 0])
next
  case False
  then have "0 < n"
    by (simp add: word_neq_0_conv)
  then show ?thesis
    using text_draw_number_loop_draws[OF assms, of n] False by (simp add: text_draw_number_def)
qed

end

end
