(* ===== verification/Buttons.thy ===== *)
theory Buttons
  imports Tetris
begin

text \<open>
  \<^verbatim>\<open>buttons.h\<close>: moving and rotating the block by the buttons held down. The guards are
  computed from the bounding box of the current pattern, once, before any move.
\<close>

datatype button_e = BUTTON_INVALID | BUTTON_LEFT | BUTTON_UP | BUTTON_DOWN | BUTTON_RIGHT | BUTTON_ENTER

primrec button_val :: "button_e \<Rightarrow> int" where
  "button_val BUTTON_INVALID = -1"
| "button_val BUTTON_LEFT = 0"
| "button_val BUTTON_UP = 1"
| "button_val BUTTON_DOWN = 2"
| "button_val BUTTON_RIGHT = 3"
| "button_val BUTTON_ENTER = 4"

definition BUTTON_COUNT :: nat where
  "BUTTON_COUNT = 5"

definition PRESSED :: "bool list \<Rightarrow> button_e \<Rightarrow> bool result" where
  "PRESSED states b = rd states (button_val b)"

text \<open>One guarded move: \<open>(ret, blk)\<close> is updated when the button is pressed and the guard holds.\<close>

definition button_move ::
  "bool list \<Rightarrow> button_e \<Rightarrow> (block_t \<Rightarrow> bool) \<Rightarrow> (block_t \<Rightarrow> block_t) \<Rightarrow>
   bool \<times> block_t \<Rightarrow> (bool \<times> block_t) result" where
  "button_move states b guard move = (\<lambda>(ret, blk).
     bindE (PRESSED states b) (\<lambda>p. Inr (if p \<and> guard blk then (True, move blk) else (ret, blk))))"

definition buttons_do_action :: "block_t \<Rightarrow> bool list \<Rightarrow> (bool \<times> block_t) result" where
  "buttons_do_action blk states =
     bindE (rd (blk_ptrs blk) (blk_ori blk)) (\<lambda>p.
     bindE (get_bbox p) (\<lambda>bbox.
     bindE (button_move states BUTTON_LEFT
              (\<lambda>b. blk_y b + bbox_y bbox > 0)
              (\<lambda>b. b\<lparr>blk_y := blk_y b - 1\<rparr>) (False, blk)) (\<lambda>s.
     bindE (button_move states BUTTON_RIGHT
              (\<lambda>b. blk_y b + bbox_y bbox < GRID_COLS - bbox_sizey bbox - 1)
              (\<lambda>b. b\<lparr>blk_y := blk_y b + 1\<rparr>) s) (\<lambda>s.
     bindE (button_move states BUTTON_DOWN
              (\<lambda>b. blk_x b + bbox_x bbox < GRID_ROWS - bbox_sizex bbox)
              (\<lambda>b. b\<lparr>blk_x := blk_x b + 1\<rparr>) s) (\<lambda>s.
     button_move states BUTTON_ENTER (\<lambda>_. True) block_rotr s)))))"

section \<open>Lemmas\<close>

lemma PRESSED_ok:
  assumes "length states = BUTTON_COUNT" "b \<noteq> BUTTON_INVALID"
  shows "PRESSED states b = Inr (states ! nat (button_val b))"
  using assms by (cases b) (simp_all add: PRESSED_def rd_def BUTTON_COUNT_def)

lemma button_move_ok:
  assumes "length states = BUTTON_COUNT" "b \<noteq> BUTTON_INVALID"
  shows "button_move states b guard move (ret, blk) =
    Inr (if states ! nat (button_val b) \<and> guard blk then (True, move blk) else (ret, blk))"
  using PRESSED_ok[OF assms] by (simp add: button_move_def)

text \<open>The blocks of the game: the patterns of \<open>block_gamma\<close> in one of the four orientations.\<close>

definition gamma_block :: "block_t \<Rightarrow> bool" where
  "gamma_block blk \<longleftrightarrow> blk_ptrs blk = patterns_gamma \<and> 0 \<le> blk_ori blk \<and> blk_ori blk < 4"

lemma patterns_gamma_wf: "p \<in> set patterns_gamma \<Longrightarrow> pattern_wf p"
  by (auto simp: patterns_gamma_def pattern_wf_def)

lemma gamma_block_wf: "gamma_block blk \<Longrightarrow> block_wf blk"
  using patterns_gamma_wf by (simp add: gamma_block_def block_wf_def) (simp add: patterns_gamma_def)

lemma gamma_block_gamma [simp]: "gamma_block block_gamma"
  by (simp add: gamma_block_def block_gamma_def ORI_NORTH_def)

lemma ori_cases: "0 \<le> z \<Longrightarrow> z < 4 \<Longrightarrow> z = 0 \<or> z = 1 \<or> z = 2 \<or> z = (3::int)"
  by auto

text \<open>The four bounding boxes, by evaluation.\<close>

definition gamma_bbox :: "int \<Rightarrow> bbox_t" where
  "gamma_bbox z =
     (if z = 1 then \<lparr>bbox_x = 1, bbox_y = 0, bbox_sizex = 2, bbox_sizey = 3\<rparr>
      else if z = 3 then \<lparr>bbox_x = 0, bbox_y = 0, bbox_sizex = 2, bbox_sizey = 3\<rparr>
      else \<lparr>bbox_x = 0, bbox_y = 0, bbox_sizex = 3, bbox_sizey = 2\<rparr>)"

lemma get_bbox_gamma:
  "get_bbox [0b011, 0b001, 0b001] = Inr (gamma_bbox 0)"
  "get_bbox [0b000, 0b111, 0b001] = Inr (gamma_bbox 1)"
  "get_bbox [0b001, 0b001, 0b011] = Inr (gamma_bbox 2)"
  "get_bbox [0b100, 0b111, 0b000] = Inr (gamma_bbox 3)"
  by code_simp+

lemma gamma_block_bbox:
  assumes "gamma_block blk"
  shows "rd (blk_ptrs blk) (blk_ori blk) = Inr (cur_pattern blk)"
    "get_bbox (cur_pattern blk) = Inr (gamma_bbox (blk_ori blk))"
  using assms ori_cases[of "blk_ori blk"] get_bbox_gamma
  by (auto simp: gamma_block_def cur_pattern_def patterns_gamma_def rd_def)

lemma block_rotr_ori: "0 \<le> blk_ori blk \<Longrightarrow> blk_ori (block_rotr blk) = (blk_ori blk + 1) mod 4"
  by (simp add: block_rotr_def signed_modulo_int_def sgn_if)

lemma gamma_block_rotr: "gamma_block blk \<Longrightarrow> gamma_block (block_rotr blk)"
  using block_rotr_ori[of blk] by (simp add: gamma_block_def) (simp add: block_rotr_def)

text \<open>What the four tests do to a block of the game.\<close>

definition moved :: "bool list \<Rightarrow> block_t \<Rightarrow> block_t" where
  "moved states blk =
     (let b = gamma_bbox (blk_ori blk);
          y1 = (if states ! 0 \<and> blk_y blk > 0 then blk_y blk - 1 else blk_y blk);
          y2 = (if states ! 3 \<and> y1 < 30 - bbox_sizey b then y1 + 1 else y1);
          x1 = (if states ! 2 \<and> blk_x blk + bbox_x b < 30 - bbox_sizex b then blk_x blk + 1 else blk_x blk);
          blk' = blk\<lparr>blk_y := y2, blk_x := x1\<rparr>
      in if states ! 4 then block_rotr blk' else blk')"

lemma gamma_bbox_y [simp]: "bbox_y (gamma_bbox z) = 0"
  by (simp add: gamma_bbox_def)

lemma buttons_do_action_gamma:
  assumes "gamma_block blk" "length states = BUTTON_COUNT"
  shows "\<exists>ret. buttons_do_action blk states = Inr (ret, moved states blk) \<and>
    (\<not> ret \<longrightarrow> moved states blk = blk)"
  using button_move_ok[OF assms(2)]
  by (simp add: buttons_do_action_def gamma_block_bbox[OF assms(1)] moved_def Let_def)
    (auto simp: gamma_block_bbox[OF assms(1)])

lemma moved_gamma:
  assumes "gamma_block blk"
  shows "gamma_block (moved states blk)"
  using assms gamma_block_rotr by (auto simp: moved_def Let_def gamma_block_def)

lemma moved_bounds:
  assumes "gamma_block blk" "0 \<le> blk_y blk" "blk_y blk \<le> 28" "0 \<le> blk_x blk" "blk_x blk \<le> m" "28 \<le> m"
  shows "0 \<le> blk_y (moved states blk)" "blk_y (moved states blk) \<le> 28"
    "blk_x blk \<le> blk_x (moved states blk)" "blk_x (moved states blk) \<le> m"
  using assms by (auto simp: moved_def Let_def block_rotr_def gamma_bbox_def)

end
