(* ===== verification/Game.thy ===== *)
theory Game
  imports Text Buttons
begin

text \<open>
  \<^verbatim>\<open>main.c\<close>: the start-up sequence, one round of the main loop, the drawing of pending
  updates and the bodies of the two threads. The rules of the game (what happens to the
  field, the block, the score and the clock in a round) are also given on their own, as
  \<open>logic_round\<close>; a round of the program refines it whatever is drawn.
\<close>

section \<open>State\<close>

record logic_t =
  g_grid :: grid_t
  g_blk :: block_t
  g_bbox :: bbox_t
  g_score :: int
  g_t_last :: u32

record 'm game_t = logic_t +
  g_vbuf :: "'m vbuf_t"

section \<open>Drawing pending updates\<close>

function draw_loop ::
  "('w, 'm) hwiface_t \<Rightarrow> 'm vbuf_t \<Rightarrow> 'w \<Rightarrow> ('m vbuf_t \<times> 'w) result" where
  "draw_loop hw v w =
     (if stk_size (upd_stack v) \<noteq> 0
      then bindE (bbox_stack_pop (upd_stack v)
                    \<lparr>bbox_x = 0, bbox_y = 0, bbox_sizex = 0, bbox_sizey = 0\<rparr>) (\<lambda>(_, bbox, st).
           bindE (hw_display_update_rect hw (v\<lparr>upd_stack := st\<rparr>) bbox w) (\<lambda>w'.
           draw_loop hw (v\<lparr>upd_stack := st\<rparr>) w'))
      else Inr (v, w))"
  by pat_completeness auto
termination
  by (relation "measure (\<lambda>(hw, v, w). stk_size (upd_stack v))")
    (auto simp: bbox_stack_pop_def bindE_eq_Inr split: if_splits)

declare draw_loop.simps [simp del]

definition draw :: "('w, 'm) hwiface_t \<Rightarrow> 'm vbuf_t \<Rightarrow> 'w \<Rightarrow> ('m vbuf_t \<times> 'w) result" where
  "draw hw v w =
     (if clear_flag v
      then bindE (hw_display_update hw v w) (\<lambda>w'. Inr (v\<lparr>clear_flag := False\<rparr>, w'))
      else draw_loop hw v w)"

text \<open>One round of each thread body.\<close>

definition thd_blink_round :: "('w, 'm) hwiface_t \<Rightarrow> 'w \<Rightarrow> 'w" where
  "thd_blink_round hw w = hw_delay hw 500 (hw_led_toggle hw w)"

definition thd_video_round ::
  "bool \<Rightarrow> ('w, 'm) hwiface_t \<Rightarrow> ('w, 'm) thdiface_t \<Rightarrow> 'm vbuf_t \<Rightarrow> 'w \<Rightarrow> ('m vbuf_t \<times> 'w) result" where
  "thd_video_round SITL hw thd v w =
     bindE (if SITL then Inr (v, w)
            else bindE (thd_lock thd (vb_mtx v)) (\<lambda>m.
                 bindE (draw hw (v\<lparr>vb_mtx := m\<rparr>) w) (\<lambda>(v', w').
                 bindE (thd_unlock thd (vb_mtx v')) (\<lambda>m'. Inr (v'\<lparr>vb_mtx := m'\<rparr>, w'))))) (\<lambda>(v', w').
     Inr (v', hw_delay hw 1 w'))"

definition threads :: "thd_handle_t list" where
  "threads = [\<lparr>hdl_wa_size = 64, hdl_prio = 128, hdl_func = ''thd_blink''\<rparr>,
              \<lparr>hdl_wa_size = 128, hdl_prio = 2, hdl_func = ''thd_video''\<rparr>]"

definition SCORE_X :: int where "SCORE_X = 0"
definition SCORE_Y :: int where "SCORE_Y = 0"
definition SCORE_SIZEX :: int where "SCORE_SIZEX = GRID_STEP * CHAR_SIZE"
definition SCORE_SIZEY :: int where "SCORE_SIZEY = GRID_STEP * CHAR_SIZE * 3"

section \<open>Start-up\<close>

definition main_init ::
  "('w, 'm) hwiface_t \<Rightarrow> ('w, 'm) thdiface_t \<Rightarrow> 'm vbuf_t \<Rightarrow> grid_t \<Rightarrow> 'w \<Rightarrow> ('m game_t \<times> 'w) result" where
  "main_init hw thd vbuf grid w =
     bindE (hw_init hw w) (\<lambda>(ok, w).
     bindE (if \<not> ok then hw_fatal_error hw ''system'' w else Inr w) (\<lambda>w.
     bindE (hw_display_init hw w) (\<lambda>(ok, w).
     bindE (if \<not> ok then hw_fatal_error hw ''display'' w else Inr w) (\<lambda>w.
     bindE (vbuf_init thd vbuf) (\<lambda>v.
     bindE (grid_clear grid) (\<lambda>grid.
     bindE (foldE (\<lambda>h. thd_create thd h) threads w) (\<lambda>w.
     bindE (vbuf_clear thd v) (\<lambda>v.
     let (t_last, w) = hw_millis hw w; blk = block_gamma in
     bindE (rd (blk_ptrs blk) (blk_ori blk)) (\<lambda>p.
     bindE (get_bbox p) (\<lambda>bbox.
     bindE (vbuf_set_flag thd v) (\<lambda>v.
     Inr (\<lparr>g_grid = grid, g_blk = blk, g_bbox = bbox, g_score = 0, g_t_last = t_last, g_vbuf = v\<rparr>, w))))))))))))"

section \<open>One round of the main loop\<close>

text \<open>The \<open>for\<close> loop over the rows, from the lowest one up.\<close>

definition clear_lines :: "grid_t \<times> int \<Rightarrow> (grid_t \<times> int) result" where
  "clear_lines gs =
     foldE (\<lambda>i (grid, score).
         bindE (grid_check grid i) (\<lambda>full.
         if full then bindE (grid_shift grid i) (\<lambda>grid'. Inr (grid', score + 1))
         else Inr (grid, score)))
       (rev [0..<nat GRID_ROWS]) gs"

text \<open>The code under the label \<open>collision\<close>, without the flag.\<close>

definition collision :: "logic_t \<Rightarrow> logic_t result" where
  "collision l =
     bindE (block_add (g_blk l) (g_grid l)) (\<lambda>grid.
     bindE (rd (blk_ptrs block_gamma) (blk_ori block_gamma)) (\<lambda>p.
     bindE (get_bbox p) (\<lambda>bbox.
     bindE (clear_lines (grid, g_score l)) (\<lambda>(grid, score).
     Inr (l\<lparr>g_grid := grid, g_blk := block_gamma, g_bbox := bbox, g_score := score\<rparr>)))))"

definition collision_v ::
  "bool \<Rightarrow> ('w, 'm) thdiface_t \<Rightarrow> logic_t \<Rightarrow> 'm vbuf_t \<Rightarrow> (logic_t \<times> 'm vbuf_t) result" where
  "collision_v SHIFT_CLEAR thd l v =
     bindE (collision l) (\<lambda>l'.
     bindE (if SHIFT_CLEAR then vbuf_set_flag thd v else Inr v) (\<lambda>v'. Inr (l', v')))"

definition landed :: "logic_t \<Rightarrow> bool" where
  "landed l \<longleftrightarrow> blk_x (g_blk l) + bbox_x (g_bbox l) = GRID_ROWS - bbox_sizex (g_bbox l)"

definition drop_due :: "u32 \<Rightarrow> u32 \<Rightarrow> bool" where
  "drop_due t_now t_last \<longleftrightarrow> t_now - t_last \<ge> 1000"

definition descend :: "u32 \<Rightarrow> logic_t \<Rightarrow> logic_t" where
  "descend t_now l =
     (if drop_due t_now (g_t_last l)
      then l\<lparr>g_t_last := t_now, g_blk := (g_blk l)\<lparr>blk_x := blk_x (g_blk l) + 1\<rparr>\<rparr> else l)"

text \<open>Drawing at the end of a round.\<close>

definition main_draw ::
  "bool \<Rightarrow> ('w, 'm) hwiface_t \<Rightarrow> ('w, 'm) thdiface_t \<Rightarrow> logic_t \<Rightarrow> 'm vbuf_t \<Rightarrow> 'w \<Rightarrow> ('m vbuf_t \<times> 'w) result" where
  "main_draw SITL hw thd l v w =
     bindE (block_draw thd v (g_blk l)) (\<lambda>v.
     bindE (grid_draw thd v (g_grid l)) (\<lambda>v.
     bindE (text_draw_number thd v (word_of_int (g_score l)) SCORE_X SCORE_Y) (\<lambda>v.
     bindE (bbox_stack_push (upd_stack v)
              \<lparr>bbox_x = SCORE_X, bbox_y = SCORE_Y, bbox_sizex = SCORE_SIZEX, bbox_sizey = SCORE_SIZEY\<rparr>)
       (\<lambda>(_, st).
     bindE (if SITL then draw hw (v\<lparr>upd_stack := st\<rparr>) w else Inr (v\<lparr>upd_stack := st\<rparr>, w)) (\<lambda>(v, w).
     Inr (v, hw_delay hw 10 w))))))"

definition main_round ::
  "bool \<Rightarrow> bool \<Rightarrow> ('w, 'm) hwiface_t \<Rightarrow> ('w, 'm) thdiface_t \<Rightarrow> 'm game_t \<Rightarrow> 'w \<Rightarrow> ('m game_t \<times> 'w) result" where
  "main_round SITL SHIFT_CLEAR hw thd g w =
     bindE (hw_loop hw (g_vbuf g) (g_blk g) w) (\<lambda>(v, blk, w).
     let l = (logic_t.truncate g)\<lparr>g_blk := blk\<rparr> in
     bindE (if landed l
            then bindE (collision_v SHIFT_CLEAR thd l v) (\<lambda>(l, v). Inr (l, v, w))
            else
              bindE (vbuf_clear thd v) (\<lambda>v.
              let (t_now, w) = hw_millis hw w; l' = descend t_now l in
              bindE (if drop_due t_now (g_t_last l) then update_block v (g_blk l') else Inr v) (\<lambda>v.
              bindE (block_collides (g_blk l') (g_grid l')) (\<lambda>c.
              bindE (if c then collision_v SHIFT_CLEAR thd l' v else Inr (l', v)) (\<lambda>(l, v).
              Inr (l, v, w)))))) (\<lambda>(l, v, w).
     bindE (main_draw SITL hw thd l v w) (\<lambda>(v, w).
     Inr (logic_t.extend l \<lparr>g_vbuf = v\<rparr>, w))))"

section \<open>The rules alone\<close>

text \<open>A round for the block as the buttons left it and the time read in the round.\<close>

definition logic_round :: "block_t \<Rightarrow> u32 \<Rightarrow> logic_t \<Rightarrow> logic_t result" where
  "logic_round blk t_now l =
     (let l = l\<lparr>g_blk := blk\<rparr> in
      if landed l then collision l
      else let l = descend t_now l in
           bindE (block_collides (g_blk l) (g_grid l)) (\<lambda>c. if c then collision l else Inr l))"

section \<open>Lines\<close>

lemma grid_clear_ok: "grid_wf grid \<Longrightarrow> grid_clear grid = Inr (replicate 30 0)"
  using foldE_wr_all[of grid 30 "\<lambda>_. 0"]
  by (simp add: grid_clear_def grid_wf_length map_replicate_const)

lemma grid_shift_length:
  assumes "n < length grid"
  shows "\<exists>g. grid_shift grid n = Inr g \<and> length g = length grid"
  using grid_shift_spec[OF assms] first_empty_le[of n grid] assms by auto

definition lines_step :: "nat \<Rightarrow> grid_t \<times> int \<Rightarrow> (grid_t \<times> int) result" where
  "lines_step i = (\<lambda>(grid, score).
     bindE (grid_check grid i) (\<lambda>full.
     if full then bindE (grid_shift grid i) (\<lambda>grid'. Inr (grid', score + 1)) else Inr (grid, score)))"

lemma clear_lines_eq: "clear_lines gs = foldE lines_step (rev [0..<30]) gs"
  by (simp add: clear_lines_def lines_step_def[abs_def])

lemma lines_step_full:
  "i < length g \<Longrightarrow> full_row (g ! i) \<Longrightarrow>
    lines_step i (g, s) = Inr (take (Suc (first_empty i g)) g @ drop (first_empty i g) (take i g) @
      drop (Suc i) g, s + 1)"
  by (simp add: lines_step_def grid_check_spec grid_shift_spec)

lemma lines_step_not_full:
  "i < length g \<Longrightarrow> \<not> full_row (g ! i) \<Longrightarrow> lines_step i (g, s) = Inr (g, s)"
  by (simp add: lines_step_def grid_check_spec)

lemma lines_step_ok:
  assumes "i < length g"
  shows "\<exists>g' s'. lines_step i (g, s) = Inr (g', s') \<and> length g' = length g \<and> s \<le> s' \<and> s' \<le> s + 1"
  using assms lines_step_full[OF assms, of s] lines_step_not_full[OF assms, of s]
    first_empty_le[of i g]
  by (cases "full_row (g ! i)") auto

lemma lines_loop_ok:
  assumes "\<forall>i \<in> set is. i < length g"
  shows "\<exists>g' s'. foldE lines_step is (g, s) = Inr (g', s') \<and> length g' = length g \<and>
    s \<le> s' \<and> s' \<le> s + int (length is)"
  using assms
proof (induction "is" arbitrary: g s)
  case Nil
  then show ?case by simp
next
  case (Cons i xs)
  obtain g1 s1 where 1: "lines_step i (g, s) = Inr (g1, s1)" "length g1 = length g" "s \<le> s1" "s1 \<le> s + 1"
    using lines_step_ok[of i g s] Cons.prems by auto
  obtain g2 s2 where "foldE lines_step xs (g1, s1) = Inr (g2, s2)" "length g2 = length g1" "s1 \<le> s2"
      "s2 \<le> s1 + int (length xs)"
    using Cons.IH[of g1 s1] Cons.prems 1(2) by auto
  with 1 show ?case by auto
qed

lemma clear_lines_ok:
  assumes "grid_wf grid"
  shows "\<exists>grid' s'. clear_lines (grid, s) = Inr (grid', s') \<and> grid_wf grid' \<and> s \<le> s' \<and> s' \<le> s + 30"
  using lines_loop_ok[of "rev [0..<30]" grid s] assms by (auto simp: clear_lines_eq grid_wf_length)

lemma lines_loop_none:
  assumes "\<forall>i \<in> set is. i < length g \<and> \<not> full_row (g ! i)"
  shows "foldE lines_step is (g, s) = Inr (g, s)"
  using assms by (induction "is") (auto simp: lines_step_not_full)

lemma rev_upt_split: "n < m \<Longrightarrow> rev [0..<m] = rev [Suc n..<m] @ n # rev [0..<n]"
proof -
  assume "n < m"
  then have "[0..<m] = [0..<n] @ n # [Suc n..<m]"
    by (metis less_imp_add_positive upt_add_eq_append upt_conv_Cons zero_le less_imp_le_nat le_add1
        le_add_diff_inverse)
  then show ?thesis by simp
qed

text \<open>With a single full row, the pass removes it and nothing else.\<close>

lemma clear_lines_single:
  assumes "grid_wf grid" "n < 30" "\<forall>i < 30. full_row (grid ! i) \<longleftrightarrow> i = n"
  shows "clear_lines (grid, s) =
    Inr (take (Suc (first_empty n grid)) grid @ drop (first_empty n grid) (take n grid) @
         drop (Suc n) grid, s + 1)"
proof -
  let ?z = "first_empty n grid"
  let ?g = "take (Suc ?z) grid @ drop ?z (take n grid) @ drop (Suc n) grid"
  have len: "length grid = 30"
    using assms(1) by (simp add: grid_wf_length)
  have z: "?z \<le> n"
    by (rule first_empty_le)
  have above: "foldE lines_step (rev [Suc n..<30]) (grid, s) = Inr (grid, s)"
    using assms(3) len by (intro lines_loop_none) auto
  have "\<not> full_row (?g ! i)" if "i < n" for i
  proof (cases "i \<le> ?z")
    case True
    then show ?thesis
      using that z len assms by (auto simp: nth_append)
  next
    case False
    then have "?g ! i = grid ! (i - 1)"
      using that z len assms(2) by (auto simp: nth_append)
    then show ?thesis
      using that assms(2,3) by auto
  qed
  then have below: "foldE lines_step (rev [0..<n]) (?g, s + 1) = Inr (?g, s + 1)"
    using z len assms(2) by (intro lines_loop_none) auto
  have "lines_step n (grid, s) = Inr (?g, s + 1)"
    using lines_step_full[of n grid s] assms(2,3) len by simp
  with above below show ?thesis
    by (simp add: clear_lines_eq rev_upt_split[OF assms(2)] foldE_append)
qed

section \<open>The rules keep the game well-formed\<close>

definition in_field :: "int \<Rightarrow> block_t \<Rightarrow> bool" where
  "in_field m blk \<longleftrightarrow> gamma_block blk \<and> 0 \<le> blk_x blk \<and> blk_x blk \<le> m \<and> 0 \<le> blk_y blk \<and> blk_y blk \<le> 28"

definition logic_inv :: "logic_t \<Rightarrow> bool" where
  "logic_inv l \<longleftrightarrow> grid_wf (g_grid l) \<and> in_field 26 (g_blk l) \<and> g_bbox l = gamma_bbox 0"

lemma in_field_gamma: "0 \<le> m \<Longrightarrow> in_field m block_gamma"
  by (simp add: in_field_def) (simp add: block_gamma_def)

lemma in_field_mono: "in_field m blk \<Longrightarrow> m \<le> n \<Longrightarrow> in_field n blk"
  by (auto simp: in_field_def)

lemma gamma_spawn: "rd (blk_ptrs block_gamma) (blk_ori block_gamma) = Inr [0b011, 0b001, 0b001]"
  by (simp add: block_gamma_def patterns_gamma_def ORI_NORTH_def rd_def)

lemma collision_ok:
  assumes "grid_wf (g_grid l)" "in_field 27 (g_blk l)"
  shows "\<exists>l'. collision l = Inr l' \<and> logic_inv l' \<and> g_blk l' = block_gamma \<and> g_t_last l' = g_t_last l \<and>
    g_score l \<le> g_score l'"
proof -
  obtain g where g: "block_add (g_blk l) (g_grid l) = Inr g" "grid_wf g"
    using block_add_spec[OF gamma_block_wf assms(1), of "g_blk l"] assms(2)
    unfolding in_field_def by blast
  obtain g' s' where "clear_lines (g, g_score l) = Inr (g', s')" "grid_wf g'" "g_score l \<le> s'"
    using clear_lines_ok[OF g(2), of "g_score l"] by auto
  with g show ?thesis
    using get_bbox_gamma(1) in_field_gamma[of 26]
    by (simp add: collision_def gamma_spawn logic_inv_def)
qed

lemma landed_iff: "g_bbox l = gamma_bbox 0 \<Longrightarrow> landed l \<longleftrightarrow> blk_x (g_blk l) = 27"
  by (auto simp: landed_def gamma_bbox_def)

lemma block_collides_in_field:
  assumes "grid_wf grid" "in_field 26 blk"
  shows "\<exists>c. block_collides blk grid = Inr c"
  using block_collides_spec[OF gamma_block_wf assms(1)] assms(2) by (auto simp: in_field_def)

text \<open>
  At row 27 the collision test returns only when the first two rows of the pattern touch
  something; otherwise its last read is out of bounds.
\<close>

lemma block_collides_27:
  assumes "grid_wf grid" "in_field 27 blk" "blk_x blk = 27"
  shows "block_collides blk grid = Inr True \<or> block_collides blk grid = Inl OutOfBounds"
proof (cases "\<exists>i < 2. \<exists>j. bit (cur_pattern blk ! i) j \<and> cell grid (28 + i) (nat (blk_y blk) + j)")
  case False
  then show ?thesis
    using block_collides_bottom[OF gamma_block_wf assms(1,3)] assms(2) by (auto simp: in_field_def)
next
  case True
  then show ?thesis
    using block_collides_touch[OF gamma_block_wf assms(1,3)] assms(2) by (auto simp: in_field_def)
qed

lemma descend_in_field:
  assumes "in_field 26 (g_blk l)"
  shows "in_field 27 (g_blk (descend t l))" "g_grid (descend t l) = g_grid l"
    "g_bbox (descend t l) = g_bbox l" "g_score (descend t l) = g_score l"
    "\<not> in_field 26 (g_blk (descend t l)) \<Longrightarrow> blk_x (g_blk (descend t l)) = 27"
  using assms by (auto simp: descend_def in_field_def gamma_block_def split: if_splits)

lemma logic_round_ok:
  assumes "logic_inv l" "in_field 27 blk"
  shows "(\<exists>l'. logic_round blk t l = Inr l' \<and> logic_inv l' \<and> g_score l \<le> g_score l') \<or>
    logic_round blk t l = Inl OutOfBounds"
proof (cases "blk_x blk = 27")
  case True
  then show ?thesis
    using assms collision_ok[of "l\<lparr>g_blk := blk\<rparr>"]
    by (auto simp: logic_round_def logic_inv_def landed_iff)
next
  case False
  let ?l = "l\<lparr>g_blk := blk\<rparr>"
  let ?d = "descend t ?l"
  have blk: "in_field 26 (g_blk ?l)"
    using assms(2) False by (auto simp: in_field_def)
  note d = descend_in_field[OF blk, of t]
  have round: "logic_round blk t l =
      bindE (block_collides (g_blk ?d) (g_grid ?d)) (\<lambda>c. if c then collision ?d else Inr ?d)"
    using assms(1) False by (simp add: logic_round_def logic_inv_def landed_iff Let_def)
  have wf: "grid_wf (g_grid ?d)" "g_bbox ?d = gamma_bbox 0" "g_score ?d = g_score l"
    using assms(1) d by (auto simp: logic_inv_def)
  obtain l' where l': "collision ?d = Inr l'" "logic_inv l'" "g_score ?d \<le> g_score l'"
    using collision_ok[OF wf(1) d(1)] by auto
  show ?thesis
  proof (cases "in_field 26 (g_blk ?d)")
    case True
    then obtain c where "block_collides (g_blk ?d) (g_grid ?d) = Inr c"
      using block_collides_in_field[OF wf(1)] by blast
    then show ?thesis
      using round l' wf True by (cases c) (auto simp: logic_inv_def)
  next
    case False
    then show ?thesis
      using block_collides_27[OF wf(1) d(1) d(5)] round l' wf(3) by auto
  qed
qed

section \<open>The hardware interface\<close>

definition box_ok :: "bbox_t \<Rightarrow> bool" where
  "box_ok b \<longleftrightarrow> 0 \<le> bbox_x b \<and> 0 \<le> bbox_y b \<and> 0 \<le> bbox_sizex b \<and> 0 \<le> bbox_sizey b"

definition boxes_ok :: "'m vbuf_t \<Rightarrow> bool" where
  "boxes_ok v \<longleftrightarrow> (\<forall>b \<in> set (stack_list (upd_stack v)). box_ok b)"

definition vb_inv :: "('m \<Rightarrow> bool) \<Rightarrow> 'm vbuf_t \<Rightarrow> bool" where
  "vb_inv free v \<longleftrightarrow> vbuf_wf v \<and> free (vb_mtx v) \<and> boxes_ok v"

definition game_inv :: "('m \<Rightarrow> bool) \<Rightarrow> 'm game_t \<Rightarrow> bool" where
  "game_inv free g \<longleftrightarrow> logic_inv (logic_t.truncate g) \<and> vb_inv free (g_vbuf g)"

lemma draws_vb_inv: "vb_inv free v \<Longrightarrow> draws free v v' S \<Longrightarrow> vb_inv free v'"
  by (simp add: vb_inv_def draws_def boxes_ok_def)

lemma push_ok:
  assumes "vbuf_wf v" "boxes_ok v" "box_ok b"
  shows "\<exists>ok st. bbox_stack_push (upd_stack v) b = Inr (ok, st) \<and> vbuf_wf (v\<lparr>upd_stack := st\<rparr>) \<and>
    boxes_ok (v\<lparr>upd_stack := st\<rparr>)"
proof -
  have "stack_wf (upd_stack v)"
    using assms(1) by (simp add: vbuf_wf_def)
  then obtain st where st: "bbox_stack_push (upd_stack v) b =
      Inr (length (stack_list (upd_stack v)) < STACKSIZE, st)" "stack_wf st"
      "stack_list st = take STACKSIZE (stack_list (upd_stack v) @ [b])"
    using bs.push_returns by blast
  then have "set (stack_list st) \<subseteq> set (stack_list (upd_stack v)) \<union> {b}"
    using set_take_subset[of STACKSIZE "stack_list (upd_stack v) @ [b]"] by simp
  with st assms show ?thesis
    by (auto simp: vbuf_wf_def boxes_ok_def)
qed

lemma update_mask_ok: "box_ok (update_mask blk)"
  by (simp add: update_mask_def box_ok_def Let_def BLOCK_HEIGHT_def)

lemma update_block_ok:
  assumes "vb_inv free v"
  shows "\<exists>v'. update_block v blk = Inr v' \<and> vb_inv free v' \<and> vb_buf v' = vb_buf v"
proof -
  obtain ok st where "bbox_stack_push (upd_stack v) (update_mask blk) = Inr (ok, st)"
      "vbuf_wf (v\<lparr>upd_stack := st\<rparr>)" "boxes_ok (v\<lparr>upd_stack := st\<rparr>)"
    using push_ok[OF _ _ update_mask_ok] assms by (metis vb_inv_def)
  with assms show ?thesis by (simp add: update_block_def vb_inv_def)
qed

text \<open>
  What a round relies on of a platform: its mutex (\<open>thd_mutex\<close>), reading the buttons moves
  a block of the field by at most one row and keeps it in the columns, screen updates of
  well-formed boxes return and depend on the pixels alone, and the clock and delays keep the platform's state well-formed.
  Reading input may end the program.
\<close>

locale game_hw = thd_mutex thd raw free held
  for thd :: "('w, 'm) thdiface_t" and raw free held +
  fixes hw :: "('w, 'm) hwiface_t"
    and world_ok :: "'w \<Rightarrow> bool"
  assumes loop: "world_ok w \<Longrightarrow> vb_inv free v \<Longrightarrow> in_field m blk \<Longrightarrow> hw_loop hw v blk w = Inr (v', blk', w') \<Longrightarrow>
      world_ok w' \<and> vb_inv free v' \<and> in_field (m + 1) blk' \<and> blk_x blk \<le> blk_x blk'"
    and loop_exit: "world_ok w \<Longrightarrow> vb_inv free v \<Longrightarrow> in_field m blk \<Longrightarrow> hw_loop hw v blk w = Inl e \<Longrightarrow> \<exists>n. e = Exited n"
    and millis: "world_ok w \<Longrightarrow> world_ok (snd (hw_millis hw w))"
    and delay: "world_ok w \<Longrightarrow> world_ok (hw_delay hw t w)"
    and update_rect: "world_ok w \<Longrightarrow> vbuf_wf v \<Longrightarrow> box_ok b \<Longrightarrow>
      \<exists>w'. hw_display_update_rect hw v b w = Inr w' \<and> world_ok w'"
    and update_rect_pixels: "vb_buf v = vb_buf v' \<Longrightarrow> hw_display_update_rect hw v b w = hw_display_update_rect hw v' b w"
    and update_all_pixels: "vb_buf v = vb_buf v' \<Longrightarrow> hw_display_update hw v w = hw_display_update hw v' w"
    and update_all: "world_ok w \<Longrightarrow> vbuf_wf v \<Longrightarrow> \<exists>w'. hw_display_update hw v w = Inr w' \<and> world_ok w'"
begin

text \<open>The pending updates are sent with the latest one first.\<close>

lemma draw_loop_ok:
  assumes "vbuf_wf v" "boxes_ok v" "world_ok w"
  shows "\<exists>st w'. draw_loop hw v w = Inr (v\<lparr>upd_stack := st\<rparr>, w') \<and> stack_wf st \<and> stk_size st = 0 \<and> world_ok w' \<and>
    foldE (hw_display_update_rect hw v) (rev (stack_list (upd_stack v))) w = Inr w'"
  using assms
proof (induction "stk_size (upd_stack v)" arbitrary: v w)
  case 0
  then have "stack_list (upd_stack v) = []" "stack_wf (upd_stack v)" "v\<lparr>upd_stack := upd_stack v\<rparr> = v"
    by (simp_all add: stack_list_def vbuf_wf_def)
  with 0 show ?case by (auto simp: draw_loop.simps[of hw v w] intro!: exI[of _ "upd_stack v"])
next
  case (Suc n)
  let ?s = "upd_stack v" and ?z = "\<lparr>bbox_x = 0, bbox_y = 0, bbox_sizex = 0, bbox_sizey = 0\<rparr>"
  have wf: "stack_wf ?s" and ne: "stack_list ?s \<noteq> []"
    using Suc by (auto simp: vbuf_wf_def stack_list_def stack_wf_def STACKSIZE_def)
  obtain st where st: "bbox_stack_pop ?s ?z = Inr (True, last (stack_list ?s), st)" "stack_wf st"
      "stack_list st = butlast (stack_list ?s)"
    using bs.pop_some[OF wf ne] by blast
  have size: "n = stk_size st"
    using st(1) Suc.hyps(2) by (auto simp: bbox_stack_pop_def bindE_eq_Inr)
  have box: "box_ok (last (stack_list ?s))"
    using Suc.prems(2) ne by (simp add: boxes_ok_def)
  let ?v = "v\<lparr>upd_stack := st\<rparr>"
  have v: "vbuf_wf ?v" "boxes_ok ?v"
    using Suc.prems(1,2) st by (auto simp: vbuf_wf_def boxes_ok_def dest: in_set_butlastD)
  obtain w1 where w1: "hw_display_update_rect hw ?v (last (stack_list ?s)) w = Inr w1" "world_ok w1"
    using update_rect[OF Suc.prems(3) v(1) box] by blast
  obtain st' w' where d: "draw_loop hw ?v w1 = Inr (?v\<lparr>upd_stack := st'\<rparr>, w')" "stack_wf st'" "stk_size st' = 0" "world_ok w'"
      "foldE (hw_display_update_rect hw ?v) (rev (stack_list st)) w1 = Inr w'"
    using Suc.hyps(1)[of ?v w1] v w1(2) size by auto
  have eq: "hw_display_update_rect hw ?v = hw_display_update_rect hw v"
    by (intro ext update_rect_pixels) simp
  have "stack_list ?s = stack_list st @ [last (stack_list ?s)]"
    using ne st(3) by simp
  then have "rev (stack_list ?s) = last (stack_list ?s) # rev (stack_list st)"
    by (metis rev.simps(2) rev_rev_ident)
  then have "foldE (hw_display_update_rect hw v) (rev (stack_list ?s)) w =
      bindE (hw_display_update_rect hw v (last (stack_list ?s)) w) (foldE (hw_display_update_rect hw v) (rev (stack_list st)))"
    by (simp only: foldE.simps)
  then have "foldE (hw_display_update_rect hw v) (rev (stack_list ?s)) w = Inr w'"
    using w1(1) d(5) unfolding eq by simp
  then show ?case
    using d st(1) w1(1) Suc.hyps(2) by (auto simp: draw_loop.simps[of hw v w])
qed

lemma draw_ok:
  assumes "vbuf_wf v" "boxes_ok v" "world_ok w"
  shows "\<exists>v' w'. draw hw v w = Inr (v', w') \<and> vbuf_wf v' \<and> boxes_ok v' \<and> vb_mtx v' = vb_mtx v \<and> vb_buf v' = vb_buf v \<and>
    world_ok w' \<and>
    (if clear_flag v then hw_display_update hw v w = Inr w' \<and> v' = v\<lparr>clear_flag := False\<rparr>
     else foldE (hw_display_update_rect hw v) (rev (stack_list (upd_stack v))) w = Inr w' \<and>
       stack_list (upd_stack v') = [] \<and> \<not> clear_flag v')"
proof (cases "clear_flag v")
  case True
  then show ?thesis
    using update_all[OF assms(3,1)] assms by (auto simp: draw_def boxes_ok_def)
next
  case False
  then show ?thesis
    using draw_loop_ok[OF assms] assms(1) by (auto simp: draw_def boxes_ok_def stack_list_def vbuf_wf_def)
qed

lemma main_draw_ok:
  assumes "vb_inv free v" "logic_inv l" "world_ok w"
  shows "\<exists>v' w'. main_draw SITL hw thd l v w = Inr (v', w') \<and> vb_inv free v' \<and> world_ok w'"
proof -
  have b: "block_wf (g_blk l)" "0 \<le> blk_x (g_blk l)" "0 \<le> blk_y (g_blk l)" "grid_wf (g_grid l)"
    using assms(2) gamma_block_wf by (auto simp: logic_inv_def in_field_def)
  have v: "vbuf_wf v" "free (vb_mtx v)"
    using assms(1) by (auto simp: vb_inv_def)
  have sc: "0 \<le> SCORE_X" "0 \<le> SCORE_Y" "8 dvd SCORE_X" "8 dvd SCORE_Y"
    by (simp_all add: SCORE_X_def SCORE_Y_def)
  obtain v1 S1 where v1: "block_draw thd v (g_blk l) = Inr v1" "draws free v v1 S1"
    using block_draw_draws[OF v b(1-3)] by blast
  obtain v2 S2 where v2: "grid_draw thd v1 (g_grid l) = Inr v2" "draws free v1 v2 S2"
    using grid_draw_draws[OF _ _ b(4)] draws_wf[OF v1(2)] by blast
  obtain v3 S3 where v3: "text_draw_number thd v2 (word_of_int (g_score l)) SCORE_X SCORE_Y = Inr v3"
      "draws free v2 v3 S3"
    using text_draw_number_draws[OF _ _ sc] draws_wf[OF v2(2)] by blast
  have inv3: "vb_inv free v3"
    using assms(1) v1(2) v2(2) v3(2) draws_vb_inv by blast
  let ?b = "\<lparr>bbox_x = SCORE_X, bbox_y = SCORE_Y, bbox_sizex = SCORE_SIZEX, bbox_sizey = SCORE_SIZEY\<rparr>"
  have "box_ok ?b"
    by (simp add: box_ok_def SCORE_X_def SCORE_Y_def SCORE_SIZEX_def SCORE_SIZEY_def CHAR_SIZE_def)
  then obtain ok st where st: "bbox_stack_push (upd_stack v3) ?b = Inr (ok, st)"
      "vbuf_wf (v3\<lparr>upd_stack := st\<rparr>)" "boxes_ok (v3\<lparr>upd_stack := st\<rparr>)"
    using push_ok inv3 by (metis vb_inv_def)
  obtain v4 w4 where "draw hw (v3\<lparr>upd_stack := st\<rparr>) w = Inr (v4, w4)" "vbuf_wf v4" "boxes_ok v4"
      "vb_mtx v4 = vb_mtx v3" "world_ok w4"
    using draw_ok[OF st(2,3) assms(3)] by auto
  then show ?thesis
    using v1(1) v2(1) v3(1) st inv3 delay assms(3) by (auto simp: main_draw_def vb_inv_def)
qed

lemma collision_v_ok:
  assumes "vb_inv free v" "collision l = Inr l'"
  shows "\<exists>v'. collision_v SHIFT_CLEAR thd l v = Inr (l', v') \<and> vb_inv free v'"
  using assms vbuf_set_flag_ok[of v]
  by (cases SHIFT_CLEAR) (auto simp: collision_v_def vb_inv_def boxes_ok_def)

lemma main_round_middle:
  assumes inv: "game_inv free g" and w1: "world_ok w1" and v: "vb_inv free v" and blk: "in_field 27 blk"
    and round: "logic_round blk (fst (hw_millis hw w1)) (logic_t.truncate g) = Inr l'"
  defines "l \<equiv> (logic_t.truncate g)\<lparr>g_blk := blk\<rparr>"
  shows "\<exists>v' w'. (if landed l
            then bindE (collision_v SC thd l v) (\<lambda>(l, v). Inr (l, v, w1))
            else
              bindE (vbuf_clear thd v) (\<lambda>v.
              let (t_now, w) = hw_millis hw w1; l' = descend t_now l in
              bindE (if drop_due t_now (g_t_last l) then update_block v (g_blk l') else Inr v) (\<lambda>v.
              bindE (block_collides (g_blk l') (g_grid l')) (\<lambda>c.
              bindE (if c then collision_v SC thd l' v else Inr (l', v)) (\<lambda>(l, v).
              Inr (l, v, w)))))) = Inr (l', v', w') \<and> vb_inv free v' \<and> world_ok w'"
proof (cases "landed l")
  case True
  then show ?thesis
    using collision_v_ok[OF v, of l l' SC] round w1
    by (auto simp: logic_round_def l_def Let_def)
next
  case False
  obtain t w2 where t: "hw_millis hw w1 = (t, w2)" "world_ok w2"
    using millis[OF w1] by (cases "hw_millis hw w1") auto
  obtain v1 where v1: "vbuf_clear thd v = Inr v1" "vb_inv free v1"
    using vbuf_clear_ok[of v] v by (auto simp: vb_inv_def boxes_ok_def)
  obtain v2 where v2: "(if drop_due t (g_t_last l) then update_block v1 (g_blk (descend t l)) else Inr v1) = Inr v2"
      "vb_inv free v2"
    using update_block_ok[OF v1(2), of "g_blk (descend t l)"] v1(2)
    by (cases "drop_due t (g_t_last l)") auto
  obtain c where c: "block_collides (g_blk (descend t l)) (g_grid (descend t l)) = Inr c"
      "(if c then collision (descend t l) else Inr (descend t l)) = Inr l'"
  proof -
    have "bindE (block_collides (g_blk (descend t l)) (g_grid (descend t l)))
        (\<lambda>c. if c then collision (descend t l) else Inr (descend t l)) = Inr l'"
      using round False unfolding logic_round_def l_def Let_def t(1) fst_conv by simp
    then show ?thesis
      using that unfolding bindE_eq_Inr by blast
  qed
  obtain v3 where "(if c then collision_v SC thd (descend t l) v2 else Inr (descend t l, v2)) = Inr (l', v3)"
      "vb_inv free v3"
    using collision_v_ok[OF v2(2), of "descend t l" l' SC] c(2) v2(2) by (cases c) auto
  then show ?thesis
    using False t v1(1) v2(1) c(1) by simp
qed

lemma main_round_refines:
  assumes "game_inv free g" "world_ok w" "hw_loop hw (g_vbuf g) (g_blk g) w = Inr (v, blk, w1)"
    and "logic_round blk (fst (hw_millis hw w1)) (logic_t.truncate g) = Inr l'"
  shows "\<exists>g' w'. main_round SITL SC hw thd g w = Inr (g', w') \<and> logic_t.truncate g' = l' \<and>
    game_inv free g' \<and> world_ok w'"
proof -
  have inv: "logic_inv (logic_t.truncate g)" "vb_inv free (g_vbuf g)"
    using assms(1) by (auto simp: game_inv_def)
  have "in_field 26 (g_blk g)"
    using inv(1) by (simp add: logic_inv_def logic_t.defs)
  then have l: "world_ok w1" "vb_inv free v" "in_field 27 blk"
    using loop[OF assms(2) inv(2) _ assms(3), of 26] by auto
  have l': "logic_inv l'"
    using logic_round_ok[OF inv(1) l(3), of "fst (hw_millis hw w1)"] assms(4) by auto
  obtain v2 w2 where mid: "vb_inv free v2" "world_ok w2"
    "(let l = (logic_t.truncate g)\<lparr>g_blk := blk\<rparr> in
      if landed l
            then bindE (collision_v SC thd l v) (\<lambda>(l, v). Inr (l, v, w1))
            else
              bindE (vbuf_clear thd v) (\<lambda>v.
              let (t_now, w) = hw_millis hw w1; l' = descend t_now l in
              bindE (if drop_due t_now (g_t_last l) then update_block v (g_blk l') else Inr v) (\<lambda>v.
              bindE (block_collides (g_blk l') (g_grid l')) (\<lambda>c.
              bindE (if c then collision_v SC thd l' v else Inr (l', v)) (\<lambda>(l, v).
              Inr (l, v, w)))))) = Inr (l', v2, w2)"
    using main_round_middle[OF assms(1) l assms(4), of SC] unfolding Let_def by blast
  obtain v3 w3 where d: "main_draw SITL hw thd l' v2 w2 = Inr (v3, w3)" "vb_inv free v3" "world_ok w3"
    using main_draw_ok[OF mid(1) l' mid(2)] by blast
  let ?g = "logic_t.extend l' \<lparr>g_vbuf = v3\<rparr>"
  have "main_round SITL SC hw thd g w = Inr (?g, w3)"
    unfolding main_round_def assms(3) using mid(3) d(1) by (simp add: Let_def)
  moreover have "logic_t.truncate ?g = l'" "g_vbuf ?g = v3"
    by (simp_all add: logic_t.defs)
  ultimately show ?thesis
    using l' d by (auto simp: game_inv_def)
qed

text \<open>A round goes wrong exactly where its rules do.\<close>

lemma main_round_fails:
  assumes "game_inv free g" "world_ok w" "hw_loop hw (g_vbuf g) (g_blk g) w = Inr (v, blk, w1)"
    and "logic_round blk (fst (hw_millis hw w1)) (logic_t.truncate g) = Inl e"
  shows "main_round SITL SC hw thd g w = Inl e"
proof -
  let ?l = "(logic_t.truncate g)\<lparr>g_blk := blk\<rparr>"
  have inv: "logic_inv (logic_t.truncate g)" "vb_inv free (g_vbuf g)"
    using assms(1) by (auto simp: game_inv_def)
  then have "in_field 26 (g_blk g)"
    by (simp add: logic_inv_def logic_t.defs)
  then have l: "vb_inv free v" "in_field 27 blk"
    using loop[OF assms(2) inv(2) _ assms(3), of 26] by auto
  obtain t w2 where t: "hw_millis hw w1 = (t, w2)"
    by (cases "hw_millis hw w1")
  let ?d = "descend t ?l"
  have g: "grid_wf (g_grid ?l)" "g_bbox ?l = gamma_bbox 0"
    using inv(1) by (auto simp: logic_inv_def)
  have nl: "\<not> landed ?l"
    using assms(4) collision_ok[of ?l] g(1) l(2) by (auto simp: logic_round_def Let_def)
  then have f26: "in_field 26 (g_blk ?l)"
    using l(2) landed_iff[OF g(2)] by (auto simp: in_field_def)
  obtain l' where "collision ?d = Inr l'"
    using collision_ok[of ?d] descend_in_field[OF f26, of t] g(1) by auto
  then have c: "block_collides (g_blk ?d) (g_grid ?d) = Inl e"
    using assms(4) nl t
    by (cases "block_collides (g_blk ?d) (g_grid ?d)") (auto simp: logic_round_def Let_def split: if_splits)
  obtain v1 where v1: "vbuf_clear thd v = Inr v1" "vb_inv free v1"
    using vbuf_clear_ok[of v] l(1) by (auto simp: vb_inv_def boxes_ok_def)
  obtain v2 where "(if drop_due t (g_t_last ?l) then update_block v1 (g_blk ?d) else Inr v1) = Inr v2"
    using update_block_ok[OF v1(2), of "g_blk ?d"] by (cases "drop_due t (g_t_last ?l)") auto
  then show ?thesis
    using nl t v1(1) c assms(3) by (simp add: main_round_def Let_def)
qed

lemma main_round_safe:
  assumes "game_inv free g" "world_ok w"
  shows "(\<exists>g' w'. main_round SITL SC hw thd g w = Inr (g', w') \<and> game_inv free g' \<and> world_ok w' \<and>
      g_score g \<le> g_score g') \<or>
    main_round SITL SC hw thd g w = Inl OutOfBounds \<or> (\<exists>n. main_round SITL SC hw thd g w = Inl (Exited n))"
proof (cases "hw_loop hw (g_vbuf g) (g_blk g) w")
  case (Inl e)
  have "in_field 26 (g_blk g)" "vb_inv free (g_vbuf g)"
    using assms(1) by (auto simp: game_inv_def logic_inv_def logic_t.defs)
  then show ?thesis
    using loop_exit[OF assms(2) _ _ Inl] Inl by (auto simp: main_round_def)
next
  case (Inr r)
  obtain v blk w1 where r: "r = (v, blk, w1)"
    by (cases r)
  have inv: "logic_inv (logic_t.truncate g)" "in_field 26 (g_blk g)" "vb_inv free (g_vbuf g)"
    using assms(1) by (auto simp: game_inv_def logic_inv_def logic_t.defs)
  have blk: "in_field 27 blk"
    using loop[OF assms(2) inv(3,2)] Inr r by auto
  note step = main_round_refines[OF assms Inr[unfolded r]] main_round_fails[OF assms Inr[unfolded r]]
  have trunc: "g_score (logic_t.truncate h) = g_score h" for h :: "'b game_t"
    by (simp add: logic_t.defs)
  show ?thesis
    using logic_round_ok[OF inv(1) blk, of "fst (hw_millis hw w1)"]
  proof
    assume "logic_round blk (fst (hw_millis hw w1)) (logic_t.truncate g) = Inl OutOfBounds"
    then show ?thesis using step(2) by blast
  next
    assume "\<exists>l'. logic_round blk (fst (hw_millis hw w1)) (logic_t.truncate g) = Inr l' \<and> logic_inv l' \<and>
      g_score (logic_t.truncate g) \<le> g_score l'"
    then show ?thesis using step(1) trunc by metis
  qed
qed

end

end
