(* ===== verification/Ch_Kernel.thy ===== *)
theory Ch_Kernel
  imports Prelude "HOL-Library.Multiset"
begin

text \<open>
  The kernel state of ChibiOS/RT and its scheduler: \<^verbatim>\<open>chschd.c\<close> with the thread queues of
  \<^verbatim>\<open>chlists.h\<close>, in the configuration of the firmware's \<^verbatim>\<open>chconf.h\<close> (one core, no time
  quantum, debug checks and assertions on, every optional subsystem on). Threads and
  synchronisation objects are named by numbers, the address of the structure in the C
  code; a circular doubly linked queue is the list of its elements, head first. A failed
  \<open>chDbgAssert\<close> is \<open>Halted\<close> with its message. A call that switches threads returns the
  state in which the other thread runs; what the sleeping thread does once it is resumed
  is a definition of its own.
\<close>

section \<open>State\<close>

datatype tstate_t =
    CH_STATE_READY | CH_STATE_CURRENT | CH_STATE_WTSTART | CH_STATE_SUSPENDED | CH_STATE_QUEUED
  | CH_STATE_WTSEM | CH_STATE_WTMTX | CH_STATE_WTCOND | CH_STATE_SLEEPING | CH_STATE_WTEXIT
  | CH_STATE_WTOREVT | CH_STATE_WTANDEVT | CH_STATE_SNDMSGQ | CH_STATE_SNDMSG | CH_STATE_WTMSG
  | CH_STATE_FINAL

type_synonym tid = nat
type_synonym msg_t = int

definition MSG_OK :: msg_t where "MSG_OK = 0"
definition MSG_TIMEOUT :: msg_t where "MSG_TIMEOUT = -1"
definition MSG_RESET :: msg_t where "MSG_RESET = -2"

definition IDLEPRIO :: nat where "IDLEPRIO = 1"
definition LOWPRIO :: nat where "LOWPRIO = 2"
definition NORMALPRIO :: nat where "NORMALPRIO = 128"
definition HIGHPRIO :: nat where "HIGHPRIO = 255"

text \<open>
  The union \<open>u\<close> of a thread by the member written last: the wake-up message, the object
  the thread waits on, the reference it is suspended on, the message it sends, the events it
  waits for, or the code it ended with.
\<close>

datatype tunion =
    RdyMsg msg_t
  | WtMtx nat
  | WtSem nat
  | WtCond nat
  | WtRef nat
  | SentMsg msg_t
  | EwMask u32
  | ExitCode msg_t

text \<open>
  A thread: \<open>hdr.pqueue.prio\<close>, \<open>realprio\<close>, \<open>state\<close>, \<open>u\<close>, the stack of owned mutexes
  (\<open>mtxlist\<close> and the \<open>next\<close> fields of the mutexes on it), the pending events and the
  threads that wait for it to take their message.
\<close>

record thread_t =
  t_prio :: nat
  t_realprio :: nat
  t_state :: tstate_t
  t_u :: tunion
  t_mtxlist :: "nat list"
  t_epending :: u32
  t_msgqueue :: "tid list"

record mutex_t =
  m_queue :: "tid list"
  m_owner :: "tid option"

record semaphore_t =
  s_queue :: "tid list"
  s_cnt :: int

text \<open>
  \<open>k_tids\<close> are the threads that exist; \<open>k_ready\<close> is the ready list \<open>rlist.pqueue\<close>,
  \<open>k_cur\<close> the running thread, \<open>k_ref\<close> the thread references by address, \<open>k_queue\<close> the
  threads queues, \<open>k_timer\<close> the delay of the timer a thread sleeping with a timeout has armed.
\<close>

record kernel_t =
  k_tids :: "tid list"
  k_thr :: "tid \<Rightarrow> thread_t"
  k_cur :: tid
  k_ready :: "tid list"
  k_idle :: tid
  k_mtx :: "nat \<Rightarrow> mutex_t"
  k_sem :: "nat \<Rightarrow> semaphore_t"
  k_cond :: "nat \<Rightarrow> tid list"
  k_ref :: "nat \<Rightarrow> tid option"
  k_queue :: "nat \<Rightarrow> tid list"
  k_timer :: "tid \<Rightarrow> u32 option"

abbreviation prio :: "kernel_t \<Rightarrow> tid \<Rightarrow> nat" where
  "prio k t \<equiv> t_prio (k_thr k t)"

abbreviation tstate :: "kernel_t \<Rightarrow> tid \<Rightarrow> tstate_t" where
  "tstate k t \<equiv> t_state (k_thr k t)"

definition upd_thr :: "tid \<Rightarrow> (thread_t \<Rightarrow> thread_t) \<Rightarrow> kernel_t \<Rightarrow> kernel_t" where
  "upd_thr t f k = k\<lparr>k_thr := (k_thr k)(t := f (k_thr k t))\<rparr>"

definition upd_mtx :: "nat \<Rightarrow> (mutex_t \<Rightarrow> mutex_t) \<Rightarrow> kernel_t \<Rightarrow> kernel_t" where
  "upd_mtx m f k = k\<lparr>k_mtx := (k_mtx k)(m := f (k_mtx k m))\<rparr>"

definition upd_sem :: "nat \<Rightarrow> (semaphore_t \<Rightarrow> semaphore_t) \<Rightarrow> kernel_t \<Rightarrow> kernel_t" where
  "upd_sem s f k = k\<lparr>k_sem := (k_sem k)(s := f (k_sem k s))\<rparr>"

definition set_state :: "tid \<Rightarrow> tstate_t \<Rightarrow> kernel_t \<Rightarrow> kernel_t" where
  "set_state t s = upd_thr t (\<lambda>th. th\<lparr>t_state := s\<rparr>)"

definition set_u :: "tid \<Rightarrow> tunion \<Rightarrow> kernel_t \<Rightarrow> kernel_t" where
  "set_u t u = upd_thr t (\<lambda>th. th\<lparr>t_u := u\<rparr>)"

definition set_prio :: "tid \<Rightarrow> nat \<Rightarrow> kernel_t \<Rightarrow> kernel_t" where
  "set_prio t p = upd_thr t (\<lambda>th. th\<lparr>t_prio := p\<rparr>)"

section \<open>Priority-ordered queues\<close>

text \<open>
  Insertion scans from the head while the elements have a priority greater than (ahead) or
  not less than (behind) the new one's. The header of the ready list has priority 0 and
  stops the scan, so threads have positive priorities.
\<close>

definition ch_pqueue_insert_behind :: "(tid \<Rightarrow> nat) \<Rightarrow> tid \<Rightarrow> tid list \<Rightarrow> tid list" where
  "ch_pqueue_insert_behind pr t q =
     takeWhile (\<lambda>u. pr u \<ge> pr t) q @ t # dropWhile (\<lambda>u. pr u \<ge> pr t) q"

definition ch_pqueue_insert_ahead :: "(tid \<Rightarrow> nat) \<Rightarrow> tid \<Rightarrow> tid list \<Rightarrow> tid list" where
  "ch_pqueue_insert_ahead pr t q =
     takeWhile (\<lambda>u. pr u > pr t) q @ t # dropWhile (\<lambda>u. pr u > pr t) q"

definition ch_sch_prio_insert :: "(tid \<Rightarrow> nat) \<Rightarrow> tid \<Rightarrow> tid list \<Rightarrow> tid list" where
  "ch_sch_prio_insert pr t q =
     takeWhile (\<lambda>u. pr u \<ge> pr t) q @ t # dropWhile (\<lambda>u. pr u \<ge> pr t) q"

definition ch_queue_dequeue :: "tid \<Rightarrow> tid list \<Rightarrow> tid list" where
  "ch_queue_dequeue t q = remove1 t q"

definition firstprio :: "kernel_t \<Rightarrow> nat" where
  "firstprio k = (case k_ready k of [] \<Rightarrow> 0 | t # _ \<Rightarrow> prio k t)"

section \<open>The scheduler\<close>

definition sch_ready_behind :: "tid \<Rightarrow> kernel_t \<Rightarrow> kernel_t result" where
  "sch_ready_behind t k =
     bindE (assertE (tstate k t \<noteq> CH_STATE_READY \<and> tstate k t \<noteq> CH_STATE_FINAL) (Halted ''invalid state'')) (\<lambda>_.
     let k' = set_state t CH_STATE_READY k in
     Inr (k'\<lparr>k_ready := ch_pqueue_insert_behind (prio k') t (k_ready k')\<rparr>))"

definition sch_ready_ahead :: "tid \<Rightarrow> kernel_t \<Rightarrow> kernel_t result" where
  "sch_ready_ahead t k =
     bindE (assertE (tstate k t \<noteq> CH_STATE_READY \<and> tstate k t \<noteq> CH_STATE_FINAL) (Halted ''invalid state'')) (\<lambda>_.
     let k' = set_state t CH_STATE_READY k in
     Inr (k'\<lparr>k_ready := ch_pqueue_insert_ahead (prio k') t (k_ready k')\<rparr>))"

text \<open>
  The first thread of the ready list becomes current. On an empty list the code would
  take the header for a thread.
\<close>

definition pick_next :: "kernel_t \<Rightarrow> kernel_t result" where
  "pick_next k =
     (case k_ready k of
        [] \<Rightarrow> Inl OutOfBounds
      | ntp # q \<Rightarrow> Inr (set_state ntp CH_STATE_CURRENT (k\<lparr>k_ready := q, k_cur := ntp\<rparr>)))"

definition sch_reschedule_behind :: "kernel_t \<Rightarrow> kernel_t result" where
  "sch_reschedule_behind k =
     (let otp = k_cur k in bindE (pick_next k) (\<lambda>k. sch_ready_behind otp k))"

definition sch_reschedule_ahead :: "kernel_t \<Rightarrow> kernel_t result" where
  "sch_reschedule_ahead k =
     (let otp = k_cur k in bindE (pick_next k) (\<lambda>k. sch_ready_ahead otp k))"

definition chSchReadyI :: "tid \<Rightarrow> kernel_t \<Rightarrow> kernel_t result" where
  "chSchReadyI t k = sch_ready_behind t k"

definition chSchGoSleepS :: "tstate_t \<Rightarrow> kernel_t \<Rightarrow> kernel_t result" where
  "chSchGoSleepS newstate k =
     (let otp = k_cur k in
      bindE (assertE (otp \<noteq> k_idle k) (Halted ''sleeping in idle thread'')) (\<lambda>_.
      pick_next (set_state otp newstate k)))"

definition chSchWakeupS :: "tid \<Rightarrow> msg_t \<Rightarrow> kernel_t \<Rightarrow> kernel_t result" where
  "chSchWakeupS ntp msg k =
     (let otp = k_cur k in
      bindE (assertE (k_ready k = [] \<or> prio k otp \<ge> firstprio k) (Halted ''priority order violation'')) (\<lambda>_.
      let k = set_u ntp (RdyMsg msg) k in
      if prio k ntp \<le> prio k otp then sch_ready_behind ntp k
      else bindE (sch_ready_ahead otp k) (\<lambda>k.
           Inr (set_state ntp CH_STATE_CURRENT (k\<lparr>k_cur := ntp\<rparr>)))))"

definition chSchRescheduleS :: "kernel_t \<Rightarrow> kernel_t result" where
  "chSchRescheduleS k = (if firstprio k > prio k (k_cur k) then sch_reschedule_ahead k else Inr k)"

definition chSchIsPreemptionRequired :: "kernel_t \<Rightarrow> bool" where
  "chSchIsPreemptionRequired k \<longleftrightarrow> firstprio k > prio k (k_cur k)"

definition chSchDoPreemption :: "kernel_t \<Rightarrow> kernel_t result" where
  "chSchDoPreemption k =
     (let otp = k_cur k in bindE (pick_next k) (\<lambda>k. sch_ready_ahead otp k))"

definition chSchPreemption :: "kernel_t \<Rightarrow> kernel_t result" where
  "chSchPreemption k =
     (let p1 = firstprio k; p2 = prio k (k_cur k) in
      if p1 > p2 then sch_reschedule_ahead k else Inr k)"

definition chSchDoYieldS :: "kernel_t \<Rightarrow> kernel_t result" where
  "chSchDoYieldS k =
     (if firstprio k \<ge> prio k (k_cur k) then sch_reschedule_behind k else Inr k)"

definition chSchSelectFirst :: "kernel_t \<Rightarrow> (tid \<times> kernel_t) result" where
  "chSchSelectFirst k =
     (let otp = k_cur k in
      bindE (pick_next k) (\<lambda>k1. bindE (sch_ready_ahead otp k1) (\<lambda>k2. Inr (k_cur k1, k2))))"

definition TIME_IMMEDIATE :: u32 where "TIME_IMMEDIATE = 0"
definition TIME_INFINITE :: u32 where "TIME_INFINITE = - 1"

text \<open>
  Sleeping with a timeout: the timer is armed (\<open>chVTDoSetI\<close> refuses a zero delay) and the
  thread sleeps; \<open>chSchGoSleepTimeoutS_resume\<close> is what it does once it runs again, and the
  message it returns.
\<close>

definition chSchGoSleepTimeoutS :: "tstate_t \<Rightarrow> u32 \<Rightarrow> kernel_t \<Rightarrow> kernel_t result" where
  "chSchGoSleepTimeoutS newstate timeout k =
     (if timeout \<noteq> TIME_INFINITE
      then bindE (assertE (timeout \<noteq> TIME_IMMEDIATE) (Halted ''chVTDoSetI'')) (\<lambda>_.
           chSchGoSleepS newstate (k\<lparr>k_timer := (k_timer k)(k_cur k := Some timeout)\<rparr>))
      else chSchGoSleepS newstate k)"

definition rdymsg :: "tid \<Rightarrow> kernel_t \<Rightarrow> msg_t result" where
  "rdymsg t k = (case t_u (k_thr k t) of RdyMsg m \<Rightarrow> Inr m | _ \<Rightarrow> Inl OutOfBounds)"

definition chSchGoSleepTimeoutS_resume :: "tid \<Rightarrow> kernel_t \<Rightarrow> (msg_t \<times> kernel_t) result" where
  "chSchGoSleepTimeoutS_resume t k =
     bindE (rdymsg t k) (\<lambda>m. Inr (m, k\<lparr>k_timer := (k_timer k)(t := None)\<rparr>))"

text \<open>
  The timeout callback of \<open>chSchGoSleepTimeoutS\<close>. \<open>chSemFastSignalI\<close> increments the counter of the
  semaphore. The links of a thread tell \<open>ch_queue_dequeue\<close> which queue it is in: a thread in state
  QUEUED or SNDMSGQ leaves the threads queue or message queue that holds it.
\<close>

definition dequeue_anywhere :: "tid \<Rightarrow> kernel_t \<Rightarrow> kernel_t" where
  "dequeue_anywhere t k =
     (case tstate k t of
        CH_STATE_QUEUED \<Rightarrow> k\<lparr>k_queue := (\<lambda>q. ch_queue_dequeue t (k_queue k q))\<rparr>
      | CH_STATE_SNDMSGQ \<Rightarrow>
          k\<lparr>k_thr := (\<lambda>u. (k_thr k u)\<lparr>t_msgqueue := ch_queue_dequeue t (t_msgqueue (k_thr k u))\<rparr>)\<rparr>
      | _ \<Rightarrow>
          (case t_u (k_thr k t) of
             WtSem s \<Rightarrow> upd_sem s (\<lambda>sm. sm\<lparr>s_queue := ch_queue_dequeue t (s_queue sm)\<rparr>) k
           | WtCond c \<Rightarrow> k\<lparr>k_cond := (k_cond k)(c := ch_queue_dequeue t (k_cond k c))\<rparr>
           | _ \<Rightarrow> k))"

definition sch_wakeup :: "tid \<Rightarrow> kernel_t \<Rightarrow> kernel_t result" where
  "sch_wakeup t k =
     (let timeout = (\<lambda>k. sch_ready_behind t (set_u t (RdyMsg MSG_TIMEOUT) k)) in
      case tstate k t of
        CH_STATE_READY \<Rightarrow> Inr k
      | CH_STATE_SUSPENDED \<Rightarrow>
          (case t_u (k_thr k t) of
             WtRef r \<Rightarrow> timeout (k\<lparr>k_ref := (k_ref k)(r := None)\<rparr>)
           | _ \<Rightarrow> Inl OutOfBounds)
      | CH_STATE_WTSEM \<Rightarrow>
          (case t_u (k_thr k t) of
             WtSem s \<Rightarrow> timeout (dequeue_anywhere t (upd_sem s (\<lambda>sm. sm\<lparr>s_cnt := s_cnt sm + 1\<rparr>) k))
           | _ \<Rightarrow> Inl OutOfBounds)
      | CH_STATE_QUEUED \<Rightarrow> timeout (dequeue_anywhere t k)
      | CH_STATE_SNDMSGQ \<Rightarrow> timeout (dequeue_anywhere t k)
      | CH_STATE_WTCOND \<Rightarrow> timeout (dequeue_anywhere t k)
      | _ \<Rightarrow> timeout k)"


lemmas kernel_upd = upd_thr_def upd_mtx_def upd_sem_def set_state_def set_u_def set_prio_def

lemma set_state_sel [simp]:
  "k_tids (set_state t x k) = k_tids k"
  "k_cur (set_state t x k) = k_cur k"
  "k_ready (set_state t x k) = k_ready k"
  "k_idle (set_state t x k) = k_idle k"
  "k_mtx (set_state t x k) = k_mtx k"
  "k_sem (set_state t x k) = k_sem k"
  "k_cond (set_state t x k) = k_cond k"
  "k_ref (set_state t x k) = k_ref k"
  "k_queue (set_state t x k) = k_queue k"
  "k_timer (set_state t x k) = k_timer k"
  "t_prio (k_thr (set_state t x k) u) = t_prio (k_thr k u)"
  "t_realprio (k_thr (set_state t x k) u) = t_realprio (k_thr k u)"
  "t_state (k_thr (set_state t x k) u) = (if u = t then x else t_state (k_thr k u))"
  "t_u (k_thr (set_state t x k) u) = t_u (k_thr k u)"
  "t_mtxlist (k_thr (set_state t x k) u) = t_mtxlist (k_thr k u)"
  "t_epending (k_thr (set_state t x k) u) = t_epending (k_thr k u)"
  "t_msgqueue (k_thr (set_state t x k) u) = t_msgqueue (k_thr k u)"
  by (simp_all add: kernel_upd)

lemma set_u_sel [simp]:
  "k_tids (set_u t x k) = k_tids k"
  "k_cur (set_u t x k) = k_cur k"
  "k_ready (set_u t x k) = k_ready k"
  "k_idle (set_u t x k) = k_idle k"
  "k_mtx (set_u t x k) = k_mtx k"
  "k_sem (set_u t x k) = k_sem k"
  "k_cond (set_u t x k) = k_cond k"
  "k_ref (set_u t x k) = k_ref k"
  "k_queue (set_u t x k) = k_queue k"
  "k_timer (set_u t x k) = k_timer k"
  "t_prio (k_thr (set_u t x k) u) = t_prio (k_thr k u)"
  "t_realprio (k_thr (set_u t x k) u) = t_realprio (k_thr k u)"
  "t_state (k_thr (set_u t x k) u) = t_state (k_thr k u)"
  "t_u (k_thr (set_u t x k) u) = (if u = t then x else t_u (k_thr k u))"
  "t_mtxlist (k_thr (set_u t x k) u) = t_mtxlist (k_thr k u)"
  "t_epending (k_thr (set_u t x k) u) = t_epending (k_thr k u)"
  "t_msgqueue (k_thr (set_u t x k) u) = t_msgqueue (k_thr k u)"
  by (simp_all add: kernel_upd)

lemma set_prio_sel [simp]:
  "k_tids (set_prio t x k) = k_tids k"
  "k_cur (set_prio t x k) = k_cur k"
  "k_ready (set_prio t x k) = k_ready k"
  "k_idle (set_prio t x k) = k_idle k"
  "k_mtx (set_prio t x k) = k_mtx k"
  "k_sem (set_prio t x k) = k_sem k"
  "k_cond (set_prio t x k) = k_cond k"
  "k_ref (set_prio t x k) = k_ref k"
  "k_queue (set_prio t x k) = k_queue k"
  "k_timer (set_prio t x k) = k_timer k"
  "t_prio (k_thr (set_prio t x k) u) = (if u = t then x else t_prio (k_thr k u))"
  "t_realprio (k_thr (set_prio t x k) u) = t_realprio (k_thr k u)"
  "t_state (k_thr (set_prio t x k) u) = t_state (k_thr k u)"
  "t_u (k_thr (set_prio t x k) u) = t_u (k_thr k u)"
  "t_mtxlist (k_thr (set_prio t x k) u) = t_mtxlist (k_thr k u)"
  "t_epending (k_thr (set_prio t x k) u) = t_epending (k_thr k u)"
  "t_msgqueue (k_thr (set_prio t x k) u) = t_msgqueue (k_thr k u)"
  by (simp_all add: kernel_upd)

section \<open>Queues\<close>

definition psorted :: "(tid \<Rightarrow> nat) \<Rightarrow> tid list \<Rightarrow> bool" where
  "psorted pr q \<longleftrightarrow> sorted_wrt (\<lambda>a b. pr a \<ge> pr b) q"

text \<open>
  What every insertion into a priority-ordered queue promises: the new element is put
  between the elements of higher and those of lower priority, and nothing else changes.
\<close>

locale prio_insertion =
  fixes ins :: "(tid \<Rightarrow> nat) \<Rightarrow> tid \<Rightarrow> tid list \<Rightarrow> tid list"
  assumes splits: "psorted pr q \<Longrightarrow> \<exists>hi lo. q = hi @ lo \<and> ins pr t q = hi @ t # lo \<and>
      (\<forall>u \<in> set hi. pr u \<ge> pr t) \<and> (\<forall>u \<in> set lo. pr u \<le> pr t)"
    and elements: "mset (ins pr t q) = add_mset t (mset q)"
begin

lemma set_ins [simp]: "set (ins pr t q) = insert t (set q)"
  using elements[of pr t q] by (metis set_mset_mset set_mset_add_mset_insert)

lemma distinct_ins [simp]: "distinct (ins pr t q) \<longleftrightarrow> t \<notin> set q \<and> distinct q"
proof -
  have "distinct (ins pr t q) \<longleftrightarrow> distinct (t # q)"
    by (rule mset_eq_imp_distinct_iff) (simp add: elements)
  then show ?thesis by simp
qed

lemma length_ins [simp]: "length (ins pr t q) = Suc (length q)"
  using elements[of pr t q] by (metis size_mset size_add_mset)

lemma ins_not_Nil [simp]: "ins pr t q \<noteq> []"
  using length_ins[of pr t q] by (metis list.size(3) nat.distinct(1))

lemma sorted_ins:
  assumes "psorted pr q"
  shows "psorted pr (ins pr t q)"
proof -
  obtain hi lo where "q = hi @ lo" "ins pr t q = hi @ t # lo"
      "\<forall>u \<in> set hi. pr u \<ge> pr t" "\<forall>u \<in> set lo. pr u \<le> pr t"
    using splits[OF assms] by blast
  with assms show ?thesis by (auto simp: psorted_def sorted_wrt_append)
qed

end

lemma psorted_tail_le:
  assumes "psorted pr q" "u \<in> set (dropWhile P q)" "dropWhile P q \<noteq> []"
  shows "pr u \<le> pr (hd (dropWhile P q))"
proof -
  have "psorted pr (dropWhile P q)"
    using assms(1) takeWhile_dropWhile_id[of P q] by (metis psorted_def sorted_wrt_append)
  with assms(2,3) show ?thesis
    by (cases "dropWhile P q") (auto simp: psorted_def)
qed

lemma split_while:
  assumes "psorted pr q"
    and "\<And>u. P u \<Longrightarrow> pr u \<ge> pr t" "\<And>u. \<not> P u \<Longrightarrow> pr u \<le> pr t"
  shows "\<exists>hi lo. q = hi @ lo \<and> takeWhile P q @ t # dropWhile P q = hi @ t # lo \<and>
    (\<forall>u \<in> set hi. pr u \<ge> pr t) \<and> (\<forall>u \<in> set lo. pr u \<le> pr t)"
proof (intro exI conjI ballI)
  show "q = takeWhile P q @ dropWhile P q" by simp
  fix u assume "u \<in> set (dropWhile P q)"
  then show "pr u \<le> pr t"
    using psorted_tail_le[OF assms(1)] assms(3) hd_dropWhile[of P q]
    by (metis empty_iff list.set(1) order_trans)
qed (use assms(2) set_takeWhileD in fastforce)+

lemma mset_while: "mset (takeWhile P q) + mset (dropWhile P q) = mset q"
  by (metis mset_append takeWhile_dropWhile_id)

interpretation behind: prio_insertion ch_pqueue_insert_behind
  by unfold_locales (auto simp: ch_pqueue_insert_behind_def mset_while intro!: split_while)

interpretation ahead: prio_insertion ch_pqueue_insert_ahead
  by unfold_locales (auto simp: ch_pqueue_insert_ahead_def mset_while intro!: split_while)

interpretation sch: prio_insertion ch_sch_prio_insert
  by unfold_locales (auto simp: ch_sch_prio_insert_def mset_while intro!: split_while)

lemma psorted_Nil [simp]: "psorted pr []"
  by (simp add: psorted_def)

lemma psorted_Cons: "psorted pr (t # q) \<longleftrightarrow> (\<forall>u \<in> set q. pr u \<le> pr t) \<and> psorted pr q"
  by (auto simp: psorted_def)

lemma psorted_remove1: "psorted pr q \<Longrightarrow> psorted pr (remove1 t q)"
  by (induction q) (auto simp: psorted_Cons dest: notin_set_remove1 set_mp[OF set_remove1_subset])

lemma psorted_cong: "(\<And>u. u \<in> set q \<Longrightarrow> pr u = pr' u) \<Longrightarrow> psorted pr q = psorted pr' q"
  by (induction q) (auto simp: psorted_Cons)


section \<open>Scheduler invariant\<close>

text \<open>
  The ready list holds exactly the threads in state READY, in priority order, one thread
  is current, and the idle thread is current or ready, so the list is never empty when
  another thread goes to sleep.
\<close>

definition sched_inv :: "kernel_t \<Rightarrow> bool" where
  "sched_inv k \<longleftrightarrow>
     k_cur k \<in> set (k_tids k) \<and> k_idle k \<in> set (k_tids k) \<and>
     set (k_ready k) \<subseteq> set (k_tids k) \<and>
     distinct (k_ready k) \<and>
     psorted (prio k) (k_ready k) \<and>
     (\<forall>t \<in> set (k_tids k). tstate k t = CH_STATE_READY \<longleftrightarrow> t \<in> set (k_ready k)) \<and>
     (\<forall>t \<in> set (k_tids k). tstate k t = CH_STATE_CURRENT \<longleftrightarrow> t = k_cur k) \<and>
     (\<forall>t \<in> set (k_tids k). 0 < prio k t) \<and>
     (k_idle k \<noteq> k_cur k \<longrightarrow> k_idle k \<in> set (k_ready k))"

definition sched_ok :: "kernel_t \<Rightarrow> bool" where
  "sched_ok k \<longleftrightarrow> sched_inv k \<and> firstprio k \<le> prio k (k_cur k)"

text \<open>No ready thread has a higher priority than the running one.\<close>

lemma sched_ok_highest:
  assumes "sched_ok k" "t \<in> set (k_tids k)" "tstate k t = CH_STATE_READY"
  shows "prio k t \<le> prio k (k_cur k)"
proof (cases "k_ready k")
  case Nil
  with assms show ?thesis by (auto simp: sched_ok_def sched_inv_def)
next
  case (Cons u q)
  have "t \<in> set (k_ready k)" "psorted (prio k) (k_ready k)" "prio k u \<le> prio k (k_cur k)"
    using assms Cons by (auto simp: sched_ok_def sched_inv_def firstprio_def)
  with Cons show ?thesis by (auto simp: psorted_Cons)
qed


lemma firstprio_le: "psorted (prio k) (k_ready k) \<Longrightarrow>
  firstprio k \<le> p \<longleftrightarrow> (\<forall>t \<in> set (k_ready k). prio k t \<le> p)"
  by (cases "k_ready k") (auto simp: firstprio_def psorted_Cons)

lemma firstprio_leI: "sched_inv k \<Longrightarrow> \<forall>t \<in> set (k_ready k). prio k t \<le> p \<Longrightarrow> firstprio k \<le> p"
  using firstprio_le[of k p] unfolding sched_inv_def by blast

lemma sched_ok_all: "sched_ok k \<Longrightarrow> \<forall>t \<in> set (k_ready k). prio k t \<le> prio k (k_cur k)"
  using firstprio_le[of k] unfolding sched_ok_def sched_inv_def by blast

text \<open>
  The same while one thread \<open>t\<close> is being moved: it is neither current nor in the ready
  list, whatever its state field says.
\<close>

definition sched_off :: "tid \<Rightarrow> kernel_t \<Rightarrow> bool" where
  "sched_off t k \<longleftrightarrow>
     t \<in> set (k_tids k) \<and> t \<noteq> k_cur k \<and> t \<notin> set (k_ready k) \<and>
     k_cur k \<in> set (k_tids k) \<and> k_idle k \<in> set (k_tids k) \<and>
     set (k_ready k) \<subseteq> set (k_tids k) \<and>
     distinct (k_ready k) \<and>
     psorted (prio k) (k_ready k) \<and>
     (\<forall>u \<in> set (k_tids k) - {t}. tstate k u = CH_STATE_READY \<longleftrightarrow> u \<in> set (k_ready k)) \<and>
     (\<forall>u \<in> set (k_tids k) - {t}. tstate k u = CH_STATE_CURRENT \<longleftrightarrow> u = k_cur k) \<and>
     (\<forall>u \<in> set (k_tids k). 0 < prio k u) \<and>
     (k_idle k \<noteq> k_cur k \<longrightarrow> k_idle k \<noteq> t \<longrightarrow> k_idle k \<in> set (k_ready k))"

text \<open>What no scheduler operation touches.\<close>

definition sched_frame :: "kernel_t \<Rightarrow> kernel_t \<Rightarrow> bool" where
  "sched_frame k k' \<longleftrightarrow>
     k_tids k' = k_tids k \<and> k_idle k' = k_idle k \<and> k_mtx k' = k_mtx k \<and> k_sem k' = k_sem k \<and>
     k_cond k' = k_cond k \<and> k_ref k' = k_ref k \<and> k_queue k' = k_queue k \<and> k_timer k' = k_timer k \<and>
     (\<forall>t. prio k' t = prio k t \<and> t_realprio (k_thr k' t) = t_realprio (k_thr k t) \<and>
          t_mtxlist (k_thr k' t) = t_mtxlist (k_thr k t) \<and> t_epending (k_thr k' t) = t_epending (k_thr k t) \<and>
          t_msgqueue (k_thr k' t) = t_msgqueue (k_thr k t))"

lemma sched_frame_refl [simp]: "sched_frame k k"
  by (simp add: sched_frame_def)

lemma sched_frame_trans: "sched_frame a b \<Longrightarrow> sched_frame b c \<Longrightarrow> sched_frame a c"
  by (simp add: sched_frame_def)

lemma sched_off_I: "sched_inv k \<Longrightarrow> t \<in> set (k_tids k) \<Longrightarrow> t \<noteq> k_cur k \<Longrightarrow>
  tstate k t \<noteq> CH_STATE_READY \<Longrightarrow> sched_off t k"
  by (auto simp: sched_inv_def sched_off_def)

lemma sched_off_ready_behind:
  assumes "sched_off t k" "tstate k t \<noteq> CH_STATE_READY" "tstate k t \<noteq> CH_STATE_FINAL"
  shows "\<exists>k'. sch_ready_behind t k = Inr k' \<and> sched_inv k' \<and> sched_frame k k' \<and> k_cur k' = k_cur k \<and>
    set (k_ready k') = insert t (set (k_ready k)) \<and>
    k_thr k' = (k_thr k)(t := (k_thr k t)\<lparr>t_state := CH_STATE_READY\<rparr>)"
proof -
  let ?k = "set_state t CH_STATE_READY k"
  have prio: "prio ?k = prio k"
    by (auto simp: kernel_upd)
  have "psorted (prio ?k) (ch_pqueue_insert_behind (prio ?k) t (k_ready k))"
    using assms(1) behind.sorted_ins unfolding prio by (simp add: sched_off_def)
  then show ?thesis
    using assms unfolding sch_ready_behind_def Let_def
    by (auto simp: sched_off_def sched_inv_def sched_frame_def kernel_upd)
qed

lemma sched_off_ready_ahead:
  assumes "sched_off t k" "tstate k t \<noteq> CH_STATE_READY" "tstate k t \<noteq> CH_STATE_FINAL"
  shows "\<exists>k'. sch_ready_ahead t k = Inr k' \<and> sched_inv k' \<and> sched_frame k k' \<and> k_cur k' = k_cur k \<and>
    set (k_ready k') = insert t (set (k_ready k)) \<and>
    k_thr k' = (k_thr k)(t := (k_thr k t)\<lparr>t_state := CH_STATE_READY\<rparr>)"
proof -
  let ?k = "set_state t CH_STATE_READY k"
  have prio: "prio ?k = prio k"
    by (auto simp: kernel_upd)
  have "psorted (prio ?k) (ch_pqueue_insert_ahead (prio ?k) t (k_ready k))"
    using assms(1) ahead.sorted_ins unfolding prio by (simp add: sched_off_def)
  then show ?thesis
    using assms unfolding sch_ready_ahead_def Let_def
    by (auto simp: sched_off_def sched_inv_def sched_frame_def kernel_upd)
qed

lemma cur_not_ready:
  assumes "sched_inv k"
  shows "k_cur k \<notin> set (k_ready k)"
proof -
  have "tstate k (k_cur k) = CH_STATE_CURRENT" "tstate k (k_cur k) = CH_STATE_READY \<longleftrightarrow> k_cur k \<in> set (k_ready k)"
    using assms by (simp_all add: sched_inv_def)
  then show ?thesis by simp
qed

lemma pick_next_off:
  assumes "sched_inv k" "k_ready k = n # q"
  shows "\<exists>k'. pick_next k = Inr k' \<and> sched_off (k_cur k) k' \<and> sched_frame k k' \<and> k_cur k' = n \<and> k_ready k' = q \<and>
    k_thr k' = (k_thr k)(n := (k_thr k n)\<lparr>t_state := CH_STATE_CURRENT\<rparr>)"
proof -
  let ?k = "set_state n CH_STATE_CURRENT (k\<lparr>k_ready := q, k_cur := n\<rparr>)"
  have prio: "prio ?k = prio k"
    by (auto simp: kernel_upd)
  have "psorted (prio ?k) q"
    unfolding prio using assms by (simp add: sched_inv_def psorted_Cons)
  then have "sched_off (k_cur k) ?k"
    using assms(1) cur_not_ready[OF assms(1)] unfolding sched_off_def sched_inv_def assms(2) prio
    by (intro conjI) (auto simp: kernel_upd)
  then show ?thesis
    using assms(2) by (auto simp: pick_next_def sched_frame_def kernel_upd)
qed

text \<open>Lemmas on the exported operations.\<close>

lemma sched_inv_cur: "sched_inv k \<Longrightarrow> tstate k (k_cur k) = CH_STATE_CURRENT"
  by (auto simp: sched_inv_def)

lemma reschedule_ahead_ok:
  assumes "sched_inv k" "k_ready k = n # q"
  shows "\<exists>k'. sch_reschedule_ahead k = Inr k' \<and> sched_inv k' \<and> sched_frame k k' \<and> k_cur k' = n \<and>
    set (k_ready k') = insert (k_cur k) (set q) \<and>
    k_thr k' = (k_thr k)(n := (k_thr k n)\<lparr>t_state := CH_STATE_CURRENT\<rparr>,
                         k_cur k := (k_thr k (k_cur k))\<lparr>t_state := CH_STATE_READY\<rparr>)"
proof -
  obtain k1 where k1: "pick_next k = Inr k1" "sched_off (k_cur k) k1" "sched_frame k k1" "k_cur k1 = n" "k_ready k1 = q"
      "k_thr k1 = (k_thr k)(n := (k_thr k n)\<lparr>t_state := CH_STATE_CURRENT\<rparr>)"
    using pick_next_off[OF assms] by blast
  have neq: "k_cur k \<noteq> n"
    using cur_not_ready[OF assms(1)] assms(2) by auto
  then have "tstate k1 (k_cur k) = CH_STATE_CURRENT"
    using k1(6) sched_inv_cur[OF assms(1)] by simp
  then obtain k2 where "sch_ready_ahead (k_cur k) k1 = Inr k2" "sched_inv k2" "sched_frame k1 k2" "k_cur k2 = k_cur k1"
      "set (k_ready k2) = insert (k_cur k) (set (k_ready k1))"
      "k_thr k2 = (k_thr k1)(k_cur k := (k_thr k1 (k_cur k))\<lparr>t_state := CH_STATE_READY\<rparr>)"
    using sched_off_ready_ahead[OF k1(2)] by auto
  with k1 neq sched_frame_trans[OF k1(3), of k2] show ?thesis
    by (simp add: sch_reschedule_ahead_def)
qed

lemma chSchReadyI_ok:
  assumes "sched_inv k" "t \<in> set (k_tids k)" "t \<noteq> k_cur k"
    "tstate k t \<noteq> CH_STATE_READY" "tstate k t \<noteq> CH_STATE_FINAL"
  shows "\<exists>k'. chSchReadyI t k = Inr k' \<and> sched_inv k' \<and> sched_frame k k' \<and> k_cur k' = k_cur k \<and>
    set (k_ready k') = insert t (set (k_ready k)) \<and>
    k_thr k' = (k_thr k)(t := (k_thr k t)\<lparr>t_state := CH_STATE_READY\<rparr>)"
  using sched_off_ready_behind[OF sched_off_I] assms unfolding chSchReadyI_def by blast

lemma chSchRescheduleS_ok:
  assumes "sched_inv k"
  shows "\<exists>k'. chSchRescheduleS k = Inr k' \<and> sched_inv k' \<and> sched_frame k k' \<and>
    insert (k_cur k') (set (k_ready k')) = insert (k_cur k) (set (k_ready k)) \<and>
    (\<forall>t. t_u (k_thr k' t) = t_u (k_thr k t)) \<and>
    (\<forall>t. t \<notin> insert (k_cur k) (set (k_ready k)) \<longrightarrow> k_thr k' t = k_thr k t)"
proof (cases "firstprio k > prio k (k_cur k)")
  case False
  with assms show ?thesis by (simp add: chSchRescheduleS_def)
next
  case True
  then obtain n q where r: "k_ready k = n # q"
    by (cases "k_ready k") (auto simp: firstprio_def)
  show ?thesis
    using reschedule_ahead_ok[OF assms r] True r by (auto simp: chSchRescheduleS_def)
qed

lemma chSchRescheduleS_highest:
  assumes "sched_inv k" "chSchRescheduleS k = Inr k'"
  shows "sched_ok k'"
proof (cases "firstprio k > prio k (k_cur k)")
  case False
  with assms show ?thesis by (simp add: chSchRescheduleS_def sched_ok_def)
next
  case True
  then obtain n q where r: "k_ready k = n # q"
    by (cases "k_ready k") (auto simp: firstprio_def)
  obtain k1 where k1: "sch_reschedule_ahead k = Inr k1" "sched_inv k1" "sched_frame k k1" "k_cur k1 = n"
    "set (k_ready k1) = insert (k_cur k) (set q)"
    using reschedule_ahead_ok[OF assms(1) r] by blast
  have "\<forall>t \<in> set q. prio k t \<le> prio k n" "prio k (k_cur k) \<le> prio k n"
    using assms(1) r True by (auto simp: sched_inv_def psorted_Cons firstprio_def)
  then have "\<forall>t \<in> set (k_ready k1). prio k1 t \<le> prio k1 n"
    using k1(3,5) by (auto simp: sched_frame_def)
  then have "firstprio k1 \<le> prio k1 n"
    by (rule firstprio_leI[OF k1(2)])
  with k1 assms(2) True show ?thesis by (simp add: chSchRescheduleS_def sched_ok_def)
qed

lemma sched_off_sleep:
  assumes "sched_off t k" "t \<noteq> k_idle k" "tstate k t \<noteq> CH_STATE_READY" "tstate k t \<noteq> CH_STATE_CURRENT"
  shows "sched_inv k"
  using assms unfolding sched_off_def sched_inv_def by (intro conjI) auto

lemma pick_next_set_state:
  assumes "k_ready k = n # q" "t \<noteq> n"
  shows "pick_next (set_state t st k) = bindE (pick_next k) (\<lambda>k. Inr (set_state t st k))"
  using assms by (simp add: pick_next_def kernel_upd fun_upd_twist)

lemma sched_off_set_state [simp]: "sched_off t (set_state t st k) = sched_off t k"
  unfolding sched_off_def by simp

lemma chSchGoSleepS_ok:
  assumes "sched_inv k" "k_cur k \<noteq> k_idle k" "st \<noteq> CH_STATE_READY" "st \<noteq> CH_STATE_CURRENT"
  shows "\<exists>k' n q. chSchGoSleepS st k = Inr k' \<and> sched_ok k' \<and> sched_frame k k' \<and> k_ready k = n # q \<and>
    k_ready k' = q \<and> k_cur k' = n \<and> n \<noteq> k_cur k \<and>
    k_thr k' = (k_thr k)(n := (k_thr k n)\<lparr>t_state := CH_STATE_CURRENT\<rparr>,
                         k_cur k := (k_thr k (k_cur k))\<lparr>t_state := st\<rparr>)"
proof -
  obtain n q where r: "k_ready k = n # q"
    using assms(1,2) by (cases "k_ready k") (auto simp: sched_inv_def)
  have neq: "k_cur k \<noteq> n"
    using cur_not_ready[OF assms(1)] r by auto
  obtain k1 where k1: "pick_next k = Inr k1" "sched_off (k_cur k) k1" "sched_frame k k1" "k_cur k1 = n" "k_ready k1 = q"
      "k_thr k1 = (k_thr k)(n := (k_thr k n)\<lparr>t_state := CH_STATE_CURRENT\<rparr>)"
    using pick_next_off[OF assms(1) r] by blast
  let ?k = "set_state (k_cur k) st k1"
  have idle: "k_idle k1 = k_idle k"
    using k1(3) by (simp add: sched_frame_def)
  have inv: "sched_inv ?k"
    using sched_off_sleep[of "k_cur k" ?k] k1(2) assms(2-4) idle by simp
  have "\<forall>t \<in> set q. prio k t \<le> prio k n"
    using assms(1) r by (simp add: sched_inv_def psorted_Cons)
  then have "firstprio ?k \<le> prio ?k n"
    using inv k1(3,5) by (subst firstprio_le) (simp_all add: sched_inv_def sched_frame_def)
  then have "sched_ok ?k"
    using inv by (simp add: sched_ok_def k1(4))
  moreover have "sched_frame k ?k"
    using k1(3) by (simp add: sched_frame_def kernel_upd)
  moreover have "chSchGoSleepS st k = Inr ?k"
    using assms(2) by (simp add: chSchGoSleepS_def Let_def pick_next_set_state[OF r neq] k1(1))
  moreover have "k_ready ?k = q" "k_cur ?k = n" "k_thr ?k = (k_thr k)(n := (k_thr k n)\<lparr>t_state := CH_STATE_CURRENT\<rparr>,
                         k_cur k := (k_thr k (k_cur k))\<lparr>t_state := st\<rparr>)"
    using k1(4-6) neq by (simp_all add: kernel_upd)
  ultimately show ?thesis using not_sym[OF neq] r by (intro exI conjI) assumption+
qed

lemma set_u_inv [simp]: "sched_inv (set_u t x k) = sched_inv k"
  unfolding sched_inv_def by simp

lemma sched_off_switch:
  assumes "sched_inv k" "t \<in> set (k_tids k)" "t \<noteq> k_cur k" "tstate k t \<noteq> CH_STATE_READY"
  shows "sched_off (k_cur k) (set_state t CH_STATE_CURRENT (k\<lparr>k_cur := t\<rparr>))"
proof -
  have "t \<notin> set (k_ready k)" "k_cur k \<notin> set (k_ready k)"
    using assms(2,4) cur_not_ready[OF assms(1)] assms(1) by (simp_all add: sched_inv_def)
  then show ?thesis
    using assms(1-3) unfolding sched_off_def sched_inv_def by (intro conjI) simp_all
qed

lemma set_state_commute:
  "set_state t x (k\<lparr>k_cur := c\<rparr>) = (set_state t x k)\<lparr>k_cur := c\<rparr>"
  "set_state t x (k\<lparr>k_ready := q\<rparr>) = (set_state t x k)\<lparr>k_ready := q\<rparr>"
  "t \<noteq> u \<Longrightarrow> set_state t x (set_state u y k) = set_state u y (set_state t x k)"
  by (simp_all add: kernel_upd fun_upd_twist)

lemma cur_ready_commute: "k\<lparr>k_ready := q, k_cur := c\<rparr> = k\<lparr>k_cur := c, k_ready := q\<rparr>" for k :: kernel_t
  by (cases k) simp

lemma ready_ahead_commute:
  assumes "n \<noteq> t"
  shows "bindE (sch_ready_ahead n k) (\<lambda>k. Inr (set_state t CH_STATE_CURRENT (k\<lparr>k_cur := t\<rparr>))) =
    sch_ready_ahead n (set_state t CH_STATE_CURRENT (k\<lparr>k_cur := t\<rparr>))"
  using assms unfolding sch_ready_ahead_def Let_def
  by (simp add: bindE_assoc set_state_commute(1,2) set_state_commute(3)[of n t] cur_ready_commute)

text \<open>
  A wake-up makes the thread ready behind its equals, or lets it preempt the running
  thread, which then is the first of its priority.
\<close>

lemma chSchWakeupS_ok:
  assumes "sched_ok k" "t \<in> set (k_tids k)" "t \<noteq> k_cur k"
    "tstate k t \<noteq> CH_STATE_READY" "tstate k t \<noteq> CH_STATE_FINAL"
  shows "\<exists>k'. chSchWakeupS t msg k = Inr k' \<and> sched_ok k' \<and> sched_frame k k' \<and>
    k_cur k' = (if prio k t \<le> prio k (k_cur k) then k_cur k else t) \<and>
    insert (k_cur k') (set (k_ready k')) = insert t (insert (k_cur k) (set (k_ready k))) \<and>
    t_u (k_thr k' t) = RdyMsg msg \<and> t_u (k_thr k' (k_cur k)) = t_u (k_thr k (k_cur k)) \<and>
    (\<forall>u. u \<noteq> t \<longrightarrow> u \<noteq> k_cur k \<longrightarrow> k_thr k' u = k_thr k u)"
proof -
  let ?k = "set_u t (RdyMsg msg) k"
  have inv: "sched_inv ?k" and fp: "firstprio k \<le> prio k (k_cur k)"
    using assms(1) by (simp_all add: sched_ok_def)
  have all: "\<forall>u \<in> set (k_ready k). prio k u \<le> prio k (k_cur k)"
    using assms(1) by (rule sched_ok_all)
  show ?thesis
  proof (cases "prio k t \<le> prio k (k_cur k)")
    case True
    obtain k' where k': "chSchReadyI t ?k = Inr k'" "sched_inv k'" "sched_frame ?k k'" "k_cur k' = k_cur k"
        "set (k_ready k') = insert t (set (k_ready k))"
        "k_thr k' = (k_thr ?k)(t := (k_thr ?k t)\<lparr>t_state := CH_STATE_READY\<rparr>)"
      using chSchReadyI_ok[OF inv, unfolded set_u_sel, OF assms(2-5)] by blast
    have "\<forall>u \<in> set (k_ready k'). prio k' u \<le> prio k' (k_cur k)"
      using k'(3,5) all True by (simp add: sched_frame_def)
    then have "firstprio k' \<le> prio k' (k_cur k)"
      by (rule firstprio_leI[OF k'(2)])
    moreover have "t_u (k_thr k' t) = RdyMsg msg" "t_u (k_thr k' (k_cur k)) = t_u (k_thr k (k_cur k))"
        "\<forall>u. u \<noteq> t \<longrightarrow> u \<noteq> k_cur k \<longrightarrow> k_thr k' u = k_thr k u"
      using k'(6) assms(3) by (simp_all add: kernel_upd)
    moreover have "sched_frame k k'"
      using k'(3) by (simp add: sched_frame_def)
    moreover have "insert (k_cur k') (set (k_ready k')) = insert t (insert (k_cur k) (set (k_ready k)))"
      using k'(4,5) by auto
    ultimately show ?thesis
      using k'(1,2,4) True fp by (simp add: chSchWakeupS_def Let_def chSchReadyI_def sched_ok_def)
  next
    case False
    let ?n = "k_cur k"
    let ?k1 = "set_state t CH_STATE_CURRENT (?k\<lparr>k_cur := t\<rparr>)"
    have off: "sched_off ?n ?k1"
      using sched_off_switch[OF inv] assms(2-4) by simp
    have st: "tstate ?k1 ?n = CH_STATE_CURRENT"
      using sched_inv_cur[OF inv] assms(3) by (simp add: kernel_upd)
    obtain k' where k': "sch_ready_ahead ?n ?k1 = Inr k'" "sched_inv k'" "sched_frame ?k1 k'" "k_cur k' = k_cur ?k1"
        "set (k_ready k') = insert ?n (set (k_ready ?k1))"
        "k_thr k' = (k_thr ?k1)(?n := (k_thr ?k1 ?n)\<lparr>t_state := CH_STATE_READY\<rparr>)"
      using sched_off_ready_ahead[OF off] st by auto
    have eq: "bindE (sch_ready_ahead ?n ?k) (\<lambda>k. Inr (set_state t CH_STATE_CURRENT (k\<lparr>k_cur := t\<rparr>))) = Inr k'"
      using k'(1) ready_ahead_commute[of ?n t ?k] assms(3) by simp
    have "\<forall>u \<in> set (k_ready k'). prio k' u \<le> prio k' t"
      using k'(3,5) all False by (auto simp: sched_frame_def)
    then have fpk: "firstprio k' \<le> prio k' t"
      by (rule firstprio_leI[OF k'(2)])
    have "t_u (k_thr k' t) = RdyMsg msg" "t_u (k_thr k' (k_cur k)) = t_u (k_thr k (k_cur k))"
        "\<forall>u. u \<noteq> t \<longrightarrow> u \<noteq> k_cur k \<longrightarrow> k_thr k' u = k_thr k u"
      using k'(6) assms(3) by (simp_all add: kernel_upd)
    moreover have "sched_frame k k'"
      using k'(3) by (simp add: sched_frame_def)
    moreover have "k_cur k' = t" "insert t (set (k_ready k')) = insert t (insert (k_cur k) (set (k_ready k)))"
      using k'(4,5) by (auto simp: kernel_upd)
    ultimately show ?thesis
      using k'(2) eq False fp fpk by (simp add: chSchWakeupS_def Let_def sched_ok_def)
  qed
qed

end
