(* ===== verification/Ch_Mtx.thy ===== *)
theory Ch_Mtx
  imports Ch_Kernel
begin

text \<open>
  Mutexes with priority inheritance: \<^verbatim>\<open>chmtx.c\<close>, in the non-recursive configuration of the
  firmware. \<open>chMtxLockS\<close> boosts the priority of the owner and of every thread the owner
  waits for; the walk ends because each step raises one more thread to the priority of the
  caller. The assertions that follow the sleep are \<open>chMtxLockS_resume\<close>, run by the thread
  once it is scheduled again.
\<close>

section \<open>Operations\<close>

abbreviation mqueue :: "kernel_t \<Rightarrow> nat \<Rightarrow> tid list" where
  "mqueue k m \<equiv> m_queue (k_mtx k m)"

abbreviation mowner :: "kernel_t \<Rightarrow> nat \<Rightarrow> tid option" where
  "mowner k m \<equiv> m_owner (k_mtx k m)"

abbreviation mtxlist :: "kernel_t \<Rightarrow> tid \<Rightarrow> nat list" where
  "mtxlist k t \<equiv> t_mtxlist (k_thr k t)"

abbreviation realprio :: "kernel_t \<Rightarrow> tid \<Rightarrow> nat" where
  "realprio k t \<equiv> t_realprio (k_thr k t)"

definition chMtxObjectInit :: "nat \<Rightarrow> kernel_t \<Rightarrow> kernel_t" where
  "chMtxObjectInit mp = upd_mtx mp (\<lambda>m. m\<lparr>m_queue := [], m_owner := None\<rparr>)"

text \<open>Re-enqueues a waiting thread with its new priority, and a ready one.\<close>

definition requeue_mtx :: "tid \<Rightarrow> nat \<Rightarrow> kernel_t \<Rightarrow> kernel_t" where
  "requeue_mtx tp m k =
     upd_mtx m (\<lambda>mx. mx\<lparr>m_queue := ch_sch_prio_insert (prio k) tp (ch_queue_dequeue tp (m_queue mx))\<rparr>) k"

definition requeue_cond :: "tid \<Rightarrow> nat \<Rightarrow> kernel_t \<Rightarrow> kernel_t" where
  "requeue_cond tp c k =
     k\<lparr>k_cond := (k_cond k)(c := ch_sch_prio_insert (prio k) tp (ch_queue_dequeue tp (k_cond k c)))\<rparr>"

definition requeue_ready :: "tid \<Rightarrow> kernel_t \<Rightarrow> kernel_t result" where
  "requeue_ready tp k =
     chSchReadyI tp ((set_state tp CH_STATE_CURRENT k)\<lparr>k_ready := ch_queue_dequeue tp (k_ready k)\<rparr>)"

text \<open>
  The priority inheritance loop of \<open>chMtxLockS\<close>, with \<open>p\<close> the priority of the running
  thread. A thread or owner that does not exist would be a wild pointer.
\<close>

function mtx_boost :: "nat \<Rightarrow> tid \<Rightarrow> kernel_t \<Rightarrow> kernel_t result" where
  "mtx_boost p tp k =
     (if tp \<notin> set (k_tids k) then Inl OutOfBounds
      else if prio k tp < p then
        (case (tstate k tp, t_u (k_thr k tp)) of
           (CH_STATE_WTMTX, WtMtx m) \<Rightarrow>
             (case mowner k m of
                None \<Rightarrow> Inl OutOfBounds
              | Some tp' \<Rightarrow> mtx_boost p tp' (requeue_mtx tp m (set_prio tp p k)))
         | (CH_STATE_WTCOND, WtCond c) \<Rightarrow> Inr (requeue_cond tp c (set_prio tp p k))
         | (CH_STATE_WTMTX, _) \<Rightarrow> Inl OutOfBounds
         | (CH_STATE_WTCOND, _) \<Rightarrow> Inl OutOfBounds
         | (CH_STATE_READY, _) \<Rightarrow> requeue_ready tp (set_prio tp p k)
         | _ \<Rightarrow> Inr (set_prio tp p k))
      else Inr k)"
  by pat_completeness auto

lemma requeue_mtx_sel [simp]:
  "k_tids (requeue_mtx t m k) = k_tids k" "k_thr (requeue_mtx t m k) = k_thr k" "k_cur (requeue_mtx t m k) = k_cur k"
  "k_ready (requeue_mtx t m k) = k_ready k" "k_idle (requeue_mtx t m k) = k_idle k" "k_cond (requeue_mtx t m k) = k_cond k"
  "k_sem (requeue_mtx t m k) = k_sem k" "k_ref (requeue_mtx t m k) = k_ref k" "k_queue (requeue_mtx t m k) = k_queue k"
  "mowner (requeue_mtx t m k) m' = mowner k m'"
  "mqueue (requeue_mtx t m k) m' =
     (if m' = m then ch_sch_prio_insert (prio k) t (remove1 t (mqueue k m)) else mqueue k m')"
  by (simp_all add: requeue_mtx_def kernel_upd ch_queue_dequeue_def)

lemma requeue_cond_sel [simp]:
  "k_tids (requeue_cond t c k) = k_tids k" "k_thr (requeue_cond t c k) = k_thr k" "k_cur (requeue_cond t c k) = k_cur k"
  "k_ready (requeue_cond t c k) = k_ready k" "k_idle (requeue_cond t c k) = k_idle k" "k_mtx (requeue_cond t c k) = k_mtx k"
  "k_sem (requeue_cond t c k) = k_sem k" "k_ref (requeue_cond t c k) = k_ref k" "k_queue (requeue_cond t c k) = k_queue k"
  "k_cond (requeue_cond t c k) c' =
     (if c' = c then ch_sch_prio_insert (prio k) t (remove1 t (k_cond k c)) else k_cond k c')"
  by (simp_all add: requeue_cond_def ch_queue_dequeue_def)

termination mtx_boost
proof (relation "measure (\<lambda>(p, _, k). card {t \<in> set (k_tids k). prio k t < p})", goal_cases)
  case 1
  show ?case by simp
next
  case (2 p tp k)
  then have tp: "tp \<in> set (k_tids k)" "prio k tp < p"
    by simp_all
  then have "{t \<in> set (k_tids k). (if t = tp then p else prio k t) < p} \<subset> {t \<in> set (k_tids k). prio k t < p}"
    by (auto split: if_splits)
  then have "card {t \<in> set (k_tids k). (if t = tp then p else prio k t) < p} < card {t \<in> set (k_tids k). prio k t < p}"
    by (rule psubset_card_mono[rotated]) simp
  then show ?case by simp
qed

declare mtx_boost.simps [simp del]

definition chMtxLockS :: "nat \<Rightarrow> kernel_t \<Rightarrow> kernel_t result" where
  "chMtxLockS mp k =
     (let currtp = k_cur k in
      case mowner k mp of
        Some tp \<Rightarrow>
          bindE (mtx_boost (prio k currtp) tp k) (\<lambda>k.
          let k = upd_mtx mp (\<lambda>m. m\<lparr>m_queue := ch_sch_prio_insert (prio k) currtp (m_queue m)\<rparr>) k;
              k = set_u currtp (WtMtx mp) k in
          chSchGoSleepS CH_STATE_WTMTX k)
      | None \<Rightarrow>
          Inr (upd_thr currtp (\<lambda>t. t\<lparr>t_mtxlist := mp # t_mtxlist t\<rparr>)
                (upd_mtx mp (\<lambda>m. m\<lparr>m_owner := Some currtp\<rparr>) k)))"

definition chMtxLockS_resume :: "nat \<Rightarrow> tid \<Rightarrow> kernel_t \<Rightarrow> unit result" where
  "chMtxLockS_resume mp currtp k =
     bindE (assertE (mowner k mp = Some currtp) (Halted ''not owner'')) (\<lambda>_.
     assertE (case mtxlist k currtp of [] \<Rightarrow> False | m # _ \<Rightarrow> m = mp) (Halted ''not owned''))"

definition chMtxLock :: "nat \<Rightarrow> kernel_t \<Rightarrow> kernel_t result" where
  "chMtxLock mp k = chMtxLockS mp k"

definition chMtxTryLockS :: "nat \<Rightarrow> kernel_t \<Rightarrow> bool \<times> kernel_t" where
  "chMtxTryLockS mp k =
     (let currtp = k_cur k in
      if mowner k mp \<noteq> None then (False, k)
      else (True, upd_thr currtp (\<lambda>t. t\<lparr>t_mtxlist := mp # t_mtxlist t\<rparr>)
                    (upd_mtx mp (\<lambda>m. m\<lparr>m_owner := Some currtp\<rparr>) k)))"

definition chMtxTryLock :: "nat \<Rightarrow> kernel_t \<Rightarrow> bool \<times> kernel_t" where
  "chMtxTryLock mp k = chMtxTryLockS mp k"

text \<open>The scan of the mutexes still owned for the highest priority waiting on them.\<close>

primrec mtx_newprio :: "kernel_t \<Rightarrow> nat list \<Rightarrow> nat \<Rightarrow> nat" where
  "mtx_newprio k [] newprio = newprio"
| "mtx_newprio k (lmp # l) newprio =
     mtx_newprio k l
       (case mqueue k lmp of
          [] \<Rightarrow> newprio
        | t # _ \<Rightarrow> if prio k t > newprio then prio k t else newprio)"

text \<open>Hands the mutex to the first waiting thread and makes that thread ready.\<close>

definition mtx_handover :: "nat \<Rightarrow> tid \<Rightarrow> tid list \<Rightarrow> kernel_t \<Rightarrow> kernel_t result" where
  "mtx_handover mp tp q k =
     chSchReadyI tp
       (upd_thr tp (\<lambda>t. t\<lparr>t_mtxlist := mp # t_mtxlist t\<rparr>)
         (upd_mtx mp (\<lambda>m. m\<lparr>m_queue := q, m_owner := Some tp\<rparr>) k))"

definition mtx_checks :: "nat \<Rightarrow> kernel_t \<Rightarrow> nat list result" where
  "mtx_checks mp k =
     (let currtp = k_cur k in
      case mtxlist k currtp of
        [] \<Rightarrow> Inl (Halted ''owned mutexes list empty'')
      | m # l \<Rightarrow>
          bindE (assertE (mowner k m = Some currtp) (Halted ''ownership failure'')) (\<lambda>_.
          bindE (assertE (m = mp) (Halted ''not next in list'')) (\<lambda>_. Inr l)))"

definition chMtxUnlockS :: "nat \<Rightarrow> kernel_t \<Rightarrow> kernel_t result" where
  "chMtxUnlockS mp k =
     (let currtp = k_cur k in
      bindE (mtx_checks mp k) (\<lambda>l.
      let k = upd_thr currtp (\<lambda>t. t\<lparr>t_mtxlist := l\<rparr>) k in
      case mqueue k mp of
        [] \<Rightarrow> Inr (upd_mtx mp (\<lambda>m. m\<lparr>m_owner := None\<rparr>) k)
      | tp # q \<Rightarrow> mtx_handover mp tp q (set_prio currtp (mtx_newprio k l (realprio k currtp)) k)))"

definition chMtxUnlock :: "nat \<Rightarrow> kernel_t \<Rightarrow> kernel_t result" where
  "chMtxUnlock mp k =
     (let currtp = k_cur k in
      bindE (mtx_checks mp k) (\<lambda>l.
      let k = upd_thr currtp (\<lambda>t. t\<lparr>t_mtxlist := l\<rparr>) k in
      case mqueue k mp of
        [] \<Rightarrow> Inr (upd_mtx mp (\<lambda>m. m\<lparr>m_owner := None\<rparr>) k)
      | tp # q \<Rightarrow>
          bindE (mtx_handover mp tp q (set_prio currtp (mtx_newprio k l (realprio k currtp)) k)) chSchRescheduleS))"

text \<open>
  The loop of \<open>chMtxUnlockAllS\<close>, with the number of mutexes owned at the start as fuel;
  it would only be too little if the running thread were queued on a mutex of its own.
\<close>

primrec mtx_unlock_all_loop :: "nat \<Rightarrow> kernel_t \<Rightarrow> kernel_t result" where
  "mtx_unlock_all_loop 0 k = (if mtxlist k (k_cur k) = [] then Inr k else Inl Blocked)"
| "mtx_unlock_all_loop (Suc n) k =
     (case mtxlist k (k_cur k) of
        [] \<Rightarrow> Inr k
      | mp # l \<Rightarrow>
          let k = upd_thr (k_cur k) (\<lambda>t. t\<lparr>t_mtxlist := l\<rparr>) k in
          (case mqueue k mp of
             [] \<Rightarrow> mtx_unlock_all_loop n (upd_mtx mp (\<lambda>m. m\<lparr>m_owner := None\<rparr>) k)
           | tp # q \<Rightarrow> bindE (mtx_handover mp tp q k) (mtx_unlock_all_loop n)))"

definition chMtxUnlockAllS :: "kernel_t \<Rightarrow> kernel_t result" where
  "chMtxUnlockAllS k =
     (let currtp = k_cur k in
      if mtxlist k currtp \<noteq> [] then
        bindE (mtx_unlock_all_loop (length (mtxlist k currtp)) k) (\<lambda>k.
        chSchRescheduleS (set_prio currtp (realprio k currtp) k))
      else Inr k)"

definition chMtxUnlockAll :: "kernel_t \<Rightarrow> kernel_t result" where
  "chMtxUnlockAll k = chMtxUnlockAllS k"

section \<open>Invariant\<close>

definition waits_mtx :: "kernel_t \<Rightarrow> tid \<Rightarrow> nat \<Rightarrow> bool" where
  "waits_mtx k t m \<longleftrightarrow> t \<in> set (k_tids k) \<and> tstate k t = CH_STATE_WTMTX \<and> t_u (k_thr k t) = WtMtx m"

definition waits_cond :: "kernel_t \<Rightarrow> tid \<Rightarrow> nat \<Rightarrow> bool" where
  "waits_cond k t c \<longleftrightarrow> t \<in> set (k_tids k) \<and> tstate k t = CH_STATE_WTCOND \<and> t_u (k_thr k t) = WtCond c"

text \<open>
  The queues hold the threads that wait on them, the stacks of owned mutexes agree with
  the owners, and a mutex nobody owns has no waiting thread.
\<close>

definition mtx_struct :: "kernel_t \<Rightarrow> bool" where
  "mtx_struct k \<longleftrightarrow>
     (\<forall>m. distinct (mqueue k m)) \<and> (\<forall>m t. t \<in> set (mqueue k m) \<longleftrightarrow> waits_mtx k t m) \<and>
     (\<forall>c. distinct (k_cond k c)) \<and> (\<forall>c t. t \<in> set (k_cond k c) \<longleftrightarrow> waits_cond k t c) \<and>
     (\<forall>t \<in> set (k_tids k). tstate k t = CH_STATE_WTMTX \<longrightarrow> (\<exists>m. t_u (k_thr k t) = WtMtx m)) \<and>
     (\<forall>t \<in> set (k_tids k). tstate k t = CH_STATE_WTCOND \<longrightarrow> (\<exists>c. t_u (k_thr k t) = WtCond c)) \<and>
     (\<forall>m t. mowner k m = Some t \<longleftrightarrow> t \<in> set (k_tids k) \<and> m \<in> set (mtxlist k t)) \<and>
     (\<forall>t \<in> set (k_tids k). distinct (mtxlist k t)) \<and>
     (\<forall>m. mowner k m = None \<longrightarrow> mqueue k m = []) \<and>
     (\<forall>t \<in> set (k_tids k). 0 < realprio k t)"

definition qsorted :: "kernel_t \<Rightarrow> bool" where
  "qsorted k \<longleftrightarrow> (\<forall>m. psorted (prio k) (mqueue k m)) \<and> (\<forall>c. psorted (prio k) (k_cond k c))"

text \<open>
  Priority inheritance: an owner has at least the priority of every thread waiting for
  its mutexes, and no more than that and its own priority justify.
\<close>

definition inherits :: "kernel_t \<Rightarrow> bool" where
  "inherits k \<longleftrightarrow> (\<forall>m t w. mowner k m = Some t \<longrightarrow> w \<in> set (mqueue k m) \<longrightarrow> prio k w \<le> prio k t)"

definition justified :: "kernel_t \<Rightarrow> tid \<Rightarrow> bool" where
  "justified k t \<longleftrightarrow>
     prio k t = realprio k t \<or> (\<exists>m. mowner k m = Some t \<and> (\<exists>w \<in> set (mqueue k m). prio k w = prio k t))"

definition mtx_inv :: "kernel_t \<Rightarrow> bool" where
  "mtx_inv k \<longleftrightarrow> mtx_struct k \<and> qsorted k \<and> inherits k \<and>
     (\<forall>t \<in> set (k_tids k). realprio k t \<le> prio k t \<and> justified k t)"

lemma justified_base: "prio k t = realprio k t \<Longrightarrow> justified k t"
  by (simp add: justified_def)

lemma justified_wait: "mowner k m = Some t \<Longrightarrow> w \<in> set (mqueue k m) \<Longrightarrow> prio k w = prio k t \<Longrightarrow> justified k t"
  unfolding justified_def by blast

lemma justified_cases:
  assumes "justified k t"
  obtains (base) "prio k t = realprio k t"
  | (wait) m w where "mowner k m = Some t" "w \<in> set (mqueue k m)" "prio k w = prio k t"
  using assms unfolding justified_def by blast

text \<open>The threads waiting for a mutex of \<open>t\<close>, and the priority \<open>t\<close> has to run at.\<close>

definition waiters :: "kernel_t \<Rightarrow> tid \<Rightarrow> tid set" where
  "waiters k t = (\<Union>m \<in> set (mtxlist k t). set (mqueue k m))"

lemma mtx_inv_prio:
  assumes "mtx_inv k" "t \<in> set (k_tids k)"
  shows "prio k t = Max (insert (realprio k t) (prio k ` waiters k t))"
proof -
  have own: "mowner k m = Some t \<longleftrightarrow> m \<in> set (mtxlist k t)" for m
    using assms by (simp add: mtx_inv_def mtx_struct_def)
  have fin: "finite (waiters k t)"
    by (simp add: waiters_def)
  have "\<forall>w \<in> waiters k t. prio k w \<le> prio k t"
    using assms(1) own unfolding mtx_inv_def inherits_def waiters_def by blast
  then have upper: "\<forall>p \<in> insert (realprio k t) (prio k ` waiters k t). p \<le> prio k t"
    using assms by (simp add: mtx_inv_def)
  have "justified k t"
    using assms by (simp add: mtx_inv_def)
  then have "prio k t \<in> insert (realprio k t) (prio k ` waiters k t)"
  proof (unfold justified_def, elim disjE exE conjE bexE)
    assume "prio k t = realprio k t"
    then show ?thesis by simp
  next
    fix m w assume m: "mowner k m = Some t" "w \<in> set (mqueue k m)" "prio k w = prio k t"
    then have "w \<in> waiters k t"
      by (auto simp: waiters_def own)
    then have "prio k w \<in> prio k ` waiters k t"
      by (rule imageI)
    with m(3) show ?thesis by simp
  qed
  then show ?thesis
    using fin bspec[OF upper] by (intro Max_eqI[symmetric] finite.insertI finite_imageI)
qed

lemma mtx_struct_own:
  "mtx_struct k \<Longrightarrow> mowner k m = Some t \<longleftrightarrow> t \<in> set (k_tids k) \<and> m \<in> set (mtxlist k t)"
  unfolding mtx_struct_def by blast

lemma mtx_struct_owned:
  assumes "mtx_struct k" "mqueue k m \<noteq> []"
  shows "\<exists>t. mowner k m = Some t \<and> t \<in> set (k_tids k)"
proof (cases "mowner k m")
  case None
  with assms show ?thesis by (simp add: mtx_struct_def)
next
  case (Some t)
  with mtx_struct_own[OF assms(1), of m t] show ?thesis by simp
qed

section \<open>The boost\<close>

text \<open>A boost changes priorities and the order of queues, nothing else.\<close>

definition boost_frame :: "kernel_t \<Rightarrow> kernel_t \<Rightarrow> bool" where
  "boost_frame k k' \<longleftrightarrow>
     k_tids k' = k_tids k \<and> k_cur k' = k_cur k \<and> k_idle k' = k_idle k \<and> k_sem k' = k_sem k \<and>
     k_ref k' = k_ref k \<and> k_queue k' = k_queue k \<and> set (k_ready k') = set (k_ready k) \<and>
     (\<forall>m. mowner k' m = mowner k m \<and> mset (mqueue k' m) = mset (mqueue k m)) \<and>
     (\<forall>c. mset (k_cond k' c) = mset (k_cond k c)) \<and>
     (\<forall>t. tstate k' t = tstate k t \<and> t_u (k_thr k' t) = t_u (k_thr k t) \<and>
          realprio k' t = realprio k t \<and> mtxlist k' t = mtxlist k t)"

lemma boost_frame_refl [simp]: "boost_frame k k"
  by (simp add: boost_frame_def)

lemma boost_frame_trans: "boost_frame a b \<Longrightarrow> boost_frame b c \<Longrightarrow> boost_frame a c"
  by (simp add: boost_frame_def)

lemma boost_frame_set:
  assumes "boost_frame k k'"
  shows "set (mqueue k' m) = set (mqueue k m)" "set (k_cond k' c) = set (k_cond k c)"
    "distinct (mqueue k' m) = distinct (mqueue k m)" "distinct (k_cond k' c) = distinct (k_cond k c)"
proof -
  have m: "mset (mqueue k' m) = mset (mqueue k m)" and c: "mset (k_cond k' c) = mset (k_cond k c)"
    using assms by (simp_all add: boost_frame_def)
  show "set (mqueue k' m) = set (mqueue k m)" "distinct (mqueue k' m) = distinct (mqueue k m)"
    using mset_eq_setD[OF m] mset_eq_imp_distinct_iff[OF m] .
  show "set (k_cond k' c) = set (k_cond k c)" "distinct (k_cond k' c) = distinct (k_cond k c)"
    using mset_eq_setD[OF c] mset_eq_imp_distinct_iff[OF c] .
qed

lemma boost_frame_struct:
  assumes f: "boost_frame k k'" and "mtx_struct k"
  shows "mtx_struct k'"
proof -
  note set = boost_frame_set[OF f]
  have "mqueue k' m = [] \<longleftrightarrow> mqueue k m = []" for m
    using set(1)[of m] by (metis set_empty)
  then show ?thesis
    using f assms(2) unfolding mtx_struct_def set waits_mtx_def waits_cond_def
    by (simp add: boost_frame_def)
qed

lemma psorted_other [simp]: "t \<notin> set q \<Longrightarrow> psorted (\<lambda>u. if u = t then p else pr u) q = psorted pr q"
  by (rule psorted_cong) auto

lemma psorted_requeue:
  assumes "psorted pr q" "distinct q"
  shows "psorted (\<lambda>u. if u = t then p else pr u) (ch_sch_prio_insert (\<lambda>u. if u = t then p else pr u) t (remove1 t q))"
  using assms by (intro sch.sorted_ins) (simp add: psorted_remove1)

text \<open>One step of the walk: only the priority of \<open>tp\<close> changes.\<close>

definition boosted :: "nat \<Rightarrow> tid \<Rightarrow> kernel_t \<Rightarrow> kernel_t \<Rightarrow> bool" where
  "boosted p tp k k' \<longleftrightarrow> sched_inv k' \<and> qsorted k' \<and> boost_frame k k' \<and>
     (\<forall>u. prio k' u = (if u = tp then p else prio k u))"

lemma sched_inv_set_prio:
  assumes "sched_inv k" "tp \<notin> set (k_ready k)" "0 < p"
  shows "sched_inv (set_prio tp p k)"
  using assms unfolding sched_inv_def by simp

lemma boosted_mtx:
  assumes "sched_inv k" "mtx_struct k" "qsorted k" "waits_mtx k tp m" "0 < p"
  shows "boosted p tp k (requeue_mtx tp m (set_prio tp p k))"
proof -
  let ?k = "requeue_mtx tp m (set_prio tp p k)"
  have tp: "tp \<in> set (mqueue k m)" "tp \<notin> set (mqueue k m')" if "m' \<noteq> m" for m'
    using assms(2,4) that by (auto simp: mtx_struct_def waits_mtx_def)
  have tpm: "tp \<in> set (mqueue k m)" and tpc: "tp \<notin> set (k_cond k c)" and dist: "distinct (mqueue k m)" for c
    using assms(2,4) by (auto simp: mtx_struct_def waits_mtx_def waits_cond_def)
  have nr: "tp \<notin> set (k_ready k)"
    using assms(1,4) by (auto simp: sched_inv_def waits_mtx_def)
  have "sched_inv ?k"
    using sched_inv_set_prio[OF assms(1) nr assms(5)] by (simp add: sched_inv_def)
  moreover have "qsorted ?k"
    using assms(3) psorted_requeue[OF _ dist] tp(2) tpc by (simp add: qsorted_def)
  moreover have "boost_frame k ?k"
    using tpm by (simp add: boost_frame_def sch.elements)
  ultimately show ?thesis by (simp add: boosted_def)
qed

lemma boosted_cond:
  assumes "sched_inv k" "mtx_struct k" "qsorted k" "waits_cond k tp c" "0 < p"
  shows "boosted p tp k (requeue_cond tp c (set_prio tp p k))"
proof -
  let ?k = "requeue_cond tp c (set_prio tp p k)"
  have tp: "tp \<notin> set (k_cond k c')" if "c' \<noteq> c" for c'
    using assms(2,4) that by (auto simp: mtx_struct_def waits_cond_def)
  have tpc: "tp \<in> set (k_cond k c)" and tpm: "tp \<notin> set (mqueue k m)" and dist: "distinct (k_cond k c)" for m
    using assms(2,4) by (auto simp: mtx_struct_def waits_mtx_def waits_cond_def)
  have nr: "tp \<notin> set (k_ready k)"
    using assms(1,4) by (auto simp: sched_inv_def waits_cond_def)
  have "sched_inv ?k"
    using sched_inv_set_prio[OF assms(1) nr assms(5)] by (simp add: sched_inv_def)
  moreover have "qsorted ?k"
    using assms(3) psorted_requeue[OF _ dist] tp tpm by (simp add: qsorted_def)
  moreover have "boost_frame k ?k"
    using tpc by (simp add: boost_frame_def sch.elements)
  ultimately show ?thesis by (simp add: boosted_def)
qed

lemma boosted_other:
  assumes "sched_inv k" "mtx_struct k" "qsorted k" "0 < p"
    and "tstate k tp \<noteq> CH_STATE_WTMTX" "tstate k tp \<noteq> CH_STATE_WTCOND"
    and "tp \<notin> set (k_ready k)"
  shows "boosted p tp k (set_prio tp p k)"
proof -
  have "tp \<notin> set (mqueue k m)" "tp \<notin> set (k_cond k c)" for m c
    using assms(2,5,6) by (auto simp: mtx_struct_def waits_mtx_def waits_cond_def)
  then have "qsorted (set_prio tp p k)"
    using assms(3) by (simp add: qsorted_def)
  then show ?thesis
    using sched_inv_set_prio[OF assms(1,7,4)] by (simp add: boosted_def boost_frame_def)
qed

lemma boosted_ready:
  assumes "sched_inv k" "mtx_struct k" "qsorted k" "0 < p"
    and "tp \<in> set (k_tids k)" "tstate k tp = CH_STATE_READY"
  shows "\<exists>k'. requeue_ready tp (set_prio tp p k) = Inr k' \<and> boosted p tp k k'"
proof -
  let ?k = "(set_state tp CH_STATE_CURRENT (set_prio tp p k))\<lparr>k_ready := remove1 tp (k_ready k)\<rparr>"
  have tp: "tp \<in> set (k_ready k)" "distinct (k_ready k)" "psorted (prio k) (k_ready k)" "set (k_ready k) \<subseteq> set (k_tids k)"
    using assms(1,5,6) by (simp_all add: sched_inv_def)
  have rm: "set (remove1 tp (k_ready k)) = set (k_ready k) - {tp}"
    using tp(2) by simp
  have cur: "tp \<noteq> k_cur k"
    using cur_not_ready[OF assms(1)] tp(1) by auto
  have sub: "set (k_ready k) - {tp} \<subseteq> set (k_tids k)"
    using tp(4) by auto
  have "psorted (\<lambda>u. if u = tp then p else prio k u) (remove1 tp (k_ready k))"
    using tp(2,3) by (simp add: psorted_remove1)
  then have "sched_off tp ?k"
    using assms(1,4,5) cur rm tp(2) sub unfolding sched_off_def sched_inv_def by (intro conjI) simp_all
  then obtain k' where k': "chSchReadyI tp ?k = Inr k'" "sched_inv k'" "sched_frame ?k k'" "k_cur k' = k_cur ?k"
      "set (k_ready k') = insert tp (set (k_ready ?k))"
      "k_thr k' = (k_thr ?k)(tp := (k_thr ?k tp)\<lparr>t_state := CH_STATE_READY\<rparr>)"
    using sched_off_ready_behind[of tp ?k] unfolding chSchReadyI_def by auto
  have q: "tp \<notin> set (mqueue k m)" "tp \<notin> set (k_cond k c)" for m c
    using assms(2,6) by (auto simp: mtx_struct_def waits_mtx_def waits_cond_def)
  have pr: "prio k' u = (if u = tp then p else prio k u)" for u
    using k'(3) by (simp add: sched_frame_def)
  have "qsorted k'"
    using assms(3) q k'(3) by (simp add: qsorted_def sched_frame_def)
  moreover have "boost_frame k k'"
    using k'(3,4,6) assms(6) insert_absorb[OF tp(1)] unfolding boost_frame_def k'(5)
    by (simp add: sched_frame_def rm)
  ultimately show ?thesis
    using k'(1,2) pr by (simp add: boosted_def requeue_ready_def ch_queue_dequeue_def)
qed

text \<open>
  What holds when the walk arrives at \<open>tp\<close>: only \<open>tp\<close> may be below the threads waiting for
  it, and every priority is justified but the one of the owner \<open>ow\<close> the walk began with,
  for which the caller is about to queue.
\<close>

definition walk_inv :: "nat \<Rightarrow> tid \<Rightarrow> tid \<Rightarrow> kernel_t \<Rightarrow> bool" where
  "walk_inv p ow tp k \<longleftrightarrow>
     (\<forall>m t w. mowner k m = Some t \<longrightarrow> w \<in> set (mqueue k m) \<longrightarrow> prio k w \<le> prio k t \<or> (t = tp \<and> prio k w \<le> p)) \<and>
     (\<forall>t \<in> set (k_tids k). realprio k t \<le> prio k t \<and>
        (justified k t \<or> (t = ow \<and> prio k t = p) \<or> (t = tp \<and> prio k t < p))) \<and>
     (tp = ow \<or> (\<exists>m. mowner k m = Some tp \<and> (\<exists>w \<in> set (mqueue k m). prio k w = p)))"

definition walk_post :: "nat \<Rightarrow> tid \<Rightarrow> kernel_t \<Rightarrow> kernel_t \<Rightarrow> bool" where
  "walk_post p ow k k' \<longleftrightarrow> sched_inv k' \<and> qsorted k' \<and> boost_frame k k' \<and> inherits k' \<and>
     (\<forall>t \<in> set (k_tids k). realprio k' t \<le> prio k' t \<and> (justified k' t \<or> (t = ow \<and> prio k' t = p))) \<and>
     (\<forall>t. prio k' t = prio k t \<or> (prio k t < p \<and> prio k' t = p))"

lemma walk_inv_stop:
  assumes "walk_inv p ow tp k" "\<not> prio k tp < p" "sched_inv k" "qsorted k"
  shows "walk_post p ow k k"
proof -
  have "inherits k"
    unfolding inherits_def
  proof (intro allI impI)
    fix m t w assume "mowner k m = Some t" "w \<in> set (mqueue k m)"
    then have "prio k w \<le> prio k t \<or> (t = tp \<and> prio k w \<le> p)"
      using assms(1) by (simp add: walk_inv_def)
    with assms(2) show "prio k w \<le> prio k t" by auto
  qed
  moreover have "\<forall>t \<in> set (k_tids k). realprio k t \<le> prio k t \<and> (justified k t \<or> (t = ow \<and> prio k t = p))"
    using assms(1,2) by (simp add: walk_inv_def) metis
  ultimately show ?thesis
    using assms(3,4) by (simp add: walk_post_def)
qed

text \<open>
  After the priority of \<open>tp\<close> is raised, the walk goes on at the owner of the mutex \<open>tp\<close>
  waits for.
\<close>

lemma justified_boost:
  assumes b: "boosted p tp k k'" and lt: "prio k tp < p"
    and "justified k t" "t \<noteq> tp" "\<not> (\<exists>m. tp \<in> set (mqueue k m) \<and> mowner k m = Some t \<and> prio k t < p)"
  shows "justified k' t"
proof -
  have pr: "prio k' u = (if u = tp then p else prio k u)" for u
    using b by (simp add: boosted_def)
  have f: "boost_frame k k'"
    using b by (simp add: boosted_def)
  note set = boost_frame_set(1)[OF f]
  have own: "mowner k' m = mowner k m" "realprio k' t = realprio k t" for m
    using f by (simp_all add: boost_frame_def)
  show ?thesis
    using assms(3)
  proof (unfold justified_def, elim disjE exE conjE bexE)
    assume "prio k t = realprio k t"
    then show "prio k' t = realprio k' t \<or> (\<exists>m. mowner k' m = Some t \<and> (\<exists>w \<in> set (mqueue k' m). prio k' w = prio k' t))"
      using assms(4) by (simp add: pr own)
  next
    fix m w assume m: "mowner k m = Some t" "w \<in> set (mqueue k m)" "prio k w = prio k t"
    have "w \<noteq> tp"
      using m lt assms(5) by auto
    then have "prio k' w = prio k' t"
      using m(3) assms(4) by (simp add: pr)
    then show "prio k' t = realprio k' t \<or> (\<exists>m. mowner k' m = Some t \<and> (\<exists>w \<in> set (mqueue k' m). prio k' w = prio k' t))"
      unfolding own(1) set using m(1,2) by blast
  qed
qed

lemma boosted_start:
  assumes b: "boosted p tp k k'" and w: "walk_inv p ow tp k"
  shows "justified k' tp \<or> tp = ow"
proof -
  have f: "boost_frame k k'" and pr: "prio k' u = (if u = tp then p else prio k u)" for u
    using b by (simp_all add: boosted_def)
  have own: "mowner k' m = mowner k m" for m
    using f by (simp add: boost_frame_def)
  have "tp = ow \<or> (\<exists>m. mowner k m = Some tp \<and> (\<exists>w \<in> set (mqueue k m). prio k w = p))"
    using w by (simp add: walk_inv_def)
  then show ?thesis
  proof (elim disjE exE conjE bexE)
    fix m w assume m: "mowner k m = Some tp" "w \<in> set (mqueue k m)" "prio k w = p"
    then have "prio k' w = prio k' tp"
      by (simp add: pr)
    then show ?thesis
      unfolding justified_def own boost_frame_set(1)[OF f] using m(1,2) by blast
  qed simp
qed

lemma walk_step:
  assumes b: "boosted p tp k k'" and lt: "prio k tp < p" and w: "walk_inv p ow tp k"
    and own: "mowner k m = Some tp'" and q: "\<And>m'. tp \<in> set (mqueue k m') \<longleftrightarrow> m' = m"
  shows "walk_inv p ow tp' k'"
proof -
  have pr: "prio k' u = (if u = tp then p else prio k u)" for u
    using b by (simp add: boosted_def)
  have f: "boost_frame k k'"
    using b by (simp add: boosted_def)
  note set = boost_frame_set(1)[OF f]
  have fr: "mowner k' m = mowner k m" "realprio k' t = realprio k t" "k_tids k' = k_tids k" for m t
    using f by (simp_all add: boost_frame_def)
  have inh: "prio k' w \<le> prio k' t \<or> (t = tp' \<and> prio k' w \<le> p)"
    if "mowner k m' = Some t" "w \<in> set (mqueue k m')" for m' t w
  proof (cases "w = tp")
    case True
    then have "m' = m" using q that(2) by simp
    with that own True show ?thesis by (simp add: pr)
  next
    case False
    have "prio k w \<le> prio k t \<or> (t = tp \<and> prio k w \<le> p)"
      using w that by (simp add: walk_inv_def)
    with False lt show ?thesis by (auto simp: pr)
  qed
  note tpj = boosted_start[OF b w]
  have just: "realprio k t \<le> prio k' t \<and> (justified k' t \<or> (t = ow \<and> prio k' t = p) \<or> (t = tp' \<and> prio k' t < p))"
    if "t \<in> set (k_tids k)" for t
  proof -
    have r: "realprio k t \<le> prio k t" and j: "justified k t \<or> (t = ow \<and> prio k t = p) \<or> (t = tp \<and> prio k t < p)"
      using w that by (simp_all add: walk_inv_def)
    show ?thesis
    proof (cases "t = tp")
      case True
      with r tpj lt show ?thesis by (auto simp: pr)
    next
      case False
      show ?thesis
      proof (cases "justified k t \<and> \<not> (t = tp' \<and> prio k t < p)")
        case True
        then have "justified k' t"
          using justified_boost[OF b lt _ False] own q by auto
        with r False show ?thesis by (simp add: pr)
      next
        case nj: False
        with r j False show ?thesis by (auto simp: pr)
      qed
    qed
  qed
  have "tp \<in> set (mqueue k m)" "prio k' tp = p"
    using q by (simp_all add: pr)
  then have ex: "\<exists>m. mowner k m = Some tp' \<and> (\<exists>w \<in> set (mqueue k m). prio k' w = p)"
    using own by blast
  show ?thesis
    unfolding walk_inv_def fr set using inh just ex by blast
qed

text \<open>When \<open>tp\<close> waits for no mutex the walk is over.\<close>

lemma walk_last:
  assumes b: "boosted p tp k k'" and lt: "prio k tp < p" and w: "walk_inv p ow tp k"
    and q: "\<And>m. tp \<notin> set (mqueue k m)"
  shows "walk_post p ow k k'"
proof -
  have pr: "prio k' u = (if u = tp then p else prio k u)" for u
    using b by (simp add: boosted_def)
  have f: "boost_frame k k'"
    using b by (simp add: boosted_def)
  note set = boost_frame_set(1)[OF f]
  have fr: "mowner k' m = mowner k m" "realprio k' t = realprio k t" "k_tids k' = k_tids k" for m t
    using f by (simp_all add: boost_frame_def)
  have inh: "prio k' w \<le> prio k' t"
    if "mowner k m' = Some t" "w \<in> set (mqueue k m')" for m' t w
  proof -
    have "prio k w \<le> prio k t \<or> (t = tp \<and> prio k w \<le> p)" "w \<noteq> tp"
      using w that q by (auto simp: walk_inv_def)
    with lt show ?thesis by (auto simp: pr)
  qed
  note tpj = boosted_start[OF b w]
  have just: "realprio k t \<le> prio k' t \<and> (justified k' t \<or> (t = ow \<and> prio k' t = p))"
    if "t \<in> set (k_tids k)" for t
  proof -
    have r: "realprio k t \<le> prio k t" and j: "justified k t \<or> (t = ow \<and> prio k t = p) \<or> (t = tp \<and> prio k t < p)"
      using w that by (simp_all add: walk_inv_def)
    show ?thesis
    proof (cases "t = tp")
      case True
      with r tpj lt show ?thesis by (auto simp: pr)
    next
      case False
      with j justified_boost[OF b lt _ False] q have "justified k' t \<or> (t = ow \<and> prio k t = p)"
        by auto
      with r False show ?thesis by (auto simp: pr)
    qed
  qed
  have "inherits k'"
    unfolding inherits_def fr set using inh by blast
  with b just lt show ?thesis
    by (simp add: walk_post_def boosted_def fr)
qed

lemma walk_post_trans:
  assumes b: "boosted p tp k k1" and lt: "prio k tp < p" and w: "walk_post p ow k1 k'"
  shows "walk_post p ow k k'"
proof -
  have pr: "prio k1 u = (if u = tp then p else prio k u)" for u
    using b by (simp add: boosted_def)
  have f: "boost_frame k k1" "boost_frame k1 k'"
    using b w by (simp_all add: boosted_def walk_post_def)
  have "prio k' t = prio k t \<or> (prio k t < p \<and> prio k' t = p)" for t
  proof -
    have "prio k' t = prio k1 t \<or> (prio k1 t < p \<and> prio k' t = p)"
      using w by (simp add: walk_post_def)
    with lt show ?thesis by (auto simp: pr split: if_splits)
  qed
  moreover have "k_tids k1 = k_tids k"
    using f(1) by (simp add: boost_frame_def)
  ultimately show ?thesis
    using w boost_frame_trans[OF f] by (simp add: walk_post_def)
qed

text \<open>The walk returns, whatever the chain of waiting threads is, a cycle included.\<close>

lemma mtx_boost_ok:
  assumes "sched_inv k" "mtx_struct k" "qsorted k" "walk_inv p ow tp k" "tp \<in> set (k_tids k)"
  shows "\<exists>k'. mtx_boost p tp k = Inr k' \<and> walk_post p ow k k' \<and> p \<le> prio k' tp"
  using assms
proof (induction p tp k rule: mtx_boost.induct)
  case (1 p tp k)
  note inv = 1(2-4) and walk = 1(5) and tid = 1(6)
  show ?case
  proof (cases "prio k tp < p")
    case False
    with walk_inv_stop[OF walk False inv(1,3)] tid show ?thesis
      by (simp add: mtx_boost.simps[of p tp k])
  next
    case lt: True
    then have pos: "0 < p" by simp
    have last: ?thesis if "mtx_boost p tp k = Inr k'" "boosted p tp k k'" "\<And>m. tp \<notin> set (mqueue k m)" for k'
    proof -
      have "prio k' tp = p"
        using that(2) by (simp add: boosted_def)
      with that(1) walk_last[OF that(2) lt walk that(3)] show ?thesis by simp
    qed
    have noq: "tp \<notin> set (mqueue k m)" if "tstate k tp \<noteq> CH_STATE_WTMTX" for m
      using that inv(2) by (simp add: mtx_struct_def waits_mtx_def)
    consider (mtx) "tstate k tp = CH_STATE_WTMTX" | (cond) "tstate k tp = CH_STATE_WTCOND"
      | (ready) "tstate k tp = CH_STATE_READY"
      | (other) "tstate k tp \<noteq> CH_STATE_WTMTX" "tstate k tp \<noteq> CH_STATE_WTCOND" "tstate k tp \<noteq> CH_STATE_READY"
      by blast
    then show ?thesis
    proof cases
      case mtx
      then obtain m where u: "t_u (k_thr k tp) = WtMtx m"
        using inv(2) tid by (auto simp: mtx_struct_def)
      have wm: "waits_mtx k tp m" and q: "tp \<in> set (mqueue k m') \<longleftrightarrow> m' = m" for m'
        using mtx u tid inv(2) by (auto simp: mtx_struct_def waits_mtx_def)
      have "mqueue k m \<noteq> []" using q[of m] by auto
      then obtain tp' where own: "mowner k m = Some tp'" "tp' \<in> set (k_tids k)"
        using mtx_struct_owned[OF inv(2)] by blast
      let ?k = "requeue_mtx tp m (set_prio tp p k)"
      have b: "boosted p tp k ?k"
        by (rule boosted_mtx[OF inv wm pos])
      have f: "boost_frame k ?k" "sched_inv ?k" "qsorted ?k"
        using b by (simp_all add: boosted_def)
      obtain k' where k': "mtx_boost p tp' ?k = Inr k'" "walk_post p ow ?k k'" "p \<le> prio k' tp'"
        using "1.IH"[OF _ lt _ mtx u own(1)] tid f(2) boost_frame_struct[OF f(1) inv(2)] f(3)
          walk_step[OF b lt walk own(1) q] own(2) by auto
      have "prio k' tp = prio ?k tp \<or> (prio ?k tp < p \<and> prio k' tp = p)"
        using k'(2) unfolding walk_post_def by blast
      then have "prio k' tp = p"
        by simp
      with k' walk_post_trans[OF b lt k'(2)] show ?thesis
        using lt tid mtx u own(1) by (simp add: mtx_boost.simps[of p tp k])
    next
      case cond
      then obtain c where u: "t_u (k_thr k tp) = WtCond c"
        using inv(2) tid by (auto simp: mtx_struct_def)
      have wc: "waits_cond k tp c"
        using cond u tid by (simp add: waits_cond_def)
      show ?thesis
        by (rule last[OF _ boosted_cond[OF inv wc pos] noq]) (simp_all add: mtx_boost.simps[of p tp k] lt tid cond u)
    next
      case ready
      obtain k' where "requeue_ready tp (set_prio tp p k) = Inr k'" "boosted p tp k k'"
        using boosted_ready[OF inv pos tid ready] by blast
      then show ?thesis
        by (intro last[of k'] noq) (simp_all add: mtx_boost.simps[of p tp k] lt tid ready)
    next
      case other
      have "tp \<notin> set (k_ready k)"
        using other(3) inv(1) tid by (simp add: sched_inv_def)
      then show ?thesis
        by (intro last[OF _ boosted_other[OF inv pos other(1,2)]] noq)
          (simp_all add: mtx_boost.simps[of p tp k] lt tid other split: tstate_t.split)
    qed
  qed
qed

section \<open>Locking\<close>

definition sys_inv :: "kernel_t \<Rightarrow> bool" where
  "sys_inv k \<longleftrightarrow> sched_inv k \<and> mtx_inv k"

lemma walk_inv_init:
  assumes "mtx_inv k" "mowner k mp = Some tp"
  shows "walk_inv p tp tp k"
  using assms unfolding walk_inv_def mtx_inv_def inherits_def by (intro conjI) simp_all

text \<open>The caller joins the queue of a mutex whose owner has at least its priority.\<close>

lemma queue_caller:
  assumes "sched_inv k" "mtx_struct k" "qsorted k" "inherits k"
    and just: "\<forall>t \<in> set (k_tids k). realprio k t \<le> prio k t \<and> (justified k t \<or> (t = ow \<and> prio k t = prio k (k_cur k)))"
    and own: "mowner k mp = Some ow" "prio k (k_cur k) \<le> prio k ow"
    and k': "sched_frame (set_u (k_cur k) (WtMtx mp)
        (upd_mtx mp (\<lambda>m. m\<lparr>m_queue := ch_sch_prio_insert (prio k) (k_cur k) (m_queue m)\<rparr>) k)) k'"
    and st: "\<And>t. tstate k' t = CH_STATE_WTMTX \<longleftrightarrow> t = k_cur k \<or> tstate k t = CH_STATE_WTMTX"
      "\<And>t. tstate k' t = CH_STATE_WTCOND \<longleftrightarrow> tstate k t = CH_STATE_WTCOND"
      "\<And>t. t_u (k_thr k' t) = (if t = k_cur k then WtMtx mp else t_u (k_thr k t))"
  shows "mtx_inv k'"
proof -
  let ?c = "k_cur k"
  have c: "tstate k ?c = CH_STATE_CURRENT" "?c \<in> set (k_tids k)"
    using assms(1) by (simp_all add: sched_inv_def)
  have pr: "prio k' t = prio k t" for t
    using k' by (simp add: sched_frame_def kernel_upd)
  have q: "mqueue k' m = (if m = mp then ch_sch_prio_insert (prio k) ?c (mqueue k mp) else mqueue k m)" for m
    using k' by (simp add: sched_frame_def kernel_upd)
  have fr: "mowner k' m = mowner k m" "k_tids k' = k_tids k" "k_cond k' = k_cond k"
      "realprio k' t = realprio k t" "mtxlist k' t = mtxlist k t" for m t
    using k' by (simp_all add: sched_frame_def kernel_upd)
  have notin: "?c \<notin> set (mqueue k m)" "?c \<notin> set (k_cond k cv)" for m cv
    using assms(2) c by (simp_all add: mtx_struct_def waits_mtx_def waits_cond_def)
  have w: "waits_mtx k' t m \<longleftrightarrow> waits_mtx k t m \<or> (t = ?c \<and> m = mp)" "waits_cond k' t cv \<longleftrightarrow> waits_cond k t cv" for t m cv
    using c by (auto simp: waits_mtx_def waits_cond_def fr st)
  have setq: "t \<in> set (mqueue k' m) \<longleftrightarrow> t \<in> set (mqueue k m) \<or> (t = ?c \<and> m = mp)" for t m
    by (auto simp: q)
  have "mtx_struct k'"
    using assms(2) own(1) notin c(1) unfolding mtx_struct_def setq w fr st
    by (intro conjI allI) (auto simp: q)
  moreover have "qsorted k'"
    using assms(3) sch.sorted_ins by (simp add: qsorted_def pr fr q)
  moreover have "inherits k'"
    using assms(4) own by (auto simp: inherits_def pr fr setq)
  moreover have "justified k' t" if "t \<in> set (k_tids k)" for t
  proof -
    have "justified k t \<or> (t = ow \<and> prio k t = prio k ?c)"
      using just that by blast
    then show ?thesis
    proof (elim disjE conjE)
      assume "justified k t"
      then show ?thesis
      proof (cases rule: justified_cases)
        case (wait m w)
        then show ?thesis by (intro justified_wait[of k' m t w]) (simp_all add: pr fr setq)
      qed (simp add: justified_base pr fr)
    next
      assume "t = ow" "prio k t = prio k ?c"
      then show ?thesis
        using own(1) by (intro justified_wait[of k' mp t ?c]) (simp_all add: pr fr setq)
    qed
  qed
  ultimately show ?thesis
    using just by (simp add: mtx_inv_def fr pr)
qed

lemma upd_mtx_sel [simp]:
  "k_tids (upd_mtx m f k) = k_tids k" "k_thr (upd_mtx m f k) = k_thr k" "k_cur (upd_mtx m f k) = k_cur k"
  "k_ready (upd_mtx m f k) = k_ready k" "k_idle (upd_mtx m f k) = k_idle k" "k_cond (upd_mtx m f k) = k_cond k"
  "k_sem (upd_mtx m f k) = k_sem k" "k_ref (upd_mtx m f k) = k_ref k" "k_queue (upd_mtx m f k) = k_queue k"
  "k_mtx (upd_mtx m f k) m' = (if m' = m then f (k_mtx k m) else k_mtx k m')"
  by (simp_all add: upd_mtx_def)

lemma sched_inv_upd_mtx [simp]: "sched_inv (upd_mtx m f k) = sched_inv k"
  by (simp add: sched_inv_def)

lemma chMtxLockS_owned:
  assumes "sys_inv k" "mowner k mp = Some ow" "k_cur k \<noteq> k_idle k"
  shows "\<exists>k'. chMtxLockS mp k = Inr k' \<and> sys_inv k' \<and> sched_ok k' \<and> waits_mtx k' (k_cur k) mp \<and>
    mowner k' mp = Some ow \<and> prio k (k_cur k) \<le> prio k' ow \<and> (\<forall>t. prio k t \<le> prio k' t)"
proof -
  let ?c = "k_cur k" and ?p = "prio k (k_cur k)"
  have inv: "sched_inv k" "mtx_struct k" "qsorted k" "mtx_inv k"
    using assms(1) by (simp_all add: sys_inv_def mtx_inv_def)
  have ow: "ow \<in> set (k_tids k)"
    using inv(2) assms(2) by (simp add: mtx_struct_def)
  obtain k1 where k1: "mtx_boost ?p ow k = Inr k1" "walk_post ?p ow k k1" "?p \<le> prio k1 ow"
    using mtx_boost_ok[OF inv(1-3) walk_inv_init[OF inv(4) assms(2)] ow] by blast
  have f: "boost_frame k k1" "sched_inv k1" "qsorted k1" "inherits k1"
    using k1(2) by (simp_all add: walk_post_def)
  have mono: "prio k1 t = prio k t \<or> (prio k t < ?p \<and> prio k1 t = ?p)" for t
    using k1(2) unfolding walk_post_def by blast
  have c: "k_cur k1 = ?c" "k_idle k1 = k_idle k" "mowner k1 mp = Some ow" "k_tids k1 = k_tids k"
    using f(1) assms(2) by (simp_all add: boost_frame_def)
  have pc: "prio k1 ?c = ?p"
    using mono[of ?c] by auto
  let ?k2 = "set_u ?c (WtMtx mp) (upd_mtx mp (\<lambda>m. m\<lparr>m_queue := ch_sch_prio_insert (prio k1) ?c (m_queue m)\<rparr>) k1)"
  have inv2: "sched_inv ?k2"
    using f(2) by simp
  obtain k' n q where k': "chSchGoSleepS CH_STATE_WTMTX ?k2 = Inr k'" "sched_ok k'" "sched_frame ?k2 k'"
      "k_ready ?k2 = n # q" "n \<noteq> k_cur ?k2"
      "k_thr k' = (k_thr ?k2)(n := (k_thr ?k2 n)\<lparr>t_state := CH_STATE_CURRENT\<rparr>,
                              k_cur ?k2 := (k_thr ?k2 (k_cur ?k2))\<lparr>t_state := CH_STATE_WTMTX\<rparr>)"
    using chSchGoSleepS_ok[OF inv2, of CH_STATE_WTMTX] assms(3) c(1,2) by auto
  have n: "n \<noteq> ?c" "tstate k1 n = CH_STATE_READY"
    using k'(4,5) inv2 c(1) by (simp_all add: sched_inv_def)
  have just: "\<forall>t \<in> set (k_tids k1). realprio k1 t \<le> prio k1 t \<and> (justified k1 t \<or> (t = ow \<and> prio k1 t = prio k1 (k_cur k1)))"
    using k1(2) unfolding walk_post_def c(1,4) pc by blast
  have "mtx_inv k'"
  proof (rule queue_caller[OF f(2) boost_frame_struct[OF f(1) inv(2)] f(3,4) just c(3)])
    show "prio k1 (k_cur k1) \<le> prio k1 ow"
      using k1(3) by (simp add: c(1) pc)
    show "sched_frame (set_u (k_cur k1) (WtMtx mp)
        (upd_mtx mp (\<lambda>m. m\<lparr>m_queue := ch_sch_prio_insert (prio k1) (k_cur k1) (m_queue m)\<rparr>) k1)) k'"
      using k'(3) by (simp only: c(1))
  qed (use n c(1) k'(6) sched_inv_cur[OF f(2)] in auto)
  moreover have "sched_inv k'"
    using k'(2) by (simp add: sched_ok_def)
  moreover have "waits_mtx k' ?c mp"
    using k'(3,6) c inv(1) by (simp add: waits_mtx_def sched_frame_def sched_inv_def)
  moreover have "mowner k' mp = Some ow" "prio k' t = prio k1 t" for t
    using k'(3) c(3) by (simp_all add: sched_frame_def)
  moreover have "prio k t \<le> prio k1 t" for t
    using mono[of t] by auto
  moreover have "chMtxLockS mp k = Inr k'"
    using k1(1) k'(1) assms(2) by (simp add: chMtxLockS_def)
  ultimately show ?thesis
    using k'(2) k1(3) by (simp add: sys_inv_def)
qed

lemma take_mutex:
  assumes "sys_inv k" "mowner k mp = None"
  shows "sys_inv (upd_thr (k_cur k) (\<lambda>t. t\<lparr>t_mtxlist := mp # t_mtxlist t\<rparr>)
    (upd_mtx mp (\<lambda>m. m\<lparr>m_owner := Some (k_cur k)\<rparr>) k))" (is "sys_inv ?k")
proof -
  let ?c = "k_cur k"
  have inv: "sched_inv k" "mtx_struct k" "qsorted k" "inherits k"
      "\<forall>t \<in> set (k_tids k). realprio k t \<le> prio k t \<and> justified k t"
    using assms(1) by (simp_all add: sys_inv_def mtx_inv_def)
  have c: "?c \<in> set (k_tids k)"
    using inv(1) by (simp add: sched_inv_def)
  have q: "mqueue k mp = []"
    using inv(2) assms(2) by (simp add: mtx_struct_def)
  have sel: "prio ?k t = prio k t" "realprio ?k t = realprio k t" "tstate ?k t = tstate k t"
      "t_u (k_thr ?k t) = t_u (k_thr k t)" "mqueue ?k m = mqueue k m" "k_tids ?k = k_tids k" "k_ready ?k = k_ready k"
      "k_cond ?k = k_cond k" "k_cur ?k = k_cur k" "k_idle ?k = k_idle k" for t m
    by (simp_all add: kernel_upd)
  have own: "mowner ?k m = (if m = mp then Some ?c else mowner k m)"
      "mtxlist ?k t = (if t = ?c then mp # mtxlist k ?c else mtxlist k t)" for m t
    by (simp_all add: kernel_upd)
  have free: "mp \<notin> set (mtxlist k t)" if "t \<in> set (k_tids k)" for t
    using mtx_struct_own[OF inv(2), of mp t] assms(2) that by simp
  have "sched_inv ?k"
    using inv(1) unfolding sched_inv_def sel .
  moreover have "mtx_struct ?k"
    using inv(2) c free unfolding mtx_struct_def waits_mtx_def waits_cond_def sel own
    by (intro conjI allI) auto
  moreover have "qsorted ?k" "inherits ?k"
    using inv(3,4) q unfolding qsorted_def inherits_def sel own by auto
  moreover have "justified ?k t" if "t \<in> set (k_tids k)" for t
  proof -
    have "justified k t" using inv(5) that by blast
    then show ?thesis
    proof (cases rule: justified_cases)
      case (wait m w)
      then have "m \<noteq> mp" using assms(2) by auto
      with wait show ?thesis by (intro justified_wait[of ?k m t w]) (simp_all only: sel own if_False)
    qed (simp add: justified_base sel)
  qed
  ultimately show ?thesis
    using inv(5) unfolding sys_inv_def mtx_inv_def sel by blast
qed

section \<open>Unlocking\<close>

lemma mtx_newprio_cong:
  assumes "\<And>m. mqueue k' m = mqueue k m" "\<And>t. prio k' t = prio k t"
  shows "mtx_newprio k' l p = mtx_newprio k l p"
  by (induction l arbitrary: p) (simp_all add: assms split: list.split)

text \<open>The scan finds the highest priority among the threads waiting for the mutexes of the list.\<close>

lemma mtx_newprio_max:
  assumes "qsorted k"
  shows "mtx_newprio k l p = Max (insert p (prio k ` (\<Union>m \<in> set l. set (mqueue k m))))"
proof (induction l arbitrary: p)
  case Nil
  then show ?case by simp
next
  case (Cons m l)
  let ?W = "\<Union>m \<in> set l. set (mqueue k m)"
  show ?case
  proof (cases "mqueue k m")
    case Nil
    with Cons show ?thesis by simp
  next
    case (Cons t q)
    have "psorted (prio k) (t # q)"
      using assms Cons unfolding qsorted_def by metis
    then have "\<forall>u \<in> set q. prio k u \<le> prio k t"
      by (simp add: psorted_Cons)
    then have first: "Max (prio k ` set (t # q)) = prio k t"
      by (intro Max_eqI) auto
    have step: "mtx_newprio k (m # l) p = mtx_newprio k l (max p (prio k t))"
      using Cons by (simp add: max_def)
    have "Max (insert p (prio k ` (\<Union>m \<in> set (m # l). set (mqueue k m)))) =
        Max (insert p (prio k ` set (t # q) \<union> prio k ` ?W))"
      using Cons by (simp add: image_Un)
    also have "\<dots> = max (Max (prio k ` set (t # q))) (Max (insert p (prio k ` ?W)))"
      using Max_Un[of "prio k ` set (t # q)" "insert p (prio k ` ?W)"] by simp
    also have "\<dots> = Max (insert (max p (prio k t)) (prio k ` ?W))"
      unfolding first by (cases "?W = {}") (simp_all add: max.assoc max.commute max.left_commute)
    finally show ?thesis
      using step Cons.IH by simp
  qed
qed

text \<open>The invariant of the mutexes while the priority of \<open>c\<close> is not yet recomputed.\<close>

definition mtx_inv_but :: "tid \<Rightarrow> kernel_t \<Rightarrow> bool" where
  "mtx_inv_but c k \<longleftrightarrow> mtx_struct k \<and> qsorted k \<and> inherits k \<and>
     (\<forall>t \<in> set (k_tids k). realprio k t \<le> prio k t \<and> (t \<noteq> c \<longrightarrow> justified k t))"

lemma mtx_inv_but: "mtx_inv k \<longleftrightarrow> mtx_inv_but c k \<and> (c \<in> set (k_tids k) \<longrightarrow> justified k c)"
  unfolding mtx_inv_def mtx_inv_but_def by auto

lemma mtx_struct_cur:
  assumes "sched_inv k" "mtx_struct k"
  shows "k_cur k \<notin> set (mqueue k m)" "k_cur k \<notin> set (k_cond k cv)"
  using assms sched_inv_cur[OF assms(1)] by (simp_all add: mtx_struct_def waits_mtx_def waits_cond_def)

lemma release_ok:
  assumes "sched_inv k" "mtx_inv_but (k_cur k) k" "mtxlist k (k_cur k) = mp # l" "mqueue k mp = []"
  defines "k' \<equiv> upd_mtx mp (\<lambda>m. m\<lparr>m_owner := None\<rparr>) (upd_thr (k_cur k) (\<lambda>t. t\<lparr>t_mtxlist := l\<rparr>) k)"
  shows "sched_inv k'" "mtx_inv_but (k_cur k) k'" "k_cur k' = k_cur k" "mtxlist k' (k_cur k) = l"
    "justified k (k_cur k) \<Longrightarrow> justified k' (k_cur k)" "mowner k' mp = None" "\<And>t. prio k' t = prio k t"
    "k_tids k' = k_tids k" "k_ready k' = k_ready k"
proof -
  let ?c = "k_cur k"
  have inv: "mtx_struct k" "qsorted k" "inherits k"
      "\<forall>t \<in> set (k_tids k). realprio k t \<le> prio k t \<and> (t \<noteq> ?c \<longrightarrow> justified k t)"
    using assms(2) by (simp_all add: mtx_inv_but_def)
  have c: "?c \<in> set (k_tids k)"
    using assms(1) by (simp add: sched_inv_def)
  have sel: "prio k' t = prio k t" "realprio k' t = realprio k t" "tstate k' t = tstate k t"
      "t_u (k_thr k' t) = t_u (k_thr k t)" "mqueue k' m = mqueue k m" "k_tids k' = k_tids k" "k_ready k' = k_ready k"
      "k_cond k' = k_cond k" "k_cur k' = k_cur k" "k_idle k' = k_idle k" for t m
    by (simp_all add: k'_def kernel_upd)
  have own: "mowner k' m = (if m = mp then None else mowner k m)"
      "mtxlist k' t = (if t = ?c then l else mtxlist k t)" for m t
    by (simp_all add: k'_def kernel_upd)
  have mine: "mowner k mp = Some ?c"
    using mtx_struct_own[OF inv(1), of mp ?c] assms(3) c by simp
  have others: "mp \<notin> set (mtxlist k t)" if "t \<in> set (k_tids k)" "t \<noteq> ?c" for t
    using mtx_struct_own[OF inv(1), of mp t] mine that by simp
  have dl: "distinct l" "mp \<notin> set l"
    using inv(1) c assms(3) unfolding mtx_struct_def by (metis distinct.simps(2))+
  have just: "justified k' t" if "justified k t" for t
    using that
  proof (cases rule: justified_cases)
    case (wait m w)
    then have "m \<noteq> mp" using assms(4) by auto
    with wait show ?thesis by (intro justified_wait[of k' m t w]) (simp_all only: sel own if_False)
  qed (simp add: justified_base sel)
  have "mtx_struct k'"
    unfolding mtx_struct_def waits_mtx_def waits_cond_def sel own
  proof (intro conjI)
    show "\<forall>m t. ((if m = mp then None else mowner k m) = Some t) =
        (t \<in> set (k_tids k) \<and> m \<in> set (if t = ?c then l else mtxlist k t))"
      using mtx_struct_own[OF inv(1)] assms(3) others dl by auto
    show "\<forall>t \<in> set (k_tids k). distinct (if t = ?c then l else mtxlist k t)"
      using inv(1) dl(1) by (simp add: mtx_struct_def)
  qed (use inv(1) assms(4) in \<open>simp_all add: mtx_struct_def waits_mtx_def waits_cond_def\<close>)
  moreover have "qsorted k'" "inherits k'"
    using inv(2,3) unfolding qsorted_def inherits_def sel own by simp_all
  ultimately show "mtx_inv_but ?c k'"
    using inv(4) just unfolding mtx_inv_but_def sel by blast
  show "sched_inv k'"
    using assms(1) unfolding sched_inv_def sel .
  show "justified k ?c \<Longrightarrow> justified k' ?c" by (rule just)
qed (simp_all add: k'_def kernel_upd)

text \<open>
  The hand-over to the first waiting thread, with \<open>np\<close> the priority the releasing thread
  goes on with.
\<close>

lemma handover_inv:
  assumes "sched_inv k" "mtx_inv_but (k_cur k) k" "mtxlist k (k_cur k) = mp # l" "mqueue k mp = tp # q"
    and np: "realprio k (k_cur k) \<le> np" "\<forall>m \<in> set l. \<forall>w \<in> set (mqueue k m). prio k w \<le> np"
    and sel: "\<And>t. prio k' t = (if t = k_cur k then np else prio k t)" "\<And>t. realprio k' t = realprio k t"
      "\<And>t. tstate k' t = (if t = tp then CH_STATE_READY else tstate k t)"
      "\<And>t. t_u (k_thr k' t) = t_u (k_thr k t)" "k_tids k' = k_tids k" "k_cond k' = k_cond k"
      "\<And>m. mqueue k' m = (if m = mp then q else mqueue k m)"
      "\<And>m. mowner k' m = (if m = mp then Some tp else mowner k m)"
      "\<And>t. mtxlist k' t = (if t = k_cur k then l else if t = tp then mp # mtxlist k tp else mtxlist k t)"
  shows "mtx_inv_but (k_cur k) k'"
proof -
  let ?c = "k_cur k"
  have inv: "mtx_struct k" "qsorted k" "inherits k"
      "\<forall>t \<in> set (k_tids k). realprio k t \<le> prio k t \<and> (t \<noteq> ?c \<longrightarrow> justified k t)"
    using assms(2) by (simp_all add: mtx_inv_but_def)
  have c: "?c \<in> set (k_tids k)"
    using assms(1) by (simp add: sched_inv_def)
  note cq = mtx_struct_cur[OF assms(1) inv(1)]
  have mem: "t \<in> set (mqueue k m) \<longleftrightarrow> waits_mtx k t m" for t m
    using inv(1) by (simp add: mtx_struct_def)
  have tp: "waits_mtx k tp mp" "tp \<noteq> ?c" "tp \<notin> set q" "distinct q" "psorted (prio k) (tp # q)"
  proof -
    show "waits_mtx k tp mp" using mem[of tp mp] assms(4) by simp
    show "tp \<noteq> ?c" using cq(1)[of mp] assms(4) by auto
    have "distinct (tp # q)" using inv(1) assms(4) unfolding mtx_struct_def by metis
    then show "tp \<notin> set q" "distinct q" by simp_all
    show "psorted (prio k) (tp # q)" using inv(2) assms(4) unfolding qsorted_def by metis
  qed
  have mine: "mowner k mp = Some ?c"
    using mtx_struct_own[OF inv(1), of mp ?c] assms(3) c by simp
  have others: "mp \<notin> set (mtxlist k t)" if "t \<in> set (k_tids k)" "t \<noteq> ?c" for t
    using mtx_struct_own[OF inv(1), of mp t] mine that by simp
  have dl: "distinct l" "mp \<notin> set l"
    using inv(1) c assms(3) unfolding mtx_struct_def by (metis distinct.simps(2))+
  have mem': "t \<in> set (mqueue k' m) \<longleftrightarrow> waits_mtx k t m \<and> t \<noteq> tp" for t m
    using mem[of t m] assms(4) tp(1,3) by (auto simp: sel waits_mtx_def)
  have "mtx_struct k'"
    unfolding mtx_struct_def mem'
  proof (intro conjI)
    show "\<forall>m t. (mowner k' m = Some t) = (t \<in> set (k_tids k') \<and> m \<in> set (mtxlist k' t))"
      using mtx_struct_own[OF inv(1)] assms(3) others dl tp(1,2) c by (auto simp: sel waits_mtx_def)
    show "\<forall>t \<in> set (k_tids k'). distinct (mtxlist k' t)"
      using inv(1) dl(1) others tp(2) by (simp add: sel mtx_struct_def)
    show "\<forall>m t. (waits_mtx k t m \<and> t \<noteq> tp) = waits_mtx k' t m"
      by (auto simp: waits_mtx_def sel)
    show "\<forall>cv t. (t \<in> set (k_cond k' cv)) = waits_cond k' t cv"
      using inv(1) tp(1) by (simp add: mtx_struct_def sel waits_mtx_def waits_cond_def)
  qed (use inv(1) tp(4) in \<open>simp_all add: mtx_struct_def sel\<close>)
  moreover have "qsorted k'"
    using inv(2) cq tp(5) assms(4) cq(1)[of mp] by (simp add: qsorted_def sel psorted_Cons)
  moreover have "inherits k'"
    unfolding inherits_def
  proof (intro allI impI)
    fix m t w assume m: "mowner k' m = Some t" "w \<in> set (mqueue k' m)"
    then have w: "w \<in> set (mqueue k m)" "w \<noteq> ?c"
      using assms(4) cq(1)[of m] by (auto simp: sel split: if_splits)
    show "prio k' w \<le> prio k' t"
    proof (cases "m = mp")
      case True
      with m tp(2,5) w(2) show ?thesis by (simp add: sel psorted_Cons)
    next
      case False
      with m have "mowner k m = Some t" by (simp add: sel)
      moreover have "prio k w \<le> np" if "t = ?c"
        using mtx_struct_own[OF inv(1), of m t] that calculation False assms(3) np(2) w(1) by auto
      ultimately show ?thesis
        using inv(3) w by (auto simp: inherits_def sel)
    qed
  qed
  moreover have "justified k' t" if "t \<in> set (k_tids k)" "t \<noteq> ?c" for t
  proof -
    have "justified k t" using inv(4) that by blast
    then show ?thesis
    proof (cases rule: justified_cases)
      case (wait m w)
      then have "m \<noteq> mp" "w \<noteq> ?c" using mine that(2) cq(1)[of m] by auto
      with wait that(2) show ?thesis by (intro justified_wait[of k' m t w]) (simp_all add: sel)
    qed (use that(2) in \<open>simp add: justified_base sel\<close>)
  qed
  ultimately show ?thesis
    using inv(4) np(1) by (simp add: mtx_inv_but_def sel)
qed

lemma handover_ok:
  assumes "sched_inv k" "mtx_inv_but (k_cur k) k" "mtxlist k (k_cur k) = mp # l" "mqueue k mp = tp # q"
    and np: "realprio k (k_cur k) \<le> np" "\<forall>m \<in> set l. \<forall>w \<in> set (mqueue k m). prio k w \<le> np"
  shows "\<exists>k'. mtx_handover mp tp q (set_prio (k_cur k) np (upd_thr (k_cur k) (\<lambda>t. t\<lparr>t_mtxlist := l\<rparr>) k)) = Inr k' \<and>
    sched_inv k' \<and> mtx_inv_but (k_cur k) k' \<and> k_cur k' = k_cur k \<and> mtxlist k' (k_cur k) = l \<and>
    mowner k' mp = Some tp \<and> mtxlist k' tp = mp # mtxlist k tp \<and> tstate k' tp = CH_STATE_READY \<and>
    (\<forall>t. prio k' t = (if t = k_cur k then np else prio k t)) \<and>
    (\<forall>t. realprio k' t = realprio k t) \<and> k_tids k' = k_tids k \<and>
    (\<forall>m. m \<noteq> mp \<longrightarrow> mowner k' m = mowner k m \<and> mqueue k' m = mqueue k m)"
proof -
  let ?c = "k_cur k"
  let ?k1 = "set_prio ?c np (upd_thr ?c (\<lambda>t. t\<lparr>t_mtxlist := l\<rparr>) k)"
  let ?k2 = "upd_thr tp (\<lambda>t. t\<lparr>t_mtxlist := mp # t_mtxlist t\<rparr>)
         (upd_mtx mp (\<lambda>m. m\<lparr>m_queue := q, m_owner := Some tp\<rparr>) ?k1)"
  have inv: "mtx_struct k" "qsorted k" "inherits k"
      "\<forall>t \<in> set (k_tids k). realprio k t \<le> prio k t \<and> (t \<noteq> ?c \<longrightarrow> justified k t)"
    using assms(2) by (simp_all add: mtx_inv_but_def)
  have c: "?c \<in> set (k_tids k)" "?c \<notin> set (k_ready k)"
    using assms(1) cur_not_ready by (simp_all add: sched_inv_def)
  have "tp \<in> set (mqueue k mp)" using assms(4) by simp
  then have tp: "tp \<in> set (k_tids k)" "tstate k tp = CH_STATE_WTMTX" "t_u (k_thr k tp) = WtMtx mp"
    using inv(1) unfolding mtx_struct_def waits_mtx_def by blast+
  have ne: "tp \<noteq> ?c"
    using tp(2) sched_inv_cur[OF assms(1)] by auto
  have sel2: "prio ?k2 t = (if t = ?c then np else prio k t)" "realprio ?k2 t = realprio k t" "tstate ?k2 t = tstate k t"
      "t_u (k_thr ?k2 t) = t_u (k_thr k t)" "k_tids ?k2 = k_tids k" "k_ready ?k2 = k_ready k"
      "k_cond ?k2 = k_cond k" "k_cur ?k2 = ?c" "k_idle ?k2 = k_idle k"
      "mqueue ?k2 m = (if m = mp then q else mqueue k m)" "mowner ?k2 m = (if m = mp then Some tp else mowner k m)"
      "mtxlist ?k2 t = (if t = ?c then l else if t = tp then mp # mtxlist k tp else mtxlist k t)" for t m
    using ne by (simp_all add: kernel_upd)
  have "0 < realprio k ?c"
    using inv(1) c(1) by (simp add: mtx_struct_def)
  then have inv2: "sched_inv ?k2"
    using assms(1) c np(1) unfolding sched_inv_def sel2 by (intro conjI) simp_all
  have "\<exists>k'. chSchReadyI tp ?k2 = Inr k' \<and> sched_inv k' \<and> sched_frame ?k2 k' \<and> k_cur k' = k_cur ?k2 \<and>
    set (k_ready k') = insert tp (set (k_ready ?k2)) \<and>
    k_thr k' = (k_thr ?k2)(tp := (k_thr ?k2 tp)\<lparr>t_state := CH_STATE_READY\<rparr>)"
    by (rule chSchReadyI_ok[OF inv2]) (simp_all only: sel2 tp ne tstate_t.distinct not_False_eq_True)
  then obtain k' where k': "chSchReadyI tp ?k2 = Inr k'" "sched_inv k'" "sched_frame ?k2 k'" "k_cur k' = k_cur ?k2"
      "k_thr k' = (k_thr ?k2)(tp := (k_thr ?k2 tp)\<lparr>t_state := CH_STATE_READY\<rparr>)"
    by blast
  have sel: "prio k' t = (if t = ?c then np else prio k t)" "realprio k' t = realprio k t"
      "tstate k' t = (if t = tp then CH_STATE_READY else tstate k t)"
      "t_u (k_thr k' t) = t_u (k_thr k t)" "k_tids k' = k_tids k" "k_cond k' = k_cond k" "k_cur k' = ?c"
      "mqueue k' m = (if m = mp then q else mqueue k m)" "mowner k' m = (if m = mp then Some tp else mowner k m)"
      "mtxlist k' t = (if t = ?c then l else if t = tp then mp # mtxlist k tp else mtxlist k t)" for t m
    using k'(3,4) sel2 unfolding sched_frame_def k'(5) fun_upd_apply by (simp_all split: if_splits)
  have "mtx_inv_but ?c k'"
    by (rule handover_inv[OF assms]) (simp_all only: sel)
  moreover have "mtx_handover mp tp q ?k1 = Inr k'"
    using k'(1) by (simp only: mtx_handover_def)
  ultimately show ?thesis
    using k'(2) ne by (intro exI[of _ k'] conjI) (simp_all add: sel)
qed

lemma chMtxUnlockS_ok:
  assumes "sys_inv k" "mtxlist k (k_cur k) = mp # l"
  shows "\<exists>k'. chMtxUnlockS mp k = Inr k' \<and> sys_inv k' \<and> k_cur k' = k_cur k \<and> mtxlist k' (k_cur k) = l \<and>
    mowner k' mp = (case mqueue k mp of [] \<Rightarrow> None | tp # _ \<Rightarrow> Some tp) \<and>
    (\<forall>tp q. mqueue k mp = tp # q \<longrightarrow> tstate k' tp = CH_STATE_READY \<and> hd (mtxlist k' tp) = mp)"
proof -
  let ?c = "k_cur k"
  have inv: "sched_inv k" "mtx_inv_but ?c k" "justified k ?c" "mtx_struct k" "qsorted k" and c: "?c \<in> set (k_tids k)"
    using assms(1) mtx_inv_but[of k ?c] unfolding sys_inv_def mtx_inv_def sched_inv_def by blast+
  have own: "mowner k mp = Some ?c"
    using mtx_struct_own[OF inv(4), of mp ?c] assms(2) c by simp
  have chk: "mtx_checks mp k = Inr l"
    using assms(2) own by (simp add: mtx_checks_def)
  let ?k = "upd_thr ?c (\<lambda>t. t\<lparr>t_mtxlist := l\<rparr>) k"
  show ?thesis
  proof (cases "mqueue k mp")
    case Nil
    note r = release_ok[OF inv(1,2) assms(2) Nil]
    have "mtx_inv (upd_mtx mp (\<lambda>m. m\<lparr>m_owner := None\<rparr>) ?k)"
      using r(2) r(5)[OF inv(3)] mtx_inv_but by blast
    moreover have "mqueue ?k mp = []"
      using Nil by (simp add: upd_thr_def)
    ultimately show ?thesis
      using r chk Nil by (simp add: chMtxUnlockS_def sys_inv_def)
  next
    case (Cons tp q)
    let ?W = "\<Union>m \<in> set l. set (mqueue k m)"
    let ?np = "Max (insert (realprio k ?c) (prio k ` ?W))"
    have npW: "mtx_newprio ?k l (realprio ?k ?c) = ?np"
    proof -
      have "mtx_newprio ?k l (realprio ?k ?c) = mtx_newprio k l (realprio k ?c)"
        using mtx_newprio_cong[of ?k k] by (simp add: upd_thr_def)
      then show ?thesis using mtx_newprio_max[OF inv(5)] by simp
    qed
    have np: "realprio k ?c \<le> ?np" "\<forall>m \<in> set l. \<forall>w \<in> set (mqueue k m). prio k w \<le> ?np"
      by (auto intro!: Max_ge)
    obtain k' where k': "mtx_handover mp tp q (set_prio ?c ?np ?k) = Inr k'"
        "sched_inv k'" "mtx_inv_but ?c k'" "k_cur k' = ?c" "mtxlist k' ?c = l"
        "mowner k' mp = Some tp" "mtxlist k' tp = mp # mtxlist k tp" "tstate k' tp = CH_STATE_READY"
        "\<forall>t. prio k' t = (if t = ?c then ?np else prio k t)" "\<forall>t. realprio k' t = realprio k t"
        "\<forall>m. m \<noteq> mp \<longrightarrow> mowner k' m = mowner k m \<and> mqueue k' m = mqueue k m"
      using handover_ok[OF inv(1,2) assms(2) Cons np] by blast
    have "?np \<in> insert (realprio k ?c) (prio k ` ?W)"
      by (rule Max_in) simp_all
    then have "justified k' ?c"
    proof (elim insertE imageE UN_E)
      assume "?np = realprio k ?c"
      then show ?thesis using k'(9,10) by (simp add: justified_base)
    next
      fix w m assume w: "?np = prio k w" "m \<in> set l" "w \<in> set (mqueue k m)"
      have "distinct (mp # l)"
        using inv(4) c assms(2) unfolding mtx_struct_def by metis
      then have "m \<noteq> mp" using w(2) by auto
      moreover have "mowner k m = Some ?c"
        using mtx_struct_own[OF inv(4), of m ?c] assms(2) c w(2) by simp
      moreover have "w \<noteq> ?c"
        using mtx_struct_cur(1)[OF inv(1,4)] w(3) by auto
      ultimately show ?thesis
        using k'(9,11) w by (intro justified_wait[of k' m ?c w]) simp_all
    qed
    then have "mtx_inv k'"
      using k'(3) mtx_inv_but by blast
    moreover have "mqueue ?k mp = tp # q"
      using Cons by (simp add: upd_thr_def)
    ultimately show ?thesis
      using k' chk npW Cons by (simp add: chMtxUnlockS_def sys_inv_def Let_def)
  qed
qed

lemma sched_inv_running:
  assumes "sched_inv k" "t \<in> set (k_tids k)"
  shows "tstate k t \<in> {CH_STATE_READY, CH_STATE_CURRENT} \<longleftrightarrow> t \<in> insert (k_cur k) (set (k_ready k))"
  using assms by (simp add: sched_inv_def disj_commute)

text \<open>
  What the invariant of the mutexes depends on: an operation that leaves these alone keeps
  it, whatever threads it wakes up or puts to sleep elsewhere.
\<close>

definition mtx_frame :: "kernel_t \<Rightarrow> kernel_t \<Rightarrow> bool" where
  "mtx_frame k k' \<longleftrightarrow>
     k_tids k' = k_tids k \<and> k_mtx k' = k_mtx k \<and> k_cond k' = k_cond k \<and>
     (\<forall>t. prio k' t = prio k t \<and> realprio k' t = realprio k t \<and> mtxlist k' t = mtxlist k t) \<and>
     (\<forall>t \<in> set (k_tids k). \<forall>st \<in> {CH_STATE_WTMTX, CH_STATE_WTCOND}.
        (tstate k' t = st \<longleftrightarrow> tstate k t = st) \<and> (tstate k t = st \<longrightarrow> t_u (k_thr k' t) = t_u (k_thr k t)))"

lemma mtx_frame_trans: "mtx_frame a b \<Longrightarrow> mtx_frame b c \<Longrightarrow> mtx_frame a c"
  by (simp add: mtx_frame_def)

lemma mtx_inv_frame:
  assumes "mtx_inv k" "mtx_frame k k'"
  shows "mtx_inv k'"
proof -
  have fr: "k_tids k' = k_tids k" "k_mtx k' = k_mtx k" "k_cond k' = k_cond k" "prio k' t = prio k t"
      "realprio k' t = realprio k t" "mtxlist k' t = mtxlist k t" for t
    using assms(2) by (simp_all add: mtx_frame_def)
  have st: "t \<in> set (k_tids k) \<Longrightarrow> tstate k' t = CH_STATE_WTMTX \<longleftrightarrow> tstate k t = CH_STATE_WTMTX"
      "t \<in> set (k_tids k) \<Longrightarrow> tstate k' t = CH_STATE_WTCOND \<longleftrightarrow> tstate k t = CH_STATE_WTCOND"
      "t \<in> set (k_tids k) \<Longrightarrow> tstate k t = CH_STATE_WTMTX \<Longrightarrow> t_u (k_thr k' t) = t_u (k_thr k t)"
      "t \<in> set (k_tids k) \<Longrightarrow> tstate k t = CH_STATE_WTCOND \<Longrightarrow> t_u (k_thr k' t) = t_u (k_thr k t)" for t
    using assms(2) by (simp_all add: mtx_frame_def)
  then have "waits_mtx k' t m = waits_mtx k t m" "waits_cond k' t c = waits_cond k t c" for t m c
    by (auto simp: waits_mtx_def waits_cond_def fr)
  then have "mtx_struct k'"
    using assms(1) st by (simp add: mtx_inv_def mtx_struct_def fr)
  moreover have "qsorted k'" "inherits k'" "justified k' t = justified k t" for t
    using assms(1) by (simp_all add: mtx_inv_def qsorted_def inherits_def justified_def fr)
  ultimately show ?thesis
    using assms(1) by (simp add: mtx_inv_def fr)
qed

lemma sys_inv_reschedule:
  assumes "sys_inv k"
  shows "\<exists>k'. chSchRescheduleS k = Inr k' \<and> sys_inv k' \<and> sched_ok k' \<and> sched_frame k k' \<and>
    (\<forall>t \<in> set (k_tids k). tstate k' t \<in> {CH_STATE_READY, CH_STATE_CURRENT} \<longleftrightarrow> tstate k t \<in> {CH_STATE_READY, CH_STATE_CURRENT})"
proof -
  have inv: "sched_inv k" using assms by (simp add: sys_inv_def)
  obtain k' where k': "chSchRescheduleS k = Inr k'" "sched_inv k'" "sched_frame k k'"
      "insert (k_cur k') (set (k_ready k')) = insert (k_cur k) (set (k_ready k))"
      "\<forall>t. t_u (k_thr k' t) = t_u (k_thr k t)"
      "\<forall>t. t \<notin> insert (k_cur k) (set (k_ready k)) \<longrightarrow> k_thr k' t = k_thr k t"
    using chSchRescheduleS_ok[OF inv] by blast
  have tids: "k_tids k' = k_tids k"
    using k'(3) by (simp add: sched_frame_def)
  have run: "tstate k t \<in> {CH_STATE_READY, CH_STATE_CURRENT} \<longleftrightarrow> t \<in> insert (k_cur k) (set (k_ready k))"
      "tstate k' t \<in> {CH_STATE_READY, CH_STATE_CURRENT} \<longleftrightarrow> t \<in> insert (k_cur k) (set (k_ready k))"
    if "t \<in> set (k_tids k)" for t
    using that sched_inv_running[OF inv, of t] sched_inv_running[OF k'(2), of t] k'(4) tids by simp_all
  have "tstate k' t = st \<longleftrightarrow> tstate k t = st" if "st \<in> {CH_STATE_WTMTX, CH_STATE_WTCOND}" "t \<in> set (k_tids k)" for t st
  proof (cases "t \<in> insert (k_cur k) (set (k_ready k))")
    case True
    then show ?thesis using run[OF that(2)] that(1) by auto
  next
    case False
    then show ?thesis using k'(6) by simp
  qed
  then have "mtx_frame k k'"
    using k'(3,5) by (simp add: mtx_frame_def sched_frame_def)
  moreover have "mtx_inv k"
    using assms by (simp add: sys_inv_def)
  ultimately have "mtx_inv k'"
    by (rule mtx_inv_frame[rotated])
  then show ?thesis
    using k' chSchRescheduleS_highest[OF inv k'(1)] run by (simp add: sys_inv_def)
qed

lemma chMtxUnlock_ok:
  assumes "sys_inv k" "sched_ok k" "mtxlist k (k_cur k) = mp # l"
  shows "\<exists>k'. chMtxUnlock mp k = Inr k' \<and> sys_inv k' \<and> sched_ok k' \<and> mtxlist k' (k_cur k) = l \<and>
    mowner k' mp = (case mqueue k mp of [] \<Rightarrow> None | tp # _ \<Rightarrow> Some tp) \<and>
    (mqueue k mp = [] \<longrightarrow> k_cur k' = k_cur k) \<and>
    (\<forall>tp q. mqueue k mp = tp # q \<longrightarrow>
       tstate k' tp \<in> {CH_STATE_READY, CH_STATE_CURRENT} \<and> chMtxLockS_resume mp tp k' = Inr ())"
proof -
  let ?c = "k_cur k"
  obtain k1 where k1: "chMtxUnlockS mp k = Inr k1" "sys_inv k1" "k_cur k1 = ?c" "mtxlist k1 ?c = l"
      "mowner k1 mp = (case mqueue k mp of [] \<Rightarrow> None | tp # _ \<Rightarrow> Some tp)"
      "\<forall>tp q. mqueue k mp = tp # q \<longrightarrow> tstate k1 tp = CH_STATE_READY \<and> hd (mtxlist k1 tp) = mp"
    using chMtxUnlockS_ok[OF assms(1,3)] by blast
  show ?thesis
  proof (cases "mqueue k mp")
    case Nil
    have eq: "chMtxUnlock mp k = chMtxUnlockS mp k"
      using Nil by (cases "mtx_checks mp k") (simp_all add: chMtxUnlock_def chMtxUnlockS_def upd_thr_def)
    have "mtx_checks mp k = Inr l"
      using k1(1) assms(3) unfolding chMtxUnlockS_def Let_def
      by (cases "mtx_checks mp k") (auto simp: mtx_checks_def bindE_def split: sum.splits)
    then have "k1 = upd_mtx mp (\<lambda>m. m\<lparr>m_owner := None\<rparr>) (upd_thr ?c (\<lambda>t. t\<lparr>t_mtxlist := l\<rparr>) k)"
      using k1(1) Nil by (simp add: chMtxUnlockS_def upd_thr_def Let_def)
    then have "firstprio k1 = firstprio k" "prio k1 ?c = prio k ?c"
      by (simp_all add: firstprio_def upd_thr_def split: list.split)
    then have "sched_ok k1"
      using assms(2) k1(2,3) by (simp add: sched_ok_def sys_inv_def)
    then show ?thesis
      using k1 Nil eq by simp
  next
    case (Cons tp q)
    obtain k' where k': "chSchRescheduleS k1 = Inr k'" "sys_inv k'" "sched_ok k'" "sched_frame k1 k'"
      "\<forall>t \<in> set (k_tids k1). tstate k' t \<in> {CH_STATE_READY, CH_STATE_CURRENT} \<longleftrightarrow> tstate k1 t \<in> {CH_STATE_READY, CH_STATE_CURRENT}"
      using sys_inv_reschedule[OF k1(2)] by blast
    have eq: "chMtxUnlock mp k = bindE (chMtxUnlockS mp k) chSchRescheduleS"
      using Cons by (simp add: chMtxUnlock_def chMtxUnlockS_def upd_thr_def bindE_assoc Let_def)
    have own: "mowner k1 mp = Some tp" "tstate k1 tp = CH_STATE_READY" "hd (mtxlist k1 tp) = mp"
      using k1(5,6) Cons by simp_all
    have tp: "tp \<in> set (k_tids k1)" "mp \<in> set (mtxlist k1 tp)"
      using mtx_struct_own[of k1 mp tp] own(1) k1(2) by (simp_all add: sys_inv_def mtx_inv_def)
    have fr: "mowner k' mp = mowner k1 mp" "mtxlist k' t = mtxlist k1 t" for t
      using k'(4) by (simp_all add: sched_frame_def)
    have "chMtxLockS_resume mp tp k' = Inr ()"
      using own tp(2) by (cases "mtxlist k1 tp") (simp_all add: chMtxLockS_resume_def fr)
    moreover have "tstate k' tp \<in> {CH_STATE_READY, CH_STATE_CURRENT}"
      using k'(5) tp(1) own(2) by blast
    ultimately show ?thesis
      using eq k1(1,4,5) k' Cons fr by simp
  qed
qed

lemma unlock_all_loop_ok:
  assumes "sched_inv k" "mtx_inv_but (k_cur k) k" "mtxlist k (k_cur k) = l"
  shows "\<exists>k'. mtx_unlock_all_loop (length l) k = Inr k' \<and> sched_inv k' \<and> mtx_inv_but (k_cur k) k' \<and>
    k_cur k' = k_cur k \<and> mtxlist k' (k_cur k) = [] \<and> prio k' (k_cur k) = prio k (k_cur k) \<and> k_tids k' = k_tids k"
  using assms
proof (induction l arbitrary: k)
  case Nil
  then show ?case by simp
next
  case (Cons mp l)
  let ?c = "k_cur k"
  let ?k = "upd_thr ?c (\<lambda>t. t\<lparr>t_mtxlist := l\<rparr>) k"
  have inv: "mtx_struct k" "inherits k" "\<forall>t \<in> set (k_tids k). realprio k t \<le> prio k t" "?c \<in> set (k_tids k)"
    using Cons.prems unfolding mtx_inv_but_def sched_inv_def by blast+
  show ?case
  proof (cases "mqueue k mp")
    case Nil
    note r = release_ok[OF Cons.prems Nil]
    have "mqueue ?k mp = []" using Nil by (simp add: upd_thr_def)
    then show ?thesis
      using Cons.IH[OF r(1)] r Cons.prems(3) by (auto simp: Let_def)
  next
    case q: (Cons tp q)
    have "prio k w \<le> prio k ?c" if "m \<in> set l" "w \<in> set (mqueue k m)" for m w
      using mtx_struct_own[OF inv(1), of m ?c] that Cons.prems(3) inv(2,4) unfolding inherits_def by simp
    then obtain k1 where k1: "mtx_handover mp tp q (set_prio ?c (prio k ?c) ?k) = Inr k1" "sched_inv k1"
        "mtx_inv_but ?c k1" "k_cur k1 = ?c" "mtxlist k1 ?c = l"
        "\<forall>t. prio k1 t = (if t = ?c then prio k ?c else prio k t)" "k_tids k1 = k_tids k"
      using handover_ok[OF Cons.prems q, of "prio k ?c"] inv(3,4) by blast
    have same: "set_prio ?c (prio k ?c) ?k = ?k"
      by (simp add: kernel_upd)
    have "mqueue ?k mp = tp # q" using q by (simp add: upd_thr_def)
    then show ?thesis
      using Cons.IH[OF k1(2)] k1 Cons.prems(3) same by (auto simp: Let_def)
  qed
qed

lemma chMtxUnlockAllS_ok:
  assumes "sys_inv k" "mtxlist k (k_cur k) \<noteq> []"
  shows "\<exists>k'. chMtxUnlockAllS k = Inr k' \<and> sys_inv k' \<and> sched_ok k' \<and> mtxlist k' (k_cur k) = [] \<and>
    prio k' (k_cur k) = realprio k' (k_cur k)"
proof -
  let ?c = "k_cur k"
  have inv: "sched_inv k" "mtx_inv_but ?c k" and c: "?c \<in> set (k_tids k)"
    using assms(1) mtx_inv_but[of k ?c] unfolding sys_inv_def sched_inv_def by blast+
  obtain k1 where k1: "mtx_unlock_all_loop (length (mtxlist k ?c)) k = Inr k1" "sched_inv k1" "mtx_inv_but ?c k1"
      "k_cur k1 = ?c" "mtxlist k1 ?c = []" "k_tids k1 = k_tids k"
    using unlock_all_loop_ok[OF inv refl] by blast
  have m: "mtx_struct k1" "qsorted k1" "inherits k1"
      "\<forall>t \<in> set (k_tids k1). realprio k1 t \<le> prio k1 t \<and> (t \<noteq> ?c \<longrightarrow> justified k1 t)"
    using k1(3) by (simp_all add: mtx_inv_but_def)
  have none: "mowner k1 m \<noteq> Some ?c" for m
    using mtx_struct_own[OF m(1), of m ?c] k1(5) by simp
  let ?k = "set_prio ?c (realprio k1 ?c) k1"
  have cq: "?c \<notin> set (mqueue k1 m)" "?c \<notin> set (k_cond k1 cv)" for m cv
    using mtx_struct_cur[OF k1(2) m(1)] k1(4) by simp_all
  have pos: "0 < realprio k1 ?c"
    using m(1) c k1(6) by (simp add: mtx_struct_def)
  have s: "sched_inv ?k"
    using sched_inv_set_prio[OF k1(2) _ pos] cur_not_ready[OF k1(2)] k1(4) by simp
  have "justified ?k t" if "t \<in> set (k_tids k1)" for t
  proof (cases "t = ?c")
    case True
    then show ?thesis by (simp add: justified_base)
  next
    case False
    then have "justified k1 t" using m(4) that by blast
    then show ?thesis
    proof (cases rule: justified_cases)
      case (wait mx w)
      then have "w \<noteq> ?c" using cq(1) by auto
      with wait False show ?thesis by (intro justified_wait[of ?k mx t w]) simp_all
    qed (use False in \<open>simp add: justified_base\<close>)
  qed
  moreover have "mtx_struct ?k"
    using m(1) by (simp add: mtx_struct_def waits_mtx_def waits_cond_def)
  moreover have "qsorted ?k"
    using m(2) cq by (simp add: qsorted_def)
  moreover have "inherits ?k"
    using m(3) none cq(1) unfolding inherits_def by auto
  ultimately have "sys_inv ?k"
    using s m(4) by (simp add: sys_inv_def mtx_inv_def)
  then obtain k' where k': "chSchRescheduleS ?k = Inr k'" "sys_inv k'" "sched_ok k'" "sched_frame ?k k'"
    using sys_inv_reschedule by blast
  have "mtxlist k' ?c = []" "prio k' ?c = realprio k' ?c"
    using k'(4) k1(5) by (simp_all add: sched_frame_def)
  with k' k1(1) assms(2) show ?thesis
    by (simp add: chMtxUnlockAllS_def Let_def)
qed

section \<open>Sleeping and waking up elsewhere\<close>

text \<open>
  For the other synchronisation objects: an update of their own fields, of \<open>u\<close> of a thread that
  waits for no mutex and no condition variable, and of the timers is invisible to scheduler
  and mutexes.
\<close>

definition obj_frame :: "kernel_t \<Rightarrow> kernel_t \<Rightarrow> bool" where
  "obj_frame k k' \<longleftrightarrow>
     k_tids k' = k_tids k \<and> k_cur k' = k_cur k \<and> k_ready k' = k_ready k \<and> k_idle k' = k_idle k \<and>
     k_mtx k' = k_mtx k \<and> k_cond k' = k_cond k \<and>
     (\<forall>t. prio k' t = prio k t \<and> realprio k' t = realprio k t \<and> mtxlist k' t = mtxlist k t \<and> tstate k' t = tstate k t) \<and>
     (\<forall>t \<in> set (k_tids k). tstate k t \<in> {CH_STATE_WTMTX, CH_STATE_WTCOND} \<longrightarrow> t_u (k_thr k' t) = t_u (k_thr k t))"

lemma obj_frame_sys_inv:
  assumes "obj_frame k k'" "sys_inv k"
  shows "sys_inv k'"
proof -
  have "mtx_frame k k'"
    using assms(1) by (simp add: obj_frame_def mtx_frame_def)
  moreover have "sched_inv k'"
    using assms unfolding sys_inv_def sched_inv_def obj_frame_def by simp
  ultimately show ?thesis
    using assms(2) mtx_inv_frame[of k k'] by (simp add: sys_inv_def)
qed

lemma obj_frame_sched_ok:
  assumes "obj_frame k k'" "sched_ok k"
  shows "sched_ok k'"
proof -
  have "firstprio k' = firstprio k"
    using assms(1) by (simp add: firstprio_def obj_frame_def split: list.split)
  moreover have "sched_inv k'"
    using assms unfolding sched_ok_def sched_inv_def obj_frame_def by simp
  ultimately show ?thesis
    using assms by (simp add: sched_ok_def obj_frame_def)
qed

text \<open>The running thread goes to sleep elsewhere.\<close>

lemma sleep_elsewhere:
  assumes "sys_inv k" "k_cur k \<noteq> k_idle k"
    "st \<notin> {CH_STATE_READY, CH_STATE_CURRENT, CH_STATE_WTMTX, CH_STATE_WTCOND}"
  shows "\<exists>k'. chSchGoSleepS st k = Inr k' \<and> sys_inv k' \<and> sched_ok k' \<and> sched_frame k k' \<and>
    tstate k' (k_cur k) = st \<and> t_u (k_thr k' (k_cur k)) = t_u (k_thr k (k_cur k)) \<and>
    (\<forall>t. t \<noteq> k_cur k \<longrightarrow> t_u (k_thr k' t) = t_u (k_thr k t) \<and>
       (tstate k' t = tstate k t \<or> (tstate k t = CH_STATE_READY \<and> tstate k' t = CH_STATE_CURRENT))) \<and>
    k_timer k' = k_timer k \<and> (\<forall>t. t_epending (k_thr k' t) = t_epending (k_thr k t))"
proof -
  have inv: "sched_inv k" "mtx_inv k"
    using assms(1) by (simp_all add: sys_inv_def)
  obtain k' n q where k': "chSchGoSleepS st k = Inr k'" "sched_ok k'" "sched_frame k k'" "k_ready k = n # q"
      "k_ready k' = q" "k_cur k' = n" "n \<noteq> k_cur k"
      "k_thr k' = (k_thr k)(n := (k_thr k n)\<lparr>t_state := CH_STATE_CURRENT\<rparr>, k_cur k := (k_thr k (k_cur k))\<lparr>t_state := st\<rparr>)"
    using chSchGoSleepS_ok[OF inv(1) assms(2), of st] assms(3) by auto
  have n: "tstate k n = CH_STATE_READY"
    using inv(1) k'(4) by (simp add: sched_inv_def)
  have c: "tstate k (k_cur k) = CH_STATE_CURRENT"
    by (rule sched_inv_cur[OF inv(1)])
  have "mtx_frame k k'"
    using k'(3,7) assms(3) n c unfolding mtx_frame_def k'(8) sched_frame_def by auto
  then have "sys_inv k'"
    using mtx_inv_frame[OF inv(2)] k'(2) by (simp add: sys_inv_def sched_ok_def)
  moreover have "k_timer k' = k_timer k"
    using k'(1,4) by (auto simp: chSchGoSleepS_def pick_next_def kernel_upd Let_def assertE_def bindE_def split: if_splits)
  ultimately show ?thesis
    using k'(1-3,7) n by (intro exI[of _ k'] conjI) (simp_all add: k'(8))
qed

text \<open>A thread sleeping elsewhere is made ready.\<close>

lemma ready_elsewhere:
  assumes "sys_inv k" "t \<in> set (k_tids k)"
    "tstate k t \<notin> {CH_STATE_READY, CH_STATE_CURRENT, CH_STATE_FINAL, CH_STATE_WTMTX, CH_STATE_WTCOND}"
  shows "\<exists>k'. chSchReadyI t k = Inr k' \<and> sys_inv k' \<and> sched_frame k k' \<and> k_cur k' = k_cur k \<and>
    k_thr k' = (k_thr k)(t := (k_thr k t)\<lparr>t_state := CH_STATE_READY\<rparr>) \<and> k_timer k' = k_timer k"
proof -
  have inv: "sched_inv k" "mtx_inv k"
    using assms(1) by (simp_all add: sys_inv_def)
  have "t \<noteq> k_cur k"
    using sched_inv_cur[OF inv(1)] assms(3) by auto
  then obtain k' where k': "chSchReadyI t k = Inr k'" "sched_inv k'" "sched_frame k k'" "k_cur k' = k_cur k"
      "k_thr k' = (k_thr k)(t := (k_thr k t)\<lparr>t_state := CH_STATE_READY\<rparr>)"
    using chSchReadyI_ok[OF inv(1) assms(2)] assms(3) by auto
  have "mtx_frame k k'"
    using k'(3) assms(3) unfolding mtx_frame_def k'(5) sched_frame_def by auto
  then have "sys_inv k'"
    using mtx_inv_frame[OF inv(2)] k'(2) by (simp add: sys_inv_def)
  moreover have "k_timer k' = k_timer k"
    using k'(1) by (auto simp: chSchReadyI_def sch_ready_behind_def Let_def assertE_def split: if_splits)
  ultimately show ?thesis
    using k' by blast
qed

text \<open>A thread sleeping elsewhere is woken up by \<open>chSchWakeupS\<close>.\<close>

lemma wakeup_elsewhere:
  assumes "sys_inv k" "sched_ok k" "t \<in> set (k_tids k)"
    "tstate k t \<notin> {CH_STATE_READY, CH_STATE_CURRENT, CH_STATE_FINAL, CH_STATE_WTMTX, CH_STATE_WTCOND}"
  shows "\<exists>k'. chSchWakeupS t msg k = Inr k' \<and> sys_inv k' \<and> sched_ok k' \<and> sched_frame k k' \<and>
    t_u (k_thr k' t) = RdyMsg msg \<and> (\<forall>u. u \<noteq> t \<longrightarrow> t_u (k_thr k' u) = t_u (k_thr k u)) \<and>
    (\<forall>u \<in> set (k_tids k). tstate k' u \<in> {CH_STATE_READY, CH_STATE_CURRENT} \<longleftrightarrow>
       u = t \<or> tstate k u \<in> {CH_STATE_READY, CH_STATE_CURRENT}) \<and>
    (\<forall>u. u \<noteq> t \<longrightarrow> u \<noteq> k_cur k \<longrightarrow> k_thr k' u = k_thr k u)"
proof -
  have inv: "sched_inv k" "mtx_inv k"
    using assms(1) by (simp_all add: sys_inv_def)
  have c: "tstate k (k_cur k) = CH_STATE_CURRENT"
    by (rule sched_inv_cur[OF inv(1)])
  then have ne: "t \<noteq> k_cur k"
    using assms(4) by auto
  obtain k' where k': "chSchWakeupS t msg k = Inr k'" "sched_ok k'" "sched_frame k k'"
      "insert (k_cur k') (set (k_ready k')) = insert t (insert (k_cur k) (set (k_ready k)))"
      "t_u (k_thr k' t) = RdyMsg msg" "t_u (k_thr k' (k_cur k)) = t_u (k_thr k (k_cur k))"
      "\<forall>u. u \<noteq> t \<longrightarrow> u \<noteq> k_cur k \<longrightarrow> k_thr k' u = k_thr k u"
    using chSchWakeupS_ok[OF assms(2,3) ne, of msg] assms(4) by auto
  have tids: "k_tids k' = k_tids k" and inv': "sched_inv k'"
    using k'(2,3) by (simp_all add: sched_frame_def sched_ok_def)
  have run: "tstate k' u \<in> {CH_STATE_READY, CH_STATE_CURRENT} \<longleftrightarrow>
       u = t \<or> tstate k u \<in> {CH_STATE_READY, CH_STATE_CURRENT}" if "u \<in> set (k_tids k)" for u
    using sched_inv_running[OF inv' that[folded tids]] sched_inv_running[OF inv(1) that] k'(4) by simp
  have us: "t_u (k_thr k' u) = t_u (k_thr k u)" if "u \<noteq> t" for u
    using that k'(6,7) by (cases "u = k_cur k") simp_all
  have "(tstate k' u = st \<longleftrightarrow> tstate k u = st) \<and> (tstate k u = st \<longrightarrow> t_u (k_thr k' u) = t_u (k_thr k u))"
    if "u \<in> set (k_tids k)" "st \<in> {CH_STATE_WTMTX, CH_STATE_WTCOND}" for u st
  proof (cases "u = t \<or> u = k_cur k")
    case True
    then show ?thesis using run[OF that(1)] that(2) assms(4) c by auto
  next
    case False
    then show ?thesis using k'(7) by simp
  qed
  then have "mtx_frame k k'"
    using k'(3) by (simp add: mtx_frame_def sched_frame_def)
  from mtx_inv_frame[OF inv(2) this] show ?thesis
    using k'(1-3,5,7) inv' run us by (simp add: sys_inv_def)
qed

end
