(* ===== verification/Stm32.thy ===== *)
theory Stm32
  imports Game Ch_Mtx
begin

text \<open>
  The board: \<^verbatim>\<open>impl_stm32.c\<close>. The state \<open>stm32_t\<close> holds the static data of the file (the pixel
  buffer of \<open>update_rect_stm32\<close>, the buttons, the button states handed to the game) and the
  outside world it drives: \<open>bus\<close> is the sequence of transfers to the display controller with
  the level of the D/C pin, the reset pulses and the delays; \<open>clk\<close> gives the value of the
  16-bit system timer at each read. The mutex of the video buffer is mutex \<open>VBUF_MTX\<close> of the
  kernel, so the platform's mutex state is the kernel's state and locking is \<open>chMtxLock\<close>.
\<close>

section \<open>State\<close>

datatype bus_ev = Spi bool "u8 list" | Rst bool | Wait u32 | Led

definition BUFSIZE :: nat where
  "BUFSIZE = 64"

record temp_buf_t =
  tb_buf :: "u16 list"
  tb_size :: nat

text \<open>
  A button: the line, the debounced state, whether the edge interrupt of the line is
  enabled and has \<open>button_cb\<close> as its callback, and the delay its virtual timer is armed with.
\<close>

record button_t =
  btn_line :: "char \<times> nat"
  btn_state :: bool
  btn_event :: bool
  btn_cb :: bool
  btn_vt :: "u32 option"

record stm32_t =
  bus :: "bus_ev list"
  tbuf :: temp_buf_t
  st_buttons :: "button_t list"
  button_states :: "bool list"
  clk :: "nat \<Rightarrow> u16"
  clk_reads :: nat
  rx :: "msg_t list"
  spi_ret :: msg_t
  st_threads :: "thd_handle_t list"

definition emit :: "bus_ev \<Rightarrow> stm32_t \<Rightarrow> stm32_t" where
  "emit e w = w\<lparr>bus := bus w @ [e]\<rparr>"

section \<open>The display\<close>

definition delay_stm32 :: "u32 \<Rightarrow> stm32_t \<Rightarrow> stm32_t" where
  "delay_stm32 ms = emit (Wait ms)"

definition display_cmd_stm32 :: "u8 list \<Rightarrow> stm32_t \<Rightarrow> stm32_t" where
  "display_cmd_stm32 cmd = emit (Spi False cmd)"

definition disp_write_cmdb :: "u8 \<Rightarrow> stm32_t \<Rightarrow> stm32_t" where
  "disp_write_cmdb b = display_cmd_stm32 [b]"

definition disp_write_data :: "u8 list \<Rightarrow> stm32_t \<Rightarrow> stm32_t" where
  "disp_write_data bs = emit (Spi True bs)"

definition disp_write_datab :: "u8 \<Rightarrow> stm32_t \<Rightarrow> stm32_t" where
  "disp_write_datab b = disp_write_data [b]"

definition display_clear :: "stm32_t \<Rightarrow> stm32_t" where
  "display_clear = fold (\<lambda>_. disp_write_datab 0) [0..<DISP_COLS * DISP_ROWS]"

text \<open>The bytes of an address range: \<open>a >> 8\<close> and \<open>a & 0xFF\<close>, converted to \<open>uint8_t\<close>.\<close>

definition addr_bytes :: "int \<Rightarrow> int \<Rightarrow> u8 list" where
  "addr_bytes start end =
     [word_of_int (drop_bit 8 start), word_of_int (start AND 0xFF),
      word_of_int (drop_bit 8 end), word_of_int (end AND 0xFF)]"

definition disp_raddr_set :: "int \<Rightarrow> int \<Rightarrow> stm32_t \<Rightarrow> stm32_t" where
  "disp_raddr_set start end = disp_write_data (addr_bytes start end) \<circ> disp_write_cmdb 0x2B"

definition disp_caddr_set :: "int \<Rightarrow> int \<Rightarrow> stm32_t \<Rightarrow> stm32_t" where
  "disp_caddr_set start end = disp_write_data (addr_bytes start end) \<circ> disp_write_cmdb 0x2A"

definition display_init_stm32 :: "stm32_t \<Rightarrow> (bool \<times> stm32_t) result" where
  "display_init_stm32 w =
     (let w = delay_stm32 100 (emit (Rst False) w);
          w = delay_stm32 150 (emit (Rst True) w);
          w = delay_stm32 500 (disp_write_cmdb 0x01 w);
          w = delay_stm32 500 (disp_write_cmdb 0x11 w);
          w = delay_stm32 10 (disp_write_cmdb 0x21 w);
          w = delay_stm32 10 (disp_write_cmdb 0x29 w);
          w = delay_stm32 10 (disp_write_datab 0b01010101 (disp_write_cmdb 0x3A w));
          w = delay_stm32 10 (disp_write_datab 0xFF (disp_write_cmdb 0x51 w));
          w = delay_stm32 10 (disp_write_datab (push_bit 5 1) (disp_write_cmdb 0x36 w))
      in Inr (True, w))"

definition buf_push :: "temp_buf_t \<Rightarrow> u16 \<Rightarrow> temp_buf_t result" where
  "buf_push b v =
     (if tb_size b < BUFSIZE
      then bindE (wr (tb_buf b) (int (tb_size b)) v) (\<lambda>a. Inr (b\<lparr>tb_buf := a, tb_size := tb_size b + 1\<rparr>))
      else Inr b)"

definition buf_clear :: "temp_buf_t \<Rightarrow> temp_buf_t" where
  "buf_clear b = b\<lparr>tb_size := 0\<rparr>"

text \<open>The bytes of the buffer in memory, little-endian.\<close>

definition u16_bytes :: "u16 \<Rightarrow> u8 list" where
  "u16_bytes v = [ucast v, ucast (drop_bit 8 v)]"

definition disp_flush :: "stm32_t \<Rightarrow> stm32_t" where
  "disp_flush w =
     (let w = disp_write_data (take (BUFSIZE * 2) (concat (map u16_bytes (tb_buf (tbuf w))))) w in
      w\<lparr>tbuf := buf_clear (tbuf w)\<rparr>)"

definition pixel_value :: "u8 \<Rightarrow> nat \<Rightarrow> u16" where
  "pixel_value b rem = (if drop_bit rem b AND 1 \<noteq> 0 then 0xFFFF else 0x0000)"

text \<open>The body of the three loops: one pixel is pushed, and a full buffer is sent.\<close>

definition update_pixel :: "u8 list list \<Rightarrow> int \<Rightarrow> nat \<Rightarrow> int \<Rightarrow> stm32_t \<Rightarrow> stm32_t result" where
  "update_pixel buf y rem x w =
     bindE (rd buf x) (\<lambda>col.
     bindE (rd col y) (\<lambda>b.
     bindE (buf_push (tbuf w) (pixel_value b rem)) (\<lambda>tb.
     let w = w\<lparr>tbuf := tb\<rparr> in
     Inr (if tb_size tb = BUFSIZE then disp_flush w else w))))"

definition update_rect_stm32 :: "'m vbuf_t \<Rightarrow> bbox_t \<Rightarrow> stm32_t \<Rightarrow> stm32_t result" where
  "update_rect_stm32 vbuf bbox w =
     (let x_end = c_MIN (bbox_x bbox + bbox_sizex bbox) (int DISP_COLS);
          y_end = c_MIN (bbox_y bbox + bbox_sizey bbox) (int DISP_ROWS * 8);
          y_start_bytes = bbox_y bbox sdiv 8;
          y_end_bytes = y_end sdiv 8;
          w = disp_caddr_set (bbox_x bbox) (x_end - 1) w;
          w = disp_raddr_set (bbox_y bbox) (y_end - 1) w;
          w = disp_write_cmdb 0x2C w in
      bindE (foldE (\<lambda>y. foldE (\<lambda>rem. foldE (update_pixel (vb_buf vbuf) y rem) [bbox_x bbox..x_end - 1]) [0..<8])
               [y_start_bytes..y_end_bytes - 1] w) (\<lambda>w.
      let w = (if tb_size (tbuf w) \<noteq> 0 then disp_flush w else w) in
      Inr (disp_write_cmdb 0x00 w)))"

definition display_update_stm32 :: "'m vbuf_t \<Rightarrow> stm32_t \<Rightarrow> stm32_t result" where
  "display_update_stm32 vbuf =
     update_rect_stm32 vbuf \<lparr>bbox_x = 0, bbox_y = 0, bbox_sizex = int DISP_COLS, bbox_sizey = int DISP_ROWS * 8\<rparr>"

definition fatal_error_stm32 :: "string \<Rightarrow> stm32_t \<Rightarrow> stm32_t result" where
  "fatal_error_stm32 msg w = Inl (Halted msg)"

section \<open>Buttons and time\<close>

definition CH_CFG_ST_FREQUENCY :: nat where
  "CH_CFG_ST_FREQUENCY = 10000"

definition TIME_MS2I :: "u32 \<Rightarrow> u32" where
  "TIME_MS2I ms = ucast ((ucast ms * of_nat CH_CFG_ST_FREQUENCY + 999) div 1000 :: u64)"

definition TIME_I2MS :: "u16 \<Rightarrow> u32" where
  "TIME_I2MS t = ucast ((ucast t * 1000 + of_nat CH_CFG_ST_FREQUENCY - 1) div of_nat CH_CFG_ST_FREQUENCY :: u64)"

definition DEBOUNCE_MS :: u32 where
  "DEBOUNCE_MS = 50"

definition button_cb :: "button_t \<Rightarrow> button_t" where
  "button_cb b = b\<lparr>btn_event := False, btn_state := \<not> btn_state b, btn_vt := Some (TIME_MS2I DEBOUNCE_MS)\<rparr>"

definition vt_cb :: "button_t \<Rightarrow> button_t" where
  "vt_cb b = b\<lparr>btn_event := True, btn_cb := True\<rparr>"

definition get_button_state :: "button_t \<Rightarrow> bool" where
  "get_button_state b = btn_state b"

definition button_lines :: "(char \<times> nat) list" where
  "button_lines = [(CHR ''B'', 13), (CHR ''B'', 15), (CHR ''B'', 14), (CHR ''A'', 11), (CHR ''B'', 12)]"

definition button_start :: "button_t \<Rightarrow> button_t" where
  "button_start b = b\<lparr>btn_event := True, btn_vt := None, btn_cb := True\<rparr>"

definition init_stm32 :: "stm32_t \<Rightarrow> (bool \<times> stm32_t) result" where
  "init_stm32 w =
     (let w = w\<lparr>st_buttons := map button_start (st_buttons w)\<rparr> in Inr (spi_ret w = 0, w))"

definition loop_stm32 :: "'m vbuf_t \<Rightarrow> block_t \<Rightarrow> stm32_t \<Rightarrow> ('m vbuf_t \<times> block_t \<times> stm32_t) result" where
  "loop_stm32 vbuf blk w =
     (let states = map btn_state (st_buttons w);
          w = w\<lparr>button_states := states\<rparr> in
      bindE (buttons_do_action blk states) (\<lambda>(ret, blk).
      if ret then bindE (update_block vbuf blk) (\<lambda>vbuf. Inr (vbuf, blk, delay_stm32 150 w))
      else Inr (vbuf, blk, w)))"

definition led_toggle_stm32 :: "stm32_t \<Rightarrow> stm32_t" where
  "led_toggle_stm32 = emit Led"

definition millis_stm32 :: "stm32_t \<Rightarrow> u32 \<times> stm32_t" where
  "millis_stm32 w = (TIME_I2MS (clk w (clk_reads w)), w\<lparr>clk_reads := clk_reads w + 1\<rparr>)"

text \<open>\<open>sdGetTimeout\<close> returns a byte or \<open>MSG_TIMEOUT\<close>, which the conversion to \<open>char\<close> makes 0xFF.\<close>

definition serial_getch_stm32 :: "stm32_t \<Rightarrow> u8 \<times> stm32_t" where
  "serial_getch_stm32 w =
     (case rx w of
        [] \<Rightarrow> (word_of_int MSG_TIMEOUT, w)
      | c # cs \<Rightarrow> (word_of_int c, w\<lparr>rx := cs\<rparr>))"

section \<open>Threads and the tables\<close>

definition VBUF_MTX :: nat where
  "VBUF_MTX = 0"

definition thd_create_stm32 :: "thd_handle_t \<Rightarrow> stm32_t \<Rightarrow> stm32_t result" where
  "thd_create_stm32 h w = Inr (w\<lparr>st_threads := st_threads w @ [h]\<rparr>)"

definition thd_exit_stm32 :: "int \<Rightarrow> stm32_t \<Rightarrow> stm32_t result" where
  "thd_exit_stm32 code w = Inl (Exited code)"

definition thd_lock_stm32 :: "kernel_t \<Rightarrow> kernel_t result" where
  "thd_lock_stm32 k = chMtxLock VBUF_MTX k"

definition thd_unlock_stm32 :: "kernel_t \<Rightarrow> kernel_t result" where
  "thd_unlock_stm32 k = chMtxUnlock VBUF_MTX k"

definition thd_mtx_init_stm32 :: "kernel_t \<Rightarrow> kernel_t result" where
  "thd_mtx_init_stm32 k = Inr (chMtxObjectInit VBUF_MTX k)"

definition hwiface_stm32 :: "(stm32_t, kernel_t) hwiface_t" where
  "hwiface_stm32 =
     \<lparr>hw_init = init_stm32, hw_loop = loop_stm32, hw_millis = millis_stm32, hw_delay = delay_stm32,
      hw_display_init = display_init_stm32, hw_display_update = display_update_stm32,
      hw_display_update_rect = update_rect_stm32, hw_display_cmd = display_cmd_stm32,
      hw_serial_getch = serial_getch_stm32, hw_led_toggle = led_toggle_stm32,
      hw_fatal_error = fatal_error_stm32\<rparr>"

definition thdiface_stm32 :: "(stm32_t, kernel_t) thdiface_t" where
  "thdiface_stm32 =
     \<lparr>thd_create = thd_create_stm32, thd_exit = thd_exit_stm32, thd_mtx_init = thd_mtx_init_stm32,
      thd_lock = thd_lock_stm32, thd_unlock = thd_unlock_stm32\<rparr>"

section \<open>The mutex of the video buffer\<close>

definition stm_free :: "kernel_t \<Rightarrow> bool" where
  "stm_free k \<longleftrightarrow> sys_inv k \<and> sched_ok k \<and> mowner k VBUF_MTX = None"

definition stm_held :: "kernel_t \<Rightarrow> bool" where
  "stm_held k \<longleftrightarrow> sys_inv k \<and> sched_ok k \<and> (\<exists>l. mtxlist k (k_cur k) = VBUF_MTX # l) \<and> mqueue k VBUF_MTX = []"

lemma stm_lock:
  assumes "stm_free k"
  shows "\<exists>k'. thd_lock_stm32 k = Inr k' \<and> stm_held k' \<and> k_cur k' = k_cur k"
proof -
  let ?k = "upd_thr (k_cur k) (\<lambda>t. t\<lparr>t_mtxlist := VBUF_MTX # t_mtxlist t\<rparr>)
    (upd_mtx VBUF_MTX (\<lambda>m. m\<lparr>m_owner := Some (k_cur k)\<rparr>) k)"
  have k: "sys_inv k" "sched_ok k" "mowner k VBUF_MTX = None"
    using assms by (simp_all add: stm_free_def)
  have "mqueue k VBUF_MTX = []"
    using k(1,3) by (simp add: sys_inv_def mtx_inv_def mtx_struct_def)
  moreover have "firstprio ?k = firstprio k" "prio ?k (k_cur ?k) = prio k (k_cur k)" "k_cur ?k = k_cur k"
    by (simp_all add: firstprio_def upd_thr_def split: list.split)
  ultimately have "stm_held ?k"
    using take_mutex[OF k(1,3)] k(2) by (simp add: stm_held_def sched_ok_def sys_inv_def) (simp add: upd_thr_def)
  moreover have "thd_lock_stm32 k = Inr ?k"
    using k(3) by (simp add: thd_lock_stm32_def chMtxLock_def chMtxLockS_def Let_def)
  moreover have "k_cur ?k = k_cur k"
    by (simp add: upd_thr_def)
  ultimately show ?thesis by blast
qed

lemma stm_unlock:
  assumes "stm_held k"
  shows "\<exists>k'. thd_unlock_stm32 k = Inr k' \<and> stm_free k' \<and> k_cur k' = k_cur k"
proof -
  obtain l where l: "mtxlist k (k_cur k) = VBUF_MTX # l" "mqueue k VBUF_MTX = []" "sys_inv k" "sched_ok k"
    using assms by (auto simp: stm_held_def)
  then show ?thesis
    using chMtxUnlock_ok[OF l(3,4,1)] by (auto simp: thd_unlock_stm32_def stm_free_def)
qed

lemma stm_mtx_init:
  assumes "stm_free k"
  shows "\<exists>k'. thd_mtx_init_stm32 k = Inr k' \<and> stm_free k'"
proof -
  have q: "mqueue k VBUF_MTX = []" "mowner k VBUF_MTX = None"
    using assms by (simp_all add: stm_free_def sys_inv_def mtx_inv_def mtx_struct_def)
  then have "k_mtx k VBUF_MTX = \<lparr>m_queue = [], m_owner = None\<rparr>"
    by (cases "k_mtx k VBUF_MTX") simp
  then have "chMtxObjectInit VBUF_MTX k = k"
    by (simp add: chMtxObjectInit_def upd_mtx_def fun_upd_idem)
  with assms show ?thesis by (simp add: thd_mtx_init_stm32_def)
qed

interpretation st: thd_mutex thdiface_stm32 stm_free stm_free stm_held
  by unfold_locales (use stm_mtx_init stm_lock stm_unlock in \<open>fastforce simp: thdiface_stm32_def\<close>)+

section \<open>The pixel stream\<close>

definition tbuf_wf :: "temp_buf_t \<Rightarrow> bool" where
  "tbuf_wf b \<longleftrightarrow> length (tb_buf b) = BUFSIZE \<and> tb_size b \<le> BUFSIZE"

definition tbuf_list :: "temp_buf_t \<Rightarrow> u16 list" where
  "tbuf_list b = take (tb_size b) (tb_buf b)"

interpretation tb: bounded_push "\<lambda>b v. bindE (buf_push b v) (\<lambda>b'. Inr (tb_size b < BUFSIZE, b'))" tbuf_list tbuf_wf BUFSIZE
proof
  fix s :: temp_buf_t and a :: u16
  assume wf: "tbuf_wf s"
  then have len: "length (tbuf_list s) = tb_size s"
    by (simp add: tbuf_list_def tbuf_wf_def)
  then show "length (tbuf_list s) \<le> BUFSIZE"
    using wf by (simp add: tbuf_wf_def)
  show "\<exists>s'. bindE (buf_push s a) (\<lambda>b'. Inr (tb_size s < BUFSIZE, b')) = Inr (True, s') \<and> tbuf_wf s' \<and>
      tbuf_list s' = tbuf_list s @ [a]" if "length (tbuf_list s) < BUFSIZE"
    using wf that unfolding len
    by (simp add: buf_push_def wr_nat_ok tbuf_wf_def tbuf_list_def take_Suc_conv_app_nth)
  show "bindE (buf_push s a) (\<lambda>b'. Inr (tb_size s < BUFSIZE, b')) = Inr (False, s)" if "\<not> length (tbuf_list s) < BUFSIZE"
    using that unfolding len by (simp add: buf_push_def)
qed

lemma buf_push_room:
  assumes "tbuf_wf b" "tb_size b < BUFSIZE"
  shows "\<exists>b'. buf_push b v = Inr b' \<and> tbuf_wf b' \<and> tbuf_list b' = tbuf_list b @ [v] \<and> tb_size b' = tb_size b + 1"
  using assms by (simp add: buf_push_def wr_nat_ok tbuf_wf_def tbuf_list_def take_Suc_conv_app_nth)

definition world_frame :: "stm32_t \<Rightarrow> stm32_t \<Rightarrow> bool" where
  "world_frame w w' \<longleftrightarrow> st_buttons w' = st_buttons w \<and> clk w' = clk w \<and> clk_reads w' = clk_reads w \<and>
     rx w' = rx w \<and> spi_ret w' = spi_ret w \<and> st_threads w' = st_threads w"

lemma world_frame_refl [simp]: "world_frame w w"
  by (simp add: world_frame_def)

lemma world_frame_trans: "world_frame a b \<Longrightarrow> world_frame b c \<Longrightarrow> world_frame a c"
  by (simp add: world_frame_def)

definition pix_wf :: "stm32_t \<Rightarrow> bool" where
  "pix_wf w \<longleftrightarrow> length (tb_buf (tbuf w)) = BUFSIZE \<and> tb_size (tbuf w) < BUFSIZE"

abbreviation bytes :: "u16 list \<Rightarrow> u8 list" where
  "bytes vs \<equiv> concat (map u16_bytes vs)"

lemma length_bytes: "length (bytes vs) = 2 * length vs"
  by (induction vs) (simp_all add: u16_bytes_def)

text \<open>
  What the loops do to the bus: the data transfers followed by what is still in the buffer
  are what was in the buffer followed by the pixels \<open>vs\<close>.
\<close>

definition pixels :: "stm32_t \<Rightarrow> stm32_t \<Rightarrow> u16 list \<Rightarrow> bool" where
  "pixels w w' vs \<longleftrightarrow> pix_wf w' \<and> world_frame w w' \<and>
     tb_size (tbuf w') = (tb_size (tbuf w) + length vs) mod BUFSIZE \<and>
     (\<exists>ds. bus w' = bus w @ map (Spi True) ds \<and>
        concat ds @ bytes (tbuf_list (tbuf w')) = bytes (tbuf_list (tbuf w)) @ bytes vs)"

lemma pixels_refl: "pix_wf w \<Longrightarrow> pixels w w []"
  by (auto simp: pixels_def pix_wf_def intro!: exI[of _ "[]"])

lemma pixels_trans:
  assumes "pixels w w1 vs" "pixels w1 w2 us"
  shows "pixels w w2 (vs @ us)"
proof -
  obtain ds es where "bus w1 = bus w @ map (Spi True) ds" "bus w2 = bus w1 @ map (Spi True) es"
      "concat ds @ bytes (tbuf_list (tbuf w1)) = bytes (tbuf_list (tbuf w)) @ bytes vs"
      "concat es @ bytes (tbuf_list (tbuf w2)) = bytes (tbuf_list (tbuf w1)) @ bytes us"
    using assms by (auto simp: pixels_def)
  then have "bus w2 = bus w @ map (Spi True) (ds @ es) \<and>
      concat (ds @ es) @ bytes (tbuf_list (tbuf w2)) = bytes (tbuf_list (tbuf w)) @ bytes (vs @ us)"
    by (metis append.assoc concat_append map_append)
  moreover have "tb_size (tbuf w2) = (tb_size (tbuf w) + length (vs @ us)) mod BUFSIZE"
    using assms by (simp add: pixels_def mod_simps add.assoc)
  moreover have "pix_wf w2" "world_frame w w2"
    using assms world_frame_trans by (auto simp: pixels_def)
  ultimately show ?thesis
    unfolding pixels_def by blast
qed

lemma foldE_pixels:
  assumes "\<And>a w. a \<in> set xs \<Longrightarrow> pix_wf w \<Longrightarrow> \<exists>w'. g a w = Inr w' \<and> pixels w w' (f a)" "pix_wf w"
  shows "\<exists>w'. foldE g xs w = Inr w' \<and> pixels w w' (concat (map f xs))"
  using assms
proof (induction xs arbitrary: w)
  case Nil
  then show ?case by (simp add: pixels_refl)
next
  case (Cons a xs)
  obtain w1 where w1: "g a w = Inr w1" "pixels w w1 (f a)"
    using Cons.prems(1)[of a w] Cons.prems(2) by auto
  then have "pix_wf w1" by (simp add: pixels_def)
  then obtain w2 where "foldE g xs w1 = Inr w2" "pixels w1 w2 (concat (map f xs))"
    using Cons.IH Cons.prems(1) by fastforce
  with w1 pixels_trans[OF w1(2)] show ?case by simp
qed

lemma update_pixel_ok:
  assumes "buf_wf buf" "0 \<le> x" "x < int DISP_COLS" "0 \<le> y" "y < int DISP_ROWS" "pix_wf w"
  shows "\<exists>w'. update_pixel buf y rem x w = Inr w' \<and> pixels w w' [pixel_value (buf ! nat x ! nat y) rem]"
proof -
  have col: "rd buf x = Inr (buf ! nat x)" "rd (buf ! nat x) y = Inr (buf ! nat x ! nat y)"
    using assms(1-5) by (simp_all add: rd_def buf_wf_def nat_less_iff)
  let ?v = "pixel_value (buf ! nat x ! nat y) rem"
  have "tbuf_wf (tbuf w)" "tb_size (tbuf w) < BUFSIZE"
    using assms(6) by (simp_all add: pix_wf_def tbuf_wf_def)
  then obtain tb where tb: "buf_push (tbuf w) ?v = Inr tb" "tbuf_wf tb" "tbuf_list tb = tbuf_list (tbuf w) @ [?v]"
      "tb_size tb = tb_size (tbuf w) + 1"
    using buf_push_room by blast
  show ?thesis
  proof (cases "tb_size tb = BUFSIZE")
    case True
    let ?w = "disp_flush (w\<lparr>tbuf := tb\<rparr>)"
    have "tbuf_list tb = tb_buf tb" "length (bytes (tb_buf tb)) = BUFSIZE * 2"
      using True tb(2) by (simp_all add: tbuf_list_def tbuf_wf_def length_bytes)
    then have "bus ?w = bus w @ map (Spi True) [bytes (tbuf_list (tbuf w) @ [?v])]"
      using tb(3) by (simp add: disp_flush_def disp_write_data_def emit_def)
    moreover have "tbuf ?w = tb\<lparr>tb_size := 0\<rparr>" "world_frame w ?w"
      by (simp_all add: disp_flush_def disp_write_data_def emit_def buf_clear_def world_frame_def)
    ultimately have "pixels w ?w [?v]"
      using True tb(2,4) unfolding pixels_def pix_wf_def
      by (intro conjI exI[of _ "[bytes (tbuf_list (tbuf w) @ [?v])]"]) (simp_all add: tbuf_wf_def tbuf_list_def BUFSIZE_def)
    with True tb(1) col show ?thesis by (simp add: update_pixel_def)
  next
    case False
    then have "pixels w (w\<lparr>tbuf := tb\<rparr>) [?v]"
      using tb(2-4) unfolding pixels_def pix_wf_def
      by (intro conjI exI[of _ "[]"]) (simp_all add: tbuf_wf_def world_frame_def)
    with False tb(1) col show ?thesis by (simp add: update_pixel_def)
  qed
qed

text \<open>The pixels of a rectangle in the order the controller's address window fills: by rows, left to right.\<close>

definition rect_stream :: "u8 list list \<Rightarrow> int \<Rightarrow> int \<Rightarrow> int \<Rightarrow> int \<Rightarrow> u16 list" where
  "rect_stream buf x0 x1 y0 y1 =
     concat (map (\<lambda>y. concat (map (\<lambda>rem. map (\<lambda>x. pixel_value (buf ! nat x ! nat y) rem) [x0..x1 - 1]) [0..<8])) [y0..y1 - 1])"

lemma update_loops_ok:
  assumes "buf_wf buf" "0 \<le> x0" "x1 \<le> int DISP_COLS" "0 \<le> y0" "y1 \<le> int DISP_ROWS" "pix_wf w"
  shows "\<exists>w'. foldE (\<lambda>y. foldE (\<lambda>rem. foldE (update_pixel buf y rem) [x0..x1 - 1]) [0..<8]) [y0..y1 - 1] w = Inr w' \<and>
    pixels w w' (rect_stream buf x0 x1 y0 y1)"
  unfolding rect_stream_def
proof (rule foldE_pixels[OF _ assms(6)], rule foldE_pixels)
  fix y rem w assume y: "y \<in> set [y0..y1 - 1]" and w: "pix_wf w"
  have "\<exists>w'. foldE (update_pixel buf y rem) [x0..x1 - 1] w = Inr w' \<and>
      pixels w w' (concat (map (\<lambda>x. [pixel_value (buf ! nat x ! nat y) rem]) [x0..x1 - 1]))"
    by (rule foldE_pixels[OF update_pixel_ok w]) (use assms(1-5) y in auto)
  then show "\<exists>w'. foldE (update_pixel buf y rem) [x0..x1 - 1] w = Inr w' \<and>
      pixels w w' (map (\<lambda>x. pixel_value (buf ! nat x ! nat y) rem) [x0..x1 - 1])"
    by (simp only: concat_map_singleton)
qed

definition world_ok :: "stm32_t \<Rightarrow> bool" where
  "world_ok w \<longleftrightarrow> length (tb_buf (tbuf w)) = BUFSIZE \<and> tb_size (tbuf w) = 0 \<and> length (st_buttons w) = BUTTON_COUNT"

lemma sdiv_nonneg: "0 \<le> a \<Longrightarrow> a sdiv 8 = a div (8::int)"
  by (cases "a = 0") (simp_all add: signed_divide_int_def sgn_if)

lemma disp_header:
  "disp_write_cmdb 0x2C (disp_raddr_set c d (disp_caddr_set a b w)) =
     w\<lparr>bus := bus w @ [Spi False [0x2A], Spi True (addr_bytes a b), Spi False [0x2B], Spi True (addr_bytes c d), Spi False [0x2C]]\<rparr>"
  by (simp add: disp_write_cmdb_def disp_raddr_set_def disp_caddr_set_def disp_write_data_def display_cmd_stm32_def emit_def)

text \<open>
  A rectangle is sent as the column and row window, the memory write command, the pixels of
  the rectangle and, when their number is not a multiple of the buffer's size, as many
  left-over buffer entries as fill the last transfer.
\<close>

lemma update_rect_stm32_stream:
  assumes "vbuf_wf v" "box_ok b" "world_ok w"
  defines "x1 \<equiv> min (bbox_x b + bbox_sizex b) (int DISP_COLS)"
    and "y1 \<equiv> min (bbox_y b + bbox_sizey b) (int DISP_ROWS * 8)"
  defines "vs \<equiv> rect_stream (vb_buf v) (bbox_x b) x1 (bbox_y b div 8) (y1 div 8)"
  shows "\<exists>w' ds junk. update_rect_stm32 v b w = Inr w' \<and> world_ok w' \<and> world_frame w w' \<and>
    bus w' = bus w @ [Spi False [0x2A], Spi True (addr_bytes (bbox_x b) (x1 - 1)), Spi False [0x2B],
        Spi True (addr_bytes (bbox_y b) (y1 - 1)), Spi False [0x2C]] @ map (Spi True) ds @ [Spi False [0]] \<and>
    concat ds = bytes vs @ junk \<and> length junk = 2 * ((BUFSIZE - length vs mod BUFSIZE) mod BUFSIZE)"
proof -
  let ?hdr = "[Spi False [0x2A], Spi True (addr_bytes (bbox_x b) (x1 - 1)), Spi False [0x2B],
        Spi True (addr_bytes (bbox_y b) (y1 - 1)), Spi False [0x2C]]"
  let ?w0 = "w\<lparr>bus := bus w @ ?hdr\<rparr>"
  have box: "0 \<le> bbox_x b" "0 \<le> bbox_y b" "0 \<le> y1" "x1 \<le> int DISP_COLS" "y1 div 8 \<le> int DISP_ROWS" "0 \<le> bbox_y b div 8"
    using assms(2) by (auto simp: box_ok_def x1_def y1_def)
  have mins: "c_MIN (bbox_x b + bbox_sizex b) (int DISP_COLS) = x1" "c_MIN (bbox_y b + bbox_sizey b) (int DISP_ROWS * 8) = y1"
    by (simp_all add: c_MIN_def x1_def y1_def)
  have buf: "buf_wf (vb_buf v)" and wf0: "pix_wf ?w0" and empty: "tb_size (tbuf ?w0) = 0" "tbuf_list (tbuf ?w0) = []"
    using assms(1,3) by (simp_all add: vbuf_wf_def pix_wf_def world_ok_def tbuf_list_def) (simp add: BUFSIZE_def)
  obtain w1 where w1: "foldE (\<lambda>y. foldE (\<lambda>rem. foldE (update_pixel (vb_buf v) y rem) [bbox_x b..x1 - 1]) [0..<8])
      [bbox_y b div 8..y1 div 8 - 1] ?w0 = Inr w1" "pixels ?w0 w1 vs"
    using update_loops_ok[OF buf box(1,4,6,5) wf0] unfolding vs_def by blast
  then obtain ds where ds: "bus w1 = bus w @ ?hdr @ map (Spi True) ds" "concat ds @ bytes (tbuf_list (tbuf w1)) = bytes vs"
    using empty by (auto simp: pixels_def)
  have p: "length (tb_buf (tbuf w1)) = BUFSIZE" "tb_size (tbuf w1) < BUFSIZE" "tb_size (tbuf w1) = length vs mod BUFSIZE" "world_frame w w1"
    using w1(2) empty by (simp_all add: pixels_def pix_wf_def world_frame_def)
  let ?w2 = "if tb_size (tbuf w1) \<noteq> 0 then disp_flush w1 else w1"
  have run: "update_rect_stm32 v b w = Inr (disp_write_cmdb 0x00 ?w2)"
    unfolding update_rect_stm32_def mins Let_def sdiv_nonneg[OF box(2)] sdiv_nonneg[OF box(3)] disp_header w1(1) by simp
  have last: "bus (disp_write_cmdb 0x00 w') = bus w' @ [Spi False [0]]" "tbuf (disp_write_cmdb 0x00 w') = tbuf w'"
      "world_frame w' (disp_write_cmdb 0x00 w')" for w'
    by (simp_all add: disp_write_cmdb_def display_cmd_stm32_def emit_def world_frame_def)
  show ?thesis
  proof (cases "tb_size (tbuf w1) = 0")
    case True
    then have d: "concat ds = bytes vs" "length vs mod BUFSIZE = 0"
      using ds(2) p(3) by (simp_all add: tbuf_list_def)
    have "world_ok (disp_write_cmdb 0 w1)" "world_frame w (disp_write_cmdb 0 w1)"
      using True p(1,4) last(2,3) assms(3) world_frame_trans[OF p(4) last(3)] by (simp_all add: world_ok_def world_frame_def)
    then show ?thesis
      using run True ds(1) last(1) d by (intro exI[of _ "disp_write_cmdb 0 w1"] exI[of _ ds] exI[of _ "[]"]) simp
  next
    case False
    let ?last = "bytes (tb_buf (tbuf w1))" and ?n = "tb_size (tbuf w1)"
    let ?junk = "bytes (drop ?n (tb_buf (tbuf w1)))"
    have fl: "bus (disp_flush w1) = bus w1 @ [Spi True ?last]" "tbuf (disp_flush w1) = (tbuf w1)\<lparr>tb_size := 0\<rparr>"
        "world_frame w1 (disp_flush w1)"
      using p(1) by (simp_all add: disp_flush_def disp_write_data_def emit_def buf_clear_def world_frame_def length_bytes)
    have "bytes (tbuf_list (tbuf w1)) @ ?junk = ?last"
      by (simp add: tbuf_list_def flip: concat_append map_append)
    then have "concat (ds @ [?last]) = (concat ds @ bytes (tbuf_list (tbuf w1))) @ ?junk"
      by simp
    then have d: "concat (ds @ [?last]) = bytes vs @ ?junk"
      by (simp only: ds(2))
    have "length ?junk = 2 * ((BUFSIZE - length vs mod BUFSIZE) mod BUFSIZE)"
      using p(1-3) False by (simp add: length_bytes)
    moreover have "world_frame w (disp_write_cmdb 0 (disp_flush w1))"
      by (rule world_frame_trans[OF world_frame_trans[OF p(4) fl(3)] last(3)])
    moreover from this have "world_ok (disp_write_cmdb 0 (disp_flush w1))"
      using p(1) assms(3) by (simp add: world_ok_def world_frame_def last(2) fl(2))
    ultimately show ?thesis
      using run False ds(1) last(1) fl(1) d
      by (intro exI[of _ "disp_write_cmdb 0 (disp_flush w1)"] exI[of _ "ds @ [?last]"] exI[of _ ?junk]) simp
  qed
qed

section \<open>The game on the board\<close>

lemma loop_stm32_ok:
  assumes "world_ok w" "vb_inv free v" "in_field m blk"
  shows "\<exists>v' w'. loop_stm32 v blk w = Inr (v', moved (map btn_state (st_buttons w)) blk, w') \<and>
    world_ok w' \<and> vb_inv free v'"
proof -
  let ?s = "map btn_state (st_buttons w)"
  have g: "gamma_block blk" "length ?s = BUTTON_COUNT"
    using assms by (simp_all add: in_field_def world_ok_def)
  obtain ret where r: "buttons_do_action blk ?s = Inr (ret, moved ?s blk)"
    using buttons_do_action_gamma[OF g] by blast
  obtain v' where v': "update_block v (moved ?s blk) = Inr v'" "vb_inv free v'"
    using update_block_ok[OF assms(2)] by blast
  have "world_ok (delay_stm32 150 (w\<lparr>button_states := ?s\<rparr>))" "world_ok (w\<lparr>button_states := ?s\<rparr>)"
    using assms(1) by (simp_all add: world_ok_def delay_stm32_def emit_def)
  then show ?thesis
    using r v' assms(2) by (cases ret) (simp_all add: loop_stm32_def Let_def)
qed

lemma moved_in_field:
  assumes "in_field m blk"
  shows "in_field (m + 1) (moved states blk)" "blk_x blk \<le> blk_x (moved states blk)"
  using assms moved_gamma[of blk states]
  by (auto simp: in_field_def moved_def Let_def block_rotr_def gamma_bbox_def)

interpretation stg: game_hw thdiface_stm32 stm_free stm_free stm_held hwiface_stm32 world_ok
proof
  fix w v m blk v' blk' w'
  assume w: "world_ok w" and v: "vb_inv stm_free v" and blk: "in_field m blk"
  note loop = loop_stm32_ok[OF w v blk]
  show "world_ok w' \<and> vb_inv stm_free v' \<and> in_field (m + 1) blk' \<and> blk_x blk \<le> blk_x blk'"
    if "hw_loop hwiface_stm32 v blk w = Inr (v', blk', w')"
    using loop that moved_in_field[OF blk] by (auto simp: hwiface_stm32_def)
  show "\<exists>n. e = Exited n" if "hw_loop hwiface_stm32 v blk w = Inl e" for e
    using loop that by (auto simp: hwiface_stm32_def)
next
  fix w t
  assume "world_ok w"
  then show "world_ok (snd (hw_millis hwiface_stm32 w))" "world_ok (hw_delay hwiface_stm32 t w)"
    by (simp_all add: hwiface_stm32_def millis_stm32_def delay_stm32_def emit_def world_ok_def)
next
  fix w b and v :: "kernel_t vbuf_t"
  assume w: "world_ok w" and v: "vbuf_wf v"
  show "\<exists>w'. hw_display_update_rect hwiface_stm32 v b w = Inr w' \<and> world_ok w'" if "box_ok b"
    using update_rect_stm32_stream[OF v that w] by (auto simp: hwiface_stm32_def)
  have "box_ok \<lparr>bbox_x = 0, bbox_y = 0, bbox_sizex = int DISP_COLS, bbox_sizey = int DISP_ROWS * 8\<rparr>"
    by (simp add: box_ok_def)
  then show "\<exists>w'. hw_display_update hwiface_stm32 v w = Inr w' \<and> world_ok w'"
    using update_rect_stm32_stream[OF v _ w] by (auto simp: hwiface_stm32_def display_update_stm32_def)
next
  fix v v' :: "kernel_t vbuf_t" and b w
  assume "vb_buf v = vb_buf v'"
  then show "hw_display_update_rect hwiface_stm32 v b w = hw_display_update_rect hwiface_stm32 v' b w"
      "hw_display_update hwiface_stm32 v w = hw_display_update hwiface_stm32 v' w"
    by (simp_all add: hwiface_stm32_def display_update_stm32_def update_rect_stm32_def)
qed

section \<open>Debouncing\<close>

text \<open>
  A button in its environment: with the physical level of the line and the number of edges
  that found the interrupt disabled. An edge runs \<open>button_cb\<close> when the interrupt is enabled;
  the timer counts down and, when it expires, is disarmed and runs \<open>vt_cb\<close>.
\<close>

inductive btn_step :: "button_t \<times> bool \<times> nat \<Rightarrow> button_t \<times> bool \<times> nat \<Rightarrow> bool" where
  edge_seen: "btn_event b \<Longrightarrow> btn_step (b, lv, n) (button_cb b, \<not> lv, n)"
| edge_lost: "\<not> btn_event b \<Longrightarrow> btn_step (b, lv, n) (b, \<not> lv, n + 1)"
| vt_tick: "btn_vt b = Some t \<Longrightarrow> 1 < t \<Longrightarrow> btn_step (b, lv, n) (b\<lparr>btn_vt := Some (t - 1)\<rparr>, lv, n)"
| vt_fire: "btn_vt b = Some t \<Longrightarrow> t \<le> 1 \<Longrightarrow> btn_step (b, lv, n) (vt_cb (b\<lparr>btn_vt := None\<rparr>), lv, n)"

inductive_cases btn_stepE: "btn_step (b, lv, n) s"

definition btn_inv :: "button_t \<times> bool \<times> nat \<Rightarrow> bool" where
  "btn_inv = (\<lambda>(b, lv, n). (btn_event b \<longleftrightarrow> btn_vt b = None) \<and>
     (\<forall>t. btn_vt b = Some t \<longrightarrow> 1 \<le> unat t \<and> unat t \<le> 500) \<and>
     (btn_state b \<longleftrightarrow> (lv \<noteq> odd n)))"

lemma TIME_MS2I_debounce: "TIME_MS2I DEBOUNCE_MS = 500"
  by (simp add: TIME_MS2I_def DEBOUNCE_MS_def CH_CFG_ST_FREQUENCY_def)

lemma btn_inv_step:
  assumes "btn_step s s'" "btn_inv s"
  shows "btn_inv s'"
  using assms
proof (induction rule: btn_step.induct)
  case (vt_tick b t lv n)
  then have "unat (t - 1) = unat t - 1"
    by (simp add: unat_sub word_le_nat_alt word_less_nat_alt)
  moreover have "1 < unat t"
    using vt_tick(2) by (simp add: word_less_nat_alt)
  ultimately show ?case
    using vt_tick by (auto simp: btn_inv_def)
qed (auto simp: btn_inv_def button_cb_def vt_cb_def TIME_MS2I_debounce)

lemma btn_inv_reach:
  assumes "btn_step\<^sup>*\<^sup>* s s'" "btn_inv s"
  shows "btn_inv s'"
  using assms by (induction rule: rtranclp_induct) (auto intro: btn_inv_step)

text \<open>The timer always lets the line be enabled again, after as many ticks as it is armed with.\<close>

lemma btn_reenabled:
  assumes "btn_inv (b, lv, n)"
  shows "\<exists>b' k. (btn_step ^^ k) (b, lv, n) (b', lv, n) \<and> k \<le> 500 \<and> btn_event b' \<and> btn_state b' = btn_state b"
proof (cases "btn_vt b")
  case None
  then show ?thesis
    using assms by (intro exI[of _ b] exI[of _ 0]) (simp add: btn_inv_def)
next
  case (Some t)
  have "\<exists>b'. (btn_step ^^ k) (b, lv, n) (b', lv, n) \<and> btn_event b' \<and> btn_state b' = btn_state b"
    if "btn_vt b = Some t" "unat t = k" "1 \<le> k" for k b t
    using that
  proof (induction k arbitrary: b t)
    case 0
    then show ?case by simp
  next
    case (Suc k)
    show ?case
    proof (cases "k = 0")
      case True
      then have "t \<le> 1" using Suc.prems(2) by (simp add: word_le_nat_alt)
      then show ?thesis
        using vt_fire[OF Suc.prems(1)] True by (intro exI[of _ "vt_cb (b\<lparr>btn_vt := None\<rparr>)"]) (auto simp: vt_cb_def)
    next
      case False
      then have t: "1 < t" using Suc.prems(2) by (simp add: word_less_nat_alt)
      then have "unat (t - 1) = k"
        using Suc.prems(2) by (simp add: unat_sub word_le_nat_alt word_less_nat_alt)
      then obtain b' where "(btn_step ^^ k) (b\<lparr>btn_vt := Some (t - 1)\<rparr>, lv, n) (b', lv, n)" "btn_event b'" "btn_state b' = btn_state b"
        using Suc.IH[of "b\<lparr>btn_vt := Some (t - 1)\<rparr>" "t - 1"] False by auto
      then show ?thesis
        using relpowp_Suc_I2[where P = btn_step, OF vt_tick[where lv = lv and n = n, OF Suc.prems(1) t]] by blast
    qed
  qed
  then show ?thesis
    using Some assms unfolding btn_inv_def by blast
qed

section \<open>Time\<close>

lemma unat_TIME_I2MS: "unat (TIME_I2MS t) = (unat t + 9) div 10"
proof -
  have t: "unat t < 65536"
    using unsigned_less[where 'a = nat, of t] by simp
  have a: "unat (ucast t :: u64) = unat t"
    using t by (simp add: unsigned_ucast_eq take_bit_nat_eq_self)
  have b: "unat (ucast t * 1000 + 10000 - 1 :: u64) = unat t * 1000 + 9999"
  proof -
    have "unat (ucast t * 1000 + 9999 :: u64) = unat t * 1000 + 9999"
      using t by (simp add: unat_word_ariths a)
    then show ?thesis by (simp add: add.commute)
  qed
  have "unat ((ucast t * 1000 + 10000 - 1 :: u64) div 10000) = (unat t * 1000 + 9999) div 10000"
    unfolding unat_div b by simp
  also have "\<dots> = (unat t + 9) div 10"
    by (simp add: div_mult2_eq[of _ 1000 10, simplified] ac_simps)
  finally have c: "unat ((ucast t * 1000 + 10000 - 1 :: u64) div 10000) = (unat t + 9) div 10" .
  have "(unat t + 9) div 10 < 2 ^ 32"
    using t by simp
  then show ?thesis
    using c by (simp add: TIME_I2MS_def CH_CFG_ST_FREQUENCY_def unsigned_ucast_eq take_bit_nat_eq_self)
qed

section \<open>The running system\<close>

text \<open>
  A round on the board follows the rules for the block the buttons moved and the time of
  the system timer.
\<close>

lemma stm32_round:
  assumes "game_inv stm_free g" "world_ok w"
  defines "r \<equiv> logic_round (moved (map btn_state (st_buttons w)) (g_blk g)) (TIME_I2MS (clk w (clk_reads w))) (logic_t.truncate g)"
  shows "(\<forall>l'. r = Inr l' \<longrightarrow> (\<exists>g' w'. main_round False SC hwiface_stm32 thdiface_stm32 g w = Inr (g', w') \<and>
      logic_t.truncate g' = l' \<and> game_inv stm_free g' \<and> world_ok w')) \<and>
    (\<forall>e. r = Inl e \<longrightarrow> e = OutOfBounds \<and> main_round False SC hwiface_stm32 thdiface_stm32 g w = Inl e)"
proof -
  let ?s = "map btn_state (st_buttons w)"
  have inv: "vb_inv stm_free (g_vbuf g)" "in_field 26 (g_blk g)" "logic_inv (logic_t.truncate g)"
    using assms(1) by (auto simp: game_inv_def logic_inv_def logic_t.defs)
  have len: "gamma_block (g_blk g)" "length ?s = BUTTON_COUNT"
    using inv(2) assms(2) by (simp_all add: in_field_def world_ok_def)
  obtain v' w' where lp: "hw_loop hwiface_stm32 (g_vbuf g) (g_blk g) w = Inr (v', moved ?s (g_blk g), w')"
      "clk w' = clk w" "clk_reads w' = clk_reads w"
  proof -
    obtain ret where r: "buttons_do_action (g_blk g) ?s = Inr (ret, moved ?s (g_blk g))"
      using buttons_do_action_gamma[OF len] by blast
    obtain v1 where "update_block (g_vbuf g) (moved ?s (g_blk g)) = Inr v1"
      using update_block_ok[OF inv(1)] by blast
    with r that show ?thesis
      by (cases ret) (simp_all add: hwiface_stm32_def loop_stm32_def Let_def delay_stm32_def emit_def)
  qed
  have r: "r = logic_round (moved ?s (g_blk g)) (fst (hw_millis hwiface_stm32 w')) (logic_t.truncate g)"
    using lp(2,3) by (simp add: r_def hwiface_stm32_def millis_stm32_def)
  have "in_field 27 (moved ?s (g_blk g))"
    using moved_in_field[OF inv(2)] by simp
  from logic_round_ok[OF inv(3) this, of "TIME_I2MS (clk w (clk_reads w))"]
  have "r = Inl e \<Longrightarrow> e = OutOfBounds" for e
    unfolding r_def[symmetric] by auto
  then show ?thesis
    using stg.main_round_refines[OF assms(1,2) lp(1)] stg.main_round_fails[OF assms(1,2) lp(1)] unfolding r by blast
qed

lemma stm32_video_round:
  assumes "vb_inv stm_free v" "world_ok w"
  shows "\<exists>v' w'. thd_video_round False hwiface_stm32 thdiface_stm32 v w = Inr (v', delay_stm32 1 w') \<and>
    vb_inv stm_free v' \<and> world_ok (delay_stm32 1 w') \<and> vb_buf v' = vb_buf v \<and> \<not> clear_flag v' \<and>
    (if clear_flag v then display_update_stm32 v w = Inr w' \<and> upd_stack v' = upd_stack v
     else foldE (update_rect_stm32 v) (rev (stack_list (upd_stack v))) w = Inr w' \<and> stack_list (upd_stack v') = [])"
proof -
  have v: "vbuf_wf v" "stm_free (vb_mtx v)" "boxes_ok v"
    using assms(1) by (simp_all add: vb_inv_def)
  obtain m where m: "thd_lock thdiface_stm32 (vb_mtx v) = Inr m" "stm_held m"
    using st.lock[OF v(2)] by blast
  let ?v = "v\<lparr>vb_mtx := m\<rparr>"
  have ok: "vbuf_wf ?v" "boxes_ok ?v"
    using v by (simp_all add: boxes_ok_def)
  have sel: "vb_buf ?v = vb_buf v" "clear_flag ?v = clear_flag v" "upd_stack ?v = upd_stack v" "vb_mtx ?v = m"
    by simp_all
  obtain v1 w1 where d: "draw hwiface_stm32 ?v w = Inr (v1, w1)" "vbuf_wf v1" "boxes_ok v1"
      "vb_mtx v1 = m" "vb_buf v1 = vb_buf v" "world_ok w1"
      "if clear_flag v then hw_display_update hwiface_stm32 ?v w = Inr w1 \<and> v1 = ?v\<lparr>clear_flag := False\<rparr>
       else foldE (hw_display_update_rect hwiface_stm32 ?v) (rev (stack_list (upd_stack v))) w = Inr w1 \<and>
         stack_list (upd_stack v1) = [] \<and> \<not> clear_flag v1"
    using stg.draw_ok[OF ok assms(2)] unfolding sel by blast
  have eq: "hw_display_update hwiface_stm32 ?v = display_update_stm32 v" "hw_display_update_rect hwiface_stm32 ?v = update_rect_stm32 v"
    by (simp_all add: hwiface_stm32_def display_update_stm32_def update_rect_stm32_def fun_eq_iff)
  obtain m' where m': "thd_unlock thdiface_stm32 m = Inr m'" "stm_free m'"
    using st.unlock[OF m(2)] by blast
  have dl: "hw_delay hwiface_stm32 = delay_stm32"
    by (simp add: hwiface_stm32_def)
  then have "world_ok (delay_stm32 1 w1)"
    using stg.delay[OF d(6), of 1] by simp
  moreover have "thd_video_round False hwiface_stm32 thdiface_stm32 v w = Inr (v1\<lparr>vb_mtx := m'\<rparr>, delay_stm32 1 w1)"
    using m(1) d(1,4) m'(1) by (simp add: thd_video_round_def dl)
  moreover have "vb_inv stm_free (v1\<lparr>vb_mtx := m'\<rparr>)"
    using d(2,3) m'(2) by (simp add: vb_inv_def boxes_ok_def)
  ultimately show ?thesis
    using d(5,7) unfolding eq by (auto split: if_splits)
qed

text \<open>Start-up succeeds when \<open>spiStart\<close> does, and establishes the invariants.\<close>

lemma stm32_init:
  assumes "vbuf_wf v" "stm_free (vb_mtx v)" "stk_size (upd_stack v) = 0" "length grid = 30"
    "world_ok w"
  shows "if spi_ret w = 0
    then \<exists>g w'. main_init hwiface_stm32 thdiface_stm32 v grid w = Inr (g, w') \<and> game_inv stm_free g \<and> world_ok w' \<and>
      g_score g = 0 \<and> st_threads w' = st_threads w @ threads
    else main_init hwiface_stm32 thdiface_stm32 v grid w = Inl (Halted ''system'')"
proof (cases "spi_ret w = 0")
  case False
  then show ?thesis
    by (simp add: main_init_def hwiface_stm32_def init_stm32_def fatal_error_stm32_def Let_def)
next
  case True
  obtain w1 where w1: "init_stm32 w = Inr (True, w1)" "world_ok w1" "st_threads w1 = st_threads w"
    using True assms(5) by (simp add: init_stm32_def world_ok_def)
  obtain w2 where w2: "display_init_stm32 w1 = Inr (True, w2)" "world_ok w2" "st_threads w2 = st_threads w"
    using w1(2,3) by (simp add: display_init_stm32_def delay_stm32_def disp_write_cmdb_def disp_write_datab_def
        disp_write_data_def display_cmd_stm32_def emit_def world_ok_def)
  obtain v1 where v1: "vbuf_init thdiface_stm32 v = Inr v1" "vbuf_wf v1" "stm_free (vb_mtx v1)" "upd_stack v1 = upd_stack v"
    using st.vbuf_init_ok[OF assms(1,2)] by blast
  let ?w3 = "w2\<lparr>st_threads := st_threads w2 @ threads\<rparr>"
  have w3: "foldE (\<lambda>h. thd_create thdiface_stm32 h) threads w2 = Inr ?w3"
    by (simp add: threads_def thdiface_stm32_def thd_create_stm32_def)
  obtain v2 where v2: "vbuf_clear thdiface_stm32 v1 = Inr v2" "vbuf_wf v2" "stm_free (vb_mtx v2)" "upd_stack v2 = upd_stack v1"
    using st.vbuf_clear_ok[OF v1(2,3)] by blast
  obtain v3 where v3: "vbuf_set_flag thdiface_stm32 v2 = Inr v3" "vbuf_wf v3" "stm_free (vb_mtx v3)" "upd_stack v3 = upd_stack v2"
    using st.vbuf_set_flag_ok[OF v2(2,3)] by blast
  have "stack_list (upd_stack v3) = []"
    using v1(4) v2(4) v3(4) assms(3) by (simp add: stack_list_def)
  then have vb: "vb_inv stm_free v3"
    using v3 by (simp add: vb_inv_def boxes_ok_def)
  have g: "grid_clear grid = Inr (replicate 30 0)"
    using grid_clear_ok assms(4) by (simp add: grid_wf_length)
  obtain t w4 where t: "millis_stm32 ?w3 = (t, w4)" "world_ok w4" "st_threads w4 = st_threads w @ threads"
    using w2(2,3) by (simp add: millis_stm32_def world_ok_def)
  have "main_init hwiface_stm32 thdiface_stm32 v grid w =
      Inr (\<lparr>g_grid = replicate 30 0, g_blk = block_gamma, g_bbox = gamma_bbox 0, g_score = 0, g_t_last = t, g_vbuf = v3\<rparr>, w4)"
    unfolding main_init_def using w1(1) w2(1) v1(1) v2(1) v3(1) w3 g t(1) gamma_spawn get_bbox_gamma(1)
    by (simp add: hwiface_stm32_def)
  moreover have "logic_inv \<lparr>g_grid = replicate 30 0, g_blk = block_gamma, g_bbox = gamma_bbox 0, g_score = 0, g_t_last = t\<rparr>"
    by (simp add: logic_inv_def grid_wf_length in_field_gamma)
  ultimately show ?thesis
    using True vb t(2,3) by (simp add: game_inv_def logic_t.defs)
qed

text \<open>
  The states the running system goes through, with rounds of the main loop, rounds of the
  two threads and button interrupts in any order.
\<close>

inductive running :: "bool \<Rightarrow> kernel_t game_t \<Rightarrow> stm32_t \<Rightarrow> bool" for SC :: bool where
  boot: "vbuf_wf v \<Longrightarrow> stm_free (vb_mtx v) \<Longrightarrow> stk_size (upd_stack v) = 0 \<Longrightarrow> length grid = 30 \<Longrightarrow> world_ok w \<Longrightarrow>
    main_init hwiface_stm32 thdiface_stm32 v grid w = Inr (g, w') \<Longrightarrow> running SC g w'"
| main_thread: "running SC g w \<Longrightarrow> main_round False SC hwiface_stm32 thdiface_stm32 g w = Inr (g', w') \<Longrightarrow> running SC g' w'"
| video_thread: "running SC g w \<Longrightarrow> thd_video_round False hwiface_stm32 thdiface_stm32 (g_vbuf g) w = Inr (v, w') \<Longrightarrow>
    running SC (g\<lparr>g_vbuf := v\<rparr>) w'"
| blink_thread: "running SC g w \<Longrightarrow> running SC g (thd_blink_round hwiface_stm32 w)"
| button_irq: "running SC g w \<Longrightarrow> i < length (st_buttons w) \<Longrightarrow> btn_event (st_buttons w ! i) \<Longrightarrow>
    running SC g (w\<lparr>st_buttons := (st_buttons w)[i := button_cb (st_buttons w ! i)]\<rparr>)"
| button_timer: "running SC g w \<Longrightarrow> i < length (st_buttons w) \<Longrightarrow> btn_vt (st_buttons w ! i) \<noteq> None \<Longrightarrow>
    running SC g (w\<lparr>st_buttons := (st_buttons w)[i := vt_cb ((st_buttons w ! i)\<lparr>btn_vt := None\<rparr>)]\<rparr>)"

lemma running_inv:
  assumes "running SC g w"
  shows "game_inv stm_free g \<and> world_ok w"
  using assms
proof (induction rule: running.induct)
  case (boot v grid w g w')
  then show ?case
    using stm32_init[of v grid w] by (auto split: if_splits)
next
  case (main_thread g w g' w')
  then show ?case
    using stg.main_round_safe[of g w False SC] by auto
next
  case (video_thread g w v w')
  then show ?case
    using stm32_video_round[of "g_vbuf g" w] by (auto simp: game_inv_def logic_t.defs)
qed (auto simp: world_ok_def thd_blink_round_def hwiface_stm32_def led_toggle_stm32_def delay_stm32_def emit_def)

end
