(* ===== verification/Sitl.thy ===== *)
theory Sitl
  imports Game Buttons
begin

text \<open>
  The desktop simulation: \<^verbatim>\<open>impl_sitl.c\<close>. SDL and curses are outside the program; what the
  code gets from them is input of the model: \<open>sl_clock\<close> the readings of the monotonic clock,
  \<open>sl_events\<close> the contents of the event structure after each \<open>SDL_PollEvent\<close> (the code does not
  look at its result, so without a pending event the contents are arbitrary), \<open>sl_keys\<close> the
  results of \<open>getch\<close>, \<open>sl_video\<close> the success of the three calls of \<open>display_init_sitl\<close>. What the
  code draws is the list \<open>sl_drawn\<close>. The SDL mutex functions are arguments of \<open>thdiface_sitl\<close>.
\<close>

section \<open>State\<close>

definition ZOOM :: int where
  "ZOOM = 3"

datatype sdl_event = SDL_QUIT | SDL_KEYDOWN int | SDL_KEYUP int | SDL_OTHER

type_synonym sdl_color = "nat \<times> nat \<times> nat \<times> nat"
type_synonym sdl_rect = "int \<times> int \<times> int \<times> int"

datatype sdl_call =
    SetRenderDrawColor sdl_color
  | RenderFillRect sdl_rect
  | RenderClear
  | RenderPresent
  | Delay u32
  | CreateThread string nat

record sitl_t =
  sl_time_ms :: u32
  sl_button_states :: "bool list"
  sl_clock :: "nat \<Rightarrow> int \<times> int"
  sl_clock_reads :: nat
  sl_events :: "nat \<Rightarrow> sdl_event"
  sl_event_reads :: nat
  sl_keys :: "int list"
  sl_video :: "bool \<times> bool \<times> bool"
  sl_drawn :: "sdl_call list"

definition call :: "sdl_call \<Rightarrow> sitl_t \<Rightarrow> sitl_t" where
  "call c w = w\<lparr>sl_drawn := sl_drawn w @ [c]\<rparr>"

section \<open>Operations\<close>

definition delay_sitl :: "u32 \<Rightarrow> sitl_t \<Rightarrow> sitl_t" where
  "delay_sitl ms = call (Delay ms)"

definition timespec_ms :: "int \<times> int \<Rightarrow> u32" where
  "timespec_ms = (\<lambda>(tv_sec, tv_nsec). word_of_int (tv_sec * 100 + tv_nsec sdiv 1000000))"

definition gettime :: "sitl_t \<Rightarrow> u32 \<times> sitl_t" where
  "gettime w = (timespec_ms (sl_clock w (sl_clock_reads w)), w\<lparr>sl_clock_reads := sl_clock_reads w + 1\<rparr>)"

definition draw_pixel :: "int \<Rightarrow> int \<Rightarrow> bool \<Rightarrow> sitl_t \<Rightarrow> sitl_t" where
  "draw_pixel x y color w =
     (let w = call (SetRenderDrawColor (if color then (255, 255, 255, 255) else (0, 0, 0, 255))) w in
      call (RenderFillRect (x * ZOOM, y * ZOOM, ZOOM, ZOOM)) w)"

definition millis_sitl :: "sitl_t \<Rightarrow> u32 \<times> sitl_t" where
  "millis_sitl w = (let (t, w) = gettime w in (t - sl_time_ms w, w))"

definition init_sitl :: "sitl_t \<Rightarrow> (bool \<times> sitl_t) result" where
  "init_sitl w = (let (t, w) = gettime w in Inr (True, w\<lparr>sl_time_ms := t\<rparr>))"

definition char_map :: "(int \<times> button_e) list" where
  "char_map =
     [(100, BUTTON_RIGHT), (97, BUTTON_LEFT), (119, BUTTON_UP), (115, BUTTON_DOWN), (101, BUTTON_ENTER)]"

definition display_init_sitl :: "sitl_t \<Rightarrow> (bool \<times> sitl_t) result" where
  "display_init_sitl w =
     (case sl_video w of (sdl_init, window, renderer) \<Rightarrow>
        if \<not> sdl_init then Inr (False, w)
        else if \<not> window then Inr (False, w)
        else if \<not> renderer then Inr (False, w)
        else Inr (True, w))"

definition display_cmd_sitl :: "u8 list \<Rightarrow> sitl_t \<Rightarrow> sitl_t" where
  "display_cmd_sitl cmd w = w"

text \<open>The search loop of \<open>_map_button\<close> over the entries of \<open>char_map\<close>.\<close>

primrec map_button_loop :: "int \<Rightarrow> (int \<times> button_e) list \<Rightarrow> button_e" where
  "map_button_loop code [] = BUTTON_INVALID"
| "map_button_loop code (e # es) = (if code = fst e then snd e else map_button_loop code es)"

definition map_button :: "int \<Rightarrow> button_e" where
  "map_button code = map_button_loop code char_map"

definition poll_event :: "sitl_t \<Rightarrow> sdl_event \<times> sitl_t" where
  "poll_event w = (sl_events w (sl_event_reads w), w\<lparr>sl_event_reads := sl_event_reads w + 1\<rparr>)"

text \<open>The handling of a key: the state of its button, if it has one, then the action.\<close>

definition key_event ::
  "int \<Rightarrow> bool \<Rightarrow> 'm vbuf_t \<Rightarrow> block_t \<Rightarrow> sitl_t \<Rightarrow> ('m vbuf_t \<times> block_t \<times> sitl_t) result" where
  "key_event keysym down vbuf blk w =
     (let button = map_button keysym in
      bindE (if button \<noteq> BUTTON_INVALID
             then wr (sl_button_states w) (button_val button) down
             else Inr (sl_button_states w)) (\<lambda>states.
      let w = w\<lparr>sl_button_states := states\<rparr> in
      bindE (buttons_do_action blk states) (\<lambda>(ret, blk).
      if ret then bindE (update_block vbuf blk) (\<lambda>vbuf. Inr (vbuf, blk, w))
      else Inr (vbuf, blk, w))))"

definition loop_sitl :: "'m vbuf_t \<Rightarrow> block_t \<Rightarrow> sitl_t \<Rightarrow> ('m vbuf_t \<times> block_t \<times> sitl_t) result" where
  "loop_sitl vbuf blk w =
     (let (evt, w) = poll_event w in
      case evt of
        SDL_QUIT \<Rightarrow> Inl (Exited 0)
      | SDL_KEYDOWN keysym \<Rightarrow> key_event keysym True vbuf blk w
      | SDL_KEYUP keysym \<Rightarrow> key_event keysym False vbuf blk w
      | SDL_OTHER \<Rightarrow> Inr (vbuf, blk, w))"

definition sitl_pixel :: "u8 list list \<Rightarrow> int \<Rightarrow> int \<Rightarrow> nat \<Rightarrow> sitl_t \<Rightarrow> sitl_t result" where
  "sitl_pixel buf x y k w =
     bindE (rd buf x) (\<lambda>col.
     bindE (rd col y) (\<lambda>b.
     Inr (draw_pixel (int k + 8 * y) x (drop_bit k b AND 1 \<noteq> 0) w)))"

definition update_rect_sitl :: "bool \<Rightarrow> 'm vbuf_t \<Rightarrow> bbox_t \<Rightarrow> sitl_t \<Rightarrow> sitl_t result" where
  "update_rect_sitl SITL_OVERLAY vbuf bbox w =
     (let w = call RenderClear (call (SetRenderDrawColor (0, 0, 0, 255)) w) in
      bindE (foldE (\<lambda>x. foldE (\<lambda>y. foldE (\<lambda>k. sitl_pixel (vb_buf vbuf) x y k) [0..<8])
               [0..int DISP_ROWS - 1]) [0..int DISP_COLS - 1] w) (\<lambda>w.
      let w = (if SITL_OVERLAY \<and> \<not> (bbox_sizex bbox = int DISP_COLS \<and> bbox_sizey bbox = int DISP_ROWS * 8)
               then call (RenderFillRect (bbox_y bbox * ZOOM, bbox_x bbox * ZOOM, bbox_sizey bbox * ZOOM, bbox_sizex bbox * ZOOM))
                      (call (SetRenderDrawColor (255, 0, 0, 50)) w)
               else w) in
      Inr (call RenderPresent w)))"

definition display_update_sitl :: "bool \<Rightarrow> 'm vbuf_t \<Rightarrow> sitl_t \<Rightarrow> sitl_t result" where
  "display_update_sitl SITL_OVERLAY vbuf =
     update_rect_sitl SITL_OVERLAY vbuf
       \<lparr>bbox_x = 0, bbox_y = 0, bbox_sizex = int DISP_COLS, bbox_sizey = int DISP_ROWS * 8\<rparr>"

definition fatal_error_sitl :: "string \<Rightarrow> sitl_t \<Rightarrow> sitl_t result" where
  "fatal_error_sitl msg w = Inl (Exited (-1))"

definition led_toggle_sitl :: "sitl_t \<Rightarrow> sitl_t" where
  "led_toggle_sitl w = w"

definition serial_getch_sitl :: "sitl_t \<Rightarrow> u8 \<times> sitl_t" where
  "serial_getch_sitl w =
     (case sl_keys w of
        [] \<Rightarrow> (word_of_int (- 1), w)
      | c # cs \<Rightarrow> (word_of_int c, w\<lparr>sl_keys := cs\<rparr>))"

definition thd_create_sitl :: "thd_handle_t \<Rightarrow> sitl_t \<Rightarrow> sitl_t result" where
  "thd_create_sitl h w = Inr (call (CreateThread (hdl_func h) (hdl_wa_size h)) w)"

definition thd_exit_sitl :: "int \<Rightarrow> sitl_t \<Rightarrow> sitl_t result" where
  "thd_exit_sitl code w = Inl (Exited code)"

definition hwiface_sitl :: "bool \<Rightarrow> (sitl_t, 'm) hwiface_t" where
  "hwiface_sitl SITL_OVERLAY =
     \<lparr>hw_init = init_sitl, hw_loop = loop_sitl, hw_millis = millis_sitl, hw_delay = delay_sitl,
      hw_display_init = display_init_sitl, hw_display_update = display_update_sitl SITL_OVERLAY,
      hw_display_update_rect = update_rect_sitl SITL_OVERLAY, hw_display_cmd = display_cmd_sitl,
      hw_serial_getch = serial_getch_sitl, hw_led_toggle = led_toggle_sitl,
      hw_fatal_error = fatal_error_sitl\<rparr>"

text \<open>The table of thread functions, over SDL's mutex operations.\<close>

definition thdiface_sitl ::
  "('m \<Rightarrow> 'm result) \<Rightarrow> ('m \<Rightarrow> 'm result) \<Rightarrow> ('m \<Rightarrow> 'm result) \<Rightarrow> (sitl_t, 'm) thdiface_t" where
  "thdiface_sitl SDL_CreateMutex SDL_LockMutex SDL_UnlockMutex =
     \<lparr>thd_create = thd_create_sitl, thd_exit = thd_exit_sitl, thd_mtx_init = SDL_CreateMutex,
      thd_lock = SDL_LockMutex, thd_unlock = SDL_UnlockMutex\<rparr>"

section \<open>Input\<close>

definition sitl_ok :: "sitl_t \<Rightarrow> bool" where
  "sitl_ok w \<longleftrightarrow> length (sl_button_states w) = BUTTON_COUNT"

lemma map_button_codes:
  "map_button 97 = BUTTON_LEFT" "map_button 119 = BUTTON_UP" "map_button 115 = BUTTON_DOWN"
  "map_button 100 = BUTTON_RIGHT" "map_button 101 = BUTTON_ENTER"
  by (simp_all add: map_button_def char_map_def)

lemma map_button_invalid: "map_button c = BUTTON_INVALID \<longleftrightarrow> c \<notin> {97, 119, 115, 100, 101}"
  by (auto simp: map_button_def char_map_def)

definition key_states :: "int \<Rightarrow> bool \<Rightarrow> bool list \<Rightarrow> bool list" where
  "key_states c down states =
     (if map_button c = BUTTON_INVALID then states else states[nat (button_val (map_button c)) := down])"

lemma key_states_length [simp]: "length (key_states c down states) = length states"
  by (simp add: key_states_def)

lemma button_val_range: "b \<noteq> BUTTON_INVALID \<Longrightarrow> 0 \<le> button_val b \<and> button_val b < int BUTTON_COUNT"
  by (cases b) (simp_all add: BUTTON_COUNT_def)

lemma key_event_ok:
  assumes "sitl_ok w" "vb_inv free v" "in_field m blk"
  shows "\<exists>v'. key_event c down v blk w =
      Inr (v', moved (key_states c down (sl_button_states w)) blk,
           w\<lparr>sl_button_states := key_states c down (sl_button_states w)\<rparr>) \<and> vb_inv free v'"
proof -
  let ?s = "key_states c down (sl_button_states w)"
  have len: "length (sl_button_states w) = BUTTON_COUNT"
    using assms(1) by (simp add: sitl_ok_def)
  have wr: "(if map_button c \<noteq> BUTTON_INVALID then wr (sl_button_states w) (button_val (map_button c)) down
      else Inr (sl_button_states w)) = Inr ?s"
    using button_val_range[of "map_button c"] len by (simp add: key_states_def wr_def)
  have g: "gamma_block blk" "length ?s = BUTTON_COUNT"
    using assms(3) len by (simp_all add: in_field_def)
  obtain ret where r: "buttons_do_action blk ?s = Inr (ret, moved ?s blk)"
    using buttons_do_action_gamma[OF g] by blast
  obtain v' where "update_block v (moved ?s blk) = Inr v'" "vb_inv free v'"
    using update_block_ok[OF assms(2)] by blast
  with r assms(2) show ?thesis
    unfolding key_event_def Let_def wr by (cases ret) simp_all
qed

lemma moved_step:
  assumes "in_field m blk"
  shows "in_field (m + 1) (moved states blk)" "blk_x blk \<le> blk_x (moved states blk)"
  using assms moved_gamma[of blk states]
  by (auto simp: in_field_def moved_def Let_def block_rotr_def gamma_bbox_def)

lemma loop_sitl_ok:
  assumes "sitl_ok w" "vb_inv free v" "in_field m blk"
  shows "loop_sitl v blk w = Inl (Exited 0) \<or>
    (\<exists>v' blk' w'. loop_sitl v blk w = Inr (v', blk', w') \<and> sitl_ok w' \<and> vb_inv free v' \<and>
       in_field (m + 1) blk' \<and> blk_x blk \<le> blk_x blk')"
proof -
  let ?w = "w\<lparr>sl_event_reads := sl_event_reads w + 1\<rparr>"
  have w: "sitl_ok ?w" "sitl_ok (?w\<lparr>sl_button_states := key_states c d (sl_button_states ?w)\<rparr>)" for c d
    using assms(1) by (simp_all add: sitl_ok_def)
  note key = key_event_ok[OF w(1) assms(2,3)]
  have same: "in_field (m + 1) blk"
    using assms(3) by (rule in_field_mono) simp
  show ?thesis
  proof (cases "sl_events w (sl_event_reads w)")
    case (SDL_KEYDOWN c)
    then show ?thesis
      using key[of c True] w(2)[of c True] moved_step[OF assms(3)] by (auto simp: loop_sitl_def poll_event_def)
  next
    case (SDL_KEYUP c)
    then show ?thesis
      using key[of c False] w(2)[of c False] moved_step[OF assms(3)] by (auto simp: loop_sitl_def poll_event_def)
  qed (use assms(2) w(1) same in \<open>simp_all add: loop_sitl_def poll_event_def\<close>)
qed

section \<open>Output\<close>

lemma foldE_calls:
  assumes "\<And>a w. a \<in> set xs \<Longrightarrow> g a w = Inr (w\<lparr>sl_drawn := sl_drawn w @ f a\<rparr>)"
  shows "foldE g xs w = Inr (w\<lparr>sl_drawn := sl_drawn w @ concat (map f xs)\<rparr>)"
  using assms by (induction xs arbitrary: w) simp_all

definition pixel_calls :: "u8 list list \<Rightarrow> int \<Rightarrow> int \<Rightarrow> nat \<Rightarrow> sdl_call list" where
  "pixel_calls buf x y k =
     [SetRenderDrawColor (if bit (buf ! nat x ! nat y) k then (255, 255, 255, 255) else (0, 0, 0, 255)),
      RenderFillRect ((int k + 8 * y) * ZOOM, x * ZOOM, ZOOM, ZOOM)]"

definition screen_calls :: "u8 list list \<Rightarrow> sdl_call list" where
  "screen_calls buf =
     concat (map (\<lambda>x. concat (map (\<lambda>y. concat (map (pixel_calls buf x y) [0..<8])) [0..int DISP_ROWS - 1]))
       [0..int DISP_COLS - 1])"

lemma and_1_bit: "drop_bit k (b :: u8) AND 1 \<noteq> 0 \<longleftrightarrow> bit b k"
  by (simp add: and_one_eq bit_iff_odd_drop_bit odd_iff_mod_2_eq_one)

lemma sitl_pixel_ok:
  assumes "buf_wf buf" "x \<in> set [0..int DISP_COLS - 1]" "y \<in> set [0..int DISP_ROWS - 1]"
  shows "sitl_pixel buf x y k w = Inr (w\<lparr>sl_drawn := sl_drawn w @ pixel_calls buf x y k\<rparr>)"
  using assms
  by (simp add: sitl_pixel_def rd_def buf_wf_def nat_less_iff draw_pixel_def call_def pixel_calls_def and_1_bit)

lemma update_rect_sitl_ok:
  assumes "vbuf_wf v"
  shows "update_rect_sitl False v b w =
    Inr (w\<lparr>sl_drawn := sl_drawn w @ [SetRenderDrawColor (0, 0, 0, 255), RenderClear] @ screen_calls (vb_buf v) @ [RenderPresent]\<rparr>)"
proof -
  have buf: "buf_wf (vb_buf v)"
    using assms by (simp add: vbuf_wf_def)
  have "foldE (\<lambda>x. foldE (\<lambda>y. foldE (\<lambda>k. sitl_pixel (vb_buf v) x y k) [0..<8])
      [0..int DISP_ROWS - 1]) [0..int DISP_COLS - 1] w1 = Inr (w1\<lparr>sl_drawn := sl_drawn w1 @ screen_calls (vb_buf v)\<rparr>)" for w1
    unfolding screen_calls_def
    by (intro foldE_calls sitl_pixel_ok[OF buf])
  then show ?thesis
    by (simp add: update_rect_sitl_def call_def)
qed

end
