(* ===== verification/Ch_Vt.thy ===== *)
theory Ch_Vt
  imports Ch_Kernel
begin

text \<open>
  System time and virtual timers: the time arithmetic of \<^verbatim>\<open>chtime.h\<close>, the delta lists of
  \<^verbatim>\<open>chlists.h\<close>, and \<^verbatim>\<open>chvt.c\<close> with \<^verbatim>\<open>chvt.h\<close>, in tickless mode with a 16-bit system timer
  and 32-bit intervals. The hardware timer counts by itself, so every reading of it is one
  value of the sequence \<open>v_clock\<close>; \<open>v_reads\<close> counts the readings so far. A callback is a
  parameter of the tick handler.
\<close>

unbundle bit_operations_syntax

section \<open>Time arithmetic\<close>

type_synonym systime_t = u16
type_synonym sysinterval_t = u32
type_synonym systimestamp_t = u64

definition TIME_MAX_INTERVAL :: sysinterval_t where "TIME_MAX_INTERVAL = - 2"
definition TIME_MAX_SYSTIME :: systime_t where "TIME_MAX_SYSTIME = - 1"
definition ST_FREQUENCY :: u64 where "ST_FREQUENCY = 10000"
definition ST_TIMEDELTA :: sysinterval_t where "ST_TIMEDELTA = 2"

definition conv :: "bool \<Rightarrow> u64 \<Rightarrow> u32 result" where
  "conv ok x = bindE (assertE ok (Halted ''conversion overflow'')) (\<lambda>_. Inr (ucast x))"

definition chTimeS2I :: "u32 \<Rightarrow> sysinterval_t result" where
  "chTimeS2I secs =
     (let ticks = ucast secs * ST_FREQUENCY :: u64 in conv (ticks \<le> ucast TIME_MAX_INTERVAL) ticks)"

definition chTimeMS2I :: "u32 \<Rightarrow> sysinterval_t result" where
  "chTimeMS2I msec =
     (let ticks = (ucast msec * ST_FREQUENCY + 999) div 1000 :: u64 in conv (ticks \<le> ucast TIME_MAX_INTERVAL) ticks)"

definition chTimeUS2I :: "u32 \<Rightarrow> sysinterval_t result" where
  "chTimeUS2I usec =
     (let ticks = (ucast usec * ST_FREQUENCY + 999999) div 1000000 :: u64 in
      conv (ticks \<le> ucast TIME_MAX_INTERVAL) ticks)"

definition chTimeI2S :: "sysinterval_t \<Rightarrow> u32 result" where
  "chTimeI2S interval =
     (let secs = (ucast interval + ST_FREQUENCY - 1) div ST_FREQUENCY :: u64 in
      conv (secs < ucast (- 1 :: u32)) secs)"

definition chTimeI2MS :: "sysinterval_t \<Rightarrow> u32 result" where
  "chTimeI2MS interval =
     (let msecs = (ucast interval * 1000 + ST_FREQUENCY - 1) div ST_FREQUENCY :: u64 in
      conv (msecs < ucast (- 1 :: u32)) msecs)"

definition chTimeI2US :: "sysinterval_t \<Rightarrow> u32 result" where
  "chTimeI2US interval =
     (let usecs = (ucast interval * 1000000 + ST_FREQUENCY - 1) div ST_FREQUENCY :: u64 in
      conv (usecs \<le> ucast (- 1 :: u32)) usecs)"

definition chTimeAddX :: "systime_t \<Rightarrow> sysinterval_t \<Rightarrow> systime_t result" where
  "chTimeAddX systime interval =
     bindE (assertE (interval \<le> ucast TIME_MAX_SYSTIME) (Halted ''chTimeAddX'')) (\<lambda>_.
     Inr (systime + ucast interval))"

definition chTimeDiffX :: "systime_t \<Rightarrow> systime_t \<Rightarrow> sysinterval_t" where
  "chTimeDiffX start stop = ucast (stop - start)"

definition chTimeIsInRangeX :: "systime_t \<Rightarrow> systime_t \<Rightarrow> systime_t \<Rightarrow> bool" where
  "chTimeIsInRangeX time start stop \<longleftrightarrow> time - start < stop - start"

definition chTimeStampAddX :: "systimestamp_t \<Rightarrow> sysinterval_t \<Rightarrow> systimestamp_t" where
  "chTimeStampAddX stamp interval = stamp + ucast interval"

definition chTimeStampDiffX :: "systimestamp_t \<Rightarrow> systimestamp_t \<Rightarrow> sysinterval_t result" where
  "chTimeStampDiffX start stop = (let diff = stop - start in conv (diff \<le> ucast (- 1 :: u32)) diff)"

definition chTimeStampIsInRangeX :: "systimestamp_t \<Rightarrow> systimestamp_t \<Rightarrow> systimestamp_t \<Rightarrow> bool" where
  "chTimeStampIsInRangeX stamp start stop \<longleftrightarrow> stamp - start < stop - start"

section \<open>Delta lists\<close>

text \<open>
  The elements after the header, each with its \<open>delta\<close>. The delta of the header is the
  greatest interval, so that scanning stops there at the latest.
\<close>

type_synonym dlist = "(nat \<times> sysinterval_t) list"

definition first_delta :: "dlist \<Rightarrow> sysinterval_t" where
  "first_delta dl = (case dl of [] \<Rightarrow> - 1 | (t, d) # _ \<Rightarrow> d)"

fun ch_dlist_insert :: "nat \<Rightarrow> sysinterval_t \<Rightarrow> dlist \<Rightarrow> dlist result" where
  "ch_dlist_insert t delta [] = Inr [(t, delta)]"
| "ch_dlist_insert t delta ((u, d) # dl) =
     (if d < delta
      then bindE (assertE (u \<noteq> t) (Halted ''element already in list'')) (\<lambda>_.
           bindE (ch_dlist_insert t (delta - d) dl) (\<lambda>dl. Inr ((u, d) # dl)))
      else Inr ((t, delta) # (u, d - delta) # dl))"

definition add_delta :: "sysinterval_t \<Rightarrow> dlist \<Rightarrow> dlist" where
  "add_delta d dl = (case dl of [] \<Rightarrow> [] | (u, e) # dl \<Rightarrow> (u, e + d) # dl)"

fun dlist_unlink :: "nat \<Rightarrow> dlist \<Rightarrow> dlist" where
  "dlist_unlink t [] = []"
| "dlist_unlink t ((u, d) # dl) = (if u = t then add_delta d dl else (u, d) # dlist_unlink t dl)"

section \<open>State\<close>

text \<open>
  \<open>v_func\<close> stands for the callback and its parameter, \<open>v_alarm\<close> for the alarm of the system
  timer, \<open>v_faults\<close> for the mask of runtime faults.
\<close>

record vt_t =
  v_dlist :: dlist
  v_lasttime :: systime_t
  v_laststamp :: systimestamp_t
  v_reload :: "nat \<Rightarrow> sysinterval_t"
  v_func :: "nat \<Rightarrow> nat"
  v_alarm :: "systime_t option"
  v_faults :: u32
  v_clock :: "nat \<Rightarrow> systime_t"
  v_reads :: nat

definition CH_RFCU_VT_INSUFFICIENT_DELTA :: u32 where "CH_RFCU_VT_INSUFFICIENT_DELTA = 1"

definition chRFCUCollectFaultsI :: "u32 \<Rightarrow> vt_t \<Rightarrow> vt_t" where
  "chRFCUCollectFaultsI msk v = v\<lparr>v_faults := v_faults v OR msk\<rparr>"

definition chRFCUGetAndClearFaultsI :: "u32 \<Rightarrow> vt_t \<Rightarrow> u32 \<times> vt_t" where
  "chRFCUGetAndClearFaultsI msk v =
     (let m = v_faults v AND msk in (m, v\<lparr>v_faults := v_faults v AND NOT m\<rparr>))"

definition chVTGetSystemTimeX :: "vt_t \<Rightarrow> systime_t" where
  "chVTGetSystemTimeX v = v_clock v (v_reads v)"

definition read_done :: "vt_t \<Rightarrow> vt_t" where
  "read_done v = v\<lparr>v_reads := Suc (v_reads v)\<rparr>"

definition chVTIsArmedI :: "nat \<Rightarrow> vt_t \<Rightarrow> bool" where
  "chVTIsArmedI t v \<longleftrightarrow> t \<in> fst ` set (v_dlist v)"

section \<open>Setting the alarm\<close>

definition VT_MAX_DELAY :: sysinterval_t where
  "VT_MAX_DELAY = ucast TIME_MAX_SYSTIME AND NOT (push_bit (16 div 2) 1 - 1)"

definition vt_clamp :: "sysinterval_t \<Rightarrow> sysinterval_t" where
  "vt_clamp delay =
     (if delay < ST_TIMEDELTA then ST_TIMEDELTA else if delay > VT_MAX_DELAY then VT_MAX_DELAY else delay)"

definition vt_skip_fault :: "sysinterval_t \<Rightarrow> vt_t \<Rightarrow> vt_t" where
  "vt_skip_fault currdelta v =
     (if currdelta > ST_TIMEDELTA then chRFCUCollectFaultsI CH_RFCU_VT_INSUFFICIENT_DELTA v else v)"

text \<open>
  The loop that sets the alarm again as long as the time has already passed it. The difference
  of two times has 16 bits, so a minimum delta that grows by one in each round ends it.
\<close>

function (sequential) alarm_loop ::
  "sysinterval_t \<Rightarrow> sysinterval_t \<Rightarrow> systime_t \<Rightarrow> vt_t \<Rightarrow> (sysinterval_t \<times> vt_t) result" where
  "alarm_loop currdelta delay now v =
     bindE (chTimeAddX now delay) (\<lambda>a.
     let v = v\<lparr>v_alarm := Some a\<rparr>; newnow = chVTGetSystemTimeX v; v = read_done v in
     if chTimeDiffX now newnow < delay then Inr (currdelta, v)
     else alarm_loop (currdelta + 1) (currdelta + 1) newnow v)"
  by pat_completeness auto

lemma unat_u16: "unat (x :: u16) < 65536"
  by (rule order_less_le_trans[OF unsigned_less]) simp

lemma unat_u32: "unat (x :: u32) < 4294967296"
  by (rule order_less_le_trans[OF unsigned_less]) simp

lemma unat_diff [simp]: "unat (chTimeDiffX a b) = unat (b - a)"
  using unat_u16[of "b - a"] by (simp add: chTimeDiffX_def unsigned_ucast_eq take_bit_nat_eq_self)

lemma diff_small: "unat (chTimeDiffX a b) < 65536"
  using unat_u16[of "b - a"] by simp

lemma alarm_measure:
  assumes "\<not> chTimeDiffX a b < delay"
  shows "0x10000 - unat (currdelta + 1) <
    (if delay = currdelta then 0 else 0x20000) + (0x10000 - unat currdelta)"
proof (cases "delay = currdelta")
  case True
  then have "unat currdelta < 65536"
    using assms diff_small[of a b] by (simp add: word_less_nat_alt not_less)
  moreover from this have "unat (currdelta + 1) = unat currdelta + 1"
    by (simp add: unat_word_ariths)
  ultimately show ?thesis using True by simp
next
  case False
  then show ?thesis by simp
qed

termination alarm_loop
  by (relation "measure (\<lambda>(c, d, _, _). (if d = c then 0 else 0x20000) + (0x10000 - unat c))")
    (use alarm_measure in \<open>auto simp: not_less\<close>)

declare alarm_loop.simps [simp del]

definition vt_set_alarm :: "systime_t \<Rightarrow> sysinterval_t \<Rightarrow> vt_t \<Rightarrow> vt_t result" where
  "vt_set_alarm now delay v =
     bindE (alarm_loop ST_TIMEDELTA (vt_clamp delay) now v) (\<lambda>(currdelta, v). Inr (vt_skip_fault currdelta v))"

function (sequential) first_loop ::
  "sysinterval_t \<Rightarrow> sysinterval_t \<Rightarrow> systime_t \<Rightarrow> vt_t \<Rightarrow> (sysinterval_t \<times> vt_t) result" where
  "first_loop currdelta delay now v =
     (let newnow = chVTGetSystemTimeX v; v = read_done v in
      if chTimeDiffX now newnow < delay then Inr (currdelta, v)
      else bindE (chTimeAddX now (currdelta + 1)) (\<lambda>a.
           first_loop (currdelta + 1) (currdelta + 1) newnow (v\<lparr>v_alarm := Some a\<rparr>)))"
  by pat_completeness auto

termination first_loop
  by (relation "measure (\<lambda>(c, d, _, _). (if d = c then 0 else 0x20000) + (0x10000 - unat c))")
    (use alarm_measure in \<open>auto simp: not_less\<close>)

declare first_loop.simps [simp del]

definition vt_insert_first :: "nat \<Rightarrow> systime_t \<Rightarrow> sysinterval_t \<Rightarrow> vt_t \<Rightarrow> vt_t result" where
  "vt_insert_first t now delay v =
     (let v = v\<lparr>v_lasttime := now, v_dlist := (t, delay) # v_dlist v\<rparr>; delay = vt_clamp delay in
      bindE (chTimeAddX (v_lasttime v) delay) (\<lambda>a.
      bindE (first_loop ST_TIMEDELTA delay now (v\<lparr>v_alarm := Some a\<rparr>)) (\<lambda>(currdelta, v).
      Inr (vt_skip_fault currdelta v))))"

section \<open>Timers\<close>

definition vt_enqueue :: "nat \<Rightarrow> sysinterval_t \<Rightarrow> vt_t \<Rightarrow> vt_t result" where
  "vt_enqueue t delay v =
     (let now = chVTGetSystemTimeX v; v = read_done v in
      if v_dlist v = [] then vt_insert_first t now delay v
      else
        let nowdelta = chTimeDiffX (v_lasttime v) now;
            delta = nowdelta + delay;
            delta = (if delta < nowdelta then delay else delta)
        in bindE (if delta < first_delta (v_dlist v) then vt_set_alarm now delay v else Inr v) (\<lambda>v.
           bindE (ch_dlist_insert t delta (v_dlist v)) (\<lambda>dl. Inr (v\<lparr>v_dlist := dl\<rparr>))))"

definition chVTDoSetI :: "nat \<Rightarrow> sysinterval_t \<Rightarrow> nat \<Rightarrow> vt_t \<Rightarrow> vt_t result" where
  "chVTDoSetI t delay f v =
     bindE (assertE (delay \<noteq> TIME_IMMEDIATE) (Halted ''chVTDoSetI'')) (\<lambda>_.
     vt_enqueue t delay (v\<lparr>v_func := (v_func v)(t := f), v_reload := (v_reload v)(t := 0)\<rparr>))"

definition chVTDoSetContinuousI :: "nat \<Rightarrow> sysinterval_t \<Rightarrow> nat \<Rightarrow> vt_t \<Rightarrow> vt_t result" where
  "chVTDoSetContinuousI t delay f v =
     bindE (assertE (delay \<noteq> TIME_IMMEDIATE) (Halted ''chVTDoSetContinuousI'')) (\<lambda>_.
     vt_enqueue t delay (v\<lparr>v_func := (v_func v)(t := f), v_reload := (v_reload v)(t := delay)\<rparr>))"

definition chVTDoResetI :: "nat \<Rightarrow> vt_t \<Rightarrow> vt_t result" where
  "chVTDoResetI t v =
     bindE (assertE (chVTIsArmedI t v) (Halted ''timer not armed'')) (\<lambda>_.
     if fst (hd (v_dlist v)) \<noteq> t then Inr (v\<lparr>v_dlist := dlist_unlink t (v_dlist v)\<rparr>)
     else
       let d = first_delta (v_dlist v); v = v\<lparr>v_dlist := tl (v_dlist v)\<rparr> in
       if v_dlist v = [] then Inr (v\<lparr>v_alarm := None\<rparr>)
       else
         let v = v\<lparr>v_dlist := add_delta d (v_dlist v)\<rparr>;
             now = chVTGetSystemTimeX v; v = read_done v;
             nowdelta = chTimeDiffX (v_lasttime v) now
         in if nowdelta \<ge> first_delta (v_dlist v) then Inr v
            else vt_set_alarm now (first_delta (v_dlist v) - nowdelta) v)"

definition chVTResetI :: "nat \<Rightarrow> vt_t \<Rightarrow> vt_t result" where
  "chVTResetI t v = (if chVTIsArmedI t v then chVTDoResetI t v else Inr v)"

definition chVTSetI :: "nat \<Rightarrow> sysinterval_t \<Rightarrow> nat \<Rightarrow> vt_t \<Rightarrow> vt_t result" where
  "chVTSetI t delay f v = bindE (chVTResetI t v) (chVTDoSetI t delay f)"

definition chVTSetContinuousI :: "nat \<Rightarrow> sysinterval_t \<Rightarrow> nat \<Rightarrow> vt_t \<Rightarrow> vt_t result" where
  "chVTSetContinuousI t delay f v = bindE (chVTResetI t v) (chVTDoSetContinuousI t delay f)"

fun remaining_loop :: "nat \<Rightarrow> sysinterval_t \<Rightarrow> dlist \<Rightarrow> sysinterval_t result" where
  "remaining_loop t delta [] = Inl (Halted ''timer not in list'')"
| "remaining_loop t delta ((u, d) # dl) =
     (if u = t then Inr (delta + d) else remaining_loop t (delta + d) dl)"

definition chVTGetRemainingIntervalI :: "nat \<Rightarrow> vt_t \<Rightarrow> (sysinterval_t \<times> vt_t) result" where
  "chVTGetRemainingIntervalI t v =
     bindE (remaining_loop t 0 (v_dlist v)) (\<lambda>delta.
     let now = chVTGetSystemTimeX v; v = read_done v; nowdelta = chTimeDiffX (v_lasttime v) now in
     if nowdelta > delta then Inr (0, v) else Inr (delta - nowdelta, v))"

text \<open>\<open>timep\<close>: whether the caller passes a pointer for the time to the next deadline.\<close>

definition chVTGetTimersStateI :: "bool \<Rightarrow> vt_t \<Rightarrow> bool \<times> sysinterval_t option \<times> vt_t" where
  "chVTGetTimersStateI timep v =
     (if v_dlist v = [] then (False, None, v)
      else if timep then
        (True, Some (first_delta (v_dlist v) + ST_TIMEDELTA - chTimeDiffX (v_lasttime v) (chVTGetSystemTimeX v)), read_done v)
      else (True, None, v))"

definition chVTTimeElapsedSinceX :: "systime_t \<Rightarrow> vt_t \<Rightarrow> sysinterval_t \<times> vt_t" where
  "chVTTimeElapsedSinceX start v = (chTimeDiffX start (chVTGetSystemTimeX v), read_done v)"

definition chVTIsSystemTimeWithinX :: "systime_t \<Rightarrow> systime_t \<Rightarrow> vt_t \<Rightarrow> bool \<times> vt_t" where
  "chVTIsSystemTimeWithinX start stop v = (chTimeIsInRangeX (chVTGetSystemTimeX v) start stop, read_done v)"

text \<open>
  The tick handler. \<open>call f t\<close> is the callback \<open>f\<close> of timer \<open>t\<close>. The handler also returns the
  timers it triggered, in order. A callback may set timers again and again, so the loop has a
  bound on its rounds.
\<close>

fun tick_loop ::
  "(nat \<Rightarrow> nat \<Rightarrow> vt_t \<Rightarrow> vt_t result) \<Rightarrow> nat \<Rightarrow> nat list \<Rightarrow> vt_t \<Rightarrow>
   ((systime_t \<times> sysinterval_t) option \<times> nat list \<times> vt_t) result" where
  "tick_loop call 0 fired v = Inl Blocked"
| "tick_loop call (Suc n) fired v =
     (let now = chVTGetSystemTimeX v; v = read_done v; nowdelta = chTimeDiffX (v_lasttime v) now in
      if nowdelta < first_delta (v_dlist v) then Inr (Some (now, nowdelta), fired, v)
      else
        case v_dlist v of
          [] \<Rightarrow> Inl OutOfBounds
        | (t, d) # dl \<Rightarrow>
            bindE (chTimeAddX (v_lasttime v) d) (\<lambda>lasttime.
            let v = v\<lparr>v_lasttime := lasttime, v_dlist := dl, v_alarm := (if dl = [] then None else v_alarm v)\<rparr> in
            bindE (call (v_func v t) t v) (\<lambda>v.
            if v_reload v t > 0 then
              let now = chVTGetSystemTimeX v; v = read_done v; nowdelta = chTimeDiffX lasttime now in
              if nowdelta > v_reload v t then Inl (Halted ''skipped deadline'')
              else
                let delay = v_reload v t - nowdelta in
                if v_dlist v = [] then bindE (vt_insert_first t now delay v) (\<lambda>v. Inr (None, fired @ [t], v))
                else
                  let delta = nowdelta + delay; delta = (if delta < nowdelta then delay else delta) in
                  bindE (ch_dlist_insert t delta (v_dlist v)) (\<lambda>dl.
                  tick_loop call n (fired @ [t]) (v\<lparr>v_dlist := dl\<rparr>))
            else tick_loop call n (fired @ [t]) v)))"

definition chVTDoTickI ::
  "(nat \<Rightarrow> nat \<Rightarrow> vt_t \<Rightarrow> vt_t result) \<Rightarrow> nat \<Rightarrow> vt_t \<Rightarrow> (nat list \<times> vt_t) result" where
  "chVTDoTickI call n v =
     bindE (tick_loop call n [] v) (\<lambda>(r, fired, v).
     case r of
       None \<Rightarrow> Inr (fired, v)
     | Some (now, nowdelta) \<Rightarrow>
         (case v_dlist v of
            [] \<Rightarrow> Inr (fired, v)
          | (t, d) # dl \<Rightarrow>
              bindE (vt_set_alarm now (d - nowdelta)
                (v\<lparr>v_lasttime := v_lasttime v + ucast nowdelta, v_dlist := (t, d - nowdelta) # dl\<rparr>))
                (\<lambda>v. Inr (fired, v))))"

definition chVTGetTimeStampI :: "vt_t \<Rightarrow> (systimestamp_t \<times> vt_t) result" where
  "chVTGetTimeStampI v =
     (let now = chVTGetSystemTimeX v; v = read_done v; last = v_laststamp v;
          stamp = last + ucast (chTimeDiffX (ucast last) now)
      in bindE (assertE (v_laststamp v \<le> stamp) (Halted ''wrapped'')) (\<lambda>_. Inr (stamp, v\<lparr>v_laststamp := stamp\<rparr>)))"

definition chVTResetTimeStampI :: "vt_t \<Rightarrow> vt_t" where
  "chVTResetTimeStampI v = (read_done v)\<lparr>v_laststamp := ucast (chVTGetSystemTimeX v)\<rparr>"

definition vt_object_init :: "vt_t \<Rightarrow> vt_t" where
  "vt_object_init v = (read_done v)\<lparr>v_dlist := [], v_lasttime := 0, v_laststamp := ucast (chVTGetSystemTimeX v)\<rparr>"

section \<open>Deadlines\<close>

text \<open>
  What a delta list means: the distance of every deadline from \<open>lasttime\<close>, in firing order.
\<close>

fun offsets :: "nat \<Rightarrow> dlist \<Rightarrow> (nat \<times> nat) list" where
  "offsets b [] = []"
| "offsets b ((t, d) # dl) = (t, b + unat d) # offsets (b + unat d) dl"

definition place :: "nat \<Rightarrow> nat \<Rightarrow> (nat \<times> nat) list \<Rightarrow> (nat \<times> nat) list" where
  "place t x xs = takeWhile (\<lambda>(_, y). y < x) xs @ (t, x) # dropWhile (\<lambda>(_, y). y < x) xs"

definition vt_ok :: "vt_t \<Rightarrow> bool" where
  "vt_ok v \<longleftrightarrow> distinct (map fst (v_dlist v)) \<and> (\<forall>(t, x) \<in> set (offsets 0 (v_dlist v)). x < 2 ^ 32)"

lemma fst_offsets [simp]: "map fst (offsets b dl) = map fst dl"
  by (induction dl arbitrary: b) auto

lemma offsets_mem: "(t, x) \<in> set (offsets b dl) \<Longrightarrow> t \<in> fst ` set dl"
  using image_eqI[of t fst "(t, x)" "set (offsets b dl)"] by (simp flip: set_map)

lemma offsets_ge: "(t, x) \<in> set (offsets b dl) \<Longrightarrow> b \<le> x"
  by (induction dl arbitrary: b) (auto simp: trans_le_add1, fastforce)

lemma offsets_shift: "offsets (b + c) dl = map (\<lambda>(t, x). (t, x + c)) (offsets b dl)"
proof (induction dl arbitrary: b)
  case (Cons e dl)
  obtain t d where "e = (t, d)" by force
  then show ?case using Cons[of "b + unat d"] by (simp add: ac_simps)
qed simp

text \<open>Inserting into the delta list inserts the deadline among the sorted deadlines.\<close>

lemma ch_dlist_insert_offsets:
  assumes "t \<notin> fst ` set dl"
  shows "\<exists>dl'. ch_dlist_insert t delta dl = Inr dl' \<and> offsets b dl' = place t (b + unat delta) (offsets b dl)"
  using assms
proof (induction t delta dl arbitrary: b rule: ch_dlist_insert.induct)
  case (1 t delta)
  then show ?case by (simp add: place_def)
next
  case (2 t delta u d dl)
  show ?case
  proof (cases "d < delta")
    case True
    then have "unat (delta - d) = unat delta - unat d" "unat d < unat delta"
      using unat_sub[OF order.strict_implies_order[OF True]] by (simp_all add: word_less_nat_alt)
    moreover have "u \<noteq> t" "t \<notin> fst ` set dl" using "2.prems" by auto
    moreover obtain dl' where "ch_dlist_insert t (delta - d) dl = Inr dl'"
        "offsets (b + unat d) dl' = place t (b + unat d + unat (delta - d)) (offsets (b + unat d) dl)"
      using "2.IH"[OF True, of "()" "b + unat d"] calculation by auto
    ultimately show ?thesis
      using True by (simp add: place_def)
  next
    case False
    then have "unat (d - delta) = unat d - unat delta" "unat delta \<le> unat d"
      by (simp_all add: unat_sub not_less word_le_nat_alt)
    then show ?thesis
      using False by (simp add: place_def)
  qed
qed

text \<open>Unlinking a timer removes its deadline and keeps the others.\<close>

lemma add_delta_offsets:
  assumes "\<forall>(t, x) \<in> set (offsets (b + unat d) dl). x < 2 ^ 32"
  shows "offsets b (add_delta d dl) = offsets (b + unat d) dl"
proof (cases dl)
  case (Cons e dl')
  obtain u x where e: "e = (u, x)" by force
  then have "unat x + unat d < 2 ^ 32" using assms Cons by simp
  then have "unat (x + d) = unat x + unat d" by (simp add: unat_word_ariths)
  then show ?thesis using Cons e by (simp add: add_delta_def ac_simps)
qed (simp add: add_delta_def)

lemma dlist_unlink_offsets:
  assumes "distinct (map fst dl)" "\<forall>(t, x) \<in> set (offsets b dl). x < 2 ^ 32"
  shows "offsets b (dlist_unlink t dl) = filter (\<lambda>(u, _). u \<noteq> t) (offsets b dl)"
  using assms
proof (induction t dl arbitrary: b rule: dlist_unlink.induct)
  case (2 t u d dl)
  show ?case
  proof (cases "u = t")
    case True
    then have "t \<notin> fst ` set dl"
      using "2.prems"(1) by simp
    then have "filter (\<lambda>(u, _). u \<noteq> t) (offsets (b + unat d) dl) = offsets (b + unat d) dl"
      by (intro filter_True) (auto dest: offsets_mem)
    then show ?thesis
      using True add_delta_offsets[of b d dl] "2.prems"(2) by simp
  next
    case False
    then show ?thesis using "2.IH" "2.prems" by simp
  qed
qed simp

section \<open>The alarm\<close>

lemma max_systime: "ucast TIME_MAX_SYSTIME = (65535 :: u32)"
  by code_simp

lemma chTimeAddX_ok: "unat d \<le> 65535 \<Longrightarrow> chTimeAddX t d = Inr (t + ucast d)"
  by (simp add: chTimeAddX_def word_le_nat_alt max_systime)

lemma unat_ucast16: "unat d \<le> 65535 \<Longrightarrow> unat (ucast d :: u16) = unat d" for d :: u32
  by (simp add: unsigned_ucast_eq take_bit_nat_eq_self)

lemma unat_vt_clamp: "2 \<le> unat (vt_clamp d)" "unat (vt_clamp d) \<le> 65280"
proof -
  have m: "VT_MAX_DELAY = 65280" by code_simp
  show "2 \<le> unat (vt_clamp d)" "unat (vt_clamp d) \<le> 65280"
    by (auto simp: vt_clamp_def ST_TIMEDELTA_def word_less_nat_alt m)
qed

text \<open>
  If the timer advances by less than \<open>B\<close> between two readings, the loop ends with the alarm
  ahead of the last reading.
\<close>

lemma alarm_ahead:
  fixes delay :: u32 and now newnow :: u16
  assumes "unat delay \<le> 65535" "unat (newnow - now) < unat delay"
  shows "0 < now + ucast delay - newnow" "unat (now + ucast delay - newnow) \<le> unat delay"
proof -
  have "unat (newnow - now) < unat (ucast delay :: u16)"
    using assms by (simp add: unat_ucast16)
  then have "unat (ucast delay - (newnow - now) :: u16) = unat delay - unat (newnow - now)"
    using assms(1) by (simp add: unat_sub word_le_nat_alt unat_ucast16)
  moreover have "ucast delay - (newnow - now) = now + ucast delay - newnow" by simp
  ultimately show "0 < now + ucast delay - newnow" "unat (now + ucast delay - newnow) \<le> unat delay"
    using assms(2) by (simp_all add: word_less_nat_alt)
qed

lemma read_sel [simp]:
  "v_clock (read_done v) = v_clock v" "v_reads (read_done v) = Suc (v_reads v)" "v_dlist (read_done v) = v_dlist v"
  "v_lasttime (read_done v) = v_lasttime v" "v_reload (read_done v) = v_reload v" "v_func (read_done v) = v_func v"
  "v_alarm (read_done v) = v_alarm v" "v_faults (read_done v) = v_faults v"
  by (simp_all add: read_done_def)

definition last_read :: "vt_t \<Rightarrow> systime_t" where
  "last_read v = v_clock v (v_reads v - 1)"

lemma alarm_loop_ok:
  assumes "\<forall>i. unat (v_clock v (Suc i) - v_clock v i) < B" "B \<le> 65535" "now = last_read v" "0 < v_reads v"
    "unat currdelta \<le> unat delay" "unat delay \<le> 65535"
  shows "\<exists>c v'. alarm_loop currdelta delay now v = Inr (c, v') \<and> v_dlist v' = v_dlist v \<and> v_lasttime v' = v_lasttime v \<and>
    (\<exists>a. v_alarm v' = Some a \<and> 0 < a - last_read v') \<and> (B \<le> unat delay \<longrightarrow> c = currdelta \<and> v_alarm v' = Some (now + ucast delay))"
  using assms
proof (induction currdelta delay now v rule: alarm_loop.induct)
  case (1 currdelta delay now v)
  let ?v = "v\<lparr>v_alarm := Some (now + ucast delay)\<rparr>"
  let ?n = "v_clock v (v_reads v)"
  obtain i where i: "v_reads v = Suc i" using "1.prems"(4) by (cases "v_reads v") auto
  have step: "unat (?n - now) < B"
    using "1.prems"(1,3) i by (simp add: last_read_def)
  have eq: "alarm_loop currdelta delay now v =
      (if chTimeDiffX now ?n < delay then Inr (currdelta, read_done ?v)
       else alarm_loop (currdelta + 1) (currdelta + 1) ?n (read_done ?v))"
    using chTimeAddX_ok[OF "1.prems"(6)] by (subst alarm_loop.simps) (simp add: Let_def chVTGetSystemTimeX_def)
  show ?case
  proof (cases "chTimeDiffX now ?n < delay")
    case True
    then show ?thesis
      using eq alarm_ahead(1)[of delay ?n now] "1.prems"(6) by (simp add: word_less_nat_alt last_read_def)
  next
    case False
    then have small: "unat delay < B" "unat currdelta < B" using step "1.prems"(5) by (simp_all add: word_less_nat_alt)
    then have c: "unat (currdelta + 1) = unat currdelta + 1"
      using "1.prems"(2) by (simp add: unat_word_ariths)
    have ih: "\<exists>c v'. alarm_loop (currdelta + 1) (currdelta + 1) ?n (read_done ?v) = Inr (c, v') \<and>
        v_dlist v' = v_dlist (read_done ?v) \<and> v_lasttime v' = v_lasttime (read_done ?v) \<and>
        (\<exists>a. v_alarm v' = Some a \<and> 0 < a - last_read v')"
      using "1.IH"[OF chTimeAddX_ok[OF "1.prems"(6)] refl refl refl] False "1.prems"(1,2) c small
      by (auto simp: chVTGetSystemTimeX_def last_read_def)
    then show ?thesis
      using eq False small(1) by auto
  qed
qed

lemma first_loop_ok:
  assumes "\<forall>i. unat (v_clock v (Suc i) - v_clock v i) < B" "B \<le> 65535" "now = last_read v" "0 < v_reads v"
    "unat currdelta \<le> unat delay"
  shows "\<exists>c v'. first_loop currdelta delay now v = Inr (c, v') \<and> v_dlist v' = v_dlist v \<and> v_lasttime v' = v_lasttime v \<and>
    (B \<le> unat delay \<longrightarrow> c = currdelta \<and> v_alarm v' = v_alarm v)"
  using assms
proof (induction currdelta delay now v rule: first_loop.induct)
  case (1 currdelta delay now v)
  let ?n = "v_clock v (v_reads v)"
  obtain i where i: "v_reads v = Suc i" using "1.prems"(4) by (cases "v_reads v") auto
  have step: "unat (?n - now) < B"
    using "1.prems"(1,3) i by (simp add: last_read_def)
  show ?case
  proof (cases "chTimeDiffX now ?n < delay")
    case True
    then show ?thesis
      by (subst first_loop.simps) (simp add: Let_def chVTGetSystemTimeX_def)
  next
    case False
    then have small: "unat delay < B" "unat currdelta < B" using step "1.prems"(5) by (simp_all add: word_less_nat_alt)
    then have c: "unat (currdelta + 1) = unat currdelta + 1"
      using "1.prems"(2) by (simp add: unat_word_ariths)
    then have add: "chTimeAddX now (currdelta + 1) = Inr (now + ucast (currdelta + 1))"
      using small "1.prems"(2) by (intro chTimeAddX_ok) simp
    have "\<exists>c v'. first_loop (currdelta + 1) (currdelta + 1) ?n ((read_done v)\<lparr>v_alarm := Some (now + ucast (currdelta + 1))\<rparr>) = Inr (c, v') \<and>
        v_dlist v' = v_dlist v \<and> v_lasttime v' = v_lasttime v"
      using "1.IH"[OF refl refl _ add] False "1.prems"(1,2) c small
      by (auto simp: chVTGetSystemTimeX_def last_read_def)
    moreover have "first_loop currdelta delay now v =
        first_loop (currdelta + 1) (currdelta + 1) ?n ((read_done v)\<lparr>v_alarm := Some (now + ucast (currdelta + 1))\<rparr>)"
      using False add by (subst first_loop.simps) (simp add: Let_def chVTGetSystemTimeX_def)
    ultimately show ?thesis
      using small(1) by auto
  qed
qed

lemma skip_fault_sel [simp]:
  "v_dlist (vt_skip_fault c v) = v_dlist v" "v_lasttime (vt_skip_fault c v) = v_lasttime v"
  "v_alarm (vt_skip_fault c v) = v_alarm v" "last_read (vt_skip_fault c v) = last_read v"
  "vt_skip_fault ST_TIMEDELTA v = v"
  by (simp_all add: vt_skip_fault_def chRFCUCollectFaultsI_def last_read_def)

lemma vt_set_alarm_ok:
  assumes "\<forall>i. unat (v_clock v (Suc i) - v_clock v i) < B" "B \<le> 65535" "now = last_read v" "0 < v_reads v"
  shows "\<exists>v'. vt_set_alarm now delay v = Inr v' \<and> v_dlist v' = v_dlist v \<and> v_lasttime v' = v_lasttime v \<and>
    (\<exists>a. v_alarm v' = Some a \<and> 0 < a - last_read v') \<and> (B \<le> 2 \<longrightarrow> v_alarm v' = Some (now + ucast (vt_clamp delay)))"
proof -
  have "unat ST_TIMEDELTA \<le> unat (vt_clamp delay)" "unat (vt_clamp delay) \<le> 65535"
    using unat_vt_clamp[of delay] by (simp_all add: ST_TIMEDELTA_def)
  from alarm_loop_ok[OF assms this] unat_vt_clamp(1)[of delay] show ?thesis
    by (fastforce simp: vt_set_alarm_def)
qed

lemma vt_insert_first_ok:
  assumes "\<forall>i. unat (v_clock v (Suc i) - v_clock v i) < B" "B \<le> 65535" "now = last_read v" "0 < v_reads v"
    "v_dlist v = []"
  shows "\<exists>v'. vt_insert_first t now delay v = Inr v' \<and> v_dlist v' = [(t, delay)] \<and> v_lasttime v' = now \<and>
    (B \<le> 2 \<longrightarrow> v_alarm v' = Some (now + ucast (vt_clamp delay)))"
proof -
  let ?v = "v\<lparr>v_lasttime := now, v_dlist := [(t, delay)], v_alarm := Some (now + ucast (vt_clamp delay))\<rparr>"
  have c: "unat ST_TIMEDELTA \<le> unat (vt_clamp delay)" "unat (vt_clamp delay) \<le> 65535"
    using unat_vt_clamp[of delay] by (simp_all add: ST_TIMEDELTA_def)
  have "\<exists>c v'. first_loop ST_TIMEDELTA (vt_clamp delay) now ?v = Inr (c, v') \<and> v_dlist v' = v_dlist ?v \<and>
      v_lasttime v' = v_lasttime ?v \<and> (B \<le> unat (vt_clamp delay) \<longrightarrow> c = ST_TIMEDELTA \<and> v_alarm v' = v_alarm ?v)"
    using assms(1-4) by (intro first_loop_ok) (simp_all add: last_read_def c)
  then show ?thesis
    using assms(5) chTimeAddX_ok[OF c(2)] unat_vt_clamp(1)[of delay] by (fastforce simp: vt_insert_first_def Let_def)
qed

section \<open>Setting a timer\<close>

lemma unat_plus_u32: "unat a + unat b < 2 ^ 32 \<Longrightarrow> unat (a + b) = unat a + unat b" for a b :: u32
  by (simp add: unat_word_ariths)

lemma vt_enqueue_ok:
  assumes clk: "\<forall>i. unat (v_clock v (Suc i) - v_clock v i) < B" "B \<le> 65535" and t: "t \<notin> fst ` set (v_dlist v)"
    and fits: "v_dlist v \<noteq> [] \<longrightarrow> unat (chVTGetSystemTimeX v - v_lasttime v) + unat delay < 2 ^ 32"
  shows "\<exists>v'. vt_enqueue t delay v = Inr v' \<and>
    v_lasttime v' = (if v_dlist v = [] then chVTGetSystemTimeX v else v_lasttime v) \<and>
    offsets 0 (v_dlist v') = place t (unat (chVTGetSystemTimeX v - v_lasttime v') + unat delay) (offsets 0 (v_dlist v))"
proof (cases "v_dlist v = []")
  case True
  then show ?thesis
    using vt_insert_first_ok[of "read_done v" B "chVTGetSystemTimeX v" t delay] clk
    by (auto simp: vt_enqueue_def last_read_def chVTGetSystemTimeX_def place_def)
next
  case False
  let ?now = "chVTGetSystemTimeX v"
  let ?n = "chTimeDiffX (v_lasttime v) ?now"
  let ?d = "?n + delay"
  have d: "unat ?d = unat (?now - v_lasttime v) + unat delay" "\<not> ?d < ?n"
    using unat_plus_u32[of ?n delay] fits False by (simp_all add: word_less_nat_alt)
  have "\<exists>v1. (if ?d < first_delta (v_dlist v) then vt_set_alarm ?now delay (read_done v) else Inr (read_done v)) = Inr v1 \<and>
      v_dlist v1 = v_dlist v \<and> v_lasttime v1 = v_lasttime v"
    using vt_set_alarm_ok[of "read_done v" B ?now delay] clk by (auto simp: last_read_def chVTGetSystemTimeX_def)
  moreover obtain dl where "ch_dlist_insert t ?d (v_dlist v) = Inr dl"
      "offsets 0 dl = place t (unat ?d) (offsets 0 (v_dlist v))"
    using ch_dlist_insert_offsets[OF t, of ?d 0] by auto
  ultimately show ?thesis
    using False d by (auto simp: vt_enqueue_def Let_def)
qed

text \<open>The remaining time of an armed timer is its deadline minus the elapsed time.\<close>

lemma remaining_loop_ok:
  assumes "(t, x) \<in> set (offsets (unat delta) dl)" "distinct (map fst dl)" "\<forall>(u, y) \<in> set (offsets (unat delta) dl). y < 2 ^ 32"
  shows "\<exists>r. remaining_loop t delta dl = Inr r \<and> unat r = x"
  using assms
proof (induction t delta dl rule: remaining_loop.induct)
  case (2 t delta u d dl)
  have s: "unat (delta + d) = unat delta + unat d"
    using "2.prems"(3) by (intro unat_plus_u32) simp
  show ?case
  proof (cases "u = t")
    case True
    then have "(t, x) \<notin> set (offsets (unat delta + unat d) dl)"
      using "2.prems"(2) offsets_mem by fastforce
    then show ?thesis using True s "2.prems"(1) by simp
  next
    case False
    then show ?thesis using "2.IH" "2.prems" s by simp
  qed
qed simp

lemma chVTGetRemainingIntervalI_ok:
  assumes "vt_ok v" "(t, x) \<in> set (offsets 0 (v_dlist v))"
  shows "\<exists>r. chVTGetRemainingIntervalI t v = Inr (r, read_done v) \<and>
    unat r = x - unat (chVTGetSystemTimeX v - v_lasttime v)"
proof -
  obtain d where d: "remaining_loop t 0 (v_dlist v) = Inr d" "unat d = x"
    using remaining_loop_ok[of t x 0 "v_dlist v"] assms by (auto simp: vt_ok_def)
  let ?n = "chTimeDiffX (v_lasttime v) (chVTGetSystemTimeX v)"
  show ?thesis
  proof (cases "?n > d")
    case True
    then show ?thesis using d by (simp add: chVTGetRemainingIntervalI_def word_less_nat_alt)
  next
    case False
    then have "unat (d - ?n) = unat d - unat ?n"
      by (intro unat_sub) (simp add: not_less)
    then show ?thesis using d False by (simp add: chVTGetRemainingIntervalI_def)
  qed
qed

lemma mset_place: "mset (place t x xs) = add_mset (t, x) (mset xs)"
proof -
  let ?P = "\<lambda>(_, y). y < x"
  have "mset (takeWhile ?P xs) + mset (dropWhile ?P xs) = mset xs"
    by (rule mset_while)
  then show ?thesis unfolding place_def by simp
qed

lemma set_place [simp]: "set (place t x xs) = insert (t, x) (set xs)"
  using mset_place[of t x xs] by (metis set_mset_mset set_mset_add_mset_insert)

lemma vt_ok_place:
  assumes "vt_ok v" "t \<notin> fst ` set (v_dlist v)" "x < 2 ^ 32" "offsets 0 (v_dlist v') = place t x (offsets 0 (v_dlist v))"
  shows "vt_ok v'"
proof -
  have "mset (map fst (v_dlist v')) = mset (map fst (place t x (offsets 0 (v_dlist v))))"
    using fst_offsets[of 0 "v_dlist v'"] assms(4) by simp
  also have "\<dots> = add_mset t (mset (map fst (v_dlist v)))"
    using arg_cong[OF mset_place[of t x "offsets 0 (v_dlist v)"], of "image_mset fst"] by (simp flip: mset_map)
  finally have "distinct (map fst (v_dlist v')) \<longleftrightarrow> distinct (t # map fst (v_dlist v))"
    by (intro mset_eq_imp_distinct_iff) simp
  then show ?thesis
    using assms by (auto simp: vt_ok_def)
qed

text \<open>Setting a timer arms it with the requested delay and keeps every other deadline.\<close>

lemma chVTDoSetI_ok:
  assumes ok: "vt_ok v" and clk: "\<forall>i. unat (v_clock v (Suc i) - v_clock v i) < B" "B \<le> 65535"
    and t: "t \<notin> fst ` set (v_dlist v)" and delay: "delay \<noteq> TIME_IMMEDIATE"
    and fits: "v_dlist v \<noteq> [] \<longrightarrow> unat (chVTGetSystemTimeX v - v_lasttime v) + unat delay < 2 ^ 32"
  shows "\<exists>v'. chVTDoSetI t delay f v = Inr v' \<and> vt_ok v' \<and> chVTIsArmedI t v' \<and>
    v_lasttime v' = (if v_dlist v = [] then chVTGetSystemTimeX v else v_lasttime v) \<and>
    offsets 0 (v_dlist v') = place t (unat (chVTGetSystemTimeX v - v_lasttime v') + unat delay) (offsets 0 (v_dlist v))"
proof -
  let ?v = "v\<lparr>v_func := (v_func v)(t := f), v_reload := (v_reload v)(t := 0)\<rparr>"
  have "\<exists>v'. vt_enqueue t delay ?v = Inr v' \<and>
      v_lasttime v' = (if v_dlist ?v = [] then chVTGetSystemTimeX ?v else v_lasttime ?v) \<and>
      offsets 0 (v_dlist v') = place t (unat (chVTGetSystemTimeX ?v - v_lasttime v') + unat delay) (offsets 0 (v_dlist ?v))"
    by (rule vt_enqueue_ok[OF _ clk(2)]) (use clk(1) t fits in \<open>simp_all add: chVTGetSystemTimeX_def\<close>)
  then obtain v' where v': "vt_enqueue t delay ?v = Inr v'"
      "v_lasttime v' = (if v_dlist v = [] then chVTGetSystemTimeX v else v_lasttime v)"
      "offsets 0 (v_dlist v') = place t (unat (chVTGetSystemTimeX v - v_lasttime v') + unat delay) (offsets 0 (v_dlist v))"
    by (auto simp: chVTGetSystemTimeX_def)
  have x: "unat (chVTGetSystemTimeX v - v_lasttime v') + unat delay < 2 ^ 32"
    using v'(2) fits unat_u32[of delay] by (simp split: if_splits)
  have "(t, unat (chVTGetSystemTimeX v - v_lasttime v') + unat delay) \<in> set (offsets 0 (v_dlist v'))"
    unfolding v'(3) by simp
  then have "chVTIsArmedI t v'"
    unfolding chVTIsArmedI_def by (rule offsets_mem)
  then show ?thesis
    using v' vt_ok_place[OF ok t x v'(3)] delay by (simp add: chVTDoSetI_def)
qed

section \<open>The tick handler\<close>

lemma first_delta_le: "\<not> chTimeDiffX a b < first_delta dl \<Longrightarrow> \<exists>t d dl'. dl = (t, d) # dl' \<and> unat d \<le> unat (b - a)"
proof (cases dl)
  case Nil
  assume "\<not> chTimeDiffX a b < first_delta dl"
  moreover have "unat (- 1 :: u32) = 4294967295"
    by (simp add: unsigned_minus_1_eq_mask mask_eq_exp_minus_1)
  ultimately show ?thesis using Nil diff_small[of a b] by (simp add: first_delta_def word_less_nat_alt)
next
  case (Cons e dl')
  assume "\<not> chTimeDiffX a b < first_delta dl"
  with Cons show ?thesis
    by (cases e) (simp add: first_delta_def word_less_nat_alt not_less)
qed

text \<open>
  While the time stands still, the loop triggers the timers whose deadline is not after the
  present, in the order of their deadlines. \<open>b\<close> is the distance the loop has already covered.
\<close>

lemma tick_loop_due:
  assumes clk: "\<forall>i. v_clock v i = now" and call: "\<forall>f t v. call f t v = Inr v"
    and once: "\<forall>t \<in> fst ` set (v_dlist v). v_reload v t = 0" and n: "length (v_dlist v) < n"
    and b: "unat (now - v_lasttime v) + b = E"
  shows "\<exists>b' v'. tick_loop call n fired v =
      Inr (Some (now, chTimeDiffX (v_lasttime v') now), fired @ map fst (takeWhile (\<lambda>(_, x). x \<le> E) (offsets b (v_dlist v))), v') \<and>
    offsets b' (v_dlist v') = dropWhile (\<lambda>(_, x). x \<le> E) (offsets b (v_dlist v)) \<and> unat (now - v_lasttime v') + b' = E \<and>
    v_clock v' = v_clock v \<and> 0 < v_reads v' \<and> chTimeDiffX (v_lasttime v') now < first_delta (v_dlist v') \<and>
    (v_dlist v \<noteq> [] \<longrightarrow> v_dlist v' = [] \<longrightarrow> v_alarm v' = None)"
  using assms
proof (induction "v_dlist v" arbitrary: v n fired b)
  case Nil
  then obtain m where m: "n = Suc m" by (cases n) auto
  have "chTimeDiffX (v_lasttime v) now < first_delta []"
    using first_delta_le[of "v_lasttime v" now "[]"] by auto
  then show ?case
    using Nil m by (auto simp: chVTGetSystemTimeX_def Let_def simp flip: Nil(1) intro!: exI[of _ b])
next
  case (Cons e dl)
  obtain t d where e: "e = (t, d)" by force
  obtain m where m: "n = Suc m" using Cons.prems(4) by (cases n) auto
  let ?nd = "chTimeDiffX (v_lasttime v) now"
  note dl = Cons.hyps(2)[symmetric, unfolded e]
  show ?case
  proof (cases "?nd < d")
    case True
    then show ?thesis
      using Cons.prems(1,5) m dl
      by (auto simp: chVTGetSystemTimeX_def Let_def first_delta_def word_less_nat_alt intro!: exI[of _ b])
  next
    case False
    then have d: "unat d \<le> unat (now - v_lasttime v)" by (simp add: word_less_nat_alt)
    have d16: "unat d \<le> 65535" using d unat_u16[of "now - v_lasttime v"] by simp
    let ?v = "(read_done v)\<lparr>v_lasttime := v_lasttime v + ucast d, v_dlist := dl,
      v_alarm := (if dl = [] then None else v_alarm v)\<rparr>"
    have step: "tick_loop call n fired v = tick_loop call m (fired @ [t]) ?v"
      using False m dl Cons.prems(1-3) chTimeAddX_ok[OF d16, of "v_lasttime v"]
      by (simp add: chVTGetSystemTimeX_def Let_def first_delta_def)
    have "unat ((now - v_lasttime v) - ucast d) = unat (now - v_lasttime v) - unat d"
      using unat_sub[of "ucast d" "now - v_lasttime v"] d by (simp add: word_le_nat_alt unat_ucast16[OF d16])
    then have b: "unat (now - v_lasttime ?v) + (b + unat d) = E"
      using d Cons.prems(5) by (simp add: diff_diff_eq)
    have ih: "\<exists>b' v'. tick_loop call m (fired @ [t]) ?v =
      Inr (Some (now, chTimeDiffX (v_lasttime v') now), (fired @ [t]) @ map fst (takeWhile (\<lambda>(_, x). x \<le> E) (offsets (b + unat d) (v_dlist ?v))), v') \<and>
      offsets b' (v_dlist v') = dropWhile (\<lambda>(_, x). x \<le> E) (offsets (b + unat d) (v_dlist ?v)) \<and> unat (now - v_lasttime v') + b' = E \<and>
      v_clock v' = v_clock ?v \<and> 0 < v_reads v' \<and> chTimeDiffX (v_lasttime v') now < first_delta (v_dlist v') \<and>
      (v_dlist ?v \<noteq> [] \<longrightarrow> v_dlist v' = [] \<longrightarrow> v_alarm v' = None)"
      using Cons.prems(1-4) dl m b by (intro Cons.hyps(1)) simp_all
    have alarm: "v_alarm v' = None" if "tick_loop call m (fired @ [t]) ?v = Inr (r, x, v')" "dl = []" for r x v'
      using that Cons.prems(1) first_delta_le[of "v_lasttime v + ucast d" now "[]"] Cons.prems(4) m dl
      by (cases m) (auto simp: Let_def chVTGetSystemTimeX_def split: if_splits)
    have "b + unat d \<le> E" using d Cons.prems(5) by simp
    with ih alarm show ?thesis
      unfolding step dl by auto
  qed
qed

lemma advance_to_now: "l + ucast (chTimeDiffX l now) = now"
  by (simp add: chTimeDiffX_def unsigned_ucast_eq take_bit_word_beyond_length_eq)

lemma chVTDoTickI_ok:
  assumes "\<forall>i. v_clock v i = now" "\<forall>f t v. call f t v = Inr v"
    "\<forall>t \<in> fst ` set (v_dlist v). v_reload v t = 0" "length (v_dlist v) < n" "v_dlist v \<noteq> []"
    and E: "E = unat (now - v_lasttime v)"
  shows "\<exists>v'. chVTDoTickI call n v = Inr (map fst (takeWhile (\<lambda>(_, x). x \<le> E) (offsets 0 (v_dlist v))), v') \<and>
    offsets 0 (v_dlist v') = map (\<lambda>(t, x). (t, x - E)) (dropWhile (\<lambda>(_, x). x \<le> E) (offsets 0 (v_dlist v))) \<and>
    (if v_dlist v' = [] then v_alarm v' = None
     else v_lasttime v' = now \<and> v_alarm v' = Some (now + ucast (vt_clamp (first_delta (v_dlist v')))))"
proof -
  let ?D = "offsets 0 (v_dlist v)" and ?due = "\<lambda>(_, x). x \<le> E"
  obtain b v1 where v1: "tick_loop call n [] v =
        Inr (Some (now, chTimeDiffX (v_lasttime v1) now), map fst (takeWhile ?due ?D), v1)"
      "offsets b (v_dlist v1) = dropWhile ?due ?D" "unat (now - v_lasttime v1) + b = E" "v_clock v1 = v_clock v"
      "0 < v_reads v1" "chTimeDiffX (v_lasttime v1) now < first_delta (v_dlist v1)"
      "v_dlist v1 = [] \<longrightarrow> v_alarm v1 = None"
    using tick_loop_due[OF assms(1-4), of 0 E "[]"] E assms(5) by auto
  show ?thesis
  proof (cases "v_dlist v1")
    case Nil
    then have "dropWhile ?due ?D = []" using v1(2) by simp
    then show ?thesis using Nil v1(1,7) by (simp add: chVTDoTickI_def)
  next
    case (Cons e dl)
    obtain t d where e: "e = (t, d)" by force
    let ?nd = "chTimeDiffX (v_lasttime v1) now"
    let ?v = "v1\<lparr>v_lasttime := now, v_dlist := (t, d - ?nd) # dl\<rparr>"
    have lt: "?nd < d" using v1(6) Cons e by (simp add: first_delta_def)
    then have d: "unat (d - ?nd) = unat d - unat (now - v_lasttime v1)" "unat (now - v_lasttime v1) < unat d"
      using unat_sub[OF order.strict_implies_order[OF lt]] by (simp_all add: word_less_nat_alt)
    have "\<exists>v'. vt_set_alarm now (d - ?nd) ?v = Inr v' \<and> v_dlist v' = v_dlist ?v \<and> v_lasttime v' = v_lasttime ?v \<and>
        (\<exists>a. v_alarm v' = Some a \<and> 0 < a - last_read v') \<and> ((1 :: nat) \<le> 2 \<longrightarrow> v_alarm v' = Some (now + ucast (vt_clamp (d - ?nd))))"
      using assms(1) v1(4,5) by (intro vt_set_alarm_ok) (simp_all add: last_read_def)
    then obtain v' where v': "vt_set_alarm now (d - ?nd) ?v = Inr v'" "v_dlist v' = (t, d - ?nd) # dl" "v_lasttime v' = now"
        "v_alarm v' = Some (now + ucast (vt_clamp (d - ?nd)))"
      by auto
    have "chVTDoTickI call n v = Inr (map fst (takeWhile ?due ?D), v')"
      using v1(1) v'(1) Cons e by (simp add: chVTDoTickI_def advance_to_now)
    moreover have "offsets 0 (v_dlist v') = map (\<lambda>(t, x). (t, x - E)) (dropWhile ?due ?D)"
    proof -
      have "b + unat d = unat (d - ?nd) + E"
        using d v1(3) by simp
      then have "dropWhile ?due ?D = (t, unat (d - ?nd) + E) # map (\<lambda>(t, x). (t, x + E)) (offsets (unat (d - ?nd)) dl)"
        using offsets_shift[of "unat (d - ?nd)" E dl] v1(2) Cons e by simp
      then show ?thesis
        by (simp add: v'(2) case_prod_unfold comp_def)
    qed
    ultimately show ?thesis
      using v'(2-4) by (simp add: first_delta_def)
  qed
qed

text \<open>Resetting an armed timer removes its deadline and no other.\<close>

lemma chVTDoResetI_ok:
  assumes ok: "vt_ok v" and clk: "\<forall>i. unat (v_clock v (Suc i) - v_clock v i) < B" "B \<le> 65535" and t: "chVTIsArmedI t v"
  shows "\<exists>v'. chVTDoResetI t v = Inr v' \<and> v_lasttime v' = v_lasttime v \<and> \<not> chVTIsArmedI t v' \<and>
    offsets 0 (v_dlist v') = filter (\<lambda>(u, _). u \<noteq> t) (offsets 0 (v_dlist v))"
proof -
  let ?dl = "dlist_unlink t (v_dlist v)"
  have off: "offsets 0 ?dl = filter (\<lambda>(u, _). u \<noteq> t) (offsets 0 (v_dlist v))"
    using ok by (intro dlist_unlink_offsets) (simp_all add: vt_ok_def)
  have notin: "t \<notin> fst ` set ?dl"
  proof -
    have "fst ` set ?dl = fst ` set (offsets 0 ?dl)"
      by (metis fst_offsets set_map)
    then show ?thesis unfolding off by auto
  qed
  have "\<exists>v'. chVTDoResetI t v = Inr v' \<and> v_lasttime v' = v_lasttime v \<and> v_dlist v' = ?dl"
  proof (cases "fst (hd (v_dlist v)) = t")
    case False
    then show ?thesis using t by (simp add: chVTDoResetI_def)
  next
    case True
    then obtain d dl where dl: "v_dlist v = (t, d) # dl"
      using t by (cases "v_dlist v") (auto simp: chVTIsArmedI_def)
    let ?v = "read_done (v\<lparr>v_dlist := add_delta d dl\<rparr>)"
    have "\<exists>v'. vt_set_alarm (chVTGetSystemTimeX v) x ?v = Inr v' \<and> v_dlist v' = add_delta d dl \<and> v_lasttime v' = v_lasttime v" for x
      using vt_set_alarm_ok[of ?v B "chVTGetSystemTimeX v" x] clk
      by (auto simp: last_read_def chVTGetSystemTimeX_def)
    then show ?thesis
      using t True dl
      by (cases dl) (auto simp: chVTDoResetI_def Let_def first_delta_def chVTGetSystemTimeX_def add_delta_def[of _ "[]"])
  qed
  then show ?thesis using off notin by (auto simp: chVTIsArmedI_def)
qed

section \<open>Conversions\<close>

lemma conv_ok: "ok \<Longrightarrow> conv ok x = Inr (ucast x)"
  by (simp add: conv_def)

lemma unat_u64_ms: "unat (ucast ms * ST_FREQUENCY + 999 :: u64) = unat ms * 10000 + 999" for ms :: u32
  using unat_u32[of ms]
  by (simp add: unat_word_ariths ST_FREQUENCY_def unsigned_ucast_eq take_bit_nat_eq_self)

end
