(* ===== verification/Ch_Thd.thy ===== *)
theory Ch_Thd
  imports Ch_Mtx Ch_Vt
begin

text \<open>
  Threads: the parts of \<^verbatim>\<open>chthreads.c\<close> and \<^verbatim>\<open>chthreads.h\<close> that start, suspend, resume and queue
  threads. A working area names the thread in it. A call that puts its caller to sleep
  returns \<open>None\<close> as its message; what it returns later is what \<open>rdymsg\<close> or
  \<open>chSchGoSleepTimeoutS_resume\<close> reads.
\<close>

section \<open>Operations\<close>

text \<open>
  The fields of a new thread that the kernel's model has; name, flags, references and the list of
  threads waiting for its end are in the record \<open>thd_life\<close> of \<open>Ch_Reg\<close>. Of the checks of \<open>chThdCreateStatic\<close> the one on the
  priority remains, and the one that the working area is not in use; the context and the
  stack of the thread are below the model.
\<close>

definition thd_object_init :: "tid \<Rightarrow> nat \<Rightarrow> kernel_t \<Rightarrow> kernel_t" where
  "thd_object_init t p k =
     k\<lparr>k_tids := k_tids k @ [t],
       k_thr := (k_thr k)(t := \<lparr>t_prio = p, t_realprio = p, t_state = CH_STATE_WTSTART, t_u = t_u (k_thr k t),
         t_mtxlist = [], t_epending = 0, t_msgqueue = []\<rparr>)\<rparr>"

definition chThdCreateStatic :: "tid \<Rightarrow> nat \<Rightarrow> kernel_t \<Rightarrow> kernel_t result" where
  "chThdCreateStatic t p k =
     bindE (assertE (p \<le> HIGHPRIO) (Halted ''chThdCreateStatic'')) (\<lambda>_.
     bindE (assertE (t \<notin> set (k_tids k)) (Halted ''working area in use'')) (\<lambda>_.
     chSchWakeupS t MSG_OK (thd_object_init t p k)))"

definition chThdStart :: "tid \<Rightarrow> kernel_t \<Rightarrow> kernel_t result" where
  "chThdStart t k =
     bindE (assertE (tstate k t = CH_STATE_WTSTART) (Halted ''wrong state'')) (\<lambda>_. chSchWakeupS t MSG_OK k)"

definition chThdStartI :: "tid \<Rightarrow> kernel_t \<Rightarrow> kernel_t result" where
  "chThdStartI t k =
     bindE (assertE (tstate k t = CH_STATE_WTSTART) (Halted ''wrong state'')) (\<lambda>_. chSchReadyI t k)"

definition chThdSetPriority :: "nat \<Rightarrow> kernel_t \<Rightarrow> (nat \<times> kernel_t) result" where
  "chThdSetPriority newprio k =
     bindE (assertE (newprio \<le> HIGHPRIO) (Halted ''chThdSetPriority'')) (\<lambda>_.
     let c = k_cur k; oldprio = t_realprio (k_thr k c);
         k = (if prio k c = t_realprio (k_thr k c) \<or> newprio > prio k c then set_prio c newprio k else k);
         k = upd_thr c (\<lambda>th. th\<lparr>t_realprio := newprio\<rparr>) k
     in bindE (chSchRescheduleS k) (\<lambda>k. Inr (oldprio, k)))"

definition chThdYield :: "kernel_t \<Rightarrow> kernel_t result" where
  "chThdYield k = chSchDoYieldS k"

definition chThdSleepS :: "sysinterval_t \<Rightarrow> kernel_t \<Rightarrow> kernel_t result" where
  "chThdSleepS ticks k =
     bindE (assertE (ticks \<noteq> TIME_IMMEDIATE) (Halted ''chThdSleepS'')) (\<lambda>_.
     chSchGoSleepTimeoutS CH_STATE_SLEEPING ticks k)"

definition chThdSleep :: "sysinterval_t \<Rightarrow> kernel_t \<Rightarrow> kernel_t result" where
  "chThdSleep time k = chThdSleepS time k"

definition chThdSleepUntil :: "systime_t \<Rightarrow> systime_t \<Rightarrow> kernel_t \<Rightarrow> kernel_t result" where
  "chThdSleepUntil now time k =
     (let interval = chTimeDiffX now time in
      if interval > 0 then chThdSleepS interval k else Inr k)"

definition chThdSleepUntilWindowed :: "systime_t \<Rightarrow> systime_t \<Rightarrow> systime_t \<Rightarrow> kernel_t \<Rightarrow> (systime_t \<times> kernel_t) result" where
  "chThdSleepUntilWindowed now prev next k =
     bindE (if chTimeIsInRangeX now prev next then chThdSleepS (chTimeDiffX now next) k else Inr k) (\<lambda>k.
     Inr (next, k))"

definition suspend_on :: "nat \<Rightarrow> kernel_t \<Rightarrow> kernel_t" where
  "suspend_on r k = set_u (k_cur k) (WtRef r) (k\<lparr>k_ref := (k_ref k)(r := Some (k_cur k))\<rparr>)"

definition chThdSuspendS :: "nat \<Rightarrow> kernel_t \<Rightarrow> kernel_t result" where
  "chThdSuspendS r k =
     bindE (assertE (k_ref k r = None) (Halted ''not NULL'')) (\<lambda>_.
     chSchGoSleepS CH_STATE_SUSPENDED (suspend_on r k))"

definition chThdSuspendTimeoutS :: "nat \<Rightarrow> sysinterval_t \<Rightarrow> kernel_t \<Rightarrow> (msg_t option \<times> kernel_t) result" where
  "chThdSuspendTimeoutS r timeout k =
     bindE (assertE (k_ref k r = None) (Halted ''not NULL'')) (\<lambda>_.
     if timeout = TIME_IMMEDIATE then Inr (Some MSG_TIMEOUT, k)
     else bindE (chSchGoSleepTimeoutS CH_STATE_SUSPENDED timeout (suspend_on r k)) (\<lambda>k. Inr (None, k)))"

definition chThdResumeI :: "nat \<Rightarrow> msg_t \<Rightarrow> kernel_t \<Rightarrow> kernel_t result" where
  "chThdResumeI r msg k =
     (case k_ref k r of
        None \<Rightarrow> Inr k
      | Some t \<Rightarrow>
          bindE (assertE (tstate k t = CH_STATE_SUSPENDED) (Halted ''not CH_STATE_SUSPENDED'')) (\<lambda>_.
          chSchReadyI t (set_u t (RdyMsg msg) (k\<lparr>k_ref := (k_ref k)(r := None)\<rparr>))))"

definition chThdResumeS :: "nat \<Rightarrow> msg_t \<Rightarrow> kernel_t \<Rightarrow> kernel_t result" where
  "chThdResumeS r msg k =
     (case k_ref k r of
        None \<Rightarrow> Inr k
      | Some t \<Rightarrow>
          bindE (assertE (tstate k t = CH_STATE_SUSPENDED) (Halted ''not CH_STATE_SUSPENDED'')) (\<lambda>_.
          chSchWakeupS t msg (k\<lparr>k_ref := (k_ref k)(r := None)\<rparr>)))"

definition chThdResume :: "nat \<Rightarrow> msg_t \<Rightarrow> kernel_t \<Rightarrow> kernel_t result" where
  "chThdResume r msg k = chThdResumeS r msg k"

definition set_queue :: "nat \<Rightarrow> tid list \<Rightarrow> kernel_t \<Rightarrow> kernel_t" where
  "set_queue q ts k = k\<lparr>k_queue := (k_queue k)(q := ts)\<rparr>"

definition chThdQueueObjectInit :: "nat \<Rightarrow> kernel_t \<Rightarrow> kernel_t" where
  "chThdQueueObjectInit q k = set_queue q [] k"

definition chThdQueueIsEmptyI :: "nat \<Rightarrow> kernel_t \<Rightarrow> bool" where
  "chThdQueueIsEmptyI q k \<longleftrightarrow> k_queue k q = []"

definition chThdEnqueueTimeoutS :: "nat \<Rightarrow> sysinterval_t \<Rightarrow> kernel_t \<Rightarrow> (msg_t option \<times> kernel_t) result" where
  "chThdEnqueueTimeoutS q timeout k =
     (if timeout = TIME_IMMEDIATE then Inr (Some MSG_TIMEOUT, k)
      else bindE (chSchGoSleepTimeoutS CH_STATE_QUEUED timeout (set_queue q (k_queue k q @ [k_cur k]) k))
             (\<lambda>k. Inr (None, k)))"

definition chThdDoDequeueNextI :: "nat \<Rightarrow> msg_t \<Rightarrow> kernel_t \<Rightarrow> kernel_t result" where
  "chThdDoDequeueNextI q msg k =
     (case k_queue k q of
        [] \<Rightarrow> Inl (Halted ''empty queue'')
      | t # ts \<Rightarrow>
          let k = set_queue q ts k in
          bindE (assertE (tstate k t = CH_STATE_QUEUED) (Halted ''invalid state'')) (\<lambda>_.
          chSchReadyI t (set_u t (RdyMsg msg) k)))"

definition chThdDequeueNextI :: "nat \<Rightarrow> msg_t \<Rightarrow> kernel_t \<Rightarrow> kernel_t result" where
  "chThdDequeueNextI q msg k = (if k_queue k q \<noteq> [] then chThdDoDequeueNextI q msg k else Inr k)"

text \<open>Each round of the loop takes one thread out of the queue.\<close>

definition chThdDequeueAllI :: "nat \<Rightarrow> msg_t \<Rightarrow> kernel_t \<Rightarrow> kernel_t result" where
  "chThdDequeueAllI q msg k = foldE (\<lambda>_. chThdDoDequeueNextI q msg) (k_queue k q) k"

section \<open>Invariant\<close>

text \<open>
  A thread reference holds the thread suspended on it, a threads queue the threads queued in
  it, and no thread is in two places.
\<close>

definition refs_ok :: "kernel_t \<Rightarrow> bool" where
  "refs_ok k \<longleftrightarrow> (\<forall>r t. k_ref k r = Some t \<longleftrightarrow>
     t \<in> set (k_tids k) \<and> tstate k t = CH_STATE_SUSPENDED \<and> t_u (k_thr k t) = WtRef r)"

definition queues_ok :: "kernel_t \<Rightarrow> bool" where
  "queues_ok k \<longleftrightarrow> (\<forall>q. distinct (k_queue k q)) \<and>
     (\<forall>q t. t \<in> set (k_queue k q) \<longrightarrow> t \<in> set (k_tids k) \<and> tstate k t = CH_STATE_QUEUED) \<and>
     (\<forall>q q' t. t \<in> set (k_queue k q) \<longrightarrow> t \<in> set (k_queue k q') \<longrightarrow> q = q')"

definition thd_inv :: "kernel_t \<Rightarrow> bool" where
  "thd_inv k \<longleftrightarrow> sys_inv k \<and> refs_ok k \<and> queues_ok k"

lemma thd_invD:
  assumes "thd_inv k"
  shows "sys_inv k" "sched_inv k" "tstate k (k_cur k) = CH_STATE_CURRENT" "k_cur k \<in> set (k_tids k)" "refs_ok k" "queues_ok k"
  using assms by (simp_all add: thd_inv_def sys_inv_def sched_inv_def)

lemma set_queue_sel [simp]:
  "k_tids (set_queue q ts k) = k_tids k" "k_thr (set_queue q ts k) = k_thr k" "k_cur (set_queue q ts k) = k_cur k"
  "k_ready (set_queue q ts k) = k_ready k" "k_idle (set_queue q ts k) = k_idle k" "k_cond (set_queue q ts k) = k_cond k"
  "k_mtx (set_queue q ts k) = k_mtx k" "k_ref (set_queue q ts k) = k_ref k" "k_sem (set_queue q ts k) = k_sem k"
  "k_timer (set_queue q ts k) = k_timer k"
  "k_queue (set_queue q ts k) q' = (if q' = q then ts else k_queue k q')"
  by (simp_all add: set_queue_def)

text \<open>Taking a queued thread out and making it ready.\<close>

lemma chThdDoDequeueNextI_ok:
  assumes inv: "thd_inv k" and q: "k_queue k q = t # ts"
  shows "\<exists>k'. chThdDoDequeueNextI q msg k = Inr k' \<and> thd_inv k' \<and> k_cur k' = k_cur k \<and>
    (\<forall>q'. k_queue k' q' = (if q' = q then ts else k_queue k q')) \<and> tstate k' t = CH_STATE_READY \<and> rdymsg t k' = Inr msg \<and>
    (\<forall>u. u \<noteq> t \<longrightarrow> k_thr k' u = k_thr k u)"
proof -
  let ?k = "set_u t (RdyMsg msg) (set_queue q ts k)"
  note d = thd_invD[OF inv]
  have t: "t \<in> set (k_tids k)" "tstate k t = CH_STATE_QUEUED"
    using d(6) q unfolding queues_ok_def by (metis list.set_intros(1))+
  have notin: "t \<notin> set ts" "t \<notin> set (k_queue k q')" if "q' \<noteq> q" for q'
    using d(6) q that unfolding queues_ok_def by (metis distinct.simps(2), metis list.set_intros(1))
  have nts: "t \<notin> set ts" using d(6) q unfolding queues_ok_def by (metis distinct.simps(2))
  have fr: "obj_frame k ?k" using t by (simp add: obj_frame_def)
  obtain k' where k': "chSchReadyI t ?k = Inr k'" "sys_inv k'" "sched_frame ?k k'" "k_cur k' = k_cur ?k"
      "k_thr k' = (k_thr ?k)(t := (k_thr ?k t)\<lparr>t_state := CH_STATE_READY\<rparr>)"
    using ready_elsewhere[OF obj_frame_sys_inv[OF fr d(1)], of t] t by auto
  have f: "k_tids k' = k_tids k" "k_ref k' = k_ref k" "k_queue k' = k_queue ?k"
    using k'(3) by (simp_all add: sched_frame_def)
  have other: "k_thr k' u = k_thr k u" if "u \<noteq> t" for u
    using that by (simp add: k'(5) kernel_upd)
  have tt: "tstate k' t = CH_STATE_READY" "t_u (k_thr k' t) = RdyMsg msg"
    by (simp_all add: k'(5))
  have "refs_ok k'"
    unfolding refs_ok_def f
  proof (intro allI)
    fix r u
    show "k_ref k r = Some u \<longleftrightarrow> u \<in> set (k_tids k) \<and> tstate k' u = CH_STATE_SUSPENDED \<and> t_u (k_thr k' u) = WtRef r"
      using d(5) t other[of u] tt unfolding refs_ok_def by (cases "u = t") auto
  qed
  moreover have "queues_ok k'"
    unfolding queues_ok_def f
  proof (intro conjI allI impI)
    fix q'
    show "distinct (k_queue ?k q')"
      using d(6) q unfolding queues_ok_def by (metis distinct.simps(2) set_queue_sel(11) set_u_sel(9))
    fix u assume u: "u \<in> set (k_queue ?k q')"
    then have u': "u \<in> set (k_queue k q')" "u \<noteq> t" using q nts notin by (auto split: if_splits)
    then show "u \<in> set (k_tids k)" "tstate k' u = CH_STATE_QUEUED"
      using d(6) other[of u] unfolding queues_ok_def by auto
    fix q'' assume "u \<in> set (k_queue ?k q'')"
    then have "u \<in> set (k_queue k q'')" using q by (auto split: if_splits)
    with u'(1) show "q' = q''" using d(6) unfolding queues_ok_def by blast
  qed
  ultimately show ?thesis
    using k'(1,2,4) q t tt other f(3)
    by (simp add: chThdDoDequeueNextI_def thd_inv_def rdymsg_def)
qed

lemma chThdDequeueAllI_ok:
  assumes "thd_inv k"
  shows "\<exists>k'. chThdDequeueAllI q msg k = Inr k' \<and> thd_inv k' \<and> k_cur k' = k_cur k \<and>
    (\<forall>q'. k_queue k' q' = (if q' = q then [] else k_queue k q')) \<and>
    (\<forall>t \<in> set (k_queue k q). tstate k' t = CH_STATE_READY \<and> rdymsg t k' = Inr msg) \<and>
    (\<forall>t. t \<notin> set (k_queue k q) \<longrightarrow> k_thr k' t = k_thr k t)"
  unfolding chThdDequeueAllI_def using assms
proof (induction "k_queue k q" arbitrary: k)
  case Nil
  then show ?case by (auto simp flip: Nil(1))
next
  case (Cons t ts)
  obtain k1 where k1: "chThdDoDequeueNextI q msg k = Inr k1" "thd_inv k1" "k_cur k1 = k_cur k"
      "\<forall>q'. k_queue k1 q' = (if q' = q then ts else k_queue k q')" "tstate k1 t = CH_STATE_READY" "rdymsg t k1 = Inr msg"
      "\<forall>u. u \<noteq> t \<longrightarrow> k_thr k1 u = k_thr k u"
    using chThdDoDequeueNextI_ok[OF Cons.prems Cons.hyps(2)[symmetric], of msg] by blast
  have ts: "ts = k_queue k1 q" using k1(4) by simp
  obtain k' where k': "foldE (\<lambda>_. chThdDoDequeueNextI q msg) ts k1 = Inr k'" "thd_inv k'" "k_cur k' = k_cur k1"
      "\<forall>q'. k_queue k' q' = (if q' = q then [] else k_queue k1 q')"
      "\<forall>t \<in> set ts. tstate k' t = CH_STATE_READY \<and> rdymsg t k' = Inr msg"
      "\<forall>t. t \<notin> set ts \<longrightarrow> k_thr k' t = k_thr k1 t"
    using Cons.hyps(1)[OF ts k1(2)] unfolding ts[symmetric] by blast
  have "t \<notin> set ts"
    using thd_invD(6)[OF Cons.prems] Cons.hyps(2) unfolding queues_ok_def by (metis distinct.simps(2))
  then have "tstate k' t = CH_STATE_READY \<and> rdymsg t k' = Inr msg"
    using k1(5,6) k'(6) by (simp add: rdymsg_def)
  with k1 k' show ?case
    by (simp flip: Cons.hyps(2))
qed

text \<open>Sleeping on an object of this component.\<close>

definition armed :: "sysinterval_t \<Rightarrow> kernel_t \<Rightarrow> kernel_t" where
  "armed timeout k =
     (if timeout = TIME_INFINITE then k else k\<lparr>k_timer := (k_timer k)(k_cur k := Some timeout)\<rparr>)"

lemma armed_sel [simp]:
  "k_tids (armed timeout k) = k_tids k" "k_thr (armed timeout k) = k_thr k" "k_cur (armed timeout k) = k_cur k"
  "k_ready (armed timeout k) = k_ready k" "k_idle (armed timeout k) = k_idle k" "k_cond (armed timeout k) = k_cond k"
  "k_mtx (armed timeout k) = k_mtx k" "k_ref (armed timeout k) = k_ref k" "k_sem (armed timeout k) = k_sem k"
  "k_queue (armed timeout k) = k_queue k"
  by (simp_all add: armed_def)

lemma chSchGoSleepTimeoutS_armed:
  "timeout \<noteq> TIME_IMMEDIATE \<Longrightarrow> chSchGoSleepTimeoutS st timeout k = chSchGoSleepS st (armed timeout k)"
  by (simp add: chSchGoSleepTimeoutS_def armed_def)

lemma thd_sleep:
  assumes inv: "thd_inv k" and idle: "k_cur k \<noteq> k_idle k" and st: "st \<in> {CH_STATE_SUSPENDED, CH_STATE_QUEUED, CH_STATE_SLEEPING}"
    and fr: "obj_frame k k1" and u: "\<forall>t. t \<noteq> k_cur k \<longrightarrow> t_u (k_thr k1 t) = t_u (k_thr k t)"
  shows "\<exists>k'. chSchGoSleepS st k1 = Inr k' \<and> sys_inv k' \<and> sched_ok k' \<and> k_tids k' = k_tids k \<and> k_ref k' = k_ref k1 \<and>
    k_queue k' = k_queue k1 \<and> k_timer k' = k_timer k1 \<and> tstate k' (k_cur k) = st \<and>
    t_u (k_thr k' (k_cur k)) = t_u (k_thr k1 (k_cur k)) \<and>
    (\<forall>t. t \<noteq> k_cur k \<longrightarrow> t_u (k_thr k' t) = t_u (k_thr k t) \<and>
      (tstate k' t = CH_STATE_SUSPENDED \<longleftrightarrow> tstate k t = CH_STATE_SUSPENDED) \<and>
      (tstate k' t = CH_STATE_QUEUED \<longleftrightarrow> tstate k t = CH_STATE_QUEUED))"
proof -
  have c: "k_cur k1 = k_cur k" "k_idle k1 = k_idle k" "k_tids k1 = k_tids k" "tstate k1 t = tstate k t" for t
    using fr by (simp_all add: obj_frame_def)
  have st': "st \<notin> {CH_STATE_READY, CH_STATE_CURRENT, CH_STATE_WTMTX, CH_STATE_WTCOND}"
    using st by auto
  obtain k' where k': "chSchGoSleepS st k1 = Inr k'" "sys_inv k'" "sched_ok k'" "sched_frame k1 k'"
      "tstate k' (k_cur k) = st" "t_u (k_thr k' (k_cur k)) = t_u (k_thr k1 (k_cur k))"
      "\<forall>t. t \<noteq> k_cur k \<longrightarrow> t_u (k_thr k' t) = t_u (k_thr k1 t) \<and>
         (tstate k' t = tstate k1 t \<or> (tstate k1 t = CH_STATE_READY \<and> tstate k' t = CH_STATE_CURRENT))"
      "k_timer k' = k_timer k1"
    using sleep_elsewhere[OF obj_frame_sys_inv[OF fr thd_invD(1)[OF inv]] _ st'] idle unfolding c by auto
  have "\<forall>t. t \<noteq> k_cur k \<longrightarrow> t_u (k_thr k' t) = t_u (k_thr k t) \<and>
      (tstate k' t = CH_STATE_SUSPENDED \<longleftrightarrow> tstate k t = CH_STATE_SUSPENDED) \<and>
      (tstate k' t = CH_STATE_QUEUED \<longleftrightarrow> tstate k t = CH_STATE_QUEUED)"
    using k'(7) u c(4) by auto
  then show ?thesis
    using k'(1-6,8) c(3) by (intro exI[of _ k']) (simp add: sched_frame_def)
qed

lemma chThdEnqueueTimeoutS_ok:
  assumes inv: "thd_inv k" and idle: "k_cur k \<noteq> k_idle k" and timeout: "timeout \<noteq> TIME_IMMEDIATE"
  shows "\<exists>k'. chThdEnqueueTimeoutS q timeout k = Inr (None, k') \<and> thd_inv k' \<and> sched_ok k' \<and>
    tstate k' (k_cur k) = CH_STATE_QUEUED \<and>
    (\<forall>q'. k_queue k' q' = (if q' = q then k_queue k q @ [k_cur k] else k_queue k q')) \<and>
    (timeout \<noteq> TIME_INFINITE \<longrightarrow> k_timer k' (k_cur k) = Some timeout)"
proof -
  let ?k = "armed timeout (set_queue q (k_queue k q @ [k_cur k]) k)"
  note d = thd_invD[OF inv]
  have fr: "obj_frame k ?k" by (simp add: obj_frame_def)
  obtain k' where k': "chSchGoSleepS CH_STATE_QUEUED ?k = Inr k'" "sys_inv k'" "sched_ok k'" "k_tids k' = k_tids k"
      "k_ref k' = k_ref k" "k_queue k' = k_queue ?k" "k_timer k' = k_timer ?k" "tstate k' (k_cur k) = CH_STATE_QUEUED"
      "\<forall>t. t \<noteq> k_cur k \<longrightarrow> t_u (k_thr k' t) = t_u (k_thr k t) \<and>
        (tstate k' t = CH_STATE_SUSPENDED \<longleftrightarrow> tstate k t = CH_STATE_SUSPENDED) \<and>
        (tstate k' t = CH_STATE_QUEUED \<longleftrightarrow> tstate k t = CH_STATE_QUEUED)"
    using thd_sleep[OF inv idle _ fr, of CH_STATE_QUEUED] by auto
  have cq: "k_cur k \<notin> set (k_queue k q')" for q'
  proof
    assume "k_cur k \<in> set (k_queue k q')"
    then have "tstate k (k_cur k) = CH_STATE_QUEUED" using d(6) unfolding queues_ok_def by blast
    then show False using d(3) by simp
  qed
  have "refs_ok k'"
    unfolding refs_ok_def k'(4,5)
  proof (intro allI)
    fix r u
    show "k_ref k r = Some u \<longleftrightarrow> u \<in> set (k_tids k) \<and> tstate k' u = CH_STATE_SUSPENDED \<and> t_u (k_thr k' u) = WtRef r"
      using d(3,5) k'(8) k'(9)[THEN spec, of u] unfolding refs_ok_def by (cases "u = k_cur k") auto
  qed
  moreover have "queues_ok k'"
    unfolding queues_ok_def k'(4,6)
  proof (intro conjI allI impI)
    fix q'
    have "distinct (k_queue k q')" "distinct (k_queue k q)" using d(6) by (simp_all add: queues_ok_def)
    then show "distinct (k_queue ?k q')"
      using cq by simp
    fix u assume u: "u \<in> set (k_queue ?k q')"
    then have u': "u \<in> set (k_queue k q') \<or> u = k_cur k \<and> q' = q" by (simp split: if_splits) blast
    then show "u \<in> set (k_tids k)"
      using d(4,6) unfolding queues_ok_def by blast
    show "tstate k' u = CH_STATE_QUEUED"
      using u' k'(8) k'(9)[THEN spec, of u] d(6) unfolding queues_ok_def by (cases "u = k_cur k") auto
    fix q'' assume "u \<in> set (k_queue ?k q'')"
    then have "u \<in> set (k_queue k q'') \<or> u = k_cur k \<and> q'' = q" by (simp split: if_splits) blast
    with u' cq show "q' = q''" using d(6) unfolding queues_ok_def by blast
  qed
  moreover have "timeout \<noteq> TIME_INFINITE \<longrightarrow> k_timer k' (k_cur k) = Some timeout"
    by (simp add: k'(7) armed_def)
  ultimately show ?thesis
    using k'(1-3,6,8) timeout by (simp add: chThdEnqueueTimeoutS_def chSchGoSleepTimeoutS_armed thd_inv_def)
qed

lemma chThdSuspendS_ok:
  assumes inv: "thd_inv k" and idle: "k_cur k \<noteq> k_idle k" and r: "k_ref k r = None"
  shows "\<exists>k'. chThdSuspendS r k = Inr k' \<and> thd_inv k' \<and> sched_ok k' \<and> k_ref k' r = Some (k_cur k) \<and>
    tstate k' (k_cur k) = CH_STATE_SUSPENDED"
proof -
  let ?k = "suspend_on r k"
  note d = thd_invD[OF inv]
  have fr: "obj_frame k ?k" "\<forall>t. t \<noteq> k_cur k \<longrightarrow> t_u (k_thr ?k t) = t_u (k_thr k t)" "t_u (k_thr ?k (k_cur k)) = WtRef r"
      "k_ref ?k = (k_ref k)(r := Some (k_cur k))" "k_queue ?k = k_queue k"
    using d(3) by (simp_all add: obj_frame_def suspend_on_def)
  obtain k' where k': "chSchGoSleepS CH_STATE_SUSPENDED ?k = Inr k'" "sys_inv k'" "sched_ok k'" "k_tids k' = k_tids k"
      "k_ref k' = k_ref ?k" "k_queue k' = k_queue ?k" "tstate k' (k_cur k) = CH_STATE_SUSPENDED"
      "t_u (k_thr k' (k_cur k)) = WtRef r"
      "\<forall>t. t \<noteq> k_cur k \<longrightarrow> t_u (k_thr k' t) = t_u (k_thr k t) \<and>
        (tstate k' t = CH_STATE_SUSPENDED \<longleftrightarrow> tstate k t = CH_STATE_SUSPENDED) \<and>
        (tstate k' t = CH_STATE_QUEUED \<longleftrightarrow> tstate k t = CH_STATE_QUEUED)"
    using thd_sleep[OF inv idle _ fr(1,2), of CH_STATE_SUSPENDED] unfolding fr(3) by auto
  have "refs_ok k'"
    unfolding refs_ok_def k'(4,5) fr(4)
  proof (intro allI)
    fix r' u
    show "((k_ref k)(r := Some (k_cur k))) r' = Some u \<longleftrightarrow>
        u \<in> set (k_tids k) \<and> tstate k' u = CH_STATE_SUSPENDED \<and> t_u (k_thr k' u) = WtRef r'"
      using d(3,4) d(5)[unfolded refs_ok_def, THEN spec, THEN spec, of r' u] r k'(7,8) k'(9)[THEN spec, of u]
      by (cases "u = k_cur k"; cases "r' = r") auto
  qed
  moreover have "queues_ok k'"
  proof -
    have "tstate k' t = CH_STATE_QUEUED" if "t \<in> set (k_queue k q)" for t q
    proof -
      have "tstate k t = CH_STATE_QUEUED" using d(6) that unfolding queues_ok_def by blast
      then show ?thesis using k'(9)[THEN spec, of t] d(3) by auto
    qed
    then show ?thesis using d(6) unfolding queues_ok_def k'(4,6) fr(5) by blast
  qed
  ultimately show ?thesis
    using k'(1-3,5,7) r fr(4) by (simp add: chThdSuspendS_def thd_inv_def)
qed

lemma chThdResumeS_ok:
  assumes inv: "thd_inv k" and ok: "sched_ok k" and r: "k_ref k r = Some t"
  shows "\<exists>k'. chThdResumeS r msg k = Inr k' \<and> thd_inv k' \<and> sched_ok k' \<and> k_ref k' r = None \<and>
    tstate k' t \<in> {CH_STATE_READY, CH_STATE_CURRENT} \<and> rdymsg t k' = Inr msg"
proof -
  let ?k = "k\<lparr>k_ref := (k_ref k)(r := None)\<rparr>"
  note d = thd_invD[OF inv]
  have t: "t \<in> set (k_tids k)" "tstate k t = CH_STATE_SUSPENDED" "t_u (k_thr k t) = WtRef r"
    using d(5) r unfolding refs_ok_def by blast+
  have fr: "obj_frame k ?k" by (simp add: obj_frame_def)
  obtain k' where k': "chSchWakeupS t msg ?k = Inr k'" "sys_inv k'" "sched_ok k'" "sched_frame ?k k'"
      "t_u (k_thr k' t) = RdyMsg msg" "\<forall>u. u \<noteq> t \<longrightarrow> t_u (k_thr k' u) = t_u (k_thr k u)"
      "\<forall>u \<in> set (k_tids k). tstate k' u \<in> {CH_STATE_READY, CH_STATE_CURRENT} \<longleftrightarrow>
         u = t \<or> tstate k u \<in> {CH_STATE_READY, CH_STATE_CURRENT}"
      "\<forall>u. u \<noteq> t \<longrightarrow> u \<noteq> k_cur k \<longrightarrow> k_thr k' u = k_thr k u"
    using wakeup_elsewhere[OF obj_frame_sys_inv[OF fr d(1)] obj_frame_sched_ok[OF fr ok], of t msg] t by auto
  have f: "k_tids k' = k_tids k" "k_ref k' = (k_ref k)(r := None)" "k_queue k' = k_queue k"
    using k'(4) by (simp_all add: sched_frame_def)
  have run: "tstate k' t \<in> {CH_STATE_READY, CH_STATE_CURRENT}" "tstate k' (k_cur k) \<in> {CH_STATE_READY, CH_STATE_CURRENT}"
    using k'(7) t(1) d(3,4) by auto
  have st: "tstate k' u = x \<longleftrightarrow> tstate k u = x" if "u \<noteq> t" "x \<in> {CH_STATE_SUSPENDED, CH_STATE_QUEUED}" for u x
  proof (cases "u = k_cur k")
    case True
    then show ?thesis using run(2) d(3) that(2) by auto
  next
    case False
    then show ?thesis using k'(8) that(1) by simp
  qed
  have "refs_ok k'"
    unfolding refs_ok_def f
  proof (intro allI)
    fix r' u
    show "((k_ref k)(r := None)) r' = Some u \<longleftrightarrow>
        u \<in> set (k_tids k) \<and> tstate k' u = CH_STATE_SUSPENDED \<and> t_u (k_thr k' u) = WtRef r'"
    proof (cases "u = t")
      case True
      have "k_ref k r' = Some t \<longrightarrow> r' = r" using d(5) t(3) unfolding refs_ok_def by simp
      then show ?thesis using True run(1) by auto
    next
      case False
      then have "k_ref k r \<noteq> Some u" using r by simp
      then show ?thesis
        using d(5) st[OF False, of CH_STATE_SUSPENDED] k'(6) False unfolding refs_ok_def by auto
    qed
  qed
  moreover have "queues_ok k'"
  proof -
    have "tstate k' u = CH_STATE_QUEUED" if "u \<in> set (k_queue k q)" for u q
    proof -
      have u: "tstate k u = CH_STATE_QUEUED" using d(6) that unfolding queues_ok_def by blast
      then have "u \<noteq> t" using t(2) by auto
      then show ?thesis using u st[of u CH_STATE_QUEUED] by simp
    qed
    then show ?thesis using d(6) unfolding queues_ok_def f by blast
  qed
  ultimately show ?thesis
    using k'(1-3,5) run(1) r t(2) f(2) by (simp add: chThdResumeS_def thd_inv_def rdymsg_def)
qed

text \<open>Rescheduling keeps all of it.\<close>

lemma thd_inv_reschedule:
  assumes "thd_inv k"
  shows "\<exists>k'. chSchRescheduleS k = Inr k' \<and> thd_inv k' \<and> sched_ok k' \<and> k_queue k' = k_queue k \<and> k_ref k' = k_ref k \<and>
    (\<forall>t. t_u (k_thr k' t) = t_u (k_thr k t)) \<and>
    (\<forall>t \<in> set (k_tids k). tstate k' t \<in> {CH_STATE_READY, CH_STATE_CURRENT} \<longleftrightarrow> tstate k t \<in> {CH_STATE_READY, CH_STATE_CURRENT})"
proof -
  note d = thd_invD[OF assms]
  obtain k' where k': "chSchRescheduleS k = Inr k'" "sys_inv k'" "sched_ok k'" "sched_frame k k'"
      "\<forall>t \<in> set (k_tids k). tstate k' t \<in> {CH_STATE_READY, CH_STATE_CURRENT} \<longleftrightarrow> tstate k t \<in> {CH_STATE_READY, CH_STATE_CURRENT}"
    using sys_inv_reschedule[OF d(1)] by blast
  have u: "\<forall>t. t_u (k_thr k' t) = t_u (k_thr k t)"
      "\<forall>t. t \<notin> insert (k_cur k) (set (k_ready k)) \<longrightarrow> k_thr k' t = k_thr k t"
    using chSchRescheduleS_ok[OF d(2)] k'(1) by auto
  have f: "k_tids k' = k_tids k" "k_ref k' = k_ref k" "k_queue k' = k_queue k"
    using k'(4) by (simp_all add: sched_frame_def)
  have st: "tstate k' t = x \<longleftrightarrow> tstate k t = x" if "t \<in> set (k_tids k)" "x \<in> {CH_STATE_SUSPENDED, CH_STATE_QUEUED}" for t x
  proof (cases "t \<in> insert (k_cur k) (set (k_ready k))")
    case True
    then have "tstate k t \<in> {CH_STATE_READY, CH_STATE_CURRENT}"
      using sched_inv_running[OF d(2) that(1)] by simp
    then show ?thesis using k'(5) that by auto
  next
    case False
    then show ?thesis using u(2) by simp
  qed
  have "refs_ok k'"
    using d(5) st u(1) unfolding refs_ok_def f by auto
  moreover have "queues_ok k'"
    using d(6) st unfolding queues_ok_def f by auto
  ultimately show ?thesis
    using k' u(1) f by (simp add: thd_inv_def)
qed

text \<open>Waking the next thread of a queue, if there is one.\<close>

lemma chThdDequeueNextI_ok:
  assumes "thd_inv k"
  shows "\<exists>k'. chThdDequeueNextI q msg k = Inr k' \<and> thd_inv k' \<and> k_cur k' = k_cur k \<and>
    (\<forall>q'. k_queue k' q' = (if q' = q then tl (k_queue k q) else k_queue k q')) \<and>
    (k_queue k q \<noteq> [] \<longrightarrow> tstate k' (hd (k_queue k q)) = CH_STATE_READY \<and> rdymsg (hd (k_queue k q)) k' = Inr msg)"
proof (cases "k_queue k q")
  case Nil
  then show ?thesis using assms by (auto simp: chThdDequeueNextI_def)
next
  case (Cons t ts)
  then show ?thesis using chThdDoDequeueNextI_ok[OF assms Cons, of msg] by (auto simp: chThdDequeueNextI_def)
qed

lemma wake_and_reschedule:
  assumes "thd_inv k"
  shows "\<exists>k'. bindE (chThdDequeueNextI q msg k) chSchRescheduleS = Inr k' \<and> thd_inv k' \<and> sched_ok k' \<and>
    (\<forall>q'. k_queue k' q' = (if q' = q then tl (k_queue k q) else k_queue k q')) \<and>
    (k_queue k q \<noteq> [] \<longrightarrow> rdymsg (hd (k_queue k q)) k' = Inr msg \<and>
       tstate k' (hd (k_queue k q)) \<in> {CH_STATE_READY, CH_STATE_CURRENT})"
proof -
  obtain k1 where k1: "chThdDequeueNextI q msg k = Inr k1" "thd_inv k1"
      "\<forall>q'. k_queue k1 q' = (if q' = q then tl (k_queue k q) else k_queue k q')"
      "k_queue k q \<noteq> [] \<longrightarrow> tstate k1 (hd (k_queue k q)) = CH_STATE_READY \<and> rdymsg (hd (k_queue k q)) k1 = Inr msg"
    using chThdDequeueNextI_ok[OF assms] by blast
  obtain k' where k': "chSchRescheduleS k1 = Inr k'" "thd_inv k'" "sched_ok k'" "k_queue k' = k_queue k1"
      "\<forall>t. t_u (k_thr k' t) = t_u (k_thr k1 t)"
      "\<forall>t \<in> set (k_tids k1). tstate k' t \<in> {CH_STATE_READY, CH_STATE_CURRENT} \<longleftrightarrow> tstate k1 t \<in> {CH_STATE_READY, CH_STATE_CURRENT}"
    using thd_inv_reschedule[OF k1(2)] by blast
  have "tstate k' t \<in> {CH_STATE_READY, CH_STATE_CURRENT}" if "tstate k1 t = CH_STATE_READY" "t \<in> set (k_tids k1)" for t
    using k'(6) that by simp
  moreover have "hd (k_queue k q) \<in> set (k_tids k1)" if "k_queue k q \<noteq> []"
  proof -
    have "hd (k_queue k q) \<in> set (k_tids k)"
      using thd_invD(6)[OF assms] hd_in_set[OF that] unfolding queues_ok_def by blast
    moreover have "k_tids k1 = k_tids k"
      using k1(1) by (auto simp: chThdDequeueNextI_def chThdDoDequeueNextI_def chSchReadyI_def sch_ready_behind_def Let_def
        bindE_eq_Inr split: if_splits list.splits)
    ultimately show ?thesis by simp
  qed
  ultimately show ?thesis
    using k1 k' by (simp add: rdymsg_def)
qed

end
