(* ===== verification/Ch_Cond.thy ===== *)
theory Ch_Cond
  imports Ch_Thd
begin

text \<open>
  Condition variables: \<^verbatim>\<open>chcond.c\<close>. A condition variable is its queue of waiting threads, ordered by
  priority. Waiting releases the mutex the caller took last and puts the caller to sleep;
  when it runs again, the \<open>_resume\<close> part reads the message it was woken with and takes the mutex
  again, which may put it to sleep once more.
\<close>

section \<open>Operations\<close>

definition set_cond :: "nat \<Rightarrow> tid list \<Rightarrow> kernel_t \<Rightarrow> kernel_t" where
  "set_cond c q k = k\<lparr>k_cond := (k_cond k)(c := q)\<rparr>"

definition chCondObjectInit :: "nat \<Rightarrow> kernel_t \<Rightarrow> kernel_t" where
  "chCondObjectInit c k = set_cond c [] k"

definition chCondSignal :: "nat \<Rightarrow> kernel_t \<Rightarrow> kernel_t result" where
  "chCondSignal c k =
     (case k_cond k c of
        [] \<Rightarrow> Inr k
      | t # q \<Rightarrow> chSchWakeupS t MSG_OK (set_cond c q k))"

definition chCondSignalI :: "nat \<Rightarrow> kernel_t \<Rightarrow> kernel_t result" where
  "chCondSignalI c k =
     (case k_cond k c of
        [] \<Rightarrow> Inr k
      | t # q \<Rightarrow> chSchReadyI t (set_u t (RdyMsg MSG_OK) (set_cond c q k)))"

text \<open>One round of the loop of \<open>chCondBroadcastI\<close>: it takes the first thread out of the queue.\<close>

definition cond_release :: "nat \<Rightarrow> kernel_t \<Rightarrow> kernel_t result" where
  "cond_release c k =
     (case k_cond k c of
        [] \<Rightarrow> Inr k
      | t # q \<Rightarrow> bindE (chSchReadyI t (set_cond c q k)) (\<lambda>k. Inr (set_u t (RdyMsg MSG_RESET) k)))"

definition chCondBroadcastI :: "nat \<Rightarrow> kernel_t \<Rightarrow> kernel_t result" where
  "chCondBroadcastI c k = foldE (\<lambda>_. cond_release c) (k_cond k c) k"

definition chCondBroadcast :: "nat \<Rightarrow> kernel_t \<Rightarrow> kernel_t result" where
  "chCondBroadcast c k = bindE (chCondBroadcastI c k) chSchRescheduleS"

definition chMtxGetNextMutexX :: "kernel_t \<Rightarrow> nat option" where
  "chMtxGetNextMutexX k = (case mtxlist k (k_cur k) of [] \<Rightarrow> None | m # _ \<Rightarrow> Some m)"

definition cond_enqueue :: "nat \<Rightarrow> kernel_t \<Rightarrow> kernel_t" where
  "cond_enqueue c k =
     set_cond c (ch_sch_prio_insert (prio k) (k_cur k) (k_cond k c)) (set_u (k_cur k) (WtCond c) k)"

definition chCondWaitS :: "nat \<Rightarrow> kernel_t \<Rightarrow> kernel_t result" where
  "chCondWaitS c k =
     (case chMtxGetNextMutexX k of
        None \<Rightarrow> Inl (Halted ''not owning a mutex'')
      | Some mp \<Rightarrow>
          bindE (chMtxUnlockS mp k) (\<lambda>k. chSchGoSleepS CH_STATE_WTCOND (cond_enqueue c k)))"

definition chCondWaitS_resume :: "nat \<Rightarrow> kernel_t \<Rightarrow> (msg_t \<times> kernel_t) result" where
  "chCondWaitS_resume mp k =
     bindE (rdymsg (k_cur k) k) (\<lambda>msg. bindE (chMtxLockS mp k) (\<lambda>k. Inr (msg, k)))"

definition chCondWait :: "nat \<Rightarrow> kernel_t \<Rightarrow> kernel_t result" where
  "chCondWait c k = chCondWaitS c k"

definition chCondWaitTimeoutS :: "nat \<Rightarrow> sysinterval_t \<Rightarrow> kernel_t \<Rightarrow> kernel_t result" where
  "chCondWaitTimeoutS c timeout k =
     bindE (assertE (timeout \<noteq> TIME_IMMEDIATE) (Halted ''chCondWaitTimeoutS'')) (\<lambda>_.
     case chMtxGetNextMutexX k of
       None \<Rightarrow> Inl (Halted ''not owning a mutex'')
     | Some mp \<Rightarrow>
         bindE (chMtxUnlockS mp k) (\<lambda>k. chSchGoSleepTimeoutS CH_STATE_WTCOND timeout (cond_enqueue c k)))"

definition chCondWaitTimeoutS_resume :: "nat \<Rightarrow> kernel_t \<Rightarrow> (msg_t \<times> kernel_t) result" where
  "chCondWaitTimeoutS_resume mp k =
     bindE (chSchGoSleepTimeoutS_resume (k_cur k) k) (\<lambda>(msg, k).
     if msg \<noteq> MSG_TIMEOUT then bindE (chMtxLockS mp k) (\<lambda>k. Inr (msg, k)) else Inr (msg, k))"

definition chCondWaitTimeout :: "nat \<Rightarrow> sysinterval_t \<Rightarrow> kernel_t \<Rightarrow> kernel_t result" where
  "chCondWaitTimeout c timeout k = chCondWaitTimeoutS c timeout k"

section \<open>Keeping the invariant of the mutexes\<close>

lemma set_cond_sel [simp]:
  "k_tids (set_cond c q k) = k_tids k" "k_thr (set_cond c q k) = k_thr k" "k_cur (set_cond c q k) = k_cur k"
  "k_ready (set_cond c q k) = k_ready k" "k_idle (set_cond c q k) = k_idle k" "k_mtx (set_cond c q k) = k_mtx k"
  "k_sem (set_cond c q k) = k_sem k" "k_ref (set_cond c q k) = k_ref k" "k_queue (set_cond c q k) = k_queue k"
  "k_timer (set_cond c q k) = k_timer k" "k_cond (set_cond c q k) c' = (if c' = c then q else k_cond k c')"
  by (simp_all add: set_cond_def)

lemma sched_inv_set_cond [simp]: "sched_inv (set_cond c q k) = sched_inv k"
  by (simp add: sched_inv_def)

text \<open>Threads enter and leave the queues of condition variables; mutexes and priorities stay.\<close>

lemma mtx_inv_cond:
  assumes inv: "mtx_inv k"
    and fr: "k_tids k' = k_tids k" "k_mtx k' = k_mtx k"
      "\<And>t. prio k' t = prio k t" "\<And>t. realprio k' t = realprio k t" "\<And>t. mtxlist k' t = mtxlist k t"
    and st: "\<And>t. t \<in> set (k_tids k) \<Longrightarrow> tstate k' t = CH_STATE_WTMTX \<longleftrightarrow> tstate k t = CH_STATE_WTMTX"
      "\<And>t. t \<in> set (k_tids k) \<Longrightarrow> tstate k t = CH_STATE_WTMTX \<Longrightarrow> t_u (k_thr k' t) = t_u (k_thr k t)"
    and q: "\<And>c. distinct (k_cond k' c)" "\<And>c. psorted (prio k) (k_cond k' c)"
      "\<And>c t. t \<in> set (k_cond k' c) \<longleftrightarrow> waits_cond k' t c"
      "\<And>t. t \<in> set (k_tids k) \<Longrightarrow> tstate k' t = CH_STATE_WTCOND \<Longrightarrow> \<exists>c. t_u (k_thr k' t) = WtCond c"
  shows "mtx_inv k'"
proof -
  have pr: "prio k' = prio k" by (rule ext) (rule fr(3))
  have w: "waits_mtx k' t m \<longleftrightarrow> waits_mtx k t m" for t m
    using st fr(1) by (auto simp: waits_mtx_def)
  have s: "mtx_struct k" "qsorted k" "inherits k" "\<forall>t \<in> set (k_tids k). realprio k t \<le> prio k t \<and> justified k t"
    using inv by (simp_all add: mtx_inv_def)
  have "mtx_struct k'"
    using s(1) q st unfolding mtx_struct_def w fr by auto
  moreover have "qsorted k'"
    using s(2) q(2) by (simp add: qsorted_def pr fr(2))
  moreover have "inherits k'" "justified k' t \<longleftrightarrow> justified k t" for t
    using s(3) unfolding inherits_def justified_def fr by auto
  ultimately show ?thesis
    using s(4) by (simp add: mtx_inv_def fr)
qed

lemma cond_waiters:
  assumes "sys_inv k"
  shows "t \<in> set (k_cond k c) \<longleftrightarrow> waits_cond k t c" "distinct (k_cond k c)" "psorted (prio k) (k_cond k c)"
    "t \<in> set (k_tids k) \<Longrightarrow> tstate k t = CH_STATE_WTCOND \<Longrightarrow> \<exists>c. t_u (k_thr k t) = WtCond c"
  using assms by (simp_all add: sys_inv_def mtx_inv_def mtx_struct_def qsorted_def)

text \<open>The first waiting thread has the highest priority of all that wait.\<close>

lemma cond_first:
  assumes "sys_inv k" "k_cond k c = t # q"
  shows "t \<in> set (k_tids k)" "tstate k t = CH_STATE_WTCOND" "t_u (k_thr k t) = WtCond c" "t \<notin> set q"
    "\<forall>u \<in> set q. prio k u \<le> prio k t" "t \<noteq> k_cur k"
proof -
  have w: "waits_cond k t c" using cond_waiters(1)[OF assms(1), of t c] assms(2) by simp
  then show "t \<in> set (k_tids k)" "tstate k t = CH_STATE_WTCOND" "t_u (k_thr k t) = WtCond c"
    by (simp_all add: waits_cond_def)
  then show "t \<noteq> k_cur k"
    using assms(1) sched_inv_cur by (auto simp: sys_inv_def)
  show "t \<notin> set q" using cond_waiters(2)[OF assms(1), of c] assms(2) by simp
  show "\<forall>u \<in> set q. prio k u \<le> prio k t"
    using cond_waiters(3)[OF assms(1), of c] assms(2) by (simp add: psorted_Cons)
qed

lemma cond_leave:
  assumes inv: "sys_inv k" and q: "k_cond k c = t # q"
    and fr: "sched_frame (set_cond c q k) k'"
    and t: "tstate k' t \<notin> {CH_STATE_WTMTX, CH_STATE_WTCOND}"
    and u: "\<And>v. v \<noteq> t \<Longrightarrow> t_u (k_thr k' v) = t_u (k_thr k v)"
      "\<And>v st. v \<in> set (k_tids k) \<Longrightarrow> v \<noteq> t \<Longrightarrow> st \<in> {CH_STATE_WTMTX, CH_STATE_WTCOND} \<Longrightarrow> tstate k' v = st \<longleftrightarrow> tstate k v = st"
  shows "mtx_inv k'"
proof (rule mtx_inv_cond[of k])
  note f = cond_first[OF inv q] and w = cond_waiters[OF inv]
  show "mtx_inv k" using inv by (simp add: sys_inv_def)
  have tids: "k_tids k' = k_tids k" using fr by (simp add: sched_frame_def)
  have cq: "k_cond k' c' = (if c' = c then q else k_cond k c')" for c'
    using fr by (simp add: sched_frame_def)
  fix v c'
  have "distinct (t # q)" "psorted (prio k) (t # q)" using w(2,3)[of c] q by simp_all
  then show "distinct (k_cond k' c')" "psorted (prio k) (k_cond k' c')"
    using w(2,3)[of c'] unfolding cq by (simp_all add: psorted_Cons)
  have "waits_cond k' v c' \<longleftrightarrow> v \<noteq> t \<and> waits_cond k v c'"
    using t u[of v] unfolding waits_cond_def tids by (cases "v = t") auto
  moreover have "v \<in> set (k_cond k' c') \<longleftrightarrow> v \<noteq> t \<and> v \<in> set (k_cond k c')"
  proof -
    have "t \<notin> set (k_cond k c')" if "c' \<noteq> c"
      using w(1)[of t c'] f(3) that by (simp add: waits_cond_def)
    then show ?thesis using f(4) q by (auto simp: cq)
  qed
  ultimately show "v \<in> set (k_cond k' c') \<longleftrightarrow> waits_cond k' v c'" using w(1) by simp
  show "\<exists>c. t_u (k_thr k' v) = WtCond c" if "v \<in> set (k_tids k)" "tstate k' v = CH_STATE_WTCOND"
    using that t u[of v] w(4)[of v] by (cases "v = t") auto
  show "tstate k' v = CH_STATE_WTMTX \<longleftrightarrow> tstate k v = CH_STATE_WTMTX" if "v \<in> set (k_tids k)"
    using that t u(2)[of v] f(2) by (cases "v = t") auto
  show "t_u (k_thr k' v) = t_u (k_thr k v)" if "v \<in> set (k_tids k)" "tstate k v = CH_STATE_WTMTX"
    using that u(1)[of v] f(2) by (cases "v = t") auto
qed (use fr in \<open>simp_all add: sched_frame_def\<close>)

section \<open>Signalling\<close>

lemma chCondSignal_ok:
  assumes "sys_inv k" "sched_ok k" "k_cond k c = t # q"
  shows "\<exists>k'. chCondSignal c k = Inr k' \<and> sys_inv k' \<and> sched_ok k' \<and> k_cond k' = (k_cond k)(c := q) \<and>
    tstate k' t \<in> {CH_STATE_READY, CH_STATE_CURRENT} \<and> rdymsg t k' = Inr MSG_OK"
proof -
  let ?k = "set_cond c q k"
  note f = cond_first[OF assms(1,3)]
  have ok: "sched_ok ?k" using assms(2) by (simp add: sched_ok_def firstprio_def split: list.splits)
  have cs: "tstate k (k_cur k) = CH_STATE_CURRENT" "sched_inv k"
    using assms(1) sched_inv_cur by (simp_all add: sys_inv_def)
  obtain k' where k': "chSchWakeupS t MSG_OK ?k = Inr k'" "sched_ok k'" "sched_frame ?k k'"
      "insert (k_cur k') (set (k_ready k')) = insert t (insert (k_cur ?k) (set (k_ready ?k)))"
      "t_u (k_thr k' t) = RdyMsg MSG_OK" "t_u (k_thr k' (k_cur ?k)) = t_u (k_thr ?k (k_cur ?k))"
      "\<forall>u. u \<noteq> t \<longrightarrow> u \<noteq> k_cur ?k \<longrightarrow> k_thr k' u = k_thr ?k u"
    using chSchWakeupS_ok[OF ok, of t MSG_OK] f by auto
  have inv': "sched_inv k'" "k_tids k' = k_tids k" using k'(2,3) by (simp_all add: sched_ok_def sched_frame_def)
  have run: "tstate k' v \<in> {CH_STATE_READY, CH_STATE_CURRENT}" if "v = t \<or> v = k_cur k" for v
    using sched_inv_running[OF inv'(1), of v] k'(4) that f(1) cs(2) inv'(2) by (auto simp: sched_inv_def)
  have "mtx_inv k'"
  proof (rule cond_leave[OF assms(1,3) k'(3)])
    show "tstate k' t \<notin> {CH_STATE_WTMTX, CH_STATE_WTCOND}" using run[of t] by auto
    fix v assume v: "v \<noteq> t"
    then show "t_u (k_thr k' v) = t_u (k_thr k v)" using k'(6,7) by (cases "v = k_cur k") simp_all
    show "tstate k' v = st \<longleftrightarrow> tstate k v = st" if "st \<in> {CH_STATE_WTMTX, CH_STATE_WTCOND}" for st
      using v that run[of v] cs(1) k'(7) by (cases "v = k_cur k") auto
  qed
  moreover have "k_cond k' = (k_cond k)(c := q)" using k'(3) by (simp add: sched_frame_def set_cond_def)
  ultimately show ?thesis
    using k'(1,2,5) inv'(1) run[of t] assms(3) by (simp add: chCondSignal_def sys_inv_def rdymsg_def)
qed

lemma cond_release_ok:
  assumes "sys_inv k" "k_cond k c = t # q"
  shows "\<exists>k'. cond_release c k = Inr k' \<and> sys_inv k' \<and> k_cur k' = k_cur k \<and> k_tids k' = k_tids k \<and>
    k_cond k' = (k_cond k)(c := q) \<and> tstate k' t = CH_STATE_READY \<and> rdymsg t k' = Inr MSG_RESET \<and>
    (\<forall>u. u \<noteq> t \<longrightarrow> k_thr k' u = k_thr k u)"
proof -
  let ?k = "set_cond c q k"
  note f = cond_first[OF assms]
  have "sched_inv ?k" using assms(1) by (simp add: sys_inv_def)
  then obtain k1 where k1: "chSchReadyI t ?k = Inr k1" "sched_inv k1" "sched_frame ?k k1" "k_cur k1 = k_cur k"
      "k_thr k1 = (k_thr k)(t := (k_thr k t)\<lparr>t_state := CH_STATE_READY\<rparr>)"
    using chSchReadyI_ok[of ?k t] f by auto
  let ?k' = "set_u t (RdyMsg MSG_RESET) k1"
  have thr: "tstate ?k' t = CH_STATE_READY" "t_u (k_thr ?k' t) = RdyMsg MSG_RESET" "u \<noteq> t \<Longrightarrow> k_thr ?k' u = k_thr k u" for u
    by (simp_all add: k1(5) set_u_def upd_thr_def)
  have "mtx_inv ?k'"
  proof (rule cond_leave[OF assms])
    show "sched_frame ?k ?k'" using k1(3) by (simp add: sched_frame_def)
  qed (use thr in simp_all)
  moreover have "sched_inv ?k'" using k1(2) by simp
  moreover have "k_cond ?k' = (k_cond k)(c := q)" "k_tids ?k' = k_tids k"
    using k1(3) by (simp_all add: sched_frame_def set_cond_def)
  ultimately show ?thesis
    using k1(1,4) thr assms(2) by (simp add: cond_release_def sys_inv_def rdymsg_def)
qed

lemma chCondBroadcastI_ok:
  assumes "sys_inv k"
  shows "\<exists>k'. chCondBroadcastI c k = Inr k' \<and> sys_inv k' \<and> k_cur k' = k_cur k \<and> k_tids k' = k_tids k \<and>
    k_cond k' = (k_cond k)(c := []) \<and>
    (\<forall>t \<in> set (k_cond k c). tstate k' t = CH_STATE_READY \<and> rdymsg t k' = Inr MSG_RESET) \<and>
    (\<forall>t. t \<notin> set (k_cond k c) \<longrightarrow> k_thr k' t = k_thr k t)"
  unfolding chCondBroadcastI_def using assms
proof (induction "k_cond k c" arbitrary: k)
  case Nil
  then show ?case by (auto simp flip: Nil(1))
next
  case (Cons t q)
  obtain k1 where k1: "cond_release c k = Inr k1" "sys_inv k1" "k_cur k1 = k_cur k" "k_tids k1 = k_tids k"
      "k_cond k1 = (k_cond k)(c := q)" "tstate k1 t = CH_STATE_READY" "rdymsg t k1 = Inr MSG_RESET"
      "\<forall>u. u \<noteq> t \<longrightarrow> k_thr k1 u = k_thr k u"
    using cond_release_ok[OF Cons.prems Cons.hyps(2)[symmetric]] by blast
  have q: "q = k_cond k1 c" using k1(5) by simp
  obtain k' where k': "foldE (\<lambda>_. cond_release c) q k1 = Inr k'" "sys_inv k'" "k_cur k' = k_cur k1" "k_tids k' = k_tids k1"
      "k_cond k' = (k_cond k1)(c := [])"
      "\<forall>t \<in> set q. tstate k' t = CH_STATE_READY \<and> rdymsg t k' = Inr MSG_RESET"
      "\<forall>t. t \<notin> set q \<longrightarrow> k_thr k' t = k_thr k1 t"
    using Cons.hyps(1)[OF q k1(2)] unfolding q[symmetric] by blast
  have "t \<notin> set q" using cond_first(4)[OF Cons.prems Cons.hyps(2)[symmetric]] .
  then have "tstate k' t = CH_STATE_READY \<and> rdymsg t k' = Inr MSG_RESET"
    using k1(6,7) k'(7) by (simp add: rdymsg_def)
  with k1 k' show ?case
    by (simp flip: Cons.hyps(2))
qed

section \<open>Waiting\<close>

lemma mtx_handover_frame:
  assumes "mtx_handover mp t q k = Inr k'"
  shows "k_idle k' = k_idle k" "k_cond k' = k_cond k" "k_tids k' = k_tids k"
  using assms unfolding mtx_handover_def chSchReadyI_def sch_ready_behind_def Let_def
  by (auto simp: bindE_eq_Inr upd_thr_def)

lemma chMtxUnlockS_frame:
  assumes "chMtxUnlockS mp k = Inr k'"
  shows "k_idle k' = k_idle k \<and> k_cond k' = k_cond k \<and> k_tids k' = k_tids k"
proof -
  obtain l where l: "mtx_checks mp k = Inr l" using assms by (auto simp: chMtxUnlockS_def Let_def bindE_eq_Inr)
  let ?k = "upd_thr (k_cur k) (\<lambda>t. t\<lparr>t_mtxlist := l\<rparr>) k"
  have f: "k_idle ?k = k_idle k" "k_cond ?k = k_cond k" "k_tids ?k = k_tids k" "mqueue ?k mp = mqueue k mp"
    by (simp_all add: upd_thr_def)
  show ?thesis
  proof (cases "mqueue k mp")
    case Nil
    then show ?thesis using assms l f by (auto simp: chMtxUnlockS_def Let_def)
  next
    case (Cons t q)
    then have "mtx_handover mp t q (set_prio (k_cur k) (mtx_newprio ?k l (realprio ?k (k_cur k))) ?k) = Inr k'"
      using assms l f(4) by (simp add: chMtxUnlockS_def Let_def)
    from mtx_handover_frame[OF this] f show ?thesis by simp
  qed
qed

text \<open>The running thread joins the queue of a condition variable and sleeps.\<close>

lemma cond_sleep:
  assumes "sys_inv k" "k_cur k \<noteq> k_idle k"
  shows "\<exists>k'. chSchGoSleepS CH_STATE_WTCOND (cond_enqueue c k) = Inr k' \<and> sys_inv k' \<and> sched_ok k' \<and>
    waits_cond k' (k_cur k) c \<and> k_cond k' = (k_cond k)(c := ch_sch_prio_insert (prio k) (k_cur k) (k_cond k c)) \<and>
    k_mtx k' = k_mtx k \<and> (\<forall>t. mtxlist k' t = mtxlist k t)"
proof -
  let ?c = "k_cur k" and ?k = "cond_enqueue c k"
  let ?q = "ch_sch_prio_insert (prio k) ?c (k_cond k c)"
  note w = cond_waiters[OF assms(1)]
  have inv: "sched_inv k" "mtx_inv k" using assms(1) by (simp_all add: sys_inv_def)
  have c: "tstate k ?c = CH_STATE_CURRENT" "?c \<in> set (k_tids k)"
    using inv(1) by (simp_all add: sched_inv_def)
  have sel: "k_cur ?k = ?c" "k_idle ?k = k_idle k" "k_tids ?k = k_tids k" "k_cond ?k = (k_cond k)(c := ?q)"
    by (simp_all add: cond_enqueue_def set_cond_def)
  have inv1: "sched_inv ?k" using inv(1) by (simp add: cond_enqueue_def)
  obtain k' n qq where k': "chSchGoSleepS CH_STATE_WTCOND ?k = Inr k'" "sched_ok k'" "sched_frame ?k k'" "k_ready ?k = n # qq"
      "n \<noteq> k_cur ?k"
      "k_thr k' = (k_thr ?k)(n := (k_thr ?k n)\<lparr>t_state := CH_STATE_CURRENT\<rparr>,
                             k_cur ?k := (k_thr ?k (k_cur ?k))\<lparr>t_state := CH_STATE_WTCOND\<rparr>)"
    using chSchGoSleepS_ok[OF inv1, of CH_STATE_WTCOND] assms(2) sel(1,2) by auto
  have n: "n \<noteq> ?c" "tstate k n = CH_STATE_READY"
    using k'(4,5) inv(1) by (simp_all add: sched_inv_def cond_enqueue_def)
  have st: "tstate k' t = (if t = ?c then CH_STATE_WTCOND else if t = n then CH_STATE_CURRENT else tstate k t)"
      "t_u (k_thr k' t) = (if t = ?c then WtCond c else t_u (k_thr k t))" for t
    using n(1) by (simp_all add: k'(6) sel cond_enqueue_def)
  have fr: "k_tids k' = k_tids k" "k_cond k' = (k_cond k)(c := ?q)" "k_mtx k' = k_mtx k"
      "prio k' t = prio k t" "realprio k' t = realprio k t" "mtxlist k' t = mtxlist k t" for t
    using k'(3) sel(4) by (simp_all add: sched_frame_def cond_enqueue_def)
  have nc: "?c \<notin> set (k_cond k c')" for c'
    using w(1)[of ?c c'] c(1) by (simp add: waits_cond_def)
  have wc: "waits_cond k' t c' \<longleftrightarrow> waits_cond k t c' \<or> (t = ?c \<and> c' = c)" for t c'
    using c n(2) by (auto simp: waits_cond_def fr st)
  have "mtx_inv k'"
  proof (rule mtx_inv_cond[OF inv(2) fr(1,3-6)])
    fix t c'
    show "tstate k' t = CH_STATE_WTMTX \<longleftrightarrow> tstate k t = CH_STATE_WTMTX" if "t \<in> set (k_tids k)"
      using c(1) n(2) by (simp add: st)
    show "t_u (k_thr k' t) = t_u (k_thr k t)" if "t \<in> set (k_tids k)" "tstate k t = CH_STATE_WTMTX"
      using that c(1) by (auto simp: st)
    show "distinct (k_cond k' c')" using w(2) nc by (simp add: fr)
    show "psorted (prio k) (k_cond k' c')" using w(3) sch.sorted_ins by (simp add: fr)
    show "t \<in> set (k_cond k' c') \<longleftrightarrow> waits_cond k' t c'" by (auto simp: fr wc w(1))
    show "\<exists>c. t_u (k_thr k' t) = WtCond c" if "t \<in> set (k_tids k)" "tstate k' t = CH_STATE_WTCOND"
      using that w(4)[of t] by (auto simp: st split: if_splits)
  qed
  moreover have "sched_inv k'" using k'(2) by (simp add: sched_ok_def)
  moreover have "waits_cond k' ?c c" by (simp add: wc)
  ultimately show ?thesis
    using k'(1,2) fr by (simp add: sys_inv_def)
qed

lemma chCondWait_ok:
  assumes "sys_inv k" "k_cur k \<noteq> k_idle k" "mtxlist k (k_cur k) = mp # l"
  shows "\<exists>k'. chCondWait c k = Inr k' \<and> sys_inv k' \<and> sched_ok k' \<and> waits_cond k' (k_cur k) c \<and>
    set (k_cond k' c) = insert (k_cur k) (set (k_cond k c)) \<and> mtxlist k' (k_cur k) = l \<and>
    mowner k' mp = (case mqueue k mp of [] \<Rightarrow> None | t # _ \<Rightarrow> Some t)"
proof -
  obtain k1 where k1: "chMtxUnlockS mp k = Inr k1" "sys_inv k1" "k_cur k1 = k_cur k" "mtxlist k1 (k_cur k) = l"
      "mowner k1 mp = (case mqueue k mp of [] \<Rightarrow> None | t # _ \<Rightarrow> Some t)"
    using chMtxUnlockS_ok[OF assms(1,3)] by blast
  have f: "k_idle k1 = k_idle k" "k_cond k1 = k_cond k" using chMtxUnlockS_frame[OF k1(1)] by simp_all
  obtain k' where k': "chSchGoSleepS CH_STATE_WTCOND (cond_enqueue c k1) = Inr k'" "sys_inv k'" "sched_ok k'"
      "waits_cond k' (k_cur k1) c" "k_cond k' = (k_cond k1)(c := ch_sch_prio_insert (prio k1) (k_cur k1) (k_cond k1 c))"
      "k_mtx k' = k_mtx k1" "\<forall>t. mtxlist k' t = mtxlist k1 t"
    using cond_sleep[OF k1(2)] assms(2) f(1) k1(3) by (metis (no_types))
  then show ?thesis
    using k1 assms(3) f(2) by (simp add: chCondWait_def chCondWaitS_def chMtxGetNextMutexX_def)
qed

text \<open>When the thread runs again it takes the mutex, or waits for it.\<close>

lemma chCondWaitS_resume_ok:
  assumes "sys_inv k" "rdymsg (k_cur k) k = Inr msg" "k_cur k \<noteq> k_idle k"
  shows "\<exists>k'. chCondWaitS_resume mp k = Inr (msg, k') \<and> sys_inv k' \<and>
    (if mowner k mp = None then mowner k' mp = Some (k_cur k) \<and> k_cur k' = k_cur k else waits_mtx k' (k_cur k) mp)"
proof (cases "mowner k mp")
  case None
  then show ?thesis
    using take_mutex[OF assms(1) None] assms(2)
    by (simp add: chCondWaitS_resume_def chMtxLockS_def Let_def) (simp add: kernel_upd)
next
  case (Some ow)
  obtain k' where "chMtxLockS mp k = Inr k'" "sys_inv k'" "waits_mtx k' (k_cur k) mp"
    using chMtxLockS_owned[OF assms(1) Some assms(3)] by blast
  then show ?thesis using Some assms(2) by (simp add: chCondWaitS_resume_def)
qed

end
