(* ===== verification/Ring.thy ===== *)
theory Ring
  imports Prelude
begin

text \<open>
  Circular buffers: a buffer, an index to read from, an index to write to and the number of
  elements in between. What the mailboxes and the I/O queues share, and the contract of a
  bounded first-in first-out store that both of them keep.
\<close>

definition ring_next :: "'a list \<Rightarrow> nat \<Rightarrow> nat" where
  "ring_next buf p = (if p + 1 \<ge> length buf then 0 else p + 1)"

definition ring_ok :: "'a list \<Rightarrow> nat \<Rightarrow> nat \<Rightarrow> nat \<Rightarrow> bool" where
  "ring_ok buf r w n \<longleftrightarrow> r < length buf \<and> w = (r + n) mod length buf \<and> n \<le> length buf"

definition ring_contents :: "'a list \<Rightarrow> nat \<Rightarrow> nat \<Rightarrow> 'a list" where
  "ring_contents buf r n = map (\<lambda>i. buf ! ((r + i) mod length buf)) [0..<n]"

lemma length_ring_contents [simp]: "length (ring_contents buf r n) = n"
  by (simp add: ring_contents_def)

lemma ring_next_mod: "p < length buf \<Longrightarrow> ring_next buf p = (p + 1) mod length buf"
  by (auto simp: ring_next_def mod_if)

lemma mod_shift_neq:
  assumes "i < n" "n < l"
  shows "(r + i) mod l \<noteq> (r + n) mod (l::nat)"
proof
  assume "(r + i) mod l = (r + n) mod l"
  then have "l dvd (r + n) - (r + i)"
    by (metis add_le_cancel_left assms(1) mod_eq_dvd_iff_nat order_less_imp_le)
  then show False
    using assms by (auto dest: dvd_imp_le)
qed

lemma ring_put:
  assumes "ring_ok buf r w n" "n < length buf"
  shows "ring_ok (buf[w := x]) r (ring_next buf w) (n + 1)" "w < length buf"
    "ring_contents (buf[w := x]) r (n + 1) = ring_contents buf r n @ [x]"
proof -
  have l: "0 < length buf" and w: "w = (r + n) mod length buf"
    using assms by (auto simp: ring_ok_def)
  show wl: "w < length buf" using l w by simp
  show "ring_ok (buf[w := x]) r (ring_next buf w) (n + 1)"
    using assms wl by (auto simp: ring_ok_def ring_next_mod mod_simps)
  have "buf[w := x] ! ((r + i) mod length buf) = buf ! ((r + i) mod length buf)" if "i < n" for i
    using mod_shift_neq[OF that assms(2), of r] w by simp
  then show "ring_contents (buf[w := x]) r (n + 1) = ring_contents buf r n @ [x]"
    using wl w by (simp add: ring_contents_def)
qed

lemma ring_get:
  assumes "ring_ok buf r w n" "0 < n"
  shows "ring_ok buf (ring_next buf r) w (n - 1)" "r < length buf"
    "ring_contents buf r n = buf ! r # ring_contents buf (ring_next buf r) (n - 1)"
proof -
  show r: "r < length buf" using assms by (simp add: ring_ok_def)
  obtain m where m: "n = Suc m" using assms(2) by (cases n) auto
  have shift: "((r + 1) mod length buf + i) mod length buf = (r + Suc i) mod length buf" for i
    by (simp add: mod_simps)
  have "(r + 1) mod length buf < length buf"
    using r by (intro mod_less_divisor) auto
  then show "ring_ok buf (ring_next buf r) w (n - 1)"
    using assms r shift[of m] by (simp add: ring_ok_def ring_next_mod m)
  show "ring_contents buf r n = buf ! r # ring_contents buf (ring_next buf r) (n - 1)"
    unfolding ring_contents_def ring_next_mod[OF r] shift m using r
    by (simp add: upt_conv_Cons map_Suc_upt [symmetric] del: upt_Suc)
qed

lemma ring_put_ahead:
  assumes "ring_ok buf r w n" "n < length buf" "p = (if r = 0 then length buf - 1 else r - 1)"
  shows "ring_ok (buf[p := x]) p w (n + 1)" "p < length buf"
    "ring_contents (buf[p := x]) p (n + 1) = x # ring_contents buf r n"
proof -
  have r: "r < length buf" "w = (r + n) mod length buf" using assms by (simp_all add: ring_ok_def)
  show p: "p < length buf" using r assms(3) by auto
  have pr: "(p + 1) mod length buf = r"
  proof (cases "r = 0")
    case True
    then show ?thesis using r(1) assms(3) by simp
  next
    case False
    then show ?thesis using r(1) assms(3) by simp
  qed
  have shift: "(p + Suc i) mod length buf = (r + i) mod length buf" for i
    using mod_add_left_eq[of "p + 1" "length buf" i] pr by simp
  then show "ring_ok (buf[p := x]) p w (n + 1)"
    using p r assms(2) by (simp add: ring_ok_def)
  have "buf[p := x] ! ((p + Suc i) mod length buf) = buf ! ((r + i) mod length buf)" if "i < n" for i
  proof -
    have "p \<noteq> (p + Suc i) mod length buf"
      using mod_shift_neq[of 0 "Suc i" "length buf" p] that assms(2) p by simp
    then show ?thesis using shift by simp
  qed
  then show "ring_contents (buf[p := x]) p (n + 1) = x # ring_contents buf r n"
    using p by (simp add: ring_contents_def upt_conv_Cons map_Suc_upt [symmetric] del: upt_Suc)
qed

section \<open>Bounded first-in first-out stores\<close>

locale bounded_fifo =
  fixes inv :: "'s \<Rightarrow> bool"
    and contents :: "'s \<Rightarrow> 'a list"
    and capacity :: "'s \<Rightarrow> nat"
    and put :: "'a \<Rightarrow> 's \<Rightarrow> 's result"
    and get :: "'s \<Rightarrow> ('a \<times> 's) result"
  assumes put_ok: "inv s \<Longrightarrow> length (contents s) < capacity s \<Longrightarrow>
      \<exists>s'. put x s = Inr s' \<and> inv s' \<and> contents s' = contents s @ [x] \<and> capacity s' = capacity s"
    and get_ok: "inv s \<Longrightarrow> contents s = x # xs \<Longrightarrow>
      \<exists>s'. get s = Inr (x, s') \<and> inv s' \<and> contents s' = xs \<and> capacity s' = capacity s"
begin

lemma put_all:
  assumes "inv s" "length (contents s) + length xs \<le> capacity s"
  shows "\<exists>s'. foldE put xs s = Inr s' \<and> inv s' \<and> contents s' = contents s @ xs \<and> capacity s' = capacity s"
  using assms
proof (induction xs arbitrary: s)
  case Nil
  then show ?case by simp
next
  case (Cons x xs)
  obtain s1 where "put x s = Inr s1" "inv s1" "contents s1 = contents s @ [x]" "capacity s1 = capacity s"
    using put_ok[OF Cons.prems(1), of x] Cons.prems(2) by auto
  with Cons.IH[of s1] Cons.prems(2) show ?case by simp
qed

definition get_one :: "'a list \<times> 's \<Rightarrow> ('a list \<times> 's) result" where
  "get_one = (\<lambda>(ys, s). bindE (get s) (\<lambda>(y, s). Inr (ys @ [y], s)))"

lemma get_all:
  assumes "inv s" "contents s = xs @ zs"
  shows "\<exists>s'. foldE (\<lambda>_. get_one) xs (ys, s) = Inr (ys @ xs, s') \<and> inv s' \<and> contents s' = zs \<and> capacity s' = capacity s"
  using assms
proof (induction xs arbitrary: s ys)
  case Nil
  then show ?case by simp
next
  case (Cons x xs)
  obtain s1 where "get s = Inr (x, s1)" "inv s1" "contents s1 = xs @ zs" "capacity s1 = capacity s"
    using get_ok[OF Cons.prems(1), of x "xs @ zs"] Cons.prems(2) by auto
  with Cons.IH[of s1 "ys @ [x]"] show ?case by (simp add: get_one_def)
qed

text \<open>What goes in comes out in the same order.\<close>

lemma fifo_order:
  assumes "inv s" "contents s = []" "length xs \<le> capacity s"
  shows "\<exists>s' s''. foldE put xs s = Inr s' \<and> foldE (\<lambda>_. get_one) xs ([], s') = Inr (xs, s'') \<and> inv s'' \<and> contents s'' = []"
proof -
  obtain s' where s': "foldE put xs s = Inr s'" "inv s'" "contents s' = xs"
    using put_all[OF assms(1), of xs] assms(2,3) by auto
  then show ?thesis using get_all[OF s'(2), of xs "[]" "[]"] by auto
qed

end

end
