(* ===== verification/Ch_Dbg.thy ===== *)
theory Ch_Dbg
  imports Ch_Vt Ring
begin

text \<open>
  Critical zones and their checker: \<^verbatim>\<open>chdebug.c\<close>, the inline functions of \<^verbatim>\<open>chsys.h\<close> and the status
  functions of \<^verbatim>\<open>chsys.c\<close> on the interrupt masks of the Cortex-M port (\<^verbatim>\<open>chcore.h\<close>); the trace buffer of
  \<^verbatim>\<open>chtrace.c\<close>; time measurement and polled delays of \<^verbatim>\<open>chtm.c\<close> and \<^verbatim>\<open>chsys.c\<close>. Elsewhere in this
  development the kernel's calls are taken to be made from the right context; here is what enforces it.
\<close>

section \<open>The processor\<close>

text \<open>
  The registers that mask interrupts, and the exceptions being served, innermost first: the head is
  \<open>IPSR\<close>. Four priority bits and two fast priorities make the mask of the kernel 3 * 16.
\<close>

record cpu_t =
  c_primask :: bool
  c_basepri :: u32
  c_active :: "nat list"

definition CORTEX_BASEPRI_DISABLED :: u32 where "CORTEX_BASEPRI_DISABLED = 0"
definition CORTEX_BASEPRI_KERNEL :: u32 where "CORTEX_BASEPRI_KERNEL = push_bit (8 - 4) (0 + 2 + 1)"

definition port_lock :: "cpu_t \<Rightarrow> cpu_t" where
  "port_lock c = c\<lparr>c_basepri := CORTEX_BASEPRI_KERNEL\<rparr>"

definition port_unlock :: "cpu_t \<Rightarrow> cpu_t" where
  "port_unlock c = c\<lparr>c_basepri := CORTEX_BASEPRI_DISABLED\<rparr>"

definition port_lock_from_isr :: "cpu_t \<Rightarrow> cpu_t" where
  "port_lock_from_isr c = port_lock c"

definition port_unlock_from_isr :: "cpu_t \<Rightarrow> cpu_t" where
  "port_unlock_from_isr c = port_unlock c"

definition port_disable :: "cpu_t \<Rightarrow> cpu_t" where
  "port_disable c = c\<lparr>c_primask := True\<rparr>"

definition port_suspend :: "cpu_t \<Rightarrow> cpu_t" where
  "port_suspend c = c\<lparr>c_basepri := CORTEX_BASEPRI_KERNEL, c_primask := False\<rparr>"

definition port_enable :: "cpu_t \<Rightarrow> cpu_t" where
  "port_enable c = c\<lparr>c_basepri := CORTEX_BASEPRI_DISABLED, c_primask := False\<rparr>"

definition port_get_lock_status :: "cpu_t \<Rightarrow> u32" where
  "port_get_lock_status c = c_basepri c"

definition port_irq_enabled :: "u32 \<Rightarrow> bool" where
  "port_irq_enabled sts \<longleftrightarrow> sts = CORTEX_BASEPRI_DISABLED"

definition port_is_locked :: "u32 \<Rightarrow> bool" where
  "port_is_locked sts \<longleftrightarrow> \<not> port_irq_enabled sts"

definition port_is_isr_context :: "cpu_t \<Rightarrow> bool" where
  "port_is_isr_context c \<longleftrightarrow> c_active c \<noteq> []"

section \<open>The checker\<close>

text \<open>
  \<open>cnt_t\<close> is a signed 32-bit type. A violation calls \<open>chSysHalt\<close> with its number. The system is its
  processor, the counters of the checker and the kernel.
\<close>

record system_debug_t =
  isr_cnt :: int
  lock_cnt :: int

record sys_t =
  y_cpu :: cpu_t
  y_dbg :: system_debug_t
  y_k :: kernel_t

definition dbg_object_init :: system_debug_t where
  "dbg_object_init = \<lparr>isr_cnt = 0, lock_cnt = 1\<rparr>"

definition dbg_check_disable :: "system_debug_t \<Rightarrow> system_debug_t result" where
  "dbg_check_disable d =
     bindE (assertE (\<not> (isr_cnt d \<noteq> 0 \<or> lock_cnt d \<noteq> 0)) (Halted ''SV#1'')) (\<lambda>_. Inr d)"

definition dbg_check_suspend :: "system_debug_t \<Rightarrow> system_debug_t result" where
  "dbg_check_suspend d =
     bindE (assertE (\<not> (isr_cnt d \<noteq> 0 \<or> lock_cnt d \<noteq> 0)) (Halted ''SV#2'')) (\<lambda>_. Inr d)"

definition dbg_check_enable :: "system_debug_t \<Rightarrow> system_debug_t result" where
  "dbg_check_enable d =
     bindE (assertE (\<not> (isr_cnt d \<noteq> 0 \<or> lock_cnt d \<noteq> 0)) (Halted ''SV#3'')) (\<lambda>_. Inr d)"

definition dbg_check_lock :: "system_debug_t \<Rightarrow> system_debug_t result" where
  "dbg_check_lock d =
     bindE (assertE (\<not> (isr_cnt d \<noteq> 0 \<or> lock_cnt d \<noteq> 0)) (Halted ''SV#4'')) (\<lambda>_. Inr (d\<lparr>lock_cnt := 1\<rparr>))"

definition dbg_check_unlock :: "system_debug_t \<Rightarrow> system_debug_t result" where
  "dbg_check_unlock d =
     bindE (assertE (\<not> (isr_cnt d \<noteq> 0 \<or> lock_cnt d \<le> 0)) (Halted ''SV#5'')) (\<lambda>_. Inr (d\<lparr>lock_cnt := 0\<rparr>))"

definition dbg_check_lock_from_isr :: "system_debug_t \<Rightarrow> system_debug_t result" where
  "dbg_check_lock_from_isr d =
     bindE (assertE (\<not> (isr_cnt d \<le> 0 \<or> lock_cnt d \<noteq> 0)) (Halted ''SV#6'')) (\<lambda>_. Inr (d\<lparr>lock_cnt := 1\<rparr>))"

definition dbg_check_unlock_from_isr :: "system_debug_t \<Rightarrow> system_debug_t result" where
  "dbg_check_unlock_from_isr d =
     bindE (assertE (\<not> (isr_cnt d \<le> 0 \<or> lock_cnt d \<le> 0)) (Halted ''SV#7'')) (\<lambda>_. Inr (d\<lparr>lock_cnt := 0\<rparr>))"

definition dbg_check_enter_isr :: "sys_t \<Rightarrow> sys_t result" where
  "dbg_check_enter_isr s =
     (let s = s\<lparr>y_cpu := port_lock_from_isr (y_cpu s)\<rparr>; d = y_dbg s in
      bindE (assertE (\<not> (isr_cnt d < 0 \<or> lock_cnt d \<noteq> 0)) (Halted ''SV#8'')) (\<lambda>_.
      bindE (c_int (isr_cnt d + 1)) (\<lambda>n.
      Inr (s\<lparr>y_dbg := d\<lparr>isr_cnt := n\<rparr>, y_cpu := port_unlock_from_isr (y_cpu s)\<rparr>))))"

definition dbg_check_leave_isr :: "sys_t \<Rightarrow> sys_t result" where
  "dbg_check_leave_isr s =
     (let s = s\<lparr>y_cpu := port_lock_from_isr (y_cpu s)\<rparr>; d = y_dbg s in
      bindE (assertE (\<not> (isr_cnt d \<le> 0 \<or> lock_cnt d \<noteq> 0)) (Halted ''SV#9'')) (\<lambda>_.
      bindE (c_int (isr_cnt d - 1)) (\<lambda>n.
      Inr (s\<lparr>y_dbg := d\<lparr>isr_cnt := n\<rparr>, y_cpu := port_unlock_from_isr (y_cpu s)\<rparr>))))"

definition chDbgCheckClassI :: "sys_t \<Rightarrow> sys_t result" where
  "chDbgCheckClassI s =
     (let d = y_dbg s in
      bindE (assertE (\<not> (isr_cnt d < 0 \<or> lock_cnt d \<le> 0)) (Halted ''SV#10'')) (\<lambda>_. Inr s))"

definition chDbgCheckClassS :: "sys_t \<Rightarrow> sys_t result" where
  "chDbgCheckClassS s =
     (let d = y_dbg s in
      bindE (assertE (\<not> (isr_cnt d \<noteq> 0 \<or> lock_cnt d \<le> 0)) (Halted ''SV#11'')) (\<lambda>_. Inr s))"

section \<open>Critical zones\<close>

definition chSysDisable :: "sys_t \<Rightarrow> sys_t result" where
  "chSysDisable s =
     (let s = s\<lparr>y_cpu := port_disable (y_cpu s)\<rparr> in
      bindE (dbg_check_disable (y_dbg s)) (\<lambda>d. Inr (s\<lparr>y_dbg := d\<rparr>)))"

definition chSysSuspend :: "sys_t \<Rightarrow> sys_t result" where
  "chSysSuspend s =
     (let s = s\<lparr>y_cpu := port_suspend (y_cpu s)\<rparr> in
      bindE (dbg_check_suspend (y_dbg s)) (\<lambda>d. Inr (s\<lparr>y_dbg := d\<rparr>)))"

definition chSysEnable :: "sys_t \<Rightarrow> sys_t result" where
  "chSysEnable s =
     bindE (dbg_check_enable (y_dbg s)) (\<lambda>d.
     Inr (s\<lparr>y_dbg := d, y_cpu := port_enable (y_cpu s)\<rparr>))"

definition chSysLock :: "sys_t \<Rightarrow> sys_t result" where
  "chSysLock s =
     (let s = s\<lparr>y_cpu := port_lock (y_cpu s)\<rparr> in
      bindE (dbg_check_lock (y_dbg s)) (\<lambda>d. Inr (s\<lparr>y_dbg := d\<rparr>)))"

definition chSysUnlock :: "sys_t \<Rightarrow> sys_t result" where
  "chSysUnlock s =
     bindE (dbg_check_unlock (y_dbg s)) (\<lambda>d.
     let k = y_k s in
     bindE (assertE (k_ready k = [] \<or> prio k (k_cur k) \<ge> firstprio k) (Halted ''priority order violation'')) (\<lambda>_.
     Inr (s\<lparr>y_dbg := d, y_cpu := port_unlock (y_cpu s)\<rparr>)))"

definition chSysLockFromISR :: "sys_t \<Rightarrow> sys_t result" where
  "chSysLockFromISR s =
     (let s = s\<lparr>y_cpu := port_lock_from_isr (y_cpu s)\<rparr> in
      bindE (dbg_check_lock_from_isr (y_dbg s)) (\<lambda>d. Inr (s\<lparr>y_dbg := d\<rparr>)))"

definition chSysUnlockFromISR :: "sys_t \<Rightarrow> sys_t result" where
  "chSysUnlockFromISR s =
     bindE (dbg_check_unlock_from_isr (y_dbg s)) (\<lambda>d.
     Inr (s\<lparr>y_dbg := d, y_cpu := port_unlock_from_isr (y_cpu s)\<rparr>))"

definition chSysUnconditionalLock :: "sys_t \<Rightarrow> sys_t result" where
  "chSysUnconditionalLock s =
     (if \<not> port_is_locked (port_get_lock_status (y_cpu s)) then chSysLock s else Inr s)"

definition chSysUnconditionalUnlock :: "sys_t \<Rightarrow> sys_t result" where
  "chSysUnconditionalUnlock s =
     (if port_is_locked (port_get_lock_status (y_cpu s)) then chSysUnlock s else Inr s)"

definition chSysGetStatusAndLockX :: "sys_t \<Rightarrow> (u32 \<times> sys_t) result" where
  "chSysGetStatusAndLockX s =
     (let sts = port_get_lock_status (y_cpu s) in
      bindE (if \<not> port_is_locked sts
             then if port_is_isr_context (y_cpu s) then chSysLockFromISR s else chSysLock s
             else Inr s) (\<lambda>s.
      Inr (sts, s)))"

definition chSysRestoreStatusX :: "u32 \<Rightarrow> sys_t \<Rightarrow> sys_t result" where
  "chSysRestoreStatusX sts s =
     (if \<not> port_is_locked sts
      then if port_is_isr_context (y_cpu s) then chSysUnlockFromISR s
           else bindE (chDbgCheckClassS s) (\<lambda>s.
                bindE (chSchRescheduleS (y_k s)) (\<lambda>k.
                chSysUnlock (s\<lparr>y_k := k\<rparr>)))
      else Inr s)"

text \<open>
  An interrupt of kernel level is served when nothing masks it; otherwise it stays pending and nothing
  happens now. The processor enters the handler, which begins with the check of \<open>CH_IRQ_PROLOGUE\<close>; at the
  end, after the check of \<open>CH_IRQ_EPILOGUE\<close>, it goes back to what was interrupted.
\<close>

definition irq_enter :: "nat \<Rightarrow> sys_t \<Rightarrow> sys_t result" where
  "irq_enter v s =
     (let c = y_cpu s in
      if c_primask c \<or> c_basepri c \<noteq> CORTEX_BASEPRI_DISABLED then Inr s
      else dbg_check_enter_isr (s\<lparr>y_cpu := c\<lparr>c_active := v # c_active c\<rparr>\<rparr>))"

definition irq_leave :: "sys_t \<Rightarrow> sys_t result" where
  "irq_leave s =
     bindE (dbg_check_leave_isr s) (\<lambda>s.
     Inr (s\<lparr>y_cpu := (y_cpu s)\<lparr>c_active := tl (c_active (y_cpu s))\<rparr>\<rparr>))"

section \<open>The zones\<close>

text \<open>
  The contexts the documentation of the checker speaks of: a thread, a thread that has suspended the
  interrupts of kernel level, a critical zone of a thread, an interrupt handler that has interrupted \<open>n\<close>
  others, and a critical zone of one. A flag tells if all interrupts are disabled. \<open>allowed\<close> are the calls
  that may be made there.
\<close>

datatype zone = Thread | Suspended | Locked | Isr nat | ILocked nat

datatype zcall =
    CDisable | CSuspend | CEnable | CLock | CUnlock | CLockFromISR | CUnlockFromISR
  | CEnter nat | CLeave | CClassI | CClassS

fun allowed :: "zcall \<Rightarrow> zone \<Rightarrow> bool" where
  "allowed CDisable z \<longleftrightarrow> z \<in> {Thread, Suspended}"
| "allowed CSuspend z \<longleftrightarrow> z \<in> {Thread, Suspended}"
| "allowed CEnable z \<longleftrightarrow> z \<in> {Thread, Suspended}"
| "allowed CLock z \<longleftrightarrow> z \<in> {Thread, Suspended}"
| "allowed CUnlock z \<longleftrightarrow> z = Locked"
| "allowed CLockFromISR z \<longleftrightarrow> (case z of Isr _ \<Rightarrow> True | _ \<Rightarrow> False)"
| "allowed CUnlockFromISR z \<longleftrightarrow> (case z of ILocked _ \<Rightarrow> True | _ \<Rightarrow> False)"
| "allowed (CEnter _) z \<longleftrightarrow> True"
| "allowed CLeave z \<longleftrightarrow> (case z of Isr _ \<Rightarrow> True | _ \<Rightarrow> False)"
| "allowed CClassI z \<longleftrightarrow> (case z of Locked \<Rightarrow> True | ILocked _ \<Rightarrow> True | _ \<Rightarrow> False)"
| "allowed CClassS z \<longleftrightarrow> z = Locked"

fun moves :: "zcall \<Rightarrow> zone \<times> bool \<Rightarrow> zone \<times> bool" where
  "moves CDisable (z, off) = (z, True)"
| "moves CSuspend (z, off) = (Suspended, False)"
| "moves CEnable (z, off) = (Thread, False)"
| "moves CLock (z, off) = (Locked, off)"
| "moves CUnlock (z, off) = (Thread, off)"
| "moves CLockFromISR (Isr n, off) = (ILocked n, off)"
| "moves CUnlockFromISR (ILocked n, off) = (Isr n, off)"
| "moves (CEnter v) (Thread, False) = (Isr 0, False)"
| "moves (CEnter v) (Isr n, False) = (Isr (Suc n), False)"
| "moves CLeave (Isr 0, off) = (Thread, off)"
| "moves CLeave (Isr (Suc n), off) = (Isr n, off)"
| "moves c z = z"

fun violation :: "zcall \<Rightarrow> string" where
  "violation CDisable = ''SV#1''"
| "violation CSuspend = ''SV#2''"
| "violation CEnable = ''SV#3''"
| "violation CLock = ''SV#4''"
| "violation CUnlock = ''SV#5''"
| "violation CLockFromISR = ''SV#6''"
| "violation CUnlockFromISR = ''SV#7''"
| "violation (CEnter _) = ''SV#8''"
| "violation CLeave = ''SV#9''"
| "violation CClassI = ''SV#10''"
| "violation CClassS = ''SV#11''"

fun zone_run :: "zcall list \<Rightarrow> zone \<times> bool \<Rightarrow> string + zone \<times> bool" where
  "zone_run [] z = Inr z"
| "zone_run (c # cs) z = (if allowed c (fst z) then zone_run cs (moves c z) else Inl (violation c))"

fun sys_call :: "zcall \<Rightarrow> sys_t \<Rightarrow> sys_t result" where
  "sys_call CDisable s = chSysDisable s"
| "sys_call CSuspend s = chSysSuspend s"
| "sys_call CEnable s = chSysEnable s"
| "sys_call CLock s = chSysLock s"
| "sys_call CUnlock s = chSysUnlock s"
| "sys_call CLockFromISR s = chSysLockFromISR s"
| "sys_call CUnlockFromISR s = chSysUnlockFromISR s"
| "sys_call (CEnter v) s = irq_enter v s"
| "sys_call CLeave s = irq_leave s"
| "sys_call CClassI s = chDbgCheckClassI s"
| "sys_call CClassS s = chDbgCheckClassS s"

text \<open>The state of the system in a zone: counters, masks and active exceptions.\<close>

fun zone_state :: "zone \<Rightarrow> int \<times> int \<times> u32 \<times> nat" where
  "zone_state Thread = (0, 0, CORTEX_BASEPRI_DISABLED, 0)"
| "zone_state Suspended = (0, 0, CORTEX_BASEPRI_KERNEL, 0)"
| "zone_state Locked = (0, 1, CORTEX_BASEPRI_KERNEL, 0)"
| "zone_state (Isr n) = (int (Suc n), 0, CORTEX_BASEPRI_DISABLED, Suc n)"
| "zone_state (ILocked n) = (int (Suc n), 1, CORTEX_BASEPRI_KERNEL, Suc n)"

definition in_zone :: "zone \<times> bool \<Rightarrow> sys_t \<Rightarrow> bool" where
  "in_zone z s \<longleftrightarrow>
     (isr_cnt (y_dbg s), lock_cnt (y_dbg s), c_basepri (y_cpu s), length (c_active (y_cpu s))) = zone_state (fst z) \<and>
     c_primask (y_cpu s) = snd z"

definition no_preemption :: "kernel_t \<Rightarrow> bool" where
  "no_preemption k \<longleftrightarrow> k_ready k = [] \<or> prio k (k_cur k) \<ge> firstprio k"

lemma basepri [simp]: "CORTEX_BASEPRI_KERNEL \<noteq> CORTEX_BASEPRI_DISABLED" "CORTEX_BASEPRI_DISABLED \<noteq> CORTEX_BASEPRI_KERNEL"
  by (simp_all add: CORTEX_BASEPRI_KERNEL_def CORTEX_BASEPRI_DISABLED_def)

lemmas ports = port_lock_def port_unlock_def port_lock_from_isr_def port_unlock_from_isr_def port_disable_def port_suspend_def
  port_enable_def port_get_lock_status_def port_irq_enabled_def port_is_locked_def port_is_isr_context_def

lemmas checks = dbg_check_disable_def dbg_check_suspend_def dbg_check_enable_def dbg_check_lock_def dbg_check_unlock_def
  dbg_check_lock_from_isr_def dbg_check_unlock_from_isr_def dbg_check_enter_isr_def dbg_check_leave_isr_def
  chDbgCheckClassI_def chDbgCheckClassS_def chSysDisable_def chSysSuspend_def chSysEnable_def chSysLock_def chSysUnlock_def
  chSysLockFromISR_def chSysUnlockFromISR_def irq_enter_def irq_leave_def

fun depth :: "zone \<Rightarrow> nat" where
  "depth (Isr n) = Suc n"
| "depth (ILocked n) = Suc n"
| "depth _ = 0"

lemma sys_call_misplaced:
  assumes "in_zone (z, off) s" "\<not> allowed c z"
  shows "sys_call c s = Inl (Halted (violation c))"
  using assms by (cases z; cases c) (simp_all add: in_zone_def checks ports assertE_def Let_def)

lemma moves_leave [simp]:
  "zone_state (fst (moves CLeave (Isr n, off))) = (int n, 0, CORTEX_BASEPRI_DISABLED, n)" "snd (moves CLeave (Isr n, off)) = off"
  by (cases n; simp)+

lemma sys_call_allowed:
  assumes "in_zone (z, off) s" "allowed c z" "no_preemption (y_k s)" "depth z < 2147483647"
  shows "\<exists>s'. sys_call c s = Inr s' \<and> in_zone (moves c (z, off)) s' \<and> y_k s' = y_k s"
  using assms by (cases z; cases c; cases off; cases "depth z")
    (auto simp: in_zone_def checks ports no_preemption_def Let_def c_int_def INT_MAX_def INT_MIN_def bindE_eq_Inr length_Suc_conv)

lemma depth_moves: "depth (fst (moves c z)) \<le> Suc (depth (fst z))"
  by (cases "(c, z)" rule: moves.cases) auto

text \<open>The checker halts at the first misplaced call and nowhere else.\<close>

lemma zone_run_refines:
  assumes "in_zone z s" "no_preemption (y_k s)" "depth (fst z) + length cs \<le> 2147483647"
  shows "case zone_run cs z of Inl v \<Rightarrow> foldE sys_call cs s = Inl (Halted v) | Inr z' \<Rightarrow> \<exists>s'. foldE sys_call cs s = Inr s' \<and> in_zone z' s'"
  using assms
proof (induction cs arbitrary: z s)
  case Nil
  then show ?case by simp
next
  case (Cons c cs)
  show ?case
  proof (cases "allowed c (fst z)")
    case True
    obtain s1 where s1: "sys_call c s = Inr s1" "in_zone (moves c z) s1" "y_k s1 = y_k s"
      using sys_call_allowed[of "fst z" "snd z" s c] True Cons.prems by auto
    moreover have "depth (fst (moves c z)) + length cs \<le> 2147483647" using depth_moves[of c z] Cons.prems(3) by simp
    ultimately show ?thesis using Cons.IH[OF s1(2)] Cons.prems(2) True by (auto split: sum.splits)
  next
    case False
    then show ?thesis using sys_call_misplaced[of "fst z" "snd z" s c] Cons.prems(1) by simp
  qed
qed

text \<open>
  Entering a critical zone from any context and leaving it again. Not so where interrupts are suspended: the mask
  tells that the zone is locked, the counters that it is not.
\<close>

fun critical :: "zone \<Rightarrow> zone" where
  "critical (Isr n) = ILocked n"
| "critical (ILocked n) = ILocked n"
| "critical _ = Locked"

lemma status_lock:
  assumes "in_zone (z, off) s" "z \<noteq> Suspended"
  shows "\<exists>s1. chSysGetStatusAndLockX s = Inr (c_basepri (y_cpu s), s1) \<and> in_zone (critical z, off) s1 \<and> y_k s1 = y_k s"
  using assms by (cases z) (auto simp: chSysGetStatusAndLockX_def in_zone_def ports checks Let_def)

lemma status_restore:
  assumes "in_zone (z, off) s" "in_zone (critical z, off) s1" "z \<noteq> Suspended" "sched_inv (y_k s1)"
  shows "\<exists>s2. chSysRestoreStatusX (c_basepri (y_cpu s)) s1 = Inr s2 \<and> in_zone (z, off) s2 \<and>
    (if z = Thread then chSchRescheduleS (y_k s1) = Inr (y_k s2) \<and> sched_ok (y_k s2) else y_k s2 = y_k s1)"
proof -
  obtain k where k: "chSchRescheduleS (y_k s1) = Inr k" "sched_ok k"
    using chSchRescheduleS_ok[OF assms(4)] chSchRescheduleS_highest[OF assms(4)] by blast
  then have "k_ready k = [] \<or> firstprio k \<le> prio k (k_cur k)" by (simp add: sched_ok_def)
  with k assms(1-3) show ?thesis
    by (cases z) (auto simp: chSysRestoreStatusX_def in_zone_def ports checks Let_def)
qed

lemma suspended_not_critical:
  assumes "in_zone (Suspended, off) s"
  shows "chSysGetStatusAndLockX s = Inr (CORTEX_BASEPRI_KERNEL, s)" "chDbgCheckClassI s = Inl (Halted ''SV#10'')"
  using assms by (auto simp: chSysGetStatusAndLockX_def in_zone_def ports checks assertE_def)

section \<open>The trace buffer\<close>

text \<open>
  A record has its kind in 3 bits, a thread state in 5 and the realtime counter in 24, the time and the data of
  its kind. \<open>te_u\<close> is the union. The hook is empty. The time and the counter at the moment of the call are
  arguments \<open>now\<close> and \<open>rt\<close>.
\<close>

datatype trace_u =
    USwitch tid tunion
  | UReady tid msg_t
  | UIsr string
  | UHalt string
  | UUser nat nat

record trace_event_t =
  te_type :: "3 word"
  te_state :: "5 word"
  te_rtstamp :: "24 word"
  te_time :: systime_t
  te_u :: trace_u

record trace_buffer_t =
  tb_suspended :: u16
  tb_size :: u16
  tb_ptr :: nat
  tb_buffer :: "trace_event_t list"

definition CH_DBG_TRACE_BUFFER_SIZE :: nat where "CH_DBG_TRACE_BUFFER_SIZE = 128"

definition CH_DBG_TRACE_MASK_READY :: u16 where "CH_DBG_TRACE_MASK_READY = 1"
definition CH_DBG_TRACE_MASK_SWITCH :: u16 where "CH_DBG_TRACE_MASK_SWITCH = 2"
definition CH_DBG_TRACE_MASK_ISR :: u16 where "CH_DBG_TRACE_MASK_ISR = 4"
definition CH_DBG_TRACE_MASK_HALT :: u16 where "CH_DBG_TRACE_MASK_HALT = 8"
definition CH_DBG_TRACE_MASK_USER :: u16 where "CH_DBG_TRACE_MASK_USER = 16"
definition CH_DBG_TRACE_MASK :: u16 where
  "CH_DBG_TRACE_MASK = CH_DBG_TRACE_MASK_READY OR CH_DBG_TRACE_MASK_SWITCH OR CH_DBG_TRACE_MASK_ISR OR
     CH_DBG_TRACE_MASK_HALT OR CH_DBG_TRACE_MASK_USER"

text \<open>The number of a thread state.\<close>

fun state_num :: "tstate_t \<Rightarrow> nat" where
  "state_num CH_STATE_READY = 0"
| "state_num CH_STATE_CURRENT = 1"
| "state_num CH_STATE_WTSTART = 2"
| "state_num CH_STATE_SUSPENDED = 3"
| "state_num CH_STATE_QUEUED = 4"
| "state_num CH_STATE_WTSEM = 5"
| "state_num CH_STATE_WTMTX = 6"
| "state_num CH_STATE_WTCOND = 7"
| "state_num CH_STATE_SLEEPING = 8"
| "state_num CH_STATE_WTEXIT = 9"
| "state_num CH_STATE_WTOREVT = 10"
| "state_num CH_STATE_WTANDEVT = 11"
| "state_num CH_STATE_SNDMSGQ = 12"
| "state_num CH_STATE_SNDMSG = 13"
| "state_num CH_STATE_WTMSG = 14"
| "state_num CH_STATE_FINAL = 15"

definition trace_entry :: "(trace_event_t \<Rightarrow> trace_event_t) \<Rightarrow> trace_buffer_t \<Rightarrow> trace_buffer_t result" where
  "trace_entry f tb =
     bindE (rd (tb_buffer tb) (int (tb_ptr tb))) (\<lambda>e.
     bindE (wr (tb_buffer tb) (int (tb_ptr tb)) (f e)) (\<lambda>buf.
     Inr (tb\<lparr>tb_buffer := buf\<rparr>)))"

definition trace_next :: "systime_t \<Rightarrow> u32 \<Rightarrow> trace_buffer_t \<Rightarrow> trace_buffer_t result" where
  "trace_next now rt tb =
     bindE (trace_entry (\<lambda>e. e\<lparr>te_time := now, te_rtstamp := ucast rt\<rparr>) tb) (\<lambda>tb.
     let ptr = tb_ptr tb + 1 in
     Inr (tb\<lparr>tb_ptr := (if ptr \<ge> CH_DBG_TRACE_BUFFER_SIZE then 0 else ptr)\<rparr>))"

text \<open>The fields that initialisation does not write keep what they had.\<close>

definition trace_object_init :: "trace_buffer_t \<Rightarrow> trace_buffer_t" where
  "trace_object_init tb = tb\<lparr>tb_suspended := NOT CH_DBG_TRACE_MASK, tb_size := of_nat CH_DBG_TRACE_BUFFER_SIZE, tb_ptr := 0,
     tb_buffer := map (\<lambda>e. e\<lparr>te_type := 0\<rparr>) (tb_buffer tb)\<rparr>"

definition trace_ready :: "systime_t \<Rightarrow> u32 \<Rightarrow> kernel_t \<Rightarrow> tid \<Rightarrow> msg_t \<Rightarrow> trace_buffer_t \<Rightarrow> trace_buffer_t result" where
  "trace_ready now rt k tp msg tb =
     (if tb_suspended tb AND CH_DBG_TRACE_MASK_READY = 0
      then bindE (trace_entry (\<lambda>e. e\<lparr>te_type := 1, te_state := of_nat (state_num (tstate k tp)), te_u := UReady tp msg\<rparr>) tb)
             (trace_next now rt)
      else Inr tb)"

definition trace_switch :: "systime_t \<Rightarrow> u32 \<Rightarrow> kernel_t \<Rightarrow> tid \<Rightarrow> tid \<Rightarrow> trace_buffer_t \<Rightarrow> trace_buffer_t result" where
  "trace_switch now rt k ntp otp tb =
     (if tb_suspended tb AND CH_DBG_TRACE_MASK_SWITCH = 0
      then bindE (trace_entry (\<lambda>e. e\<lparr>te_type := 2, te_state := of_nat (state_num (tstate k otp)), te_u := USwitch ntp (t_u (k_thr k otp))\<rparr>) tb)
             (trace_next now rt)
      else Inr tb)"

definition trace_isr_enter :: "systime_t \<Rightarrow> u32 \<Rightarrow> string \<Rightarrow> trace_buffer_t \<Rightarrow> trace_buffer_t result" where
  "trace_isr_enter now rt isr tb =
     (if tb_suspended tb AND CH_DBG_TRACE_MASK_ISR = 0
      then bindE (trace_entry (\<lambda>e. e\<lparr>te_type := 3, te_state := 0, te_u := UIsr isr\<rparr>) tb) (trace_next now rt)
      else Inr tb)"

definition trace_isr_leave :: "systime_t \<Rightarrow> u32 \<Rightarrow> string \<Rightarrow> trace_buffer_t \<Rightarrow> trace_buffer_t result" where
  "trace_isr_leave now rt isr tb =
     (if tb_suspended tb AND CH_DBG_TRACE_MASK_ISR = 0
      then bindE (trace_entry (\<lambda>e. e\<lparr>te_type := 4, te_state := 0, te_u := UIsr isr\<rparr>) tb) (trace_next now rt)
      else Inr tb)"

definition trace_halt :: "systime_t \<Rightarrow> u32 \<Rightarrow> string \<Rightarrow> trace_buffer_t \<Rightarrow> trace_buffer_t result" where
  "trace_halt now rt reason tb =
     (if tb_suspended tb AND CH_DBG_TRACE_MASK_HALT = 0
      then bindE (trace_entry (\<lambda>e. e\<lparr>te_type := 5, te_state := 0, te_u := UHalt reason\<rparr>) tb) (trace_next now rt)
      else Inr tb)"

definition chTraceWriteI :: "systime_t \<Rightarrow> u32 \<Rightarrow> nat \<Rightarrow> nat \<Rightarrow> trace_buffer_t \<Rightarrow> trace_buffer_t result" where
  "chTraceWriteI now rt up1 up2 tb =
     (if tb_suspended tb AND CH_DBG_TRACE_MASK_USER = 0
      then bindE (trace_entry (\<lambda>e. e\<lparr>te_type := 6, te_state := 0, te_u := UUser up1 up2\<rparr>) tb) (trace_next now rt)
      else Inr tb)"

definition chTraceSuspendI :: "u16 \<Rightarrow> trace_buffer_t \<Rightarrow> trace_buffer_t" where
  "chTraceSuspendI m tb = tb\<lparr>tb_suspended := tb_suspended tb OR m\<rparr>"

definition chTraceResumeI :: "u16 \<Rightarrow> trace_buffer_t \<Rightarrow> trace_buffer_t" where
  "chTraceResumeI m tb = tb\<lparr>tb_suspended := tb_suspended tb AND (NOT m)\<rparr>"

text \<open>Everything that can be traced, and the record each leaves.\<close>

datatype trace_src =
    TReady tid msg_t
  | TSwitch tid tid
  | TEnter string
  | TLeave string
  | THalt string
  | TUser nat nat

fun trace_op :: "kernel_t \<times> systime_t \<times> u32 \<times> trace_src \<Rightarrow> trace_buffer_t \<Rightarrow> trace_buffer_t result" where
  "trace_op (k, now, rt, TReady tp msg) tb = trace_ready now rt k tp msg tb"
| "trace_op (k, now, rt, TSwitch ntp otp) tb = trace_switch now rt k ntp otp tb"
| "trace_op (k, now, rt, TEnter isr) tb = trace_isr_enter now rt isr tb"
| "trace_op (k, now, rt, TLeave isr) tb = trace_isr_leave now rt isr tb"
| "trace_op (k, now, rt, THalt reason) tb = trace_halt now rt reason tb"
| "trace_op (k, now, rt, TUser up1 up2) tb = chTraceWriteI now rt up1 up2 tb"

fun src_bit :: "trace_src \<Rightarrow> nat" where
  "src_bit (TReady _ _) = 0"
| "src_bit (TSwitch _ _) = 1"
| "src_bit (TEnter _) = 2"
| "src_bit (TLeave _) = 2"
| "src_bit (THalt _) = 3"
| "src_bit (TUser _ _) = 4"

fun src_event :: "kernel_t \<times> systime_t \<times> u32 \<times> trace_src \<Rightarrow> trace_event_t" where
  "src_event (k, now, rt, TReady tp msg) =
     \<lparr>te_type = 1, te_state = of_nat (state_num (tstate k tp)), te_rtstamp = ucast rt, te_time = now, te_u = UReady tp msg\<rparr>"
| "src_event (k, now, rt, TSwitch ntp otp) =
     \<lparr>te_type = 2, te_state = of_nat (state_num (tstate k otp)), te_rtstamp = ucast rt, te_time = now, te_u = USwitch ntp (t_u (k_thr k otp))\<rparr>"
| "src_event (k, now, rt, TEnter isr) = \<lparr>te_type = 3, te_state = 0, te_rtstamp = ucast rt, te_time = now, te_u = UIsr isr\<rparr>"
| "src_event (k, now, rt, TLeave isr) = \<lparr>te_type = 4, te_state = 0, te_rtstamp = ucast rt, te_time = now, te_u = UIsr isr\<rparr>"
| "src_event (k, now, rt, THalt reason) = \<lparr>te_type = 5, te_state = 0, te_rtstamp = ucast rt, te_time = now, te_u = UHalt reason\<rparr>"
| "src_event (k, now, rt, TUser up1 up2) = \<lparr>te_type = 6, te_state = 0, te_rtstamp = ucast rt, te_time = now, te_u = UUser up1 up2\<rparr>"

definition trace_ok :: "trace_buffer_t \<Rightarrow> bool" where
  "trace_ok tb \<longleftrightarrow> length (tb_buffer tb) = CH_DBG_TRACE_BUFFER_SIZE \<and> tb_ptr tb < CH_DBG_TRACE_BUFFER_SIZE"

text \<open>The records from the oldest to the newest: the one at \<open>ptr\<close> is the next to be overwritten.\<close>

definition trace_contents :: "trace_buffer_t \<Rightarrow> trace_event_t list" where
  "trace_contents tb = ring_contents (tb_buffer tb) (tb_ptr tb) (length (tb_buffer tb))"

lemma ring_overwrite:
  assumes "p < length buf"
  shows "ring_contents (buf[p := x]) (ring_next buf p) (length buf) = tl (ring_contents buf p (length buf)) @ [x]"
proof -
  have o: "ring_ok buf p p (length buf)" using assms by (simp add: ring_ok_def)
  have l: "0 < length buf" using assms by linarith
  have "ring_contents (buf[p := x]) (ring_next buf p) (length buf - 1 + 1) = ring_contents buf (ring_next buf p) (length buf - 1) @ [x]"
    by (rule ring_put(3)[OF ring_get(1)[OF o l]]) (use l in linarith)
  then show ?thesis using ring_get(3)[OF o l] l by simp
qed

lemma trace_write:
  assumes "trace_ok tb" "\<And>e. (f e)\<lparr>te_time := now, te_rtstamp := ucast rt\<rparr> = x"
  shows "\<exists>tb'. bindE (trace_entry f tb) (trace_next now rt) = Inr tb' \<and> trace_ok tb' \<and> tb_suspended tb' = tb_suspended tb \<and>
    trace_contents tb' = tl (trace_contents tb) @ [x]"
proof -
  have p: "tb_ptr tb < length (tb_buffer tb)" using assms(1) by (simp add: trace_ok_def)
  let ?tb = "tb\<lparr>tb_buffer := (tb_buffer tb)[tb_ptr tb := x], tb_ptr := ring_next (tb_buffer tb) (tb_ptr tb)\<rparr>"
  have "bindE (trace_entry f tb) (trace_next now rt) = Inr ?tb"
    using assms p by (simp add: trace_entry_def trace_next_def rd_nat_ok wr_nat_ok trace_ok_def Let_def ring_next_def)
  moreover have "trace_ok ?tb" using assms(1) by (auto simp: trace_ok_def ring_next_def CH_DBG_TRACE_BUFFER_SIZE_def)
  ultimately show ?thesis using ring_overwrite[OF p, of x] by (simp add: trace_contents_def)
qed

lemma trace_masks:
  "w AND CH_DBG_TRACE_MASK_READY = 0 \<longleftrightarrow> \<not> bit w 0" "w AND CH_DBG_TRACE_MASK_SWITCH = 0 \<longleftrightarrow> \<not> bit w 1"
  "w AND CH_DBG_TRACE_MASK_ISR = 0 \<longleftrightarrow> \<not> bit w 2" "w AND CH_DBG_TRACE_MASK_HALT = 0 \<longleftrightarrow> \<not> bit w 3"
  "w AND CH_DBG_TRACE_MASK_USER = 0 \<longleftrightarrow> \<not> bit w 4"
  using and_exp_eq_0_iff_not_bit[of w 0] and_exp_eq_0_iff_not_bit[of w 1] and_exp_eq_0_iff_not_bit[of w 2]
    and_exp_eq_0_iff_not_bit[of w 3] and_exp_eq_0_iff_not_bit[of w 4]
  by (simp_all add: CH_DBG_TRACE_MASK_READY_def CH_DBG_TRACE_MASK_SWITCH_def CH_DBG_TRACE_MASK_ISR_def
      CH_DBG_TRACE_MASK_HALT_def CH_DBG_TRACE_MASK_USER_def)

lemmas trace_defs = trace_ready_def trace_switch_def trace_isr_enter_def trace_isr_leave_def trace_halt_def chTraceWriteI_def

lemma trace_op_ok:
  assumes "trace_ok tb"
  shows "\<exists>tb'. trace_op c tb = Inr tb' \<and> trace_ok tb' \<and> tb_suspended tb' = tb_suspended tb \<and>
    trace_contents tb' = (if bit (tb_suspended tb) (src_bit (snd (snd (snd c)))) then trace_contents tb
                          else tl (trace_contents tb) @ [src_event c])"
proof -
  obtain k now rt x where c: "c = (k, now, rt, x)" by (cases c) auto
  show ?thesis
    unfolding c by (cases x) (auto simp: trace_defs trace_masks assms intro!: trace_write[OF assms])
qed

text \<open>After any sequence of events the buffer holds the last ones of what it held and of what was recorded.\<close>

lemma trace_run_ok:
  assumes "trace_ok tb"
  shows "\<exists>tb'. foldE trace_op cs tb = Inr tb' \<and> trace_ok tb' \<and> tb_suspended tb' = tb_suspended tb \<and>
    trace_contents tb' =
      (let es = map src_event (filter (\<lambda>c. \<not> bit (tb_suspended tb) (src_bit (snd (snd (snd c))))) cs)
       in drop (length es) (trace_contents tb @ es))"
  using assms
proof (induction cs arbitrary: tb)
  case Nil
  then show ?case by simp
next
  case (Cons c cs)
  obtain tb1 where t: "trace_op c tb = Inr tb1" "trace_ok tb1" "tb_suspended tb1 = tb_suspended tb"
      "trace_contents tb1 = (if bit (tb_suspended tb) (src_bit (snd (snd (snd c)))) then trace_contents tb
                             else tl (trace_contents tb) @ [src_event c])"
    using trace_op_ok[OF Cons.prems, of c] by blast
  have "trace_contents tb \<noteq> []"
    using Cons.prems by (auto simp: trace_contents_def trace_ok_def ring_contents_def CH_DBG_TRACE_BUFFER_SIZE_def)
  then obtain e es where "trace_contents tb = e # es" by (cases "trace_contents tb") auto
  with Cons.IH[OF t(2)] t show ?case by (auto simp: Let_def simp del: drop_append)
qed

lemma trace_init_ok:
  assumes "length (tb_buffer tb) = CH_DBG_TRACE_BUFFER_SIZE"
  shows "trace_ok (trace_object_init tb)" "i < 5 \<Longrightarrow> \<not> bit (tb_suspended (trace_object_init tb)) i"
    "\<forall>e \<in> set (trace_contents (trace_object_init tb)). te_type e = 0"
proof -
  show "trace_ok (trace_object_init tb)"
    using assms by (simp add: trace_ok_def trace_object_init_def CH_DBG_TRACE_BUFFER_SIZE_def)
  show "i < 5 \<Longrightarrow> \<not> bit (tb_suspended (trace_object_init tb)) i"
    by (auto simp: trace_object_init_def CH_DBG_TRACE_MASK_def CH_DBG_TRACE_MASK_READY_def CH_DBG_TRACE_MASK_SWITCH_def
        CH_DBG_TRACE_MASK_ISR_def CH_DBG_TRACE_MASK_HALT_def CH_DBG_TRACE_MASK_USER_def bit_simps less_Suc_eq numeral_eq_Suc)
  show "\<forall>e \<in> set (trace_contents (trace_object_init tb)). te_type e = 0"
    using assms by (auto simp: trace_contents_def ring_contents_def trace_object_init_def CH_DBG_TRACE_BUFFER_SIZE_def)
qed

section \<open>Time measurement\<close>

record time_measurement_t =
  tm_best :: u32
  tm_worst :: u32
  tm_last :: u32
  tm_n :: u32
  tm_cumulative :: u64

definition chTMObjectInit :: time_measurement_t where
  "chTMObjectInit = \<lparr>tm_best = - 1, tm_worst = 0, tm_last = 0, tm_n = 0, tm_cumulative = 0\<rparr>"

definition tm_stop :: "u32 \<Rightarrow> u32 \<Rightarrow> time_measurement_t \<Rightarrow> time_measurement_t" where
  "tm_stop now offset tm =
     (let tm = tm\<lparr>tm_n := tm_n tm + 1\<rparr>;
          tm = tm\<lparr>tm_last := (now - tm_last tm) - offset\<rparr>;
          tm = tm\<lparr>tm_cumulative := tm_cumulative tm + ucast (tm_last tm)\<rparr>;
          tm = (if tm_last tm > tm_worst tm then tm\<lparr>tm_worst := tm_last tm\<rparr> else tm) in
      if tm_last tm < tm_best tm then tm\<lparr>tm_best := tm_last tm\<rparr> else tm)"

definition chTMStartMeasurementX :: "u32 \<Rightarrow> time_measurement_t \<Rightarrow> time_measurement_t" where
  "chTMStartMeasurementX rt tm = tm\<lparr>tm_last := rt\<rparr>"

definition chTMStopMeasurementX :: "u32 \<Rightarrow> u32 \<Rightarrow> time_measurement_t \<Rightarrow> time_measurement_t" where
  "chTMStopMeasurementX rt offset tm = tm_stop rt offset tm"

text \<open>The two measurements are different objects.\<close>

definition chTMChainMeasurementToX :: "u32 \<Rightarrow> time_measurement_t \<times> time_measurement_t \<Rightarrow> time_measurement_t \<times> time_measurement_t" where
  "chTMChainMeasurementToX rt = (\<lambda>(tm1, tm2).
     let tm2 = tm2\<lparr>tm_last := rt\<rparr> in
     (tm_stop (tm_last tm2) 0 tm1, tm2))"

definition tm_measure :: "u32 \<Rightarrow> u32 \<times> u32 \<Rightarrow> time_measurement_t \<Rightarrow> time_measurement_t" where
  "tm_measure offset = (\<lambda>(t0, t1) tm. chTMStopMeasurementX t1 offset (chTMStartMeasurementX t0 tm))"

text \<open>Calibration: four null measurements without an offset; the argument gives the readings of the counter.\<close>

definition TM_CALIBRATION_LOOP :: nat where "TM_CALIBRATION_LOOP = 4"

definition tm_calibration_object_init :: "(nat \<Rightarrow> u32) \<Rightarrow> u32" where
  "tm_calibration_object_init rt =
     tm_best (fold (\<lambda>i. tm_measure 0 (rt (2 * i), rt (2 * i + 1))) [0..<TM_CALIBRATION_LOOP] chTMObjectInit)"

text \<open>What a measurement object says after measurements of \<open>ds\<close> cycles each.\<close>

definition tm_says :: "nat list \<Rightarrow> time_measurement_t \<Rightarrow> bool" where
  "tm_says ds tm \<longleftrightarrow> unat (tm_n tm) = length ds \<and> unat (tm_cumulative tm) = sum_list ds \<and>
     unat (tm_worst tm) = Max (insert 0 (set ds)) \<and> unat (tm_best tm) = Min (insert (2 ^ 32 - 1) (set ds))"

lemma tm_says_init: "tm_says [] chTMObjectInit"
  by (simp add: tm_says_def chTMObjectInit_def unsigned_minus_1_eq_mask mask_eq_exp_minus_1)

lemma sum_list_bound: "(\<And>d. d \<in> set ds \<Longrightarrow> d < 2 ^ 32) \<Longrightarrow> sum_list ds \<le> length ds * (2 ^ 32 - 1 :: nat)"
proof (induction ds)
  case (Cons d ds)
  have "d \<le> 2 ^ 32 - 1" using Cons.prems[of d] by simp
  moreover have "sum_list ds \<le> length ds * (2 ^ 32 - 1)" using Cons by simp
  ultimately show ?case by simp
qed simp

lemma unat_ucast_wide: "unat (ucast (w :: u32) :: u64) = unat w"
  by transfer (simp add: take_bit_take_bit)

text \<open>A measurement is the number of cycles between its two readings less the offset, also when the counter wraps between them.\<close>

lemma elapsed:
  assumes "t1 = t0 + of_nat e" "e < 2 ^ 32" "unat offset \<le> e"
  shows "unat (t1 - t0 - offset :: u32) = e - unat offset"
proof -
  have u: "unat (of_nat e :: u32) = e" using assms(2) by (simp add: unsigned_of_nat take_bit_nat_eq_self)
  have "t1 - t0 - offset = of_nat e - offset" using assms(1) by simp
  moreover have "offset \<le> of_nat e" using assms(3) u by (simp add: word_le_nat_alt)
  ultimately show ?thesis using u by (simp add: unat_sub)
qed

lemma tm_measure_fields:
  "tm_n (tm_measure offset (t0, t1) tm) = tm_n tm + 1"
  "tm_cumulative (tm_measure offset (t0, t1) tm) = tm_cumulative tm + ucast (t1 - t0 - offset)"
  "unat (tm_worst (tm_measure offset (t0, t1) tm)) = max (unat (t1 - t0 - offset)) (unat (tm_worst tm))"
  "unat (tm_best (tm_measure offset (t0, t1) tm)) = min (unat (t1 - t0 - offset)) (unat (tm_best tm))"
  by (auto simp: tm_measure_def chTMStopMeasurementX_def chTMStartMeasurementX_def tm_stop_def Let_def word_less_nat_alt)

lemma tm_measure_says:
  assumes "tm_says ds tm" "t1 = t0 + of_nat e" "e < 2 ^ 32" "unat offset \<le> e"
    and d: "\<And>d. d \<in> set ds \<Longrightarrow> d < 2 ^ 32" "Suc (length ds) < 2 ^ 32"
  shows "tm_says ((e - unat offset) # ds) (tm_measure offset (t0, t1) tm)"
proof -
  let ?d = "t1 - t0 - offset"
  note el = elapsed[OF assms(2-4)]
  have "unat (tm_n tm + 1) = Suc (length ds)"
    using assms(1) d(2) by (simp add: tm_says_def unat_word_ariths)
  moreover have "sum_list ((e - unat offset) # ds) \<le> length ((e - unat offset) # ds) * (2 ^ 32 - 1)"
    using d(1) assms(3) by (intro sum_list_bound) auto
  then have "sum_list ds + (e - unat offset) < 2 ^ 64"
    using d(2) by simp
  then have "unat (tm_cumulative tm + ucast ?d) = sum_list ds + (e - unat offset)"
    using assms(1) el by (simp add: tm_says_def unat_word_ariths unat_ucast_wide)
  moreover have "Max (insert 0 (set ((e - unat offset) # ds))) = max (e - unat offset) (Max (insert 0 (set ds)))"
    "Min (insert (2 ^ 32 - 1) (set ((e - unat offset) # ds))) = min (e - unat offset) (Min (insert (2 ^ 32 - 1) (set ds)))"
    by (simp_all add: insert_commute[of _ "e - unat offset"])
  ultimately show ?thesis
    using assms(1) unfolding tm_says_def tm_measure_fields el by simp
qed

lemma tm_run_says:
  assumes "\<forall>(t0, e) \<in> set ms. unat offset \<le> e \<and> e < 2 ^ 32" "length ms < 2 ^ 32"
  shows "tm_says (map (\<lambda>(t0, e). e - unat offset) (rev ms))
    (fold (\<lambda>(t0, e). tm_measure offset (t0, t0 + of_nat e)) ms chTMObjectInit)"
  using assms
proof (induction ms rule: rev_induct)
  case Nil
  then show ?case by (simp add: tm_says_init)
next
  case (snoc m ms)
  obtain t0 e where m: "m = (t0, e)" by (cases m)
  have "d < 2 ^ 32" if "d \<in> set (map (\<lambda>(t0, e). e - unat offset) (rev ms))" for d
    using that snoc.prems(1) by fastforce
  then have "tm_says ((e - unat offset) # map (\<lambda>(t0, e). e - unat offset) (rev ms)) (tm_measure offset (t0, t0 + of_nat e)
      (fold (\<lambda>(t0, e). tm_measure offset (t0, t0 + of_nat e)) ms chTMObjectInit))"
    using snoc.IH snoc.prems m by (intro tm_measure_says[where e = e]) auto
  then show ?case using m by simp
qed

lemma tm_calibration_ok:
  assumes "\<And>i. i < 4 \<Longrightarrow> rt (2 * i + 1) = rt (2 * i) + of_nat (e i) \<and> e i < 2 ^ 32"
  shows "unat (tm_calibration_object_init rt) = Min (e ` {..<4})"
proof -
  let ?ms = "map (\<lambda>i. (rt (2 * i), e i)) [0..<4]"
  have "fold (\<lambda>i. tm_measure 0 (rt (2 * i), rt (2 * i + 1))) [0..<4] chTMObjectInit =
      fold (\<lambda>(t0, e). tm_measure 0 (t0, t0 + of_nat e)) ?ms chTMObjectInit"
    unfolding fold_map by (rule fold_cong) (use assms in auto)
  moreover have "tm_says (map (\<lambda>(t0, e). e - unat (0 :: u32)) (rev ?ms)) (fold (\<lambda>(t0, e). tm_measure 0 (t0, t0 + of_nat e)) ?ms chTMObjectInit)"
    by (rule tm_run_says) (use assms in auto)
  ultimately have "unat (tm_calibration_object_init rt) = Min (insert (2 ^ 32 - 1) (e ` {..<4}))"
    by (simp add: tm_calibration_object_init_def TM_CALIBRATION_LOOP_def tm_says_def rev_map comp_def lessThan_atLeast0)
  also have "\<dots> = min (2 ^ 32 - 1) (Min (e ` {..<4}))" by (rule Min_insert) (auto simp: lessThan_empty_iff)
  finally have "unat (tm_calibration_object_init rt) = min (2 ^ 32 - 1) (Min (e ` {..<4}))" .
  moreover have "Min (e ` {..<4}) \<le> e 0" by (rule Min_le) auto
  moreover have "e 0 < 2 ^ 32" using assms[of 0] by simp
  ultimately show ?thesis by linarith
qed

section \<open>Polled delays\<close>

definition chSysIsCounterWithinX :: "u32 \<Rightarrow> u32 \<Rightarrow> u32 \<Rightarrow> bool" where
  "chSysIsCounterWithinX cnt start stop \<longleftrightarrow> cnt - start < stop - start"

text \<open>The readings of the counter are an argument; the result is the number of the reading that ended the wait.\<close>

partial_function (option) polled_loop :: "(nat \<Rightarrow> u32) \<Rightarrow> u32 \<Rightarrow> u32 \<Rightarrow> nat \<Rightarrow> nat option" where
  "polled_loop rt start stop i =
     (if chSysIsCounterWithinX (rt i) start stop then polled_loop rt start stop (i + 1) else Some i)"

definition chSysPolledDelayX :: "u32 \<Rightarrow> (nat \<Rightarrow> u32) \<Rightarrow> nat option" where
  "chSysPolledDelayX cycles rt =
     (let start = rt 0; stop = start + cycles in
      polled_loop rt start stop 1)"

lemma counter_within:
  assumes "e < 2 ^ 32"
  shows "chSysIsCounterWithinX (start + of_nat e) start (start + cycles) \<longleftrightarrow> e < unat cycles"
  using assms by (simp add: chSysIsCounterWithinX_def word_less_nat_alt unsigned_of_nat take_bit_nat_eq_self)

lemma polled_loop_ends:
  assumes "\<And>j. i \<le> j \<Longrightarrow> j < n \<Longrightarrow> chSysIsCounterWithinX (rt j) start stop" "\<not> chSysIsCounterWithinX (rt n) start stop" "i \<le> n"
  shows "polled_loop rt start stop i = Some n"
  using assms(3,1)
proof (induction i rule: inc_induct)
  case base
  then show ?case using assms(2) by (simp add: polled_loop.simps)
next
  case (step i)
  then show ?case by (subst polled_loop.simps) simp
qed

text \<open>
  The wait ends, if the counter advances and two readings are never so far apart that the end of the window and
  its beginning after a wrap can both lie between them.
\<close>

lemma polled_delay_ok:
  assumes rt: "\<And>i. rt i = rt 0 + of_nat (e i)" and e: "e 0 = 0" "\<And>i. e i \<le> e (Suc i)" "\<And>i. e (Suc i) - e i \<le> 2 ^ 32 - 1 - unat cycles"
    and adv: "\<exists>i. unat cycles \<le> e i"
  shows "\<exists>n. chSysPolledDelayX cycles rt = Some n \<and> unat cycles \<le> e n \<and> 0 < n \<and> (\<forall>j < n. 0 < j \<longrightarrow> e j < unat cycles)"
proof -
  define n where "n = (LEAST i. 0 < i \<and> unat cycles \<le> e i)"
  obtain i where "unat cycles \<le> e i" using adv by blast
  then have ex: "0 < Suc i \<and> unat cycles \<le> e (Suc i)" using e(2)[of i] by linarith
  have n: "0 < n" "unat cycles \<le> e n" unfolding n_def using LeastI[of "\<lambda>i. 0 < i \<and> unat cycles \<le> e i", OF ex] by simp_all
  have less: "e j < unat cycles" if "0 < j" "j < n" for j
    using not_less_Least[of j "\<lambda>i. 0 < i \<and> unat cycles \<le> e i"] that unfolding n_def by auto
  have c: "unat cycles < 2 ^ 32" using unsigned_less[of cycles] by simp
  have "e (n - 1) \<le> unat cycles" using less[of "n - 1"] n(1) e(1) by (cases "n = 1") auto
  then have "e n < 2 ^ 32" using e(3)[of "n - 1"] n(1) c by simp
  then have "\<not> chSysIsCounterWithinX (rt n) (rt 0) (rt 0 + cycles)" using counter_within[of "e n" "rt 0" cycles] rt[of n] n(2) by simp
  moreover have "chSysIsCounterWithinX (rt j) (rt 0) (rt 0 + cycles)" if "1 \<le> j" "j < n" for j
  proof -
    have "e j < unat cycles" using less that by simp
    moreover from this c have "e j < 2 ^ 32" by linarith
    ultimately show ?thesis using counter_within[of "e j" "rt 0" cycles] rt[of j] by simp
  qed
  ultimately have "chSysPolledDelayX cycles rt = Some n"
    unfolding chSysPolledDelayX_def Let_def using n(1) by (intro polled_loop_ends) auto
  with n less show ?thesis by blast
qed

end
