(* ===== verification/Ch_Lists.thy ===== *)
theory Ch_Lists
  imports Ch_Vt
begin

text \<open>
  The linked structures under the kernel: \<^verbatim>\<open>chlists.h\<close> and \<open>ch_sch_prio_insert\<close> of \<^verbatim>\<open>chschd.c\<close>,
  statement by statement on a store of links, and the proof that they implement the operations on
  lists with which the other theories describe queues, the ready list and the delta list of the timers.
  The names carry the suffix \<open>_ptr\<close>, the bare ones being those of the list operations.
\<close>

section \<open>Store\<close>

text \<open>The fields of the headers and elements, by address: those of \<open>ch_queue\<close>, \<open>ch_priority_queue\<close> and \<open>ch_delta_list\<close>.\<close>

record links_t =
  l_next :: "nat \<Rightarrow> nat"
  l_prev :: "nat \<Rightarrow> nat"
  l_prio :: "nat \<Rightarrow> nat"
  l_delta :: "nat \<Rightarrow> sysinterval_t"

definition set_next :: "nat \<Rightarrow> nat \<Rightarrow> links_t \<Rightarrow> links_t" where
  "set_next p q m = m\<lparr>l_next := (l_next m)(p := q)\<rparr>"

definition set_prev :: "nat \<Rightarrow> nat \<Rightarrow> links_t \<Rightarrow> links_t" where
  "set_prev p q m = m\<lparr>l_prev := (l_prev m)(p := q)\<rparr>"

definition set_delta :: "nat \<Rightarrow> sysinterval_t \<Rightarrow> links_t \<Rightarrow> links_t" where
  "set_delta p d m = m\<lparr>l_delta := (l_delta m)(p := d)\<rparr>"

section \<open>Lists and queues\<close>

definition ch_list_init_ptr :: "nat \<Rightarrow> links_t \<Rightarrow> links_t" where
  "ch_list_init_ptr lp m = set_next lp lp m"

definition ch_list_isempty_ptr :: "nat \<Rightarrow> links_t \<Rightarrow> bool" where
  "ch_list_isempty_ptr lp m \<longleftrightarrow> l_next m lp = lp"

definition ch_list_notempty_ptr :: "nat \<Rightarrow> links_t \<Rightarrow> bool" where
  "ch_list_notempty_ptr lp m \<longleftrightarrow> l_next m lp \<noteq> lp"

definition ch_list_link_ptr :: "nat \<Rightarrow> nat \<Rightarrow> links_t \<Rightarrow> links_t" where
  "ch_list_link_ptr lp p m =
     (let m = set_next p (l_next m lp) m in
      set_next lp p m)"

definition ch_list_unlink_ptr :: "nat \<Rightarrow> links_t \<Rightarrow> nat \<times> links_t" where
  "ch_list_unlink_ptr lp m =
     (let p = l_next m lp;
          m = set_next lp (l_next m p) m in
      (p, m))"

definition ch_queue_init_ptr :: "nat \<Rightarrow> links_t \<Rightarrow> links_t" where
  "ch_queue_init_ptr qp m =
     (let m = set_next qp qp m in
      set_prev qp qp m)"

definition ch_queue_isempty_ptr :: "nat \<Rightarrow> links_t \<Rightarrow> bool" where
  "ch_queue_isempty_ptr qp m \<longleftrightarrow> l_next m qp = qp"

definition ch_queue_notempty_ptr :: "nat \<Rightarrow> links_t \<Rightarrow> bool" where
  "ch_queue_notempty_ptr qp m \<longleftrightarrow> l_next m qp \<noteq> qp"

definition ch_queue_insert_ptr :: "nat \<Rightarrow> nat \<Rightarrow> links_t \<Rightarrow> links_t" where
  "ch_queue_insert_ptr qp p m =
     (let m = set_next p qp m;
          m = set_prev p (l_prev m qp) m;
          m = set_next (l_prev m p) p m in
      set_prev qp p m)"

definition ch_queue_fifo_remove_ptr :: "nat \<Rightarrow> links_t \<Rightarrow> nat \<times> links_t" where
  "ch_queue_fifo_remove_ptr qp m =
     (let p = l_next m qp;
          m = set_next qp (l_next m p) m;
          m = set_prev (l_next m qp) qp m in
      (p, m))"

definition ch_queue_lifo_remove_ptr :: "nat \<Rightarrow> links_t \<Rightarrow> nat \<times> links_t" where
  "ch_queue_lifo_remove_ptr qp m =
     (let p = l_prev m qp;
          m = set_prev qp (l_prev m p) m;
          m = set_next (l_prev m qp) qp m in
      (p, m))"

definition ch_queue_dequeue_ptr :: "nat \<Rightarrow> links_t \<Rightarrow> nat \<times> links_t" where
  "ch_queue_dequeue_ptr p m =
     (let m = set_next (l_prev m p) (l_next m p) m;
          m = set_prev (l_next m p) (l_prev m p) m in
      (p, m))"

section \<open>Priority queues\<close>

definition ch_pqueue_init_ptr :: "nat \<Rightarrow> links_t \<Rightarrow> links_t" where
  "ch_pqueue_init_ptr pqp m =
     (let m = set_next pqp pqp m;
          m = set_prev pqp pqp m in
      m\<lparr>l_prio := (l_prio m)(pqp := 0)\<rparr>)"

definition ch_pqueue_remove_highest_ptr :: "nat \<Rightarrow> links_t \<Rightarrow> nat \<times> links_t" where
  "ch_pqueue_remove_highest_ptr pqp m =
     (let p = l_next m pqp;
          m = set_next pqp (l_next m p) m;
          m = set_prev (l_next m pqp) pqp m in
      (p, m))"

text \<open>
  The loops that look for the place of an element go on to the next one while \<open>goes\<close> holds; nothing in
  them bounds the search, so they are partial functions. The four assignments after them are those of
  \<open>ch_queue_insert\<close>, with the place that was found for the header.
\<close>

partial_function (option) pq_scan :: "(nat \<Rightarrow> bool) \<Rightarrow> links_t \<Rightarrow> nat \<Rightarrow> nat option" where
  "pq_scan goes m pqp =
     (let pqp = l_next m pqp in
      if goes pqp then pq_scan goes m pqp else Some pqp)"

definition pq_place :: "(nat \<Rightarrow> bool) \<Rightarrow> nat \<Rightarrow> nat \<Rightarrow> links_t \<Rightarrow> (nat \<times> links_t) result" where
  "pq_place goes pqp p m =
     bindE (finished (map_option Inr (pq_scan goes m pqp))) (\<lambda>pqp.
     Inr (p, ch_queue_insert_ptr pqp p m))"

definition ch_pqueue_insert_behind_ptr :: "nat \<Rightarrow> nat \<Rightarrow> links_t \<Rightarrow> (nat \<times> links_t) result" where
  "ch_pqueue_insert_behind_ptr pqp p m = pq_place (\<lambda>q. l_prio m q \<ge> l_prio m p) pqp p m"

definition ch_pqueue_insert_ahead_ptr :: "nat \<Rightarrow> nat \<Rightarrow> links_t \<Rightarrow> (nat \<times> links_t) result" where
  "ch_pqueue_insert_ahead_ptr pqp p m = pq_place (\<lambda>q. l_prio m q > l_prio m p) pqp p m"

definition ch_sch_prio_insert_ptr :: "nat \<Rightarrow> nat \<Rightarrow> links_t \<Rightarrow> (nat \<times> links_t) result" where
  "ch_sch_prio_insert_ptr qp tp m = pq_place (\<lambda>cp. cp \<noteq> qp \<and> l_prio m cp \<ge> l_prio m tp) qp tp m"

section \<open>Delta lists\<close>

definition ch_dlist_init_ptr :: "nat \<Rightarrow> links_t \<Rightarrow> links_t" where
  "ch_dlist_init_ptr dlhp m =
     (let m = set_next dlhp dlhp m;
          m = set_prev dlhp dlhp m in
      set_delta dlhp (- 1) m)"

definition ch_dlist_isempty_ptr :: "nat \<Rightarrow> links_t \<Rightarrow> bool" where
  "ch_dlist_isempty_ptr dlhp m \<longleftrightarrow> dlhp = l_next m dlhp"

definition ch_dlist_notempty_ptr :: "nat \<Rightarrow> links_t \<Rightarrow> bool" where
  "ch_dlist_notempty_ptr dlhp m \<longleftrightarrow> dlhp \<noteq> l_next m dlhp"

definition ch_dlist_islast_ptr :: "nat \<Rightarrow> nat \<Rightarrow> links_t \<Rightarrow> bool" where
  "ch_dlist_islast_ptr dlhp dlp m \<longleftrightarrow> l_next m dlp = dlhp"

definition ch_dlist_isfirst_ptr :: "nat \<Rightarrow> nat \<Rightarrow> links_t \<Rightarrow> bool" where
  "ch_dlist_isfirst_ptr dlhp dlp m \<longleftrightarrow> l_next m dlhp = dlp"

definition ch_dlist_insert_after_ptr :: "nat \<Rightarrow> nat \<Rightarrow> sysinterval_t \<Rightarrow> links_t \<Rightarrow> links_t" where
  "ch_dlist_insert_after_ptr dlhp dlp delta m =
     (let m = set_delta dlp delta m;
          m = set_prev dlp dlhp m;
          m = set_next dlp (l_next m (l_prev m dlp)) m;
          m = set_prev (l_next m dlp) dlp m in
      set_next dlhp dlp m)"

definition ch_dlist_insert_before_ptr :: "nat \<Rightarrow> nat \<Rightarrow> sysinterval_t \<Rightarrow> links_t \<Rightarrow> links_t" where
  "ch_dlist_insert_before_ptr dlhp dlp delta m =
     (let m = set_delta dlp delta m;
          m = set_next dlp dlhp m;
          m = set_prev dlp (l_prev m (l_next m dlp)) m;
          m = set_next (l_prev m dlp) dlp m in
      set_prev dlhp dlp m)"

partial_function (option) dlist_scan ::
  "links_t \<Rightarrow> nat \<Rightarrow> nat \<Rightarrow> sysinterval_t \<Rightarrow> (nat \<times> sysinterval_t) result option" where
  "dlist_scan m dlep dlp delta =
     (if l_delta m dlp < delta
      then if dlp = dlep then Some (Inl (Halted ''element already in list''))
           else dlist_scan m dlep (l_next m dlp) (delta - l_delta m dlp)
      else Some (Inr (dlp, delta)))"

definition ch_dlist_insert_ptr :: "nat \<Rightarrow> nat \<Rightarrow> sysinterval_t \<Rightarrow> links_t \<Rightarrow> links_t result" where
  "ch_dlist_insert_ptr dlhp dlep delta m =
     bindE (finished (dlist_scan m dlep (l_next m dlhp) delta)) (\<lambda>(dlp, delta).
     let m = ch_dlist_insert_before_ptr dlp dlep delta m;
         m = set_delta dlp (l_delta m dlp - delta) m in
     Inr (set_delta dlhp (- 1) m))"

definition ch_dlist_remove_first_ptr :: "nat \<Rightarrow> links_t \<Rightarrow> nat \<times> links_t" where
  "ch_dlist_remove_first_ptr dlhp m =
     (let dlp = l_next m dlhp;
          m = set_next dlhp (l_next m dlp) m;
          m = set_prev (l_next m dlhp) dlhp m in
      (dlp, m))"

definition ch_dlist_dequeue_ptr :: "nat \<Rightarrow> links_t \<Rightarrow> nat \<times> links_t" where
  "ch_dlist_dequeue_ptr dlp m =
     (let m = set_next (l_prev m dlp) (l_next m dlp) m;
          m = set_prev (l_next m dlp) (l_prev m dlp) m in
      (dlp, m))"

text \<open>How \<open>chVTDoResetI\<close> takes a timer that is not the first one out of the list.\<close>

definition dlist_unlink_ptr :: "nat \<Rightarrow> nat \<Rightarrow> links_t \<Rightarrow> links_t" where
  "dlist_unlink_ptr dlhp dlp m =
     (let m = snd (ch_dlist_dequeue_ptr dlp m);
          nx = l_next m dlp;
          m = set_delta nx (l_delta m nx + l_delta m dlp) m;
          m = set_next dlp 0 m in
      set_delta dlhp (- 1) m)"

section \<open>Rings\<close>

text \<open>
  The links lead from \<open>a\<close> through the elements \<open>xs\<close> to \<open>b\<close>, forwards and backwards; a header with its
  elements is a ring, the empty one included.
\<close>

fun chain :: "links_t \<Rightarrow> nat \<Rightarrow> nat list \<Rightarrow> nat \<Rightarrow> bool" where
  "chain m a [] b \<longleftrightarrow> l_next m a = b \<and> l_prev m b = a"
| "chain m a (x # xs) b \<longleftrightarrow> l_next m a = x \<and> l_prev m x = a \<and> chain m x xs b"

definition ring :: "links_t \<Rightarrow> nat \<Rightarrow> nat list \<Rightarrow> bool" where
  "ring m h xs \<longleftrightarrow> distinct (h # xs) \<and> chain m h xs h"

lemmas set_links = set_next_def set_prev_def set_delta_def

lemma chain_append: "chain m a (xs @ y # ys) b \<longleftrightarrow> chain m a xs y \<and> chain m y ys b"
  by (induction xs arbitrary: a) auto

lemma chain_cong:
  assumes "\<And>x. x \<in> insert a (set xs) \<Longrightarrow> l_next m' x = l_next m x" "\<And>x. x \<in> insert b (set xs) \<Longrightarrow> l_prev m' x = l_prev m x"
  shows "chain m' a xs b = chain m a xs b"
  using assms by (induction xs arbitrary: a) auto

lemma chain_ends: "chain m a xs b \<Longrightarrow> l_next m a = hd (xs @ [b]) \<and> l_prev m b = last (a # xs)"
  by (induction xs arbitrary: a) auto

lemma chain_last: "chain m a xs b \<Longrightarrow> l_next m (last (a # xs)) = b"
proof (induction xs arbitrary: a)
  case (Cons x xs)
  from Cons.IH[of x] Cons.prems have "l_next m (last (x # xs)) = b" by (simp only: chain.simps)
  then show ?case by (simp only: last.simps list.distinct if_False)
qed simp

text \<open>Replacing the end of a chain and the link into it.\<close>

lemma chain_end:
  assumes "chain m a xs b" "distinct (a # xs)" "c \<notin> set xs"
    and "\<And>x. x \<in> insert a (set xs) \<Longrightarrow> l_next m' x = (if x = last (a # xs) then c else l_next m x)"
    and "\<And>x. x \<in> set xs \<Longrightarrow> l_prev m' x = l_prev m x" "l_prev m' c = last (a # xs)"
  shows "chain m' a xs c"
  using assms
proof (induction xs arbitrary: a)
  case Nil
  then show ?case by simp
next
  case (Cons x xs)
  have "a \<noteq> last (x # xs)" using Cons.prems(2) last_in_set[of "x # xs"] by fastforce
  with Cons.prems show ?case
    by (auto intro!: Cons.IH simp del: last.simps) (simp add: last_ConsR)+
qed

lemma ring_links:
  assumes "ring m h (xs @ ys)"
  shows "l_next m (last (h # xs)) = hd (ys @ [h])" "l_prev m (hd (ys @ [h])) = last (h # xs)"
proof -
  have "chain m h (xs @ ys) h" using assms by (simp add: ring_def)
  then have "chain m h xs (hd (ys @ [h]))" by (cases ys) (auto simp: chain_append)
  then show "l_prev m (hd (ys @ [h])) = last (h # xs)" "l_next m (last (h # xs)) = hd (ys @ [h])"
    using chain_ends chain_last by blast+
qed

lemma ring_insert:
  assumes r: "ring m h (xs @ ys)" and e: "e \<notin> set (h # xs @ ys)"
    and n: "l_next m' = (l_next m)(e := hd (ys @ [h]), last (h # xs) := e)"
    and p: "l_prev m' = (l_prev m)(e := last (h # xs), hd (ys @ [h]) := e)"
  shows "ring m' h (xs @ e # ys)"
proof -
  have d: "distinct (h # xs @ ys)" and c: "chain m h (xs @ ys) h" using r by (auto simp: ring_def)
  have l: "last (h # xs) \<in> insert h (set xs)" using last_in_set[of "h # xs"] by simp
  have c1: "chain m h xs (hd (ys @ [h]))" using c by (cases ys) (auto simp: chain_append)
  have y: "hd (ys @ [h]) \<notin> set xs \<and> hd (ys @ [h]) \<noteq> e" using d e by (cases ys) auto
  have "chain m' h xs e"
    by (rule chain_end[OF c1]) (use d e y l n p in auto)
  moreover have "chain m' e ys h"
  proof (cases ys)
    case Nil
    then show ?thesis using l e n p by auto
  next
    case (Cons z zs)
    have "chain m z zs h" using c Cons by (simp add: chain_append)
    moreover have "chain m' z zs h = chain m z zs h"
      by (rule chain_cong) (use d e l n p Cons in auto)
    ultimately show ?thesis using Cons l e n p by auto
  qed
  ultimately show ?thesis using d e by (auto simp: ring_def chain_append)
qed

lemma ring_remove:
  assumes r: "ring m h (xs @ e # ys)"
    and n: "l_next m' = (l_next m)(last (h # xs) := hd (ys @ [h]))"
    and p: "l_prev m' = (l_prev m)(hd (ys @ [h]) := last (h # xs))"
  shows "ring m' h (xs @ ys)"
proof -
  have d: "distinct (h # xs @ e # ys)" and c: "chain m h xs e" "chain m e ys h"
    using r by (auto simp: ring_def chain_append)
  have l: "last (h # xs) \<in> insert h (set xs)" using last_in_set[of "h # xs"] by simp
  have y: "hd (ys @ [h]) \<notin> set xs" using d by (cases ys) auto
  have c1: "chain m' h xs (hd (ys @ [h]))"
    by (rule chain_end[OF c(1)]) (use d y l n p in auto)
  have "chain m' h (xs @ ys) h"
  proof (cases ys)
    case Nil
    then show ?thesis using c1 by simp
  next
    case (Cons z zs)
    have "chain m' z zs h = chain m z zs h"
      by (rule chain_cong) (use d l n p Cons in auto)
    then show ?thesis using c(2) c1 Cons by (simp add: chain_append)
  qed
  then show ?thesis using d by (auto simp: ring_def)
qed

text \<open>Rings apart from the addresses that are written stay as they are.\<close>

lemma ring_frame:
  assumes "ring m g zs" "\<And>x. x \<in> set (g # zs) \<Longrightarrow> l_next m' x = l_next m x \<and> l_prev m' x = l_prev m x"
  shows "ring m' g zs"
  using assms chain_cong[of g zs m' m g] by (auto simp: ring_def)

section \<open>The operations on rings\<close>

lemma queue_insert_links:
  assumes "ring m h (xs @ ys)" "e \<notin> set (h # xs @ ys)"
  shows "l_next (ch_queue_insert_ptr (hd (ys @ [h])) e m) = (l_next m)(e := hd (ys @ [h]), last (h # xs) := e)"
    "l_prev (ch_queue_insert_ptr (hd (ys @ [h])) e m) = (l_prev m)(e := last (h # xs), hd (ys @ [h]) := e)"
    "l_prio (ch_queue_insert_ptr (hd (ys @ [h])) e m) = l_prio m"
    "l_delta (ch_queue_insert_ptr (hd (ys @ [h])) e m) = l_delta m"
  using ring_links[OF assms(1)] by (simp_all add: ch_queue_insert_ptr_def set_links Let_def)

lemma dequeue_links:
  assumes "ring m h (xs @ e # ys)"
  shows "l_next m e = hd (ys @ [h])" "l_prev m e = last (h # xs)" "last (h # xs) \<noteq> e" "hd (ys @ [h]) \<noteq> e"
proof -
  show "l_next m e = hd (ys @ [h])" using ring_links(1)[of m h "xs @ [e]" ys] assms by simp
  show "l_prev m e = last (h # xs)" using ring_links(2)[of m h xs "e # ys"] assms by simp
  show "last (h # xs) \<noteq> e" using assms last_in_set[of "h # xs"] by (auto simp: ring_def)
  show "hd (ys @ [h]) \<noteq> e" using assms by (cases ys) (auto simp: ring_def)
qed

text \<open>The ways of taking an element out: from anywhere, from the front and from the back.\<close>

lemma removal_links:
  assumes "ring m h (xs @ e # ys)"
  shows "ch_queue_dequeue_ptr e m =
      (e, m\<lparr>l_next := (l_next m)(last (h # xs) := hd (ys @ [h])), l_prev := (l_prev m)(hd (ys @ [h]) := last (h # xs))\<rparr>)"
    "xs = [] \<Longrightarrow> ch_queue_fifo_remove_ptr h m = ch_queue_dequeue_ptr e m"
    "ys = [] \<Longrightarrow> ch_queue_lifo_remove_ptr h m = ch_queue_dequeue_ptr e m"
  using dequeue_links[OF assms] ring_links[of m h xs "e # ys"] ring_links[of m h "xs @ [e]" ys] assms
  by (auto simp: ch_queue_dequeue_ptr_def ch_queue_fifo_remove_ptr_def ch_queue_lifo_remove_ptr_def set_links Let_def)

lemma other_removals:
  "ch_pqueue_remove_highest_ptr h m = ch_queue_fifo_remove_ptr h m" "ch_dlist_remove_first_ptr h m = ch_queue_fifo_remove_ptr h m"
  "ch_dlist_dequeue_ptr e m = ch_queue_dequeue_ptr e m"
  by (simp_all add: ch_pqueue_remove_highest_ptr_def ch_dlist_remove_first_ptr_def ch_queue_fifo_remove_ptr_def
      ch_dlist_dequeue_ptr_def ch_queue_dequeue_ptr_def)

lemma isempty_ring:
  assumes "ring m h xs"
  shows "ch_queue_isempty_ptr h m \<longleftrightarrow> xs = []" "ch_queue_notempty_ptr h m \<longleftrightarrow> xs \<noteq> []"
    "ch_dlist_isempty_ptr h m \<longleftrightarrow> xs = []" "ch_dlist_notempty_ptr h m \<longleftrightarrow> xs \<noteq> []"
proof -
  have "l_next m h = h \<longleftrightarrow> xs = []" using assms by (cases xs) (auto simp: ring_def)
  then show "ch_queue_isempty_ptr h m \<longleftrightarrow> xs = []" "ch_queue_notempty_ptr h m \<longleftrightarrow> xs \<noteq> []"
    "ch_dlist_isempty_ptr h m \<longleftrightarrow> xs = []" "ch_dlist_notempty_ptr h m \<longleftrightarrow> xs \<noteq> []"
    by (auto simp: ch_queue_isempty_ptr_def ch_queue_notempty_ptr_def ch_dlist_isempty_ptr_def ch_dlist_notempty_ptr_def)
qed

lemma init_ring:
  "ring (ch_queue_init_ptr h m) h []" "ring (ch_pqueue_init_ptr h m) h []" "ring (ch_dlist_init_ptr h m) h []"
  by (simp_all add: ring_def ch_queue_init_ptr_def ch_pqueue_init_ptr_def ch_dlist_init_ptr_def set_links Let_def)

text \<open>The search ends at the first element that does not let it go on, at the latest at the header.\<close>

lemma pq_scan_chain: "chain m a xs h \<Longrightarrow> \<not> goes h \<Longrightarrow> pq_scan goes m a = Some (hd (dropWhile goes xs @ [h]))"
  by (induction xs arbitrary: a) (simp_all add: pq_scan.simps Let_def)

lemma pq_place_ring:
  assumes r: "ring m h q" and e: "e \<notin> set (h # q)" and g: "\<not> goes h"
  shows "pq_place goes h e m = Inr (e, ch_queue_insert_ptr (hd (dropWhile goes q @ [h])) e m)"
  using pq_scan_chain[of m h q h goes] r g by (simp add: pq_place_def finished_def ring_def)

section \<open>A store of queues\<close>

text \<open>
  Several rings in one store, no address in two of them. An element passes from one to another, as the
  threads do. The operations with what they return, on the links and on lists; an element must be in no
  ring to be inserted and in one to be taken out, a queue must not be empty when its first or last element
  is taken, and the header of a priority queue has a lower priority than its elements.
\<close>

definition store_ok :: "nat list \<Rightarrow> (nat \<Rightarrow> nat list) \<Rightarrow> links_t \<Rightarrow> bool" where
  "store_ok hs Q m \<longleftrightarrow> (\<forall>h \<in> set hs. ring m h (Q h)) \<and>
     (\<forall>h \<in> set hs. \<forall>g \<in> set hs. h \<noteq> g \<longrightarrow> set (h # Q h) \<inter> set (g # Q g) = {})"

datatype qop =
    QInsert nat nat
  | QFifo nat
  | QLifo nat
  | QDequeue nat
  | QBehind nat nat
  | QAhead nat nat
  | QPrio nat nat

fun ptr_op :: "qop \<Rightarrow> links_t \<Rightarrow> (nat \<times> links_t) result" where
  "ptr_op (QInsert h e) m = Inr (e, ch_queue_insert_ptr h e m)"
| "ptr_op (QFifo h) m = Inr (ch_queue_fifo_remove_ptr h m)"
| "ptr_op (QLifo h) m = Inr (ch_queue_lifo_remove_ptr h m)"
| "ptr_op (QDequeue e) m = Inr (ch_queue_dequeue_ptr e m)"
| "ptr_op (QBehind h e) m = ch_pqueue_insert_behind_ptr h e m"
| "ptr_op (QAhead h e) m = ch_pqueue_insert_ahead_ptr h e m"
| "ptr_op (QPrio h e) m = ch_sch_prio_insert_ptr h e m"

fun list_op :: "(nat \<Rightarrow> nat) \<Rightarrow> qop \<Rightarrow> (nat \<Rightarrow> nat list) \<Rightarrow> nat \<times> (nat \<Rightarrow> nat list)" where
  "list_op pr (QInsert h e) Q = (e, Q(h := Q h @ [e]))"
| "list_op pr (QFifo h) Q = (hd (Q h), Q(h := tl (Q h)))"
| "list_op pr (QLifo h) Q = (last (Q h), Q(h := butlast (Q h)))"
| "list_op pr (QDequeue e) Q = (e, \<lambda>h. ch_queue_dequeue e (Q h))"
| "list_op pr (QBehind h e) Q = (e, Q(h := ch_pqueue_insert_behind pr e (Q h)))"
| "list_op pr (QAhead h e) Q = (e, Q(h := ch_pqueue_insert_ahead pr e (Q h)))"
| "list_op pr (QPrio h e) Q = (e, Q(h := ch_sch_prio_insert pr e (Q h)))"

definition unlinked :: "nat list \<Rightarrow> (nat \<Rightarrow> nat list) \<Rightarrow> nat \<Rightarrow> bool" where
  "unlinked hs Q e \<longleftrightarrow> (\<forall>h \<in> set hs. e \<notin> set (h # Q h))"

fun qop_ok :: "nat list \<Rightarrow> (nat \<Rightarrow> nat) \<Rightarrow> qop \<Rightarrow> (nat \<Rightarrow> nat list) \<Rightarrow> bool" where
  "qop_ok hs pr (QInsert h e) Q \<longleftrightarrow> h \<in> set hs \<and> unlinked hs Q e"
| "qop_ok hs pr (QFifo h) Q \<longleftrightarrow> h \<in> set hs \<and> Q h \<noteq> []"
| "qop_ok hs pr (QLifo h) Q \<longleftrightarrow> h \<in> set hs \<and> Q h \<noteq> []"
| "qop_ok hs pr (QDequeue e) Q \<longleftrightarrow> (\<exists>h \<in> set hs. e \<in> set (Q h))"
| "qop_ok hs pr (QBehind h e) Q \<longleftrightarrow> h \<in> set hs \<and> unlinked hs Q e \<and> pr h < pr e"
| "qop_ok hs pr (QAhead h e) Q \<longleftrightarrow> h \<in> set hs \<and> unlinked hs Q e \<and> pr h < pr e"
| "qop_ok hs pr (QPrio h e) Q \<longleftrightarrow> h \<in> set hs \<and> unlinked hs Q e"

fun ptr_run :: "qop list \<Rightarrow> links_t \<Rightarrow> (nat list \<times> links_t) result" where
  "ptr_run [] m = Inr ([], m)"
| "ptr_run (c # cs) m =
     bindE (ptr_op c m) (\<lambda>(r, m). bindE (ptr_run cs m) (\<lambda>(rs, m). Inr (r # rs, m)))"

fun list_run :: "(nat \<Rightarrow> nat) \<Rightarrow> qop list \<Rightarrow> (nat \<Rightarrow> nat list) \<Rightarrow> nat list \<times> (nat \<Rightarrow> nat list)" where
  "list_run pr [] Q = ([], Q)"
| "list_run pr (c # cs) Q =
     (let (r, Q) = list_op pr c Q; (rs, Q) = list_run pr cs Q in (r # rs, Q))"

fun qrun_ok :: "nat list \<Rightarrow> (nat \<Rightarrow> nat) \<Rightarrow> qop list \<Rightarrow> (nat \<Rightarrow> nat list) \<Rightarrow> bool" where
  "qrun_ok hs pr [] Q \<longleftrightarrow> True"
| "qrun_ok hs pr (c # cs) Q \<longleftrightarrow> qop_ok hs pr c Q \<and> qrun_ok hs pr cs (snd (list_op pr c Q))"

lemma store_apart:
  assumes "store_ok hs Q m" "h \<in> set hs" "g \<in> set hs" "g \<noteq> h"
  shows "ring m g (Q g)" "set (h # Q h) \<inter> set (g # Q g) = {}"
  using assms unfolding store_ok_def by metis+

lemma store_update:
  assumes s: "store_ok hs Q m" and h: "h \<in> set hs" "ring m' h q"
    and o: "\<And>g. g \<in> set hs \<Longrightarrow> g \<noteq> h \<Longrightarrow> ring m' g (Q g) \<and> set q \<inter> set (g # Q g) = {}"
  shows "store_ok hs (Q(h := q)) m'"
proof -
  have "set (f # (Q(h := q)) f) \<inter> set (g # (Q(h := q)) g) = {}" if "f \<in> set hs" "g \<in> set hs" "f \<noteq> g" for f g
  proof (cases "f = h \<or> g = h")
    case True
    then show ?thesis
      using that o[of f] o[of g] store_apart(2)[OF s that(2,1)] by auto
  next
    case False
    then show ?thesis using store_apart(2)[OF s that(2,1)] that(3) by auto
  qed
  then show ?thesis using h o unfolding store_ok_def by simp
qed

lemma store_insert:
  assumes s: "store_ok hs Q m" and h: "h \<in> set hs" and e: "unlinked hs Q e" and q: "Q h = xs @ ys"
  shows "store_ok hs (Q(h := xs @ e # ys)) (ch_queue_insert_ptr (hd (ys @ [h])) e m)"
proof -
  let ?m = "ch_queue_insert_ptr (hd (ys @ [h])) e m"
  have r: "ring m h (xs @ ys)" "e \<notin> set (h # xs @ ys)" using s h e q by (force simp: store_ok_def unlinked_def)+
  note l = queue_insert_links[OF r]
  have w: "last (h # xs) \<in> set (h # xs @ ys)" "hd (ys @ [h]) \<in> set (h # xs @ ys)"
    using last_in_set[of "h # xs"] by (cases ys, auto)+
  have "ring ?m g (Q g) \<and> set (xs @ e # ys) \<inter> set (g # Q g) = {}" if g: "g \<in> set hs" "g \<noteq> h" for g
  proof
    have a: "set (h # xs @ ys) \<inter> set (g # Q g) = {}" "e \<notin> set (g # Q g)"
      using store_apart(2)[OF s h g] q e g by (auto simp: unlinked_def)
    with w have "x \<in> set (g # Q g) \<Longrightarrow> l_next ?m x = l_next m x \<and> l_prev ?m x = l_prev m x" for x
      unfolding l by (auto simp del: last.simps)
    then show "ring ?m g (Q g)" by (rule ring_frame[OF store_apart(1)[OF s h g]])
    show "set (xs @ e # ys) \<inter> set (g # Q g) = {}" using a by auto
  qed
  then show ?thesis by (intro store_update[OF s h ring_insert[OF r l(1,2)]]) auto
qed

lemma store_remove:
  assumes s: "store_ok hs Q m" and h: "h \<in> set hs" and q: "Q h = xs @ e # ys"
  shows "\<exists>m'. ch_queue_dequeue_ptr e m = (e, m') \<and> store_ok hs (Q(h := xs @ ys)) m' \<and> l_prio m' = l_prio m"
proof -
  have r: "ring m h (xs @ e # ys)" using s h q by (force simp: store_ok_def)
  let ?m = "m\<lparr>l_next := (l_next m)(last (h # xs) := hd (ys @ [h])), l_prev := (l_prev m)(hd (ys @ [h]) := last (h # xs))\<rparr>"
  have w: "last (h # xs) \<in> set (h # xs @ e # ys)" "hd (ys @ [h]) \<in> set (h # xs @ e # ys)"
    using last_in_set[of "h # xs"] by (cases ys, auto)+
  have o: "ring ?m g (Q g) \<and> set (xs @ ys) \<inter> set (g # Q g) = {}" if g: "g \<in> set hs" "g \<noteq> h" for g
  proof
    have a: "set (h # xs @ e # ys) \<inter> set (g # Q g) = {}" using store_apart(2)[OF s h g] q by simp
    with w have "x \<in> set (g # Q g) \<Longrightarrow> l_next ?m x = l_next m x \<and> l_prev ?m x = l_prev m x" for x
      by (auto simp del: last.simps)
    then show "ring ?m g (Q g)" by (rule ring_frame[OF store_apart(1)[OF s h g]])
    show "set (xs @ ys) \<inter> set (g # Q g) = {}" using a by auto
  qed
  have "ring ?m h (xs @ ys)" by (rule ring_remove[OF r]) simp_all
  then have "store_ok hs (Q(h := xs @ ys)) ?m" by (rule store_update[OF s h]) (rule o)
  then show ?thesis using removal_links(1)[OF r] by simp
qed

lemma store_place:
  assumes s: "store_ok hs Q m" and h: "h \<in> set hs" and e: "unlinked hs Q e" and g: "\<not> goes h"
  shows "\<exists>m'. pq_place goes h e m = Inr (e, m') \<and> store_ok hs (Q(h := takeWhile goes (Q h) @ e # dropWhile goes (Q h))) m' \<and> l_prio m' = l_prio m"
proof -
  have r: "ring m h (Q h)" "e \<notin> set (h # Q h)" using s h e by (force simp: store_ok_def unlinked_def)+
  then have "ring m h (takeWhile goes (Q h) @ dropWhile goes (Q h))" "e \<notin> set (h # takeWhile goes (Q h) @ dropWhile goes (Q h))"
    by simp_all
  from queue_insert_links(3)[OF this] show ?thesis
    using pq_place_ring[OF r, of goes] g store_insert[OF s h e, of "takeWhile goes (Q h)" "dropWhile goes (Q h)"] by simp
qed

lemma store_cong: "store_ok hs Q m \<Longrightarrow> (\<And>h. h \<in> set hs \<Longrightarrow> Q' h = Q h) \<Longrightarrow> store_ok hs Q' m"
  by (simp add: store_ok_def)

lemma ptr_dequeue:
  assumes s: "store_ok hs Q m" and h: "h \<in> set hs" "e \<in> set (Q h)"
  shows "\<exists>m'. ch_queue_dequeue_ptr e m = (e, m') \<and> store_ok hs (\<lambda>h. ch_queue_dequeue e (Q h)) m' \<and> l_prio m' = l_prio m"
proof -
  obtain xs ys where q: "Q h = xs @ e # ys" "e \<notin> set xs" using h(2) by (meson split_list_first)
  have "ch_queue_dequeue e (Q g) = (Q(h := xs @ ys)) g" if "g \<in> set hs" for g
    using store_apart(2)[OF s h(1) that] h(2) q by (cases "g = h") (auto simp: ch_queue_dequeue_def remove1_append remove1_idem)
  then show ?thesis using store_remove[OF s h(1) q(1)] store_cong by meson
qed

lemma op_refines:
  assumes s: "store_ok hs Q m" and c: "qop_ok hs (l_prio m) c Q"
  shows "\<exists>m'. ptr_op c m = Inr (fst (list_op (l_prio m) c Q), m') \<and> store_ok hs (snd (list_op (l_prio m) c Q)) m' \<and> l_prio m' = l_prio m"
proof (cases c)
  case (QInsert h e)
  then have h: "h \<in> set hs" "unlinked hs Q e" "ring m h (Q h @ [])" "e \<notin> set (h # Q h @ [])"
    using c s by (auto simp: store_ok_def unlinked_def)
  show ?thesis using store_insert[OF s h(1,2), of "Q h" "[]"] queue_insert_links(3)[OF h(3,4)] QInsert by simp
next
  case (QFifo h)
  then obtain e ys where q: "h \<in> set hs" "Q h = [] @ e # ys" using c by (auto simp: neq_Nil_conv)
  then have "ring m h ([] @ e # ys)" using s by (force simp: store_ok_def)
  from removal_links(2)[OF this] show ?thesis using store_remove[OF s q] q QFifo by auto
next
  case (QLifo h)
  then obtain xs e where q: "h \<in> set hs" "Q h = xs @ e # []" using c by (cases "Q h" rule: rev_cases) auto
  then have "ring m h (xs @ e # [])" using s by (force simp: store_ok_def)
  from removal_links(3)[OF this] show ?thesis using store_remove[OF s q] q QLifo by auto
next
  case (QDequeue e)
  then obtain h where "h \<in> set hs" "e \<in> set (Q h)" using c by auto
  from ptr_dequeue[OF s this] show ?thesis using QDequeue by auto
next
  case (QBehind h e)
  then show ?thesis using c store_place[OF s, of h e "\<lambda>q. l_prio m q \<ge> l_prio m e"]
    by (simp add: ch_pqueue_insert_behind_ptr_def ch_pqueue_insert_behind_def)
next
  case (QAhead h e)
  then show ?thesis using c store_place[OF s, of h e "\<lambda>q. l_prio m q > l_prio m e"]
    by (simp add: ch_pqueue_insert_ahead_ptr_def ch_pqueue_insert_ahead_def)
next
  case (QPrio h e)
  let ?g = "\<lambda>q. q \<noteq> h \<and> l_prio m q \<ge> l_prio m e"
  have "h \<notin> set (Q h)" using s c QPrio by (auto simp: store_ok_def ring_def)
  then have "takeWhile ?g (Q h) = takeWhile (\<lambda>q. l_prio m q \<ge> l_prio m e) (Q h)" "dropWhile ?g (Q h) = dropWhile (\<lambda>q. l_prio m q \<ge> l_prio m e) (Q h)"
    by (auto intro!: takeWhile_cong dropWhile_cong)
  then show ?thesis using c store_place[OF s, of h e ?g] QPrio
    by (simp add: ch_sch_prio_insert_ptr_def ch_sch_prio_insert_def)
qed

lemma run_refines:
  assumes "store_ok hs Q m" "qrun_ok hs (l_prio m) cs Q"
  shows "\<exists>m'. ptr_run cs m = Inr (fst (list_run (l_prio m) cs Q), m') \<and> store_ok hs (snd (list_run (l_prio m) cs Q)) m'"
  using assms
proof (induction cs arbitrary: Q m)
  case Nil
  then show ?case by simp
next
  case (Cons c cs)
  let ?Q = "snd (list_op (l_prio m) c Q)"
  obtain m' where m': "ptr_op c m = Inr (fst (list_op (l_prio m) c Q), m')" "store_ok hs ?Q m'" "l_prio m' = l_prio m"
    using op_refines[OF Cons.prems(1)] Cons.prems(2) by auto
  with Cons.IH[of ?Q m'] Cons.prems(2) show ?case by (auto simp: case_prod_beta Let_def)
qed

section \<open>Single lists\<close>

text \<open>The list of the threads that wait for the end of another one, linked one way.\<close>

fun slist :: "links_t \<Rightarrow> nat \<Rightarrow> nat list \<Rightarrow> nat \<Rightarrow> bool" where
  "slist m a [] h \<longleftrightarrow> l_next m a = h"
| "slist m a (x # xs) h \<longleftrightarrow> l_next m a = x \<and> slist m x xs h"

lemma slist_cong: "(\<And>x. x \<in> insert a (set xs) \<Longrightarrow> l_next m' x = l_next m x) \<Longrightarrow> slist m' a xs h = slist m a xs h"
  by (induction xs arbitrary: a) auto

lemma list_link_ok:
  assumes "slist m h xs h" "distinct (h # xs)" "e \<notin> set (h # xs)"
  shows "slist (ch_list_link_ptr h e m) h (e # xs) h"
proof (cases xs)
  case Nil
  then show ?thesis using assms by (simp add: ch_list_link_ptr_def set_links Let_def)
next
  case (Cons x ys)
  have "slist (ch_list_link_ptr h e m) x ys h = slist m x ys h"
    by (rule slist_cong) (use assms Cons in \<open>auto simp: ch_list_link_ptr_def set_links Let_def\<close>)
  then show ?thesis using assms Cons by (simp add: ch_list_link_ptr_def set_links Let_def)
qed

lemma list_unlink_ok:
  assumes "slist m h (x # xs) h" "distinct (h # x # xs)"
  shows "\<exists>m'. ch_list_unlink_ptr h m = (x, m') \<and> slist m' h xs h"
proof (cases xs)
  case Nil
  then show ?thesis using assms by (simp add: ch_list_unlink_ptr_def set_links Let_def)
next
  case (Cons y ys)
  let ?m = "set_next h (l_next m x) m"
  have "slist ?m y ys h = slist m y ys h"
    by (rule slist_cong) (use assms Cons in \<open>auto simp: set_links\<close>)
  then show ?thesis using assms Cons by (simp add: ch_list_unlink_ptr_def set_links Let_def)
qed

lemma list_empty_ok:
  assumes "slist m h xs h" "distinct (h # xs)"
  shows "ch_list_isempty_ptr h m \<longleftrightarrow> xs = []" "ch_list_notempty_ptr h m \<longleftrightarrow> xs \<noteq> []" "slist (ch_list_init_ptr h m) h [] h"
  using assms by (cases xs; auto simp: ch_list_isempty_ptr_def ch_list_notempty_ptr_def ch_list_init_ptr_def set_links)+

section \<open>The delta list of the timers\<close>

definition dring :: "links_t \<Rightarrow> nat \<Rightarrow> dlist \<Rightarrow> bool" where
  "dring m h dl \<longleftrightarrow> ring m h (map fst dl) \<and> (\<forall>(t, d) \<in> set dl. l_delta m t = d) \<and> l_delta m h = - 1"

lemma dlist_scan_chain:
  assumes "chain m a (map fst dl) h" "\<forall>(t, d) \<in> set dl. l_delta m t = d" "l_delta m h = - 1" "e \<notin> fst ` set dl"
  shows "\<exists>xs ys delta'. dl = xs @ ys \<and> dlist_scan m e (l_next m a) delta = Some (Inr (hd (map fst ys @ [h]), delta')) \<and>
    ch_dlist_insert e delta dl = Inr (xs @ (e, delta') # (case ys of [] \<Rightarrow> [] | (u, d) # ys \<Rightarrow> (u, d - delta') # ys))"
  using assms
proof (induction dl arbitrary: a delta)
  case Nil
  then have "dlist_scan m e (l_next m a) delta = Some (Inr (h, delta))"
    using word_order.extremum[of delta] by (simp add: dlist_scan.simps not_less)
  then show ?case by simp
next
  case (Cons td dl)
  obtain u d where td: "td = (u, d)" by (cases td)
  have u: "l_next m a = u" "l_delta m u = d" "chain m u (map fst dl) h" "u \<noteq> e" using Cons.prems td by auto
  show ?case
  proof (cases "d < delta")
    case True
    obtain xs ys delta' where IH: "dl = xs @ ys" "dlist_scan m e (l_next m u) (delta - d) = Some (Inr (hd (map fst ys @ [h]), delta'))"
        "ch_dlist_insert e (delta - d) dl = Inr (xs @ (e, delta') # (case ys of [] \<Rightarrow> [] | (u, d) # ys \<Rightarrow> (u, d - delta') # ys))"
      using Cons.IH[OF u(3), of "delta - d"] Cons.prems by auto
    have "dlist_scan m e u delta = dlist_scan m e (l_next m u) (delta - d)"
      using True u(2,4) by (subst dlist_scan.simps) simp
    with IH True u show ?thesis by (intro exI[of _ "td # xs"] exI[of _ ys] exI[of _ delta']) (simp add: td)
  next
    case False
    have "dlist_scan m e u delta = Some (Inr (u, delta))" using False u(2) by (subst dlist_scan.simps) simp
    with False u show ?thesis by (intro exI[of _ "[]"] exI[of _ "td # dl"] exI[of _ delta]) (simp add: td)
  qed
qed

lemma dlist_insert_before_links:
  assumes "ring m h (xs @ ys)" "e \<notin> set (h # xs @ ys)"
  shows "l_next (ch_dlist_insert_before_ptr (hd (ys @ [h])) e d m) = (l_next m)(e := hd (ys @ [h]), last (h # xs) := e)"
    "l_prev (ch_dlist_insert_before_ptr (hd (ys @ [h])) e d m) = (l_prev m)(e := last (h # xs), hd (ys @ [h]) := e)"
    "l_delta (ch_dlist_insert_before_ptr (hd (ys @ [h])) e d m) = (l_delta m)(e := d)"
  using ring_links[OF assms(1)] assms(2) by (simp_all add: ch_dlist_insert_before_ptr_def set_links Let_def)

lemma dlist_insert_refines:
  assumes "dring m h dl" "e \<notin> insert h (fst ` set dl)"
  shows "\<exists>m' dl'. ch_dlist_insert e delta dl = Inr dl' \<and> ch_dlist_insert_ptr h e delta m = Inr m' \<and> dring m' h dl'"
proof -
  have r: "ring m h (map fst dl)" "chain m h (map fst dl) h" and d: "\<forall>(t, d) \<in> set dl. l_delta m t = d" "l_delta m h = - 1"
    using assms(1) by (auto simp: dring_def ring_def)
  have dd: "(t, d) \<in> set dl \<Longrightarrow> l_delta m t = d" for t d using d(1) by auto
  obtain xs ys delta' where s: "dl = xs @ ys" "dlist_scan m e (l_next m h) delta = Some (Inr (hd (map fst ys @ [h]), delta'))"
      "ch_dlist_insert e delta dl = Inr (xs @ (e, delta') # (case ys of [] \<Rightarrow> [] | (u, d) # ys \<Rightarrow> (u, d - delta') # ys))" (is "_ = Inr ?dl")
    using dlist_scan_chain[OF r(2) d, of e delta] assms(2) by auto
  let ?p = "hd (map fst ys @ [h])"
  let ?m = "ch_dlist_insert_before_ptr ?p e delta' m"
  let ?m' = "set_delta h (- 1) (set_delta ?p (l_delta ?m ?p - delta') ?m)"
  have r': "ring m h (map fst xs @ map fst ys)" "e \<notin> set (h # map fst xs @ map fst ys)" using r(1) assms(2) s(1) by auto
  note l = dlist_insert_before_links[OF r']
  have pe: "?p \<noteq> e" using r'(2) by (cases ys) auto
  have "ring ?m' h (map fst xs @ e # map fst ys)"
    by (rule ring_insert[OF r']) (simp_all add: set_links l)
  then have "ring ?m' h (map fst ?dl)" by (cases ys) auto
  moreover have "l_delta ?m' = (l_delta m)(e := delta', ?p := l_delta m ?p - delta', h := - 1)"
    using pe by (simp add: set_links l)
  then have "l_delta ?m' t = d" if "(t, d) \<in> set ?dl" for t d
    using that r' dd unfolding s(1) by (cases ys) (auto simp: ring_def rev_image_eqI split: if_splits)
  then have "\<forall>(t, d) \<in> set ?dl. l_delta ?m' t = d" by auto
  ultimately have "dring ?m' h ?dl" by (simp add: dring_def set_links)
  then show ?thesis using s(2,3) by (simp add: ch_dlist_insert_ptr_def finished_def Let_def)
qed

lemma dlist_unlink_refines:
  assumes "dring m h dl" "e \<in> fst ` set dl"
  shows "dring (dlist_unlink_ptr h e m) h (dlist_unlink e dl)"
proof -
  obtain xs d ys where dl: "dl = xs @ (e, d) # ys" "e \<notin> fst ` set xs"
    using split_list_first_prop[of dl "\<lambda>x. fst x = e"] assms(2) by (metis (no_types, lifting) image_iff prod.collapse)
  have r: "ring m h (map fst xs @ e # map fst ys)" and d: "\<forall>(t, d) \<in> set dl. l_delta m t = d" "l_delta m h = - 1"
    using assms(1) dl(1) by (auto simp: dring_def)
  have dd: "(t, d) \<in> set dl \<Longrightarrow> l_delta m t = d" for t d using d(1) by auto
  have u: "dlist_unlink e dl = xs @ add_delta d ys" using dl(2) unfolding dl(1) by (induction xs) auto
  let ?m = "m\<lparr>l_next := (l_next m)(last (h # map fst xs) := hd (map fst ys @ [h])),
    l_prev := (l_prev m)(hd (map fst ys @ [h]) := last (h # map fst xs))\<rparr>"
  let ?m' = "dlist_unlink_ptr h e m"
  note l = dequeue_links[OF r]
  have m': "?m' = set_delta h (- 1) (set_next e 0 (set_delta (l_next m e) (l_delta m (l_next m e) + d) ?m))"
    using removal_links(1)[OF r] l d(1) dl(1) by (simp add: dlist_unlink_ptr_def other_removals set_links Let_def)
  have "ring ?m h (map fst xs @ map fst ys)" by (rule ring_remove[OF r]) simp_all
  then have "ring ?m' h (map fst xs @ map fst ys)"
    by (rule ring_frame) (use r in \<open>auto simp: m' set_links ring_def\<close>)
  moreover have "map fst (add_delta d ys) = map fst ys" by (cases ys) (auto simp: add_delta_def)
  moreover have "l_delta ?m' t = x" if "(t, x) \<in> set (xs @ add_delta d ys)" for t x
    using that dd r l(1) unfolding dl(1) by (cases ys) (auto simp: m' set_links add_delta_def ring_def rev_image_eqI split: if_splits)
  then have "\<forall>(t, d) \<in> set (xs @ add_delta d ys). l_delta ?m' t = d" by auto
  ultimately show ?thesis by (simp add: dring_def u m' set_links)
qed

lemma dlist_insert_after_refines:
  assumes "dring m h dl" "e \<notin> insert h (fst ` set dl)"
  shows "dring (ch_dlist_insert_after_ptr h e d m) h ((e, d) # dl)"
proof -
  have r: "ring m h ([] @ map fst dl)" "e \<notin> set (h # [] @ map fst dl)" using assms by (auto simp: dring_def)
  let ?m = "ch_dlist_insert_after_ptr h e d m"
  have "l_next ?m = (l_next m)(e := hd (map fst dl @ [h]), last (h # []) := e)"
    "l_prev ?m = (l_prev m)(e := last (h # []), hd (map fst dl @ [h]) := e)" "l_delta ?m = (l_delta m)(e := d)"
    using ring_links(1)[OF r(1)] r(2) by (simp_all add: ch_dlist_insert_after_ptr_def set_links Let_def)
  from ring_insert[OF r this(1,2)] this(3) show ?thesis
    using assms by (auto simp: dring_def rev_image_eqI)
qed

lemma dlist_ends:
  assumes "ring m h xs" "e \<in> set xs"
  shows "ch_dlist_isfirst_ptr h e m \<longleftrightarrow> e = hd xs" "ch_dlist_islast_ptr h e m \<longleftrightarrow> e = last xs"
proof -
  obtain ys zs where x: "xs = ys @ e # zs" using assms(2) by (meson split_list)
  have "l_next m h = hd (xs @ [h])" using ring_links(1)[of m h "[]" xs] assms(1) by simp
  then show "ch_dlist_isfirst_ptr h e m \<longleftrightarrow> e = hd xs" using assms(2) by (cases xs) (auto simp: ch_dlist_isfirst_ptr_def)
  have "l_next m e = hd (zs @ [h])" using dequeue_links(1)[of m h ys e zs] assms(1) x by simp
  then show "ch_dlist_islast_ptr h e m \<longleftrightarrow> e = last xs"
    using assms(1) x last_in_set[of zs] by (cases zs) (auto simp: ch_dlist_islast_ptr_def ring_def)
qed

end
