(* ===== verification/Ch_Sem.thy ===== *)
theory Ch_Sem
  imports Ch_Mtx
begin

text \<open>
  Counting semaphores: \<^verbatim>\<open>chsem.c\<close> with the fast operations of \<^verbatim>\<open>chsem.h\<close>, in the
  configuration with first-in first-out queues. An operation that may block returns \<open>None\<close> as
  its message when the caller sleeps; the message it returns later is then what
  \<open>rdymsg\<close> (or \<open>chSchGoSleepTimeoutS_resume\<close>) reads. The counter is an \<open>int32_t\<close>, so
  counting beyond its range is an overflow.
\<close>

section \<open>Operations\<close>

abbreviation squeue :: "kernel_t \<Rightarrow> nat \<Rightarrow> tid list" where
  "squeue k s \<equiv> s_queue (k_sem k s)"

abbreviation scnt :: "kernel_t \<Rightarrow> nat \<Rightarrow> int" where
  "scnt k s \<equiv> s_cnt (k_sem k s)"

definition set_cnt :: "nat \<Rightarrow> int \<Rightarrow> kernel_t \<Rightarrow> kernel_t" where
  "set_cnt s n = upd_sem s (\<lambda>sm. sm\<lparr>s_cnt := n\<rparr>)"

definition set_squeue :: "nat \<Rightarrow> tid list \<Rightarrow> kernel_t \<Rightarrow> kernel_t" where
  "set_squeue s q = upd_sem s (\<lambda>sm. sm\<lparr>s_queue := q\<rparr>)"

definition sem_consistent :: "nat \<Rightarrow> kernel_t \<Rightarrow> unit result" where
  "sem_consistent s k =
     assertE ((scnt k s \<ge> 0 \<and> squeue k s = []) \<or> (scnt k s < 0 \<and> squeue k s \<noteq> []))
       (Halted ''inconsistent semaphore'')"

definition chSemObjectInit :: "nat \<Rightarrow> int \<Rightarrow> kernel_t \<Rightarrow> kernel_t result" where
  "chSemObjectInit s n k =
     bindE (assertE (n \<ge> 0) (Halted ''chSemObjectInit'')) (\<lambda>_. Inr (set_cnt s n (set_squeue s [] k)))"

text \<open>\<open>chSchReadyI(tp)->u.rdymsg = msg\<close>.\<close>

definition ready_with :: "tid \<Rightarrow> msg_t \<Rightarrow> kernel_t \<Rightarrow> kernel_t result" where
  "ready_with t msg k = bindE (chSchReadyI t k) (\<lambda>k. Inr (set_u t (RdyMsg msg) k))"

text \<open>The loop takes the threads from the tail of the queue.\<close>

definition chSemResetWithMessageI :: "nat \<Rightarrow> int \<Rightarrow> msg_t \<Rightarrow> kernel_t \<Rightarrow> kernel_t result" where
  "chSemResetWithMessageI s n msg k =
     bindE (assertE (n \<ge> 0) (Halted ''chSemResetWithMessageI'')) (\<lambda>_.
     bindE (sem_consistent s k) (\<lambda>_.
     foldE (\<lambda>t k. ready_with t msg (set_squeue s (butlast (squeue k s)) k)) (rev (squeue k s)) (set_cnt s n k)))"

definition chSemResetWithMessage :: "nat \<Rightarrow> int \<Rightarrow> msg_t \<Rightarrow> kernel_t \<Rightarrow> kernel_t result" where
  "chSemResetWithMessage s n msg k = bindE (chSemResetWithMessageI s n msg k) chSchRescheduleS"

definition sem_enqueue :: "nat \<Rightarrow> kernel_t \<Rightarrow> kernel_t" where
  "sem_enqueue s k = set_squeue s (squeue k s @ [k_cur k]) (set_u (k_cur k) (WtSem s) k)"

definition chSemWaitS :: "nat \<Rightarrow> kernel_t \<Rightarrow> (msg_t option \<times> kernel_t) result" where
  "chSemWaitS s k =
     bindE (sem_consistent s k) (\<lambda>_.
     bindE (c_int (scnt k s - 1)) (\<lambda>n.
     let k = set_cnt s n k in
     if n < 0 then bindE (chSchGoSleepS CH_STATE_WTSEM (sem_enqueue s k)) (\<lambda>k. Inr (None, k))
     else Inr (Some MSG_OK, k)))"

definition chSemWait :: "nat \<Rightarrow> kernel_t \<Rightarrow> (msg_t option \<times> kernel_t) result" where
  "chSemWait s k = chSemWaitS s k"

definition chSemWaitTimeoutS :: "nat \<Rightarrow> u32 \<Rightarrow> kernel_t \<Rightarrow> (msg_t option \<times> kernel_t) result" where
  "chSemWaitTimeoutS s timeout k =
     bindE (sem_consistent s k) (\<lambda>_.
     bindE (c_int (scnt k s - 1)) (\<lambda>n.
     let k' = set_cnt s n k in
     if n < 0 then
       if timeout = TIME_IMMEDIATE then Inr (Some MSG_TIMEOUT, set_cnt s (n + 1) k')
       else bindE (chSchGoSleepTimeoutS CH_STATE_WTSEM timeout (sem_enqueue s k')) (\<lambda>k. Inr (None, k))
     else Inr (Some MSG_OK, k')))"

definition chSemWaitTimeout :: "nat \<Rightarrow> u32 \<Rightarrow> kernel_t \<Rightarrow> (msg_t option \<times> kernel_t) result" where
  "chSemWaitTimeout s timeout k = chSemWaitTimeoutS s timeout k"

text \<open>An empty queue with a non-positive counter would be dereferenced.\<close>

definition chSemSignal :: "nat \<Rightarrow> kernel_t \<Rightarrow> kernel_t result" where
  "chSemSignal s k =
     bindE (sem_consistent s k) (\<lambda>_.
     bindE (c_int (scnt k s + 1)) (\<lambda>n.
     let k = set_cnt s n k in
     if n \<le> 0 then
       (case squeue k s of
          [] \<Rightarrow> Inl OutOfBounds
        | t # q \<Rightarrow> chSchWakeupS t MSG_OK (set_squeue s q k))
     else Inr k))"

definition chSemSignalI :: "nat \<Rightarrow> kernel_t \<Rightarrow> kernel_t result" where
  "chSemSignalI s k =
     bindE (sem_consistent s k) (\<lambda>_.
     bindE (c_int (scnt k s + 1)) (\<lambda>n.
     let k = set_cnt s n k in
     if n \<le> 0 then
       (case squeue k s of
          [] \<Rightarrow> Inl OutOfBounds
        | t # q \<Rightarrow> chSchReadyI t (set_u t (RdyMsg MSG_OK) (set_squeue s q k)))
     else Inr k))"

text \<open>The part \<open>chSemAddCounterI\<close> and \<open>chSemSignalWait\<close> share.\<close>

definition sem_post :: "nat \<Rightarrow> kernel_t \<Rightarrow> kernel_t result" where
  "sem_post s k =
     bindE (c_int (scnt k s + 1)) (\<lambda>n.
     let k = set_cnt s n k in
     if n \<le> 0 then
       (case squeue k s of
          [] \<Rightarrow> Inl OutOfBounds
        | t # q \<Rightarrow> ready_with t MSG_OK (set_squeue s q k))
     else Inr k)"

definition chSemAddCounterI :: "nat \<Rightarrow> int \<Rightarrow> kernel_t \<Rightarrow> kernel_t result" where
  "chSemAddCounterI s n k =
     bindE (assertE (n > 0) (Halted ''chSemAddCounterI'')) (\<lambda>_.
     bindE (sem_consistent s k) (\<lambda>_.
     foldE (\<lambda>_. sem_post s) [0..<nat n] k))"

definition chSemSignalWait :: "nat \<Rightarrow> nat \<Rightarrow> kernel_t \<Rightarrow> (msg_t option \<times> kernel_t) result" where
  "chSemSignalWait sps spw k =
     bindE (sem_consistent sps k) (\<lambda>_.
     bindE (sem_consistent spw k) (\<lambda>_.
     bindE (sem_post sps k) (\<lambda>k.
     bindE (c_int (scnt k spw - 1)) (\<lambda>n.
     let k = set_cnt spw n k in
     if n < 0 then
       bindE (chSchGoSleepS CH_STATE_WTSEM
         (set_u (k_cur k) (WtSem spw) (set_squeue spw (squeue k spw @ [k_cur k]) k))) (\<lambda>k. Inr (None, k))
     else bindE (chSchRescheduleS k) (\<lambda>k. Inr (Some MSG_OK, k))))))"

definition chSemFastWaitI :: "nat \<Rightarrow> kernel_t \<Rightarrow> kernel_t result" where
  "chSemFastWaitI s k = bindE (c_int (scnt k s - 1)) (\<lambda>n. Inr (set_cnt s n k))"

definition chSemFastSignalI :: "nat \<Rightarrow> kernel_t \<Rightarrow> kernel_t result" where
  "chSemFastSignalI s k = bindE (c_int (scnt k s + 1)) (\<lambda>n. Inr (set_cnt s n k))"

definition chSemGetCounterI :: "nat \<Rightarrow> kernel_t \<Rightarrow> int" where
  "chSemGetCounterI s k = scnt k s"

definition chSemReset :: "nat \<Rightarrow> int \<Rightarrow> kernel_t \<Rightarrow> kernel_t result" where
  "chSemReset s n = chSemResetWithMessage s n MSG_RESET"

definition chSemResetI :: "nat \<Rightarrow> int \<Rightarrow> kernel_t \<Rightarrow> kernel_t result" where
  "chSemResetI s n = chSemResetWithMessageI s n MSG_RESET"

text \<open>Binary semaphores.\<close>

definition chBSemObjectInit :: "nat \<Rightarrow> bool \<Rightarrow> kernel_t \<Rightarrow> kernel_t result" where
  "chBSemObjectInit s taken = chSemObjectInit s (if taken then 0 else 1)"

definition chBSemWait :: "nat \<Rightarrow> kernel_t \<Rightarrow> (msg_t option \<times> kernel_t) result" where
  "chBSemWait s = chSemWait s"

definition chBSemWaitTimeout :: "nat \<Rightarrow> u32 \<Rightarrow> kernel_t \<Rightarrow> (msg_t option \<times> kernel_t) result" where
  "chBSemWaitTimeout s timeout = chSemWaitTimeout s timeout"

definition chBSemReset :: "nat \<Rightarrow> bool \<Rightarrow> kernel_t \<Rightarrow> kernel_t result" where
  "chBSemReset s taken = chSemReset s (if taken then 0 else 1)"

definition chBSemSignalI :: "nat \<Rightarrow> kernel_t \<Rightarrow> kernel_t result" where
  "chBSemSignalI s k = (if scnt k s < 1 then chSemSignalI s k else Inr k)"

definition chBSemSignal :: "nat \<Rightarrow> kernel_t \<Rightarrow> kernel_t result" where
  "chBSemSignal s k = bindE (chBSemSignalI s k) chSchRescheduleS"

definition chBSemGetStateI :: "nat \<Rightarrow> kernel_t \<Rightarrow> bool" where
  "chBSemGetStateI s k = (if scnt k s > 0 then False else True)"

section \<open>Invariant\<close>

definition waits_sem :: "kernel_t \<Rightarrow> tid \<Rightarrow> nat \<Rightarrow> bool" where
  "waits_sem k t s \<longleftrightarrow> t \<in> set (k_tids k) \<and> tstate k t = CH_STATE_WTSEM \<and> t_u (k_thr k t) = WtSem s"

text \<open>
  The queue of a semaphore holds the threads that wait for it, and a negative counter is
  minus their number.
\<close>

definition sem_queue_ok :: "kernel_t \<Rightarrow> nat \<Rightarrow> bool" where
  "sem_queue_ok k s \<longleftrightarrow> distinct (squeue k s) \<and> (\<forall>t. t \<in> set (squeue k s) \<longleftrightarrow> waits_sem k t s)"

definition sem_count_ok :: "kernel_t \<Rightarrow> nat \<Rightarrow> bool" where
  "sem_count_ok k s \<longleftrightarrow> INT_MIN < scnt k s \<and> scnt k s \<le> INT_MAX \<and>
     (if squeue k s = [] then 0 \<le> scnt k s else scnt k s = - int (length (squeue k s)))"

definition sem_ok :: "kernel_t \<Rightarrow> nat \<Rightarrow> bool" where
  "sem_ok k s \<longleftrightarrow> sem_queue_ok k s \<and> sem_count_ok k s"

definition sem_inv :: "kernel_t \<Rightarrow> bool" where
  "sem_inv k \<longleftrightarrow> sys_inv k \<and> (\<forall>s. sem_ok k s)"

lemmas sem_ok_defs = sem_ok_def sem_queue_ok_def sem_count_ok_def

lemma sem_consistent_ok: "sem_ok k s \<Longrightarrow> sem_consistent s k = Inr ()"
  by (auto simp: sem_ok_defs sem_consistent_def split: if_splits)

lemma upd_sem_sel [simp]:
  "k_tids (upd_sem s f k) = k_tids k" "k_thr (upd_sem s f k) = k_thr k" "k_cur (upd_sem s f k) = k_cur k"
  "k_ready (upd_sem s f k) = k_ready k" "k_idle (upd_sem s f k) = k_idle k" "k_cond (upd_sem s f k) = k_cond k"
  "k_mtx (upd_sem s f k) = k_mtx k" "k_ref (upd_sem s f k) = k_ref k" "k_queue (upd_sem s f k) = k_queue k"
  "k_timer (upd_sem s f k) = k_timer k"
  "k_sem (upd_sem s f k) s' = (if s' = s then f (k_sem k s) else k_sem k s')"
  by (simp_all add: upd_sem_def)

lemmas sem_upd = set_cnt_def set_squeue_def sem_enqueue_def

lemma sem_wf_room: "sem_ok k s \<Longrightarrow> squeue k s \<noteq> [] \<Longrightarrow> int (length (squeue k s)) < - INT_MIN"
  by (simp add: sem_ok_defs)

text \<open>Only the counter of a semaphore without waiting threads changes.\<close>

lemma sem_inv_count:
  assumes "sem_inv k" "squeue k s = []" "0 \<le> n" "n \<le> INT_MAX"
  shows "sem_inv (set_cnt s n k)"
proof -
  have "obj_frame k (set_cnt s n k)"
    by (simp add: obj_frame_def sem_upd)
  then have "sys_inv (set_cnt s n k)"
    using assms(1) obj_frame_sys_inv by (auto simp: sem_inv_def)
  moreover have "sem_ok (set_cnt s n k) s'" for s'
  proof -
    have "sem_ok k s'" using assms(1) by (simp add: sem_inv_def)
    then show ?thesis
      using assms(2-4) by (auto simp: sem_ok_defs sem_upd waits_sem_def INT_MIN_def)
  qed
  ultimately show ?thesis by (simp add: sem_inv_def)
qed

text \<open>The running thread joins the queue of \<open>s\<close> and sleeps.\<close>

lemma sem_inv_sleep:
  assumes inv: "sem_inv k" and cnt: "scnt k s \<le> 0" "INT_MIN + 1 < scnt k s" and idle: "k_cur k \<noteq> k_idle k"
    and pre: "obj_frame k k1" "k_sem k1 = (k_sem k)(s := \<lparr>s_queue = squeue k s @ [k_cur k], s_cnt = scnt k s - 1\<rparr>)"
      "\<And>t. t_u (k_thr k1 t) = (if t = k_cur k then WtSem s else t_u (k_thr k t))"
  shows "\<exists>k'. chSchGoSleepS CH_STATE_WTSEM k1 = Inr k' \<and> sem_inv k' \<and> sched_ok k' \<and> waits_sem k' (k_cur k) s \<and>
    squeue k' s = squeue k s @ [k_cur k] \<and> k_timer k' = k_timer k1"
proof -
  let ?c = "k_cur k"
  have sys: "sys_inv k" and ok: "sem_ok k s'" for s'
    using inv by (simp_all add: sem_inv_def)
  have c: "tstate k ?c = CH_STATE_CURRENT" "?c \<in> set (k_tids k)"
    using sys by (simp_all add: sys_inv_def sched_inv_def)
  have fr: "k_cur k1 = ?c" "k_idle k1 = k_idle k" "k_tids k1 = k_tids k" "tstate k1 t = tstate k t" for t
    using pre(1) by (simp_all add: obj_frame_def)
  have ne: "k_cur k1 \<noteq> k_idle k1" using idle fr by simp
  obtain k' where k': "chSchGoSleepS CH_STATE_WTSEM k1 = Inr k'" "sys_inv k'" "sched_ok k'" "sched_frame k1 k'"
      "tstate k' ?c = CH_STATE_WTSEM" "t_u (k_thr k' ?c) = t_u (k_thr k1 ?c)"
      "\<forall>t. t \<noteq> ?c \<longrightarrow> t_u (k_thr k' t) = t_u (k_thr k1 t) \<and>
         (tstate k' t = tstate k1 t \<or> (tstate k1 t = CH_STATE_READY \<and> tstate k' t = CH_STATE_CURRENT))"
      "k_timer k' = k_timer k1"
    using sleep_elsewhere[OF obj_frame_sys_inv[OF pre(1) sys] ne, of CH_STATE_WTSEM] unfolding fr(1) by auto
  have sem: "k_sem k' = k_sem k1" "k_tids k' = k_tids k"
    using k'(4) fr(3) by (simp_all add: sched_frame_def)
  have notin: "?c \<notin> set (squeue k s')" for s'
    using ok[of s'] c(1) by (simp add: sem_ok_defs waits_sem_def)
  have w: "waits_sem k' t s' \<longleftrightarrow> waits_sem k t s' \<or> (t = ?c \<and> s' = s)" for t s'
  proof (cases "t = ?c")
    case True
    then show ?thesis using k'(5,6) pre(3) c sem(2) by (auto simp: waits_sem_def)
  next
    case False
    have "tstate k' t = CH_STATE_WTSEM \<longleftrightarrow> tstate k t = CH_STATE_WTSEM"
      using k'(7) False fr(4) by auto
    then show ?thesis using False k'(7) pre(3) sem(2) by (simp add: waits_sem_def)
  qed
  have "sem_ok k' s'" for s'
  proof (cases "s' = s")
    case True
    have "- int (length (squeue k s)) = scnt k s"
      using ok[of s] cnt(1) by (auto simp: sem_ok_defs split: if_splits)
    then show ?thesis
      using ok[of s] notin[of s] cnt True unfolding sem_ok_defs w sem pre(2)
      by (auto simp: INT_MAX_def)
  next
    case False
    then show ?thesis
      using ok[of s'] unfolding sem_ok_defs w sem pre(2) by simp
  qed
  moreover have "squeue k' s = squeue k s @ [?c]"
    by (simp add: sem pre(2))
  ultimately show ?thesis
    using k'(1-3,8) w by (intro exI[of _ k']) (simp add: sem_inv_def)
qed

lemma chSemWait_ok:
  assumes "sem_inv k" "k_cur k \<noteq> k_idle k" "INT_MIN + 1 < scnt k s"
  shows "if 0 < scnt k s
    then \<exists>k'. chSemWait s k = Inr (Some MSG_OK, k') \<and> sem_inv k' \<and> scnt k' s = scnt k s - 1 \<and> k_cur k' = k_cur k
    else \<exists>k'. chSemWait s k = Inr (None, k') \<and> sem_inv k' \<and> sched_ok k' \<and> waits_sem k' (k_cur k) s \<and>
      squeue k' s = squeue k s @ [k_cur k]"
proof -
  have ok: "sem_ok k s"
    using assms(1) by (simp add: sem_inv_def)
  have n: "c_int (scnt k s - 1) = Inr (scnt k s - 1)"
    using ok assms(3) by (simp add: c_int_def sem_ok_defs)
  show ?thesis
  proof (cases "0 < scnt k s")
    case True
    then have e: "squeue k s = []"
      using ok by (auto simp: sem_ok_defs split: if_splits)
    have "sem_inv (set_cnt s (scnt k s - 1) k)"
      by (rule sem_inv_count[OF assms(1) e]) (use True ok in \<open>auto simp: sem_ok_defs\<close>)
    moreover have "scnt (set_cnt s (scnt k s - 1) k) s = scnt k s - 1" "k_cur (set_cnt s (scnt k s - 1) k) = k_cur k"
      by (simp_all add: sem_upd)
    ultimately show ?thesis
      using True by (simp add: chSemWait_def chSemWaitS_def sem_consistent_ok[OF ok] n)
  next
    case False
    let ?k = "sem_enqueue s (set_cnt s (scnt k s - 1) k)"
    have c: "tstate k (k_cur k) = CH_STATE_CURRENT"
      using assms(1) sched_inv_cur by (simp add: sem_inv_def sys_inv_def)
    have "obj_frame k ?k" "k_sem ?k = (k_sem k)(s := \<lparr>s_queue = squeue k s @ [k_cur k], s_cnt = scnt k s - 1\<rparr>)"
        "t_u (k_thr ?k t) = (if t = k_cur k then WtSem s else t_u (k_thr k t))" for t
      using c by (auto simp: obj_frame_def sem_upd fun_eq_iff)
    from sem_inv_sleep[OF assms(1) _ assms(3) assms(2) this] False show ?thesis
      by (auto simp: chSemWait_def chSemWaitS_def sem_consistent_ok[OF ok] n)
  qed
qed

text \<open>Taking one waiting thread out of its queue and making it run.\<close>

lemma ready_with_set_u: "ready_with t msg k = chSchReadyI t (set_u t (RdyMsg msg) k)"
proof -
  have "prio (set_state t x (set_u t y k)) = prio (set_state t x k)" for x y
    by simp
  then show ?thesis
    unfolding ready_with_def chSchReadyI_def sch_ready_behind_def Let_def
    by (simp add: assertE_def) (cases k, cases "k_thr k t", simp add: kernel_upd)
qed

definition sem_taken :: "tid \<Rightarrow> nat \<Rightarrow> msg_t \<Rightarrow> kernel_t \<Rightarrow> kernel_t \<Rightarrow> bool" where
  "sem_taken t s m k k1 \<longleftrightarrow> obj_frame k k1 \<and>
     (\<forall>s'. squeue k1 s' = (if s' = s then remove1 t (squeue k s) else squeue k s')) \<and>
     (\<forall>u. u \<noteq> t \<longrightarrow> t_u (k_thr k1 u) = t_u (k_thr k u))"

lemma sem_taken_waiter:
  assumes "\<forall>s. sem_queue_ok k s" "t \<in> set (squeue k s)" "sem_taken t s m k k1"
  shows "t \<in> set (k_tids k1)" "tstate k1 t = CH_STATE_WTSEM"
  using assms by (simp_all add: sem_queue_ok_def waits_sem_def sem_taken_def obj_frame_def)

lemma sem_taken_queues:
  assumes ok: "\<forall>s. sem_queue_ok k s" and t: "t \<in> set (squeue k s)" and k1: "sem_taken t s m k k1"
    and k': "k_tids k' = k_tids k" "k_sem k' = k_sem k1" "tstate k' t \<noteq> CH_STATE_WTSEM"
      "\<forall>u \<in> set (k_tids k). u \<noteq> t \<longrightarrow> (tstate k' u = CH_STATE_WTSEM \<longleftrightarrow> tstate k u = CH_STATE_WTSEM) \<and>
        t_u (k_thr k' u) = t_u (k_thr k1 u)"
  shows "\<forall>s. sem_queue_ok k' s"
proof
  fix s'
  have "waits_sem k' u s' \<longleftrightarrow> waits_sem k u s' \<and> u \<noteq> t" for u
    using k'(1,3,4) k1 by (auto simp: waits_sem_def sem_taken_def)
  moreover have "t \<in> set (squeue k s') \<longleftrightarrow> s' = s"
    using ok t by (auto simp: sem_queue_ok_def waits_sem_def)
  ultimately show "sem_queue_ok k' s'"
    using ok k1 by (auto simp: sem_queue_ok_def sem_taken_def k'(2))
qed

lemma sem_release_ready:
  assumes sys: "sys_inv k" and ok: "\<forall>s. sem_queue_ok k s" and t: "t \<in> set (squeue k s)"
    and k1: "sem_taken t s m k k1"
  shows "\<exists>k'. chSchReadyI t k1 = Inr k' \<and> sys_inv k' \<and> (\<forall>s. sem_queue_ok k' s) \<and> k_cur k' = k_cur k \<and>
    k_sem k' = k_sem k1 \<and> k_thr k' = (k_thr k1)(t := (k_thr k1 t)\<lparr>t_state := CH_STATE_READY\<rparr>) \<and> k_timer k' = k_timer k1"
proof -
  note w = sem_taken_waiter[OF ok t k1]
  have fr: "obj_frame k k1" using k1 by (simp add: sem_taken_def)
  obtain k' where k': "chSchReadyI t k1 = Inr k'" "sys_inv k'" "sched_frame k1 k'" "k_cur k' = k_cur k1"
      "k_thr k' = (k_thr k1)(t := (k_thr k1 t)\<lparr>t_state := CH_STATE_READY\<rparr>)" "k_timer k' = k_timer k1"
    using ready_elsewhere[OF obj_frame_sys_inv[OF fr sys] w(1)] w(2) by auto
  have "\<forall>s. sem_queue_ok k' s"
    by (rule sem_taken_queues[OF ok t k1]) (use k'(3,5) fr in \<open>simp_all add: sched_frame_def obj_frame_def\<close>)
  then show ?thesis
    using k' fr by (intro exI[of _ k']) (simp add: sched_frame_def obj_frame_def)
qed

lemma sem_release_wakeup:
  assumes sys: "sys_inv k" "sched_ok k" and ok: "\<forall>s. sem_queue_ok k s" and t: "t \<in> set (squeue k s)"
    and k1: "sem_taken t s m k k1"
  shows "\<exists>k'. chSchWakeupS t msg k1 = Inr k' \<and> sys_inv k' \<and> sched_ok k' \<and> (\<forall>s. sem_queue_ok k' s) \<and>
    k_sem k' = k_sem k1 \<and> t_u (k_thr k' t) = RdyMsg msg \<and> tstate k' t \<in> {CH_STATE_READY, CH_STATE_CURRENT}"
proof -
  note w = sem_taken_waiter[OF ok t k1]
  have fr: "obj_frame k k1" using k1 by (simp add: sem_taken_def)
  have c: "tstate k1 (k_cur k1) = CH_STATE_CURRENT" "k_cur k1 = k_cur k"
    using sched_inv_cur[of k] sys(1) fr by (simp_all add: sys_inv_def obj_frame_def)
  obtain k' where k': "chSchWakeupS t msg k1 = Inr k'" "sys_inv k'" "sched_ok k'" "sched_frame k1 k'"
      "t_u (k_thr k' t) = RdyMsg msg" "\<forall>u. u \<noteq> t \<longrightarrow> t_u (k_thr k' u) = t_u (k_thr k1 u)"
      "\<forall>u \<in> set (k_tids k1). tstate k' u \<in> {CH_STATE_READY, CH_STATE_CURRENT} \<longleftrightarrow>
         u = t \<or> tstate k1 u \<in> {CH_STATE_READY, CH_STATE_CURRENT}"
      "\<forall>u. u \<noteq> t \<longrightarrow> u \<noteq> k_cur k1 \<longrightarrow> k_thr k' u = k_thr k1 u"
    using wakeup_elsewhere[OF obj_frame_sys_inv[OF fr sys(1)] obj_frame_sched_ok[OF fr sys(2)] w(1), of msg] w(2) by auto
  have run: "tstate k' t \<in> {CH_STATE_READY, CH_STATE_CURRENT}"
    using k'(7) w(1) by simp
  have st: "tstate k' u = CH_STATE_WTSEM \<longleftrightarrow> tstate k u = CH_STATE_WTSEM" if "u \<in> set (k_tids k)" "u \<noteq> t" for u
  proof (cases "u = k_cur k1")
    case True
    have "tstate k' u \<in> {CH_STATE_READY, CH_STATE_CURRENT}"
      using k'(7) that(1) fr True c(1) by (simp add: obj_frame_def)
    then show ?thesis using c True fr by (auto simp: obj_frame_def)
  next
    case False
    then show ?thesis using k'(8) that(2) fr by (simp add: obj_frame_def)
  qed
  have "\<forall>s. sem_queue_ok k' s"
    by (rule sem_taken_queues[OF ok t k1]) (use k'(4,6) run st fr in \<open>auto simp: sched_frame_def obj_frame_def\<close>)
  then show ?thesis
    using k'(1-5) run by (intro exI[of _ k']) (simp add: sched_frame_def)
qed

text \<open>The state after the head of the queue is taken out and the counter incremented.\<close>

lemma sem_taken_head:
  assumes "\<forall>s. sem_queue_ok k s" "squeue k s = t # q"
  shows "sem_taken t s m k (set_squeue s q (set_cnt s n k))" "sem_taken t s m k (set_u t x (set_squeue s q (set_cnt s n k)))"
proof -
  have "waits_sem k t s"
    using assms(1)[THEN spec, of s] assms(2) unfolding sem_queue_ok_def by (metis list.set_intros(1))
  then have "tstate k t = CH_STATE_WTSEM"
    by (simp add: waits_sem_def)
  with assms(2) show "sem_taken t s m k (set_squeue s q (set_cnt s n k))"
      "sem_taken t s m k (set_u t x (set_squeue s q (set_cnt s n k)))"
    by (simp_all add: sem_taken_def obj_frame_def sem_upd)
qed

lemma sem_count_head:
  assumes "\<forall>s. sem_ok k s" "squeue k s = t # q" "k_sem k' = k_sem (set_squeue s q (set_cnt s (scnt k s + 1) k))"
  shows "sem_count_ok k' s'"
proof -
  have "sem_count_ok k s'" "sem_count_ok k s"
    using assms(1) by (simp_all add: sem_ok_def)
  then show ?thesis
    using assms(2) by (auto simp: sem_count_ok_def assms(3) sem_upd INT_MIN_def INT_MAX_def)
qed

lemma sem_cnt_next:
  assumes "sem_ok k s" "squeue k s \<noteq> [] \<or> scnt k s < INT_MAX"
  shows "c_int (scnt k s + 1) = Inr (scnt k s + 1)" "scnt k s + 1 \<le> 0 \<longleftrightarrow> squeue k s \<noteq> []"
  using assms by (cases "squeue k s"; simp add: sem_ok_defs c_int_def INT_MIN_def INT_MAX_def)+

lemma chSemSignal_ok:
  assumes "sem_inv k" "sched_ok k" "squeue k s \<noteq> [] \<or> scnt k s < INT_MAX"
  shows "\<exists>k'. chSemSignal s k = Inr k' \<and> sem_inv k' \<and> sched_ok k' \<and> scnt k' s = scnt k s + 1 \<and>
    squeue k' s = tl (squeue k s) \<and>
    (squeue k s \<noteq> [] \<longrightarrow> t_u (k_thr k' (hd (squeue k s))) = RdyMsg MSG_OK \<and>
       tstate k' (hd (squeue k s)) \<in> {CH_STATE_READY, CH_STATE_CURRENT})"
proof -
  have sys: "sys_inv k" and ok: "\<forall>s. sem_ok k s" and okq: "\<forall>s. sem_queue_ok k s"
    using assms(1) by (simp_all add: sem_inv_def sem_ok_def)
  have s: "sem_ok k s" using ok by simp
  note n = sem_cnt_next[OF s assms(3)]
  show ?thesis
  proof (cases "squeue k s")
    case Nil
    have "0 \<le> scnt k s" using s Nil by (simp add: sem_ok_defs)
    then have "sem_inv (set_cnt s (scnt k s + 1) k)" "sched_ok (set_cnt s (scnt k s + 1) k)"
      using assms sem_inv_count[OF assms(1) Nil] Nil obj_frame_sched_ok[of k "set_cnt s (scnt k s + 1) k"]
      by (simp_all add: obj_frame_def sem_upd)
    then show ?thesis
      using n Nil by (simp add: chSemSignal_def sem_consistent_ok[OF s] Let_def) (simp add: sem_upd Nil)
  next
    case (Cons t q)
    let ?k = "set_squeue s q (set_cnt s (scnt k s + 1) k)"
    obtain k' where k': "chSchWakeupS t MSG_OK ?k = Inr k'" "sys_inv k'" "sched_ok k'" "\<forall>s. sem_queue_ok k' s"
        "k_sem k' = k_sem ?k" "t_u (k_thr k' t) = RdyMsg MSG_OK" "tstate k' t \<in> {CH_STATE_READY, CH_STATE_CURRENT}"
      using sem_release_wakeup[OF sys assms(2) okq _ sem_taken_head(1)[OF okq Cons]] Cons by force
    have "sem_inv k'"
      using k'(2,4) sem_count_head[OF ok Cons k'(5)] by (simp add: sem_inv_def sem_ok_def)
    moreover have "scnt k' s = scnt k s + 1" "squeue k' s = q"
      by (simp_all add: k'(5)) (simp_all add: sem_upd)
    moreover have "squeue (set_cnt s (scnt k s + 1) k) s = t # q"
      by (simp add: sem_upd Cons)
    ultimately show ?thesis
      using n k' Cons by (simp add: chSemSignal_def sem_consistent_ok[OF s] Let_def)
  qed
qed

lemma chSemSignalI_ok:
  assumes "sem_inv k" "squeue k s \<noteq> [] \<or> scnt k s < INT_MAX"
  shows "\<exists>k'. chSemSignalI s k = Inr k' \<and> sem_post s k = Inr k' \<and> sem_inv k' \<and> scnt k' s = scnt k s + 1 \<and>
    squeue k' s = tl (squeue k s) \<and> k_cur k' = k_cur k \<and> (\<forall>s'. s' \<noteq> s \<longrightarrow> k_sem k' s' = k_sem k s') \<and>
    (squeue k s \<noteq> [] \<longrightarrow> t_u (k_thr k' (hd (squeue k s))) = RdyMsg MSG_OK \<and>
       tstate k' (hd (squeue k s)) = CH_STATE_READY)"
proof -
  have sys: "sys_inv k" and ok: "\<forall>s. sem_ok k s" and okq: "\<forall>s. sem_queue_ok k s"
    using assms(1) by (simp_all add: sem_inv_def sem_ok_def)
  have s: "sem_ok k s" using ok by simp
  note n = sem_cnt_next[OF s assms(2)]
  show ?thesis
  proof (cases "squeue k s")
    case Nil
    have "0 \<le> scnt k s" using s Nil by (simp add: sem_ok_defs)
    then have "sem_inv (set_cnt s (scnt k s + 1) k)"
      using assms(2) sem_inv_count[OF assms(1) Nil] Nil by simp
    then show ?thesis
      using n Nil by (simp add: chSemSignalI_def sem_post_def sem_consistent_ok[OF s] Let_def) (simp add: sem_upd Nil)
  next
    case (Cons t q)
    let ?k = "set_u t (RdyMsg MSG_OK) (set_squeue s q (set_cnt s (scnt k s + 1) k))"
    obtain k' where k': "chSchReadyI t ?k = Inr k'" "sys_inv k'" "\<forall>s. sem_queue_ok k' s" "k_cur k' = k_cur k"
        "k_sem k' = k_sem ?k" "k_thr k' = (k_thr ?k)(t := (k_thr ?k t)\<lparr>t_state := CH_STATE_READY\<rparr>)"
      using sem_release_ready[OF sys okq _ sem_taken_head(2)[OF okq Cons]] Cons by force
    have "sem_inv k'"
      using k'(2,3,5) sem_count_head[OF ok Cons, of k'] by (simp add: sem_inv_def sem_ok_def)
    moreover have "scnt k' s = scnt k s + 1" "squeue k' s = q" "\<forall>s'. s' \<noteq> s \<longrightarrow> k_sem k' s' = k_sem k s'"
      by (simp_all add: k'(5)) (simp_all add: sem_upd)
    moreover have "squeue (set_cnt s (scnt k s + 1) k) s = t # q"
      by (simp add: sem_upd Cons)
    ultimately show ?thesis
      using n k' Cons
      by (simp add: chSemSignalI_def sem_post_def sem_consistent_ok[OF s] Let_def ready_with_set_u)
  qed
qed

text \<open>Adding \<open>n\<close> to the counter is \<open>n\<close> signals: the first \<open>n\<close> waiting threads leave the queue.\<close>

lemma sem_posts_ok:
  assumes "sem_inv k" "scnt k s + int n \<le> INT_MAX"
  shows "\<exists>k'. foldE (\<lambda>_. sem_post s) [0..<n] k = Inr k' \<and> sem_inv k' \<and> scnt k' s = scnt k s + int n \<and>
    squeue k' s = drop n (squeue k s) \<and> k_cur k' = k_cur k"
  using assms(2)
proof (induction n)
  case 0
  then show ?case using assms(1) by simp
next
  case (Suc n)
  then obtain k1 where k1: "foldE (\<lambda>_. sem_post s) [0..<n] k = Inr k1" "sem_inv k1" "scnt k1 s = scnt k s + int n"
      "squeue k1 s = drop n (squeue k s)" "k_cur k1 = k_cur k"
    by auto
  obtain k' where "sem_post s k1 = Inr k'" "sem_inv k'" "scnt k' s = scnt k1 s + 1" "squeue k' s = tl (squeue k1 s)"
      "k_cur k' = k_cur k1"
    using chSemSignalI_ok[OF k1(2), of s] Suc.prems k1(3) by auto
  then show ?case
    using k1 by (simp add: foldE_append drop_Suc tl_drop)
qed

lemma chSemAddCounterI_ok:
  assumes "sem_inv k" "0 < n" "scnt k s + n \<le> INT_MAX"
  shows "\<exists>k'. chSemAddCounterI s n k = Inr k' \<and> sem_inv k' \<and> scnt k' s = scnt k s + n \<and>
    squeue k' s = drop (nat n) (squeue k s) \<and> k_cur k' = k_cur k"
proof -
  have "sem_ok k s" using assms(1) by (simp add: sem_inv_def)
  then show ?thesis
    using sem_posts_ok[OF assms(1), of s "nat n"] assms(2,3)
    by (simp add: chSemAddCounterI_def sem_consistent_ok)
qed

text \<open>A reset makes every waiting thread ready with the message.\<close>

lemma reset_loop:
  assumes "sys_inv k" "\<forall>s. sem_queue_ok k s"
  shows "\<exists>k'. foldE (\<lambda>t k. ready_with t msg (set_squeue s (butlast (squeue k s)) k)) (rev (squeue k s)) k = Inr k' \<and>
    sys_inv k' \<and> (\<forall>s. sem_queue_ok k' s) \<and> squeue k' s = [] \<and> scnt k' s = scnt k s \<and> k_cur k' = k_cur k \<and>
    (\<forall>s'. s' \<noteq> s \<longrightarrow> k_sem k' s' = k_sem k s') \<and>
    (\<forall>t \<in> set (squeue k s). tstate k' t = CH_STATE_READY \<and> t_u (k_thr k' t) = RdyMsg msg) \<and>
    (\<forall>t. t \<notin> set (squeue k s) \<longrightarrow> k_thr k' t = k_thr k t)"
  using assms
proof (induction "squeue k s" arbitrary: k rule: rev_induct)
  case Nil
  then show ?case by auto
next
  case (snoc t q)
  let ?k = "set_u t (RdyMsg msg) (set_squeue s q k)"
  have q: "squeue k s = q @ [t]" "t \<notin> set q"
    using snoc.hyps(2) snoc.prems(2)[THEN spec, of s] by (auto simp: sem_queue_ok_def simp flip: snoc.hyps(2))
  have w: "waits_sem k t s"
    using snoc.prems(2)[THEN spec, of s] q(1) unfolding sem_queue_ok_def
    by (metis in_set_conv_decomp)
  have "sem_taken t s msg k ?k"
    using q w by (simp add: sem_taken_def obj_frame_def sem_upd waits_sem_def remove1_append)
  then obtain k1 where k1: "chSchReadyI t ?k = Inr k1" "sys_inv k1" "\<forall>s. sem_queue_ok k1 s" "k_cur k1 = k_cur k"
      "k_sem k1 = k_sem ?k" "k_thr k1 = (k_thr ?k)(t := (k_thr ?k t)\<lparr>t_state := CH_STATE_READY\<rparr>)"
    using sem_release_ready[OF snoc.prems, of t s msg ?k] q(1) by auto
  have q1: "q = squeue k1 s" "scnt k1 s = scnt k s" "\<forall>s'. s' \<noteq> s \<longrightarrow> k_sem k1 s' = k_sem k s'"
    by (simp_all add: k1(5)) (simp_all add: sem_upd)
  have thr: "t_u (k_thr k1 t) = RdyMsg msg" "tstate k1 t = CH_STATE_READY" "\<forall>u. u \<noteq> t \<longrightarrow> k_thr k1 u = k_thr k u"
    by (simp_all add: k1(6)) (simp_all add: sem_upd kernel_upd)
  let ?body = "\<lambda>t k. ready_with t msg (set_squeue s (butlast (squeue k s)) k)"
  obtain k' where k': "foldE ?body (rev q) k1 = Inr k'" "sys_inv k'" "\<forall>s. sem_queue_ok k' s" "squeue k' s = []"
      "scnt k' s = scnt k1 s" "k_cur k' = k_cur k1" "\<forall>s'. s' \<noteq> s \<longrightarrow> k_sem k' s' = k_sem k1 s'"
      "\<forall>t \<in> set q. tstate k' t = CH_STATE_READY \<and> t_u (k_thr k' t) = RdyMsg msg"
      "\<forall>t. t \<notin> set q \<longrightarrow> k_thr k' t = k_thr k1 t"
    using snoc.hyps(1)[OF q1(1) k1(2,3)] unfolding q1(1)[symmetric] by blast
  have "foldE ?body (rev (squeue k s)) k = Inr k'"
    using k1(1) k'(1) q(1) by (simp add: ready_with_set_u)
  moreover have "tstate k' t = CH_STATE_READY \<and> t_u (k_thr k' t) = RdyMsg msg"
    using k'(9) q(2) thr(1,2) by simp
  moreover have "k_thr k' u = k_thr k u" if "u \<notin> set (squeue k s)" for u
    using k'(9) thr(3) that q(1) by simp
  ultimately show ?case
    using k'(2-8) q1(2,3) k1(4) q(1) by (intro exI[of _ k']) auto
qed

lemma chSemResetWithMessageI_ok:
  assumes "sem_inv k" "0 \<le> n" "n \<le> INT_MAX"
  shows "\<exists>k'. chSemResetWithMessageI s n msg k = Inr k' \<and> sem_inv k' \<and> scnt k' s = n \<and> squeue k' s = [] \<and>
    k_cur k' = k_cur k \<and>
    (\<forall>t \<in> set (squeue k s). tstate k' t = CH_STATE_READY \<and> t_u (k_thr k' t) = RdyMsg msg)"
proof -
  let ?k = "set_cnt s n k"
  have ok: "\<forall>s. sem_ok k s" using assms(1) by (simp add: sem_inv_def)
  have "obj_frame k ?k" by (simp add: obj_frame_def sem_upd)
  then have sys: "sys_inv ?k"
    using assms(1) obj_frame_sys_inv by (simp add: sem_inv_def)
  have "sem_queue_ok k s'" for s' using ok by (simp add: sem_ok_def)
  then have "\<forall>s. sem_queue_ok ?k s"
    by (simp add: sem_queue_ok_def waits_sem_def sem_upd)
  note r = reset_loop[OF sys this, of msg s]
  have e: "squeue ?k s = squeue k s" "scnt ?k s = n" "\<And>s'. s' \<noteq> s \<Longrightarrow> k_sem ?k s' = k_sem k s'" "k_cur ?k = k_cur k"
    by (simp_all add: sem_upd)
  have eq: "chSemResetWithMessageI s n msg k =
      foldE (\<lambda>t k. ready_with t msg (set_squeue s (butlast (squeue k s)) k)) (rev (squeue ?k s)) ?k"
    using assms(2) ok by (simp add: chSemResetWithMessageI_def sem_consistent_ok e(1))
  obtain k' where k': "chSemResetWithMessageI s n msg k = Inr k'" "sys_inv k'" "\<forall>s. sem_queue_ok k' s" "squeue k' s = []"
      "scnt k' s = n" "k_cur k' = k_cur k" "\<forall>s'. s' \<noteq> s \<longrightarrow> k_sem k' s' = k_sem ?k s'"
      "\<forall>t \<in> set (squeue k s). tstate k' t = CH_STATE_READY \<and> t_u (k_thr k' t) = RdyMsg msg"
    using r[folded eq, unfolded e(1,2,4)] by blast
  have "sem_count_ok k' s'" for s'
  proof (cases "s' = s")
    case True
    then show ?thesis using k'(4,5) assms(2,3) by (simp add: sem_count_ok_def INT_MIN_def)
  next
    case False
    then have "k_sem k' s' = k_sem k s'" using k'(7) e(3) by simp
    then show ?thesis using ok by (simp add: sem_ok_def sem_count_ok_def)
  qed
  then have "sem_inv k'" using k'(2,3) by (simp add: sem_inv_def sem_ok_def)
  then show ?thesis using k' by blast
qed

text \<open>
  Waiting with a timeout: an immediate one leaves the semaphore as it was; when the timer
  of a waiting thread expires, its callback takes the thread out of the queue and gives the
  count back.
\<close>

lemma set_cnt_same: "set_cnt s (scnt k s) (set_cnt s n k) = k"
  by (cases k) (simp add: set_cnt_def upd_sem_def)

lemma chSemWaitTimeout_immediate:
  assumes "sem_inv k" "scnt k s \<le> 0" "INT_MIN < scnt k s"
  shows "chSemWaitTimeout s TIME_IMMEDIATE k = Inr (Some MSG_TIMEOUT, k)"
proof -
  have ok: "sem_ok k s" using assms(1) by (simp add: sem_inv_def)
  have "c_int (scnt k s - 1) = Inr (scnt k s - 1)"
    using assms(2,3) by (simp add: c_int_def INT_MAX_def)
  then show ?thesis
    using assms(2) by (simp add: chSemWaitTimeout_def chSemWaitTimeoutS_def sem_consistent_ok[OF ok] Let_def set_cnt_same)
qed

lemma chSemWaitTimeout_sleeps:
  assumes "sem_inv k" "k_cur k \<noteq> k_idle k" "scnt k s \<le> 0" "INT_MIN + 1 < scnt k s"
    "timeout \<noteq> TIME_IMMEDIATE" "timeout \<noteq> TIME_INFINITE"
  shows "\<exists>k'. chSemWaitTimeout s timeout k = Inr (None, k') \<and> sem_inv k' \<and> sched_ok k' \<and>
    waits_sem k' (k_cur k) s \<and> squeue k' s = squeue k s @ [k_cur k] \<and> k_timer k' (k_cur k) = Some timeout"
proof -
  let ?k = "sem_enqueue s (set_cnt s (scnt k s - 1) k)"
  let ?k1 = "?k\<lparr>k_timer := (k_timer ?k)(k_cur k := Some timeout)\<rparr>"
  have ok: "sem_ok k s" using assms(1) by (simp add: sem_inv_def)
  have n: "c_int (scnt k s - 1) = Inr (scnt k s - 1)"
    using assms(3,4) by (simp add: c_int_def INT_MAX_def)
  have c: "tstate k (k_cur k) = CH_STATE_CURRENT"
    using assms(1) sched_inv_cur by (simp add: sem_inv_def sys_inv_def)
  have cur: "k_cur ?k = k_cur k" by (simp add: sem_upd)
  have "obj_frame k ?k1" "k_sem ?k1 = (k_sem k)(s := \<lparr>s_queue = squeue k s @ [k_cur k], s_cnt = scnt k s - 1\<rparr>)"
      "t_u (k_thr ?k1 t) = (if t = k_cur k then WtSem s else t_u (k_thr k t))" for t
    using c by (auto simp: obj_frame_def sem_upd fun_eq_iff)
  from sem_inv_sleep[OF assms(1,3,4,2) this] obtain k' where "chSchGoSleepS CH_STATE_WTSEM ?k1 = Inr k'" "sem_inv k'"
      "sched_ok k'" "waits_sem k' (k_cur k) s" "squeue k' s = squeue k s @ [k_cur k]" "k_timer k' = k_timer ?k1"
    by blast
  then show ?thesis
    using assms(3,5,6) cur
    by (simp add: chSemWaitTimeout_def chSemWaitTimeoutS_def sem_consistent_ok[OF ok] n Let_def chSchGoSleepTimeoutS_def)
qed

lemma sem_timeout_ok:
  assumes "sem_inv k" "waits_sem k t s"
  shows "\<exists>k'. sch_wakeup t k = Inr k' \<and> sem_inv k' \<and> squeue k' s = remove1 t (squeue k s) \<and>
    scnt k' s = scnt k s + 1 \<and> k_cur k' = k_cur k \<and> rdymsg t k' = Inr MSG_TIMEOUT \<and> tstate k' t = CH_STATE_READY"
proof -
  have sys: "sys_inv k" and ok: "\<forall>s. sem_ok k s" and okq: "\<forall>s. sem_queue_ok k s"
    using assms(1) by (simp_all add: sem_inv_def sem_ok_def)
  let ?kd = "dequeue_anywhere t (upd_sem s (\<lambda>sm. sm\<lparr>s_cnt := s_cnt sm + 1\<rparr>) k)"
  let ?k = "set_u t (RdyMsg MSG_TIMEOUT) ?kd"
  have w: "tstate k t = CH_STATE_WTSEM" "t_u (k_thr k t) = WtSem s" "t \<in> set (squeue k s)"
    using assms(2) okq by (simp_all add: waits_sem_def sem_queue_ok_def)
  then have k0: "?kd = upd_sem s (\<lambda>sm. sm\<lparr>s_queue := remove1 t (s_queue sm)\<rparr>) (upd_sem s (\<lambda>sm. sm\<lparr>s_cnt := s_cnt sm + 1\<rparr>) k)"
    by (simp add: dequeue_anywhere_def ch_queue_dequeue_def)
  have "sem_taken t s MSG_TIMEOUT k ?k"
    unfolding k0 using w by (simp add: sem_taken_def obj_frame_def)
  then obtain k' where k': "chSchReadyI t ?k = Inr k'" "sys_inv k'" "\<forall>s. sem_queue_ok k' s" "k_cur k' = k_cur k"
      "k_sem k' = k_sem ?k" "k_thr k' = (k_thr ?k)(t := (k_thr ?k t)\<lparr>t_state := CH_STATE_READY\<rparr>)"
    using sem_release_ready[OF sys okq w(3), of MSG_TIMEOUT ?k] by blast
  have q: "squeue k' s = remove1 t (squeue k s)" "scnt k' s = scnt k s + 1"
    unfolding k'(5) k0 by simp_all
  have "sem_count_ok k' s'" for s'
  proof (cases "s' = s")
    case True
    have "length (squeue k s) = Suc (length (remove1 t (squeue k s)))"
      using w(3) length_pos_if_in_set[OF w(3)] by (simp add: length_remove1)
    moreover have "scnt k s = - int (length (squeue k s))" "INT_MIN < scnt k s"
      using ok[THEN spec, of s] length_pos_if_in_set[OF w(3)] by (simp_all add: sem_ok_def sem_count_ok_def)
    ultimately have "scnt k' s = - int (length (squeue k' s))" "INT_MIN < scnt k' s"
      using q by simp_all
    then show ?thesis using True by (simp add: sem_count_ok_def INT_MAX_def)
  next
    case False
    then have "k_sem k' s' = k_sem k s'" unfolding k'(5) k0 by simp
    then show ?thesis using ok by (simp add: sem_ok_def sem_count_ok_def)
  qed
  then have "sem_inv k'" using k'(2,3) by (simp add: sem_inv_def sem_ok_def)
  moreover have "rdymsg t k' = Inr MSG_TIMEOUT" "tstate k' t = CH_STATE_READY"
    by (simp_all add: rdymsg_def k'(6))
  ultimately show ?thesis
    using k'(1,4) q w(1,2) by (simp add: sch_wakeup_def Let_def chSchReadyI_def)
qed

end
