(* ===== verification/Allocator.thy ===== *)
theory Allocator
  imports Prelude
begin

text \<open>
  What the heap and the memory pools promise to a program that allocates, uses and frees
  memory. The program is a sequence of requests, writes to objects it holds, and
  deallocations of objects it holds; the locale shows that it never fails, that the objects it
  holds never overlap, and that no memory is lost.
\<close>

datatype ('q, 'w) alloc_op = Get 'q | Touch nat 'w | Put nat

text \<open>One operation of the program, which holds the objects \<open>ps\<close>; the null pointer is not kept.\<close>

definition alloc_step ::
  "('q \<Rightarrow> 's \<Rightarrow> (u32 \<times> 's) result) \<Rightarrow> (u32 \<Rightarrow> 's \<Rightarrow> 's result) \<Rightarrow> (u32 \<Rightarrow> 'w \<Rightarrow> 's \<Rightarrow> 's) \<Rightarrow>
   ('q, 'w) alloc_op \<Rightarrow> 's \<times> u32 list \<Rightarrow> ('s \<times> u32 list) result" where
  "alloc_step get put touch op = (\<lambda>(s, ps).
     case op of
       Get q \<Rightarrow> bindE (get q s) (\<lambda>(p, s). Inr (s, if p = 0 then ps else ps @ [p]))
     | Touch i w \<Rightarrow> Inr (if i < length ps then touch (ps ! i) w s else s, ps)
     | Put i \<Rightarrow>
         if i < length ps then bindE (put (ps ! i) s) (\<lambda>s. Inr (s, take i ps @ drop (Suc i) ps)) else Inr (s, ps))"

definition alloc_run ::
  "('q \<Rightarrow> 's \<Rightarrow> (u32 \<times> 's) result) \<Rightarrow> (u32 \<Rightarrow> 's \<Rightarrow> 's result) \<Rightarrow> (u32 \<Rightarrow> 'w \<Rightarrow> 's \<Rightarrow> 's) \<Rightarrow>
   ('q, 'w) alloc_op list \<Rightarrow> 's \<times> u32 list \<Rightarrow> ('s \<times> u32 list) result" where
  "alloc_run get put touch = foldE (alloc_step get put touch)"

definition requests :: "('q, 'w) alloc_op list \<Rightarrow> 'q set" where
  "requests ops = {q. Get q \<in> set ops}"

lemma set_take_drop:
  assumes "distinct xs" "i < length xs"
  shows "set (take i xs @ drop (Suc i) xs) = set xs - {xs ! i}" "distinct (take i xs @ drop (Suc i) xs)"
proof -
  have "xs = take i xs @ xs ! i # drop (Suc i) xs" using assms(2) by (rule id_take_nth_drop)
  then have d: "distinct (take i xs @ xs ! i # drop (Suc i) xs)" "set xs = set (take i xs @ xs ! i # drop (Suc i) xs)"
    using assms(1) by simp_all
  then show "set (take i xs @ drop (Suc i) xs) = set xs - {xs ! i}" "distinct (take i xs @ drop (Suc i) xs)"
    unfolding d(2) by auto
qed

locale alloc_free =
  fixes rep :: "'s \<Rightarrow> 'a set \<Rightarrow> (u32 \<rightharpoonup> 'a set) \<Rightarrow> bool"
    and req :: "'q \<Rightarrow> bool"
    and get :: "'q \<Rightarrow> 's \<Rightarrow> (u32 \<times> 's) result"
    and put :: "u32 \<Rightarrow> 's \<Rightarrow> 's result"
    and touch :: "u32 \<Rightarrow> 'w \<Rightarrow> 's \<Rightarrow> 's"
  assumes get_ok: "rep s F L \<Longrightarrow> req q \<Longrightarrow> \<exists>p s'. get q s = Inr (p, s') \<and>
      (p = 0 \<and> rep s' F L \<or> p \<noteq> 0 \<and> L p = None \<and> (\<exists>A \<subseteq> F. rep s' (F - A) (L(p \<mapsto> A))))"
    and put_ok: "rep s F L \<Longrightarrow> L p = Some A \<Longrightarrow> \<exists>s'. put p s = Inr s' \<and> rep s' (F \<union> A) (L(p := None))"
    and touch_ok: "rep s F L \<Longrightarrow> L p = Some A \<Longrightarrow> rep (touch p w s) F L"
    and rep_free: "rep s F L \<Longrightarrow> L p = Some A \<Longrightarrow> A \<inter> F = {}"
    and rep_apart: "rep s F L \<Longrightarrow> L p = Some A \<Longrightarrow> L p' = Some B \<Longrightarrow> p \<noteq> p' \<Longrightarrow> A \<inter> B = {}"
begin

text \<open>The state, the objects held and the memory \<open>U\<close> they share with the free memory.\<close>

definition holds :: "'a set \<Rightarrow> 's \<times> u32 list \<Rightarrow> bool" where
  "holds U = (\<lambda>(s, ps). distinct ps \<and> (\<exists>F L. rep s F L \<and> dom L = set ps \<and> F \<union> \<Union>(ran L) = U))"

lemma holds_start: "rep s F Map.empty \<Longrightarrow> holds F (s, [])"
  by (auto simp: holds_def intro!: exI[of _ F] exI[of _ Map.empty])

lemma ran_remove:
  assumes "rep s F L" "L p = Some A"
  shows "(F \<union> A) \<union> \<Union>(ran (L(p := None))) = F \<union> \<Union>(ran L)"
proof -
  have "x \<in> \<Union>(ran L) \<longleftrightarrow> x \<in> A \<or> x \<in> \<Union>(ran (L(p := None)))" for x
    using assms(2) by (auto simp: ran_def) (metis option.sel)
  then show ?thesis by blast
qed

lemma step_holds:
  assumes "holds U (s, ps)" "\<forall>q. op = Get q \<longrightarrow> req q"
  shows "\<exists>x. alloc_step get put touch op (s, ps) = Inr x \<and> holds U x"
proof -
  obtain F L where r: "rep s F L" "dom L = set ps" "F \<union> \<Union>(ran L) = U" "distinct ps"
    using assms(1) by (auto simp: holds_def)
  show ?thesis
  proof (cases op)
    case (Get q)
    obtain p s' where p: "get q s = Inr (p, s')"
        "p = 0 \<and> rep s' F L \<or> p \<noteq> 0 \<and> L p = None \<and> (\<exists>A \<subseteq> F. rep s' (F - A) (L(p \<mapsto> A)))"
    proof -
      have "req q" using assms(2) Get by simp
      from get_ok[OF r(1) this] that show ?thesis by blast
    qed
    from p(2) show ?thesis
    proof (elim disjE conjE exE)
      assume "p = 0" "rep s' F L"
      then have "holds U (s', ps)" using r(2-4) unfolding holds_def prod.case by blast
      with \<open>p = 0\<close> p(1) Get show ?thesis by (simp add: alloc_step_def)
    next
      fix A assume a: "p \<noteq> 0" "L p = None" "A \<subseteq> F" "rep s' (F - A) (L(p \<mapsto> A))"
      have "(F - A) \<union> \<Union>(ran (L(p \<mapsto> A))) = U" using r(3) a(2,3) by auto
      moreover have "dom (L(p \<mapsto> A)) = set (ps @ [p])" using r(2) by auto
      moreover have "distinct (ps @ [p])" using r(2,4) a(2) by auto
      ultimately have "holds U (s', ps @ [p])" using a(4) unfolding holds_def prod.case by blast
      with a(1) p(1) Get show ?thesis by (simp add: alloc_step_def)
    qed
  next
    case (Touch i w)
    show ?thesis
    proof (cases "i < length ps")
      case True
      then obtain A where "L (ps ! i) = Some A" using r(2) by (metis domD nth_mem)
      then have "holds U (touch (ps ! i) w s, ps)" using touch_ok[OF r(1)] r(2-4) unfolding holds_def prod.case by blast
      with True Touch show ?thesis by (simp add: alloc_step_def)
    next
      case False
      then show ?thesis using assms(1) Touch by (simp add: alloc_step_def)
    qed
  next
    case (Put i)
    show ?thesis
    proof (cases "i < length ps")
      case True
      then obtain A where A: "L (ps ! i) = Some A" using r(2) by (metis domD nth_mem)
      obtain s' where s': "put (ps ! i) s = Inr s'" "rep s' (F \<union> A) (L(ps ! i := None))"
        using put_ok[OF r(1) A] by blast
      have "holds U (s', take i ps @ drop (Suc i) ps)"
        using s'(2) set_take_drop[OF r(4) True] ran_remove[OF r(1) A] r(2,3) unfolding holds_def prod.case
        by (intro conjI exI[of _ "F \<union> A"] exI[of _ "L(ps ! i := None)"]) simp_all
      with s'(1) True Put show ?thesis by (simp add: alloc_step_def)
    next
      case False
      then show ?thesis using assms(1) Put by (simp add: alloc_step_def)
    qed
  qed
qed

lemma run_holds:
  assumes "holds U x" "\<forall>q \<in> requests ops. req q"
  shows "\<exists>y. alloc_run get put touch ops x = Inr y \<and> holds U y"
  using assms
proof (induction ops arbitrary: x)
  case Nil
  then show ?case by (simp add: alloc_run_def)
next
  case (Cons op ops)
  obtain s ps where x: "x = (s, ps)" by (cases x)
  obtain y where "alloc_step get put touch op x = Inr y" "holds U y"
    using step_holds[of U s ps op] Cons.prems unfolding x requests_def by auto
  with Cons show ?case by (auto simp: alloc_run_def requests_def)
qed

text \<open>
  A program that starts with all of \<open>F\<close> free runs without failure. In the end each object it
  holds has an area of its own; free memory and areas together are \<open>F\<close>, and they are disjoint.
\<close>

lemma run_ok:
  assumes "rep s F Map.empty" "\<forall>q \<in> requests ops. req q"
  shows "\<exists>s' ps F' L. alloc_run get put touch ops (s, []) = Inr (s', ps) \<and> rep s' F' L \<and> distinct ps \<and> dom L = set ps \<and>
    F' \<union> \<Union>(ran L) = F \<and> (\<forall>p A. L p = Some A \<longrightarrow> A \<inter> F' = {}) \<and>
    (\<forall>p p' A B. L p = Some A \<longrightarrow> L p' = Some B \<longrightarrow> p \<noteq> p' \<longrightarrow> A \<inter> B = {})"
proof -
  obtain s' ps where "alloc_run get put touch ops (s, []) = Inr (s', ps)" "holds F (s', ps)"
    using run_holds[OF holds_start[OF assms(1)] assms(2)] by (metis prod.exhaust)
  moreover from this(2) obtain F' L where r: "rep s' F' L" "dom L = set ps" "F' \<union> \<Union>(ran L) = F" "distinct ps"
    by (auto simp: holds_def)
  moreover have "\<forall>p A. L p = Some A \<longrightarrow> A \<inter> F' = {}" using rep_free[OF r(1)] by blast
  moreover have "\<forall>p p' A B. L p = Some A \<longrightarrow> L p' = Some B \<longrightarrow> p \<noteq> p' \<longrightarrow> A \<inter> B = {}" using rep_apart[OF r(1)] by blast
  ultimately show ?thesis by blast
qed

end

end
