(* ===== verification/Ch_Mem.thy ===== *)
theory Ch_Mem
  imports Ch_Sem Ch_Vt Allocator
begin

text \<open>
  Memory: the alignment macros of \<^verbatim>\<open>chalign.h\<close>, the core allocator (\<^verbatim>\<open>chmemcore.c\<close>) and the memory
  pools (\<^verbatim>\<open>chmempools.c\<close>). Addresses and sizes are 32-bit words and wrap as they do in the code;
  the null pointer is 0. The free objects of a pool are linked through their first word:
  \<open>link p\<close> is the word at address \<open>p\<close>.
\<close>

unbundle bit_operations_syntax

section \<open>Alignment\<close>

definition MEM_ALIGN_MASK :: "u32 \<Rightarrow> u32" where
  "MEM_ALIGN_MASK a = a - 1"

definition MEM_ALIGN_PREV :: "u32 \<Rightarrow> u32 \<Rightarrow> u32" where
  "MEM_ALIGN_PREV p a = p AND NOT (MEM_ALIGN_MASK a)"

definition MEM_ALIGN_NEXT :: "u32 \<Rightarrow> u32 \<Rightarrow> u32" where
  "MEM_ALIGN_NEXT p a = MEM_ALIGN_PREV (p + MEM_ALIGN_MASK a) a"

definition MEM_IS_ALIGNED :: "u32 \<Rightarrow> u32 \<Rightarrow> bool" where
  "MEM_IS_ALIGNED p a \<longleftrightarrow> p AND MEM_ALIGN_MASK a = 0"

definition MEM_IS_VALID_ALIGNMENT :: "u32 \<Rightarrow> bool" where
  "MEM_IS_VALID_ALIGNMENT a \<longleftrightarrow> a \<noteq> 0 \<and> a AND (a - 1) = 0"

definition PORT_NATURAL_ALIGN :: u32 where
  "PORT_NATURAL_ALIGN = 4"

lemma valid_alignment:
  assumes "MEM_IS_VALID_ALIGNMENT a"
  obtains k where "k < 32" "a = 2 ^ k" "unat a = 2 ^ k" "MEM_ALIGN_MASK a = mask k"
proof -
  obtain k where k: "k < 32" "a = 2 ^ k"
    using power_of_two_test[of a] assms by (auto simp: MEM_IS_VALID_ALIGNMENT_def)
  then have "unat a = 2 ^ k" by (simp add: unat_pow2)
  with k that show ?thesis by (simp add: MEM_ALIGN_MASK_def mask_eq_exp_minus_1)
qed

lemma unat_align_prev:
  assumes "MEM_IS_VALID_ALIGNMENT a"
  shows "unat (MEM_ALIGN_PREV p a) = unat p - unat p mod unat a"
  using assms by (rule valid_alignment) (simp add: MEM_ALIGN_PREV_def unat_and_not_mask)

lemma unat_align_next:
  assumes "MEM_IS_VALID_ALIGNMENT a" "unat p + unat a \<le> 2 ^ 32"
  shows "unat (MEM_ALIGN_NEXT p a) = (unat p + (unat a - 1)) div unat a * unat a"
proof -
  have pos: "0 < unat a" using assms(1) by (simp add: MEM_IS_VALID_ALIGNMENT_def unat_gt_0)
  have "unat (p + MEM_ALIGN_MASK a) = unat p + (unat a - 1)"
    using assms pos by (simp add: MEM_ALIGN_MASK_def unat_plus_if' unat_minus_one MEM_IS_VALID_ALIGNMENT_def)
  then show ?thesis
    unfolding MEM_ALIGN_NEXT_def unat_align_prev[OF assms(1)] by (simp add: minus_mod_eq_div_mult)
qed

lemma is_aligned_iff:
  assumes "MEM_IS_VALID_ALIGNMENT a"
  shows "MEM_IS_ALIGNED p a \<longleftrightarrow> unat a dvd unat p"
proof (rule valid_alignment[OF assms])
  fix k assume k: "unat a = 2 ^ k" "MEM_ALIGN_MASK a = mask k"
  have "unat (p AND mask k) = unat p mod 2 ^ k"
    by (metis take_bit_eq_mask take_bit_eq_mod unsigned_take_bit_eq)
  then show ?thesis
    unfolding MEM_IS_ALIGNED_def k by (metis dvd_eq_mod_eq_0 unat_eq_zero)
qed

section \<open>The core allocator\<close>

record memcore_t =
  basemem :: u32
  topmem :: u32

text \<open>The bounds of the free memory come from the linker.\<close>

definition core_init :: "u32 \<Rightarrow> u32 \<Rightarrow> memcore_t" where
  "core_init heap_base heap_end = \<lparr>basemem = heap_base, topmem = heap_end\<rparr>"

definition chCoreAllocFromBaseI :: "u32 \<Rightarrow> u32 \<Rightarrow> u32 \<Rightarrow> memcore_t \<Rightarrow> (u32 \<times> memcore_t) result" where
  "chCoreAllocFromBaseI sz align offset c =
     bindE (assertE (MEM_IS_VALID_ALIGNMENT align) (Halted ''chCoreAllocFromBaseI'')) (\<lambda>_.
     let p = MEM_ALIGN_NEXT (basemem c + offset) align; nxt = p + sz in
     if nxt > topmem c \<or> nxt < basemem c then Inr (0, c)
     else Inr (p, c\<lparr>basemem := nxt\<rparr>))"

definition chCoreAllocFromTopI :: "u32 \<Rightarrow> u32 \<Rightarrow> u32 \<Rightarrow> memcore_t \<Rightarrow> (u32 \<times> memcore_t) result" where
  "chCoreAllocFromTopI sz align offset c =
     bindE (assertE (MEM_IS_VALID_ALIGNMENT align) (Halted ''chCoreAllocFromTopI'')) (\<lambda>_.
     let p = MEM_ALIGN_PREV (topmem c - sz) align; prev = p - offset in
     if prev < basemem c \<or> prev > topmem c then Inr (0, c)
     else Inr (p, c\<lparr>topmem := prev\<rparr>))"

definition chCoreAllocFromBase :: "u32 \<Rightarrow> u32 \<Rightarrow> u32 \<Rightarrow> memcore_t \<Rightarrow> (u32 \<times> memcore_t) result" where
  "chCoreAllocFromBase sz align offset c = chCoreAllocFromBaseI sz align offset c"

definition chCoreAllocFromTop :: "u32 \<Rightarrow> u32 \<Rightarrow> u32 \<Rightarrow> memcore_t \<Rightarrow> (u32 \<times> memcore_t) result" where
  "chCoreAllocFromTop sz align offset c = chCoreAllocFromTopI sz align offset c"

definition chCoreGetStatusX :: "memcore_t \<Rightarrow> u32" where
  "chCoreGetStatusX c = topmem c - basemem c"

definition chCoreAllocAlignedI :: "u32 \<Rightarrow> u32 \<Rightarrow> memcore_t \<Rightarrow> (u32 \<times> memcore_t) result" where
  "chCoreAllocAlignedI sz align c = chCoreAllocFromTopI sz align 0 c"

definition chCoreAllocAligned :: "u32 \<Rightarrow> u32 \<Rightarrow> memcore_t \<Rightarrow> (u32 \<times> memcore_t) result" where
  "chCoreAllocAligned sz align c = chCoreAllocFromTop sz align 0 c"

definition chCoreAllocI :: "u32 \<Rightarrow> memcore_t \<Rightarrow> (u32 \<times> memcore_t) result" where
  "chCoreAllocI sz c = chCoreAllocFromTopI sz PORT_NATURAL_ALIGN 0 c"

definition chCoreAlloc :: "u32 \<Rightarrow> memcore_t \<Rightarrow> (u32 \<times> memcore_t) result" where
  "chCoreAlloc sz c = chCoreAllocFromTop sz PORT_NATURAL_ALIGN 0 c"

text \<open>
  As long as the sizes do not reach the ends of the address space, an allocation returns an
  aligned area inside the free memory, with the offset free before it, and takes it away; and
  it returns null only when the area does not fit.
\<close>

lemma core_base_ok:
  assumes a: "MEM_IS_VALID_ALIGNMENT align" and le: "basemem c \<le> topmem c"
    and room: "unat (basemem c) + unat offset + unat align + unat sz < 2 ^ 32"
  shows "\<exists>p c'. chCoreAllocFromBase sz align offset c = Inr (p, c') \<and> topmem c' = topmem c \<and>
    (let p0 = (unat (basemem c) + unat offset + (unat align - 1)) div unat align * unat align in
     if p0 + unat sz \<le> unat (topmem c)
     then unat p = p0 \<and> unat (basemem c) + unat offset \<le> unat p \<and> unat (basemem c') = unat p + unat sz \<and>
       basemem c' \<le> topmem c' \<and> MEM_IS_ALIGNED p align
     else p = 0 \<and> c' = c)"
proof -
  define p0 where "p0 = (unat (basemem c) + unat offset + (unat align - 1)) div unat align * unat align"
  let ?p = "MEM_ALIGN_NEXT (basemem c + offset) align"
  have pos: "0 < unat align" using a by (simp add: MEM_IS_VALID_ALIGNMENT_def unat_gt_0)
  have bo: "unat (basemem c + offset) = unat (basemem c) + unat offset"
    using room by (simp add: unat_plus_if')
  have p: "unat ?p = p0"
    using unat_align_next[OF a, of "basemem c + offset"] room by (simp add: bo p0_def)
  have up: "unat (basemem c) + unat offset \<le> p0" "p0 \<le> unat (basemem c) + unat offset + (unat align - 1)"
    unfolding p0_def using round_up[OF pos, of "unat (basemem c) + unat offset"] by simp_all
  have n: "unat (?p + sz) = p0 + unat sz"
    using up room by (simp add: unat_plus_if' p)
  have "MEM_IS_ALIGNED ?p align"
    using is_aligned_iff[OF a] p by (simp add: p0_def)
  then show ?thesis
    using a up n p le unfolding p0_def[symmetric] Let_def
    by (auto simp: chCoreAllocFromBase_def chCoreAllocFromBaseI_def Let_def word_less_nat_alt word_le_nat_alt)
qed

lemma core_top_ok:
  assumes a: "MEM_IS_VALID_ALIGNMENT align" and le: "basemem c \<le> topmem c" and room: "unat sz \<le> unat (topmem c)"
    "unat sz + unat offset + unat align \<le> unat (topmem c)"
  shows "\<exists>p c'. chCoreAllocFromTop sz align offset c = Inr (p, c') \<and> basemem c' = basemem c \<and>
    (let p0 = (unat (topmem c) - unat sz) div unat align * unat align in
     if unat (basemem c) + unat offset \<le> p0
     then unat p = p0 \<and> unat p + unat sz \<le> unat (topmem c) \<and> unat (topmem c') + unat offset = unat p \<and>
       basemem c' \<le> topmem c' \<and> MEM_IS_ALIGNED p align
     else p = 0 \<and> c' = c)"
proof -
  define p0 where "p0 = (unat (topmem c) - unat sz) div unat align * unat align"
  let ?p = "MEM_ALIGN_PREV (topmem c - sz) align"
  have pos: "0 < unat align" using a by (simp add: MEM_IS_VALID_ALIGNMENT_def unat_gt_0)
  have p: "unat ?p = p0"
    using room(1) by (simp add: unat_align_prev[OF a] unat_sub word_le_nat_alt p0_def minus_mod_eq_div_mult)
  have up: "p0 \<le> unat (topmem c) - unat sz" "unat (topmem c) - unat sz < p0 + unat align"
    unfolding p0_def using pos by (simp_all add: dividend_less_div_times add.commute)
  have n: "unat (?p - offset) = p0 - unat offset" "unat offset \<le> p0"
    using up(2) room(2) p by (simp_all add: unat_sub word_le_nat_alt)
  have "MEM_IS_ALIGNED ?p align"
    using is_aligned_iff[OF a] p by (simp add: p0_def)
  then show ?thesis
    using a up n p le room(1) unfolding p0_def[symmetric] Let_def
    by (auto simp: chCoreAllocFromTop_def chCoreAllocFromTopI_def Let_def word_less_nat_alt word_le_nat_alt)
qed

text \<open>
  The tests for an overflow do not cover the gap that offset and alignment leave: a size close
  to the whole address space comes out at an address between base and start of the area.
\<close>

lemma core_base_wraps:
  assumes a: "MEM_IS_VALID_ALIGNMENT align" and le: "basemem c \<le> topmem c"
    and p: "p = MEM_ALIGN_NEXT (basemem c + offset) align" "basemem c + 4 \<le> p" "4 \<le> p" "p \<le> topmem c" "basemem c \<le> basemem c + 4"
  shows "chCoreAllocFromBase (- 4) align offset c = Inr (p, c\<lparr>basemem := p - 4\<rparr>)"
proof -
  have "unat (p - 4) = unat p - 4" using p(3) by (simp add: unat_sub)
  moreover have "unat (basemem c + 4) = unat (basemem c) + 4" using unat_plus_simple[THEN iffD1, OF p(5)] by simp
  ultimately have "\<not> (p - 4 > topmem c \<or> p - 4 < basemem c)"
    using p(2,4) unfolding word_less_nat_alt word_le_nat_alt by linarith
  then show ?thesis
    using a by (simp add: chCoreAllocFromBase_def chCoreAllocFromBaseI_def Let_def flip: p(1))
qed

section \<open>Memory pools\<close>

text \<open>
  A pool, and the first words of the objects in memory. The provider is a function of the
  caller, on a state \<open>'c\<close> of its own (for \<open>chCoreAllocAlignedI\<close> the core memory), or null.
\<close>

record 'c memory_pool_t =
  mp_next :: u32
  mp_object_size :: u32
  mp_align :: u32
  mp_provider :: "(u32 \<Rightarrow> u32 \<Rightarrow> 'c \<Rightarrow> (u32 \<times> 'c) result) option"

type_synonym links = "u32 \<Rightarrow> u32"

definition chPoolObjectInitAligned ::
  "u32 \<Rightarrow> u32 \<Rightarrow> (u32 \<Rightarrow> u32 \<Rightarrow> 'c \<Rightarrow> (u32 \<times> 'c) result) option \<Rightarrow> 'c memory_pool_t result" where
  "chPoolObjectInitAligned sz align provider =
     bindE (assertE (sz \<ge> 4 \<and> align \<ge> PORT_NATURAL_ALIGN \<and> MEM_IS_VALID_ALIGNMENT align) (Halted ''chPoolObjectInitAligned''))
       (\<lambda>_. Inr \<lparr>mp_next = 0, mp_object_size = sz, mp_align = align, mp_provider = provider\<rparr>)"

definition chPoolObjectInit ::
  "u32 \<Rightarrow> (u32 \<Rightarrow> u32 \<Rightarrow> 'c \<Rightarrow> (u32 \<times> 'c) result) option \<Rightarrow> 'c memory_pool_t result" where
  "chPoolObjectInit sz provider = chPoolObjectInitAligned sz PORT_NATURAL_ALIGN provider"

definition chPoolAllocI :: "'c memory_pool_t \<Rightarrow> links \<Rightarrow> 'c \<Rightarrow> (u32 \<times> 'c memory_pool_t \<times> 'c) result" where
  "chPoolAllocI mp link c =
     (let objp = mp_next mp in
      if objp \<noteq> 0 then Inr (objp, mp\<lparr>mp_next := link objp\<rparr>, c)
      else case mp_provider mp of
        None \<Rightarrow> Inr (0, mp, c)
      | Some f \<Rightarrow>
          bindE (f (mp_object_size mp) (mp_align mp) c) (\<lambda>(objp, c).
          bindE (assertE (MEM_IS_ALIGNED objp (mp_align mp)) (Halted ''returned object not aligned'')) (\<lambda>_.
          Inr (objp, mp, c))))"

definition chPoolAlloc :: "'c memory_pool_t \<Rightarrow> links \<Rightarrow> 'c \<Rightarrow> (u32 \<times> 'c memory_pool_t \<times> 'c) result" where
  "chPoolAlloc mp link c = chPoolAllocI mp link c"

definition chPoolFreeI :: "u32 \<Rightarrow> 'c memory_pool_t \<times> links \<Rightarrow> ('c memory_pool_t \<times> links) result" where
  "chPoolFreeI objp = (\<lambda>(mp, link).
     bindE (assertE (objp \<noteq> 0 \<and> MEM_IS_ALIGNED objp (mp_align mp)) (Halted ''chPoolFreeI'')) (\<lambda>_.
     Inr (mp\<lparr>mp_next := objp\<rparr>, link(objp := mp_next mp))))"

definition chPoolFree :: "u32 \<Rightarrow> 'c memory_pool_t \<times> links \<Rightarrow> ('c memory_pool_t \<times> links) result" where
  "chPoolFree objp s = chPoolFreeI objp s"

definition chPoolAdd :: "u32 \<Rightarrow> 'c memory_pool_t \<times> links \<Rightarrow> ('c memory_pool_t \<times> links) result" where
  "chPoolAdd objp s = chPoolFree objp s"

definition chPoolAddI :: "u32 \<Rightarrow> 'c memory_pool_t \<times> links \<Rightarrow> ('c memory_pool_t \<times> links) result" where
  "chPoolAddI objp s = chPoolFreeI objp s"

primrec pool_load :: "nat \<Rightarrow> u32 \<Rightarrow> 'c memory_pool_t \<times> links \<Rightarrow> ('c memory_pool_t \<times> links) result" where
  "pool_load 0 p s = Inr s"
| "pool_load (Suc n) p s = bindE (chPoolAdd p s) (pool_load n (p + mp_object_size (fst s)))"

definition chPoolLoadArray :: "u32 \<Rightarrow> nat \<Rightarrow> 'c memory_pool_t \<times> links \<Rightarrow> ('c memory_pool_t \<times> links) result" where
  "chPoolLoadArray p n s =
     bindE (assertE (n \<noteq> 0) (Halted ''chPoolLoadArray'')) (\<lambda>_. pool_load n p s)"

text \<open>The objects of the list that starts at \<open>p\<close>.\<close>

primrec pool_chain :: "links \<Rightarrow> u32 \<Rightarrow> u32 list \<Rightarrow> bool" where
  "pool_chain link p [] \<longleftrightarrow> p = 0"
| "pool_chain link p (x # xs) \<longleftrightarrow> p = x \<and> x \<noteq> 0 \<and> pool_chain link (link x) xs"

definition pool_ok :: "'c memory_pool_t \<Rightarrow> links \<Rightarrow> u32 list \<Rightarrow> bool" where
  "pool_ok mp link xs \<longleftrightarrow> pool_chain link (mp_next mp) xs \<and> distinct xs \<and> (\<forall>x \<in> set xs. MEM_IS_ALIGNED x (mp_align mp))"

lemma pool_chain_upd: "x \<notin> set xs \<Longrightarrow> pool_chain (link(x := v)) p xs = pool_chain link p xs"
  by (induction xs arbitrary: p) auto

lemma chPoolFree_ok:
  assumes "pool_ok mp link xs" "x \<noteq> 0" "x \<notin> set xs" "MEM_IS_ALIGNED x (mp_align mp)"
  shows "\<exists>mp' link'. chPoolFree x (mp, link) = Inr (mp', link') \<and> pool_ok mp' link' (x # xs) \<and>
    mp_object_size mp' = mp_object_size mp \<and> mp_align mp' = mp_align mp \<and> mp_provider mp' = mp_provider mp"
  using assms by (simp add: chPoolFree_def chPoolFreeI_def pool_ok_def pool_chain_upd)

lemma chPoolAlloc_ok:
  assumes "pool_ok mp link xs" "xs = [] \<longrightarrow> mp_provider mp = None"
  shows "\<exists>mp'. chPoolAlloc mp link c = Inr (case xs of [] \<Rightarrow> 0 | x # _ \<Rightarrow> x, mp', c) \<and> pool_ok mp' link (tl xs) \<and>
    mp_object_size mp' = mp_object_size mp \<and> mp_align mp' = mp_align mp \<and> mp_provider mp' = mp_provider mp"
  using assms by (cases xs) (simp_all add: chPoolAlloc_def chPoolAllocI_def pool_ok_def)

text \<open>Loading an array makes its objects available, the last one first.\<close>

lemma pool_load_ok:
  assumes "pool_ok mp link xs" "objs = map (\<lambda>i. p + of_nat i * mp_object_size mp) [0..<n]"
    "distinct objs" "set objs \<inter> set xs = {}" "0 \<notin> set objs" "\<forall>x \<in> set objs. MEM_IS_ALIGNED x (mp_align mp)"
  shows "\<exists>mp' link'. pool_load n p (mp, link) = Inr (mp', link') \<and> pool_ok mp' link' (rev objs @ xs) \<and>
    mp_provider mp' = mp_provider mp"
  using assms
proof (induction n arbitrary: p mp link xs objs)
  case 0
  then show ?case by simp
next
  case (Suc n)
  let ?z = "mp_object_size mp"
  have objs: "objs = p # map (\<lambda>i. (p + ?z) + of_nat i * ?z) [0..<n]"
    unfolding Suc.prems(2) upt_conv_Cons[OF zero_less_Suc] map_Suc_upt[symmetric] by (simp add: algebra_simps)
  obtain mp1 link1 where s1: "chPoolFree p (mp, link) = Inr (mp1, link1)" "pool_ok mp1 link1 (p # xs)"
      "mp_object_size mp1 = ?z" "mp_align mp1 = mp_align mp" "mp_provider mp1 = mp_provider mp"
    using chPoolFree_ok[OF Suc.prems(1), of p] Suc.prems(4-6) unfolding objs by auto
  have "\<exists>mp' link'. pool_load n (p + ?z) (mp1, link1) = Inr (mp', link') \<and>
      pool_ok mp' link' (rev (map (\<lambda>i. (p + ?z) + of_nat i * ?z) [0..<n]) @ p # xs) \<and> mp_provider mp' = mp_provider mp1"
    by (rule Suc.IH[OF s1(2)]) (use Suc.prems(3-6) s1(3,4) in \<open>auto simp: objs\<close>)
  then show ?case using s1(1,5) by (simp add: objs chPoolAdd_def)
qed

subsection \<open>Pools as allocators\<close>

text \<open>
  A pool without provider. The program may write the first word of an object it holds, which is
  where the link was.
\<close>

definition pool_get :: "unit \<Rightarrow> unit memory_pool_t \<times> links \<Rightarrow> (u32 \<times> unit memory_pool_t \<times> links) result" where
  "pool_get q = (\<lambda>(mp, link). bindE (chPoolAlloc mp link ()) (\<lambda>(p, mp, _). Inr (p, mp, link)))"

definition pool_touch :: "u32 \<Rightarrow> u32 \<Rightarrow> unit memory_pool_t \<times> links \<Rightarrow> unit memory_pool_t \<times> links" where
  "pool_touch p v = (\<lambda>(mp, link). (mp, link(p := v)))"

definition pool_rep :: "unit memory_pool_t \<times> links \<Rightarrow> u32 set \<Rightarrow> (u32 \<rightharpoonup> u32 set) \<Rightarrow> bool" where
  "pool_rep = (\<lambda>(mp, link) F L. mp_provider mp = None \<and> (\<exists>xs. pool_ok mp link xs \<and> F = set xs) \<and>
     (\<forall>p A. L p = Some A \<longrightarrow> A = {p} \<and> p \<noteq> 0 \<and> p \<notin> F \<and> MEM_IS_ALIGNED p (mp_align mp)))"

lemma pool_get_ok:
  assumes "pool_rep s F L"
  shows "\<exists>p s'. pool_get q s = Inr (p, s') \<and>
    (p = 0 \<and> pool_rep s' F L \<or> p \<noteq> 0 \<and> L p = None \<and> (\<exists>A \<subseteq> F. pool_rep s' (F - A) (L(p \<mapsto> A))))"
proof -
  obtain mp link xs where s: "s = (mp, link)" "mp_provider mp = None" "pool_ok mp link xs" "F = set xs"
      "\<forall>p A. L p = Some A \<longrightarrow> A = {p} \<and> p \<noteq> 0 \<and> p \<notin> F \<and> MEM_IS_ALIGNED p (mp_align mp)"
    using assms unfolding pool_rep_def by (cases s) auto
  obtain mp' where mp': "chPoolAlloc mp link () = Inr (case xs of [] \<Rightarrow> 0 | x # _ \<Rightarrow> x, mp', ())" "pool_ok mp' link (tl xs)"
      "mp_align mp' = mp_align mp" "mp_provider mp' = None"
    using chPoolAlloc_ok[OF s(3), of "()"] s(2) by auto
  show ?thesis
  proof (cases xs)
    case Nil
    then have "pool_rep (mp', link) F L" using mp' s(4,5) unfolding pool_rep_def prod.case by auto
    with Nil mp'(1) s(1) show ?thesis by (simp add: pool_get_def)
  next
    case (Cons x ys)
    have x: "x \<noteq> 0" "x \<notin> set ys" "MEM_IS_ALIGNED x (mp_align mp)" using s(3) Cons by (simp_all add: pool_ok_def)
    have F: "F - {x} = set ys" "x \<in> F" using s(4) Cons x(2) by auto
    have "pool_rep (mp', link) (F - {x}) (L(x \<mapsto> {x}))"
      using mp'(2-4) Cons x s(4,5) unfolding pool_rep_def prod.case F(1) by auto
    moreover have "L x = None" using s(5) F(2) by (cases "L x") auto
    ultimately have "x \<noteq> 0 \<and> L x = None \<and> (\<exists>A \<subseteq> F. pool_rep (mp', link) (F - A) (L(x \<mapsto> A)))"
      using x(1) F(2) by blast
    with Cons mp'(1) s(1) show ?thesis by (simp add: pool_get_def)
  qed
qed

interpretation pool: alloc_free pool_rep "\<lambda>_. True" pool_get chPoolFree pool_touch
proof
  fix s :: "unit memory_pool_t \<times> links" and F :: "u32 set" and L p A w and q :: unit
  assume rep: "pool_rep s F L"
  then obtain mp link xs where s: "s = (mp, link)" "mp_provider mp = None" "pool_ok mp link xs" "F = set xs"
      "\<forall>p A. L p = Some A \<longrightarrow> A = {p} \<and> p \<noteq> 0 \<and> p \<notin> F \<and> MEM_IS_ALIGNED p (mp_align mp)"
    unfolding pool_rep_def by (cases s) auto
  show "\<exists>p s'. pool_get q s = Inr (p, s') \<and>
    (p = 0 \<and> pool_rep s' F L \<or> p \<noteq> 0 \<and> L p = None \<and> (\<exists>A \<subseteq> F. pool_rep s' (F - A) (L(p \<mapsto> A))))"
    by (rule pool_get_ok[OF rep])
  assume p: "L p = Some A"
  then have A: "A = {p}" "p \<noteq> 0" "p \<notin> set xs" "MEM_IS_ALIGNED p (mp_align mp)" using s(4,5) by auto
  show "A \<inter> F = {}" using A s(4) by simp
  show "A \<inter> B = {}" if "L p' = Some B" "p \<noteq> p'" for p' B using s(5) A(1) that by auto
  have "pool_ok mp (link(p := w)) xs" using s(3) pool_chain_upd[OF A(3)] by (simp add: pool_ok_def)
  with s show "pool_rep (pool_touch p w s) F L" unfolding pool_rep_def pool_touch_def by auto
  obtain mp' link' where mp': "chPoolFree p (mp, link) = Inr (mp', link')" "pool_ok mp' link' (p # xs)"
      "mp_align mp' = mp_align mp" "mp_provider mp' = mp_provider mp"
    using chPoolFree_ok[OF s(3) A(2-4)] by blast
  have "pool_rep (mp', link') (F \<union> A) (L(p := None))"
    using mp'(2-4) s(2,4,5) A(1) unfolding pool_rep_def prod.case
    by (intro conjI exI[of _ "p # xs"] allI impI) (auto split: if_splits)
  with mp'(1) s(1) show "\<exists>s'. chPoolFree p s = Inr s' \<and> pool_rep s' (F \<union> A) (L(p := None))" by blast
qed

text \<open>
  A pool loaded with an array serves any program: the objects held are different objects of the
  array, and the others are in the pool.
\<close>

lemma pool_run_ok:
  assumes "mp_provider mp = None" "pool_ok mp link []" "0 < n"
    "objs = map (\<lambda>i. p + of_nat i * mp_object_size mp) [0..<n]"
    "distinct objs" "0 \<notin> set objs" "\<forall>x \<in> set objs. MEM_IS_ALIGNED x (mp_align mp)"
  shows "\<exists>s0 mp' link' ps xs. chPoolLoadArray p n (mp, link) = Inr s0 \<and>
    alloc_run pool_get chPoolFree pool_touch ops (s0, []) = Inr ((mp', link'), ps) \<and> pool_ok mp' link' xs \<and>
    distinct ps \<and> set ps \<inter> set xs = {} \<and> set ps \<union> set xs = set objs"
proof -
  obtain mp0 link0 where l: "pool_load n p (mp, link) = Inr (mp0, link0)" "pool_ok mp0 link0 (rev objs)" "mp_provider mp0 = None"
    using pool_load_ok[OF assms(2,4,5)] assms(1,6,7) by auto
  have rep: "pool_rep (mp0, link0) (set objs) Map.empty"
    using l(2,3) unfolding pool_rep_def prod.case by (intro conjI exI[of _ "rev objs"]) simp_all
  obtain x ps F L where x: "alloc_run pool_get chPoolFree pool_touch ops ((mp0, link0), []) = Inr (x, ps)" "pool_rep x F L"
      "distinct ps" "dom L = set ps" "F \<union> \<Union>(ran L) = set objs"
  proof -
    have "\<forall>q \<in> requests ops. True" by simp
    from pool.run_ok[OF rep this] that show ?thesis by (elim exE conjE)
  qed
  obtain mp' link' xs where r: "x = (mp', link')" "pool_ok mp' link' xs" "F = set xs" "\<forall>q A. L q = Some A \<longrightarrow> A = {q} \<and> q \<notin> F"
    using x(2) unfolding pool_rep_def by (cases x) auto
  have "\<Union>(ran L) = set ps" using r(4) unfolding x(4)[symmetric] by (force simp: ran_def dom_def)
  moreover have "set ps \<inter> set xs = {}" using r(3,4) unfolding x(4)[symmetric] by auto
  ultimately show ?thesis
    using l(1) x(1,3,5) r(1-3) assms(3) by (auto simp: chPoolLoadArray_def)
qed

subsection \<open>Guarded pools\<close>

text \<open>A pool without provider and the semaphore that counts its objects.\<close>

record guarded_memory_pool_t =
  gmp_sem :: nat
  gmp_pool :: "unit memory_pool_t"

definition chGuardedPoolObjectInitAligned :: "nat \<Rightarrow> u32 \<Rightarrow> u32 \<Rightarrow> kernel_t \<Rightarrow> (guarded_memory_pool_t \<times> kernel_t) result" where
  "chGuardedPoolObjectInitAligned sem sz align k =
     bindE (chPoolObjectInitAligned sz align None) (\<lambda>mp.
     bindE (chSemObjectInit sem 0 k) (\<lambda>k. Inr (\<lparr>gmp_sem = sem, gmp_pool = mp\<rparr>, k)))"

definition chGuardedPoolObjectInit :: "nat \<Rightarrow> u32 \<Rightarrow> kernel_t \<Rightarrow> (guarded_memory_pool_t \<times> kernel_t) result" where
  "chGuardedPoolObjectInit sem sz k = chGuardedPoolObjectInitAligned sem sz PORT_NATURAL_ALIGN k"

definition chGuardedPoolGetCounterI :: "guarded_memory_pool_t \<Rightarrow> kernel_t \<Rightarrow> int" where
  "chGuardedPoolGetCounterI g k = chSemGetCounterI (gmp_sem g) k"

definition gpool_alloc :: "guarded_memory_pool_t \<Rightarrow> links \<Rightarrow> (u32 \<times> guarded_memory_pool_t) result" where
  "gpool_alloc g link =
     bindE (chPoolAllocI (gmp_pool g) link ()) (\<lambda>(p, mp, _). Inr (p, g\<lparr>gmp_pool := mp\<rparr>))"

definition chGuardedPoolAllocI ::
  "guarded_memory_pool_t \<Rightarrow> links \<Rightarrow> kernel_t \<Rightarrow> (u32 \<times> guarded_memory_pool_t \<times> kernel_t) result" where
  "chGuardedPoolAllocI g link k =
     (if chSemGetCounterI (gmp_sem g) k > 0
      then bindE (chSemFastWaitI (gmp_sem g) k) (\<lambda>k. bindE (gpool_alloc g link) (\<lambda>(p, g). Inr (p, g, k)))
      else Inr (0, g, k))"

definition chGuardedPoolAllocTimeoutS ::
  "sysinterval_t \<Rightarrow> guarded_memory_pool_t \<Rightarrow> links \<Rightarrow> kernel_t \<Rightarrow> (u32 option \<times> guarded_memory_pool_t \<times> kernel_t) result" where
  "chGuardedPoolAllocTimeoutS timeout g link k =
     bindE (chSemWaitTimeoutS (gmp_sem g) timeout k) (\<lambda>(msg, k).
     case msg of
       None \<Rightarrow> Inr (None, g, k)
     | Some m \<Rightarrow>
         if m \<noteq> MSG_OK then Inr (Some 0, g, k)
         else bindE (gpool_alloc g link) (\<lambda>(p, g). Inr (Some p, g, k)))"

definition chGuardedPoolAllocTimeoutS_resume ::
  "guarded_memory_pool_t \<Rightarrow> links \<Rightarrow> kernel_t \<Rightarrow> (u32 \<times> guarded_memory_pool_t \<times> kernel_t) result" where
  "chGuardedPoolAllocTimeoutS_resume g link k =
     bindE (chSchGoSleepTimeoutS_resume (k_cur k) k) (\<lambda>(m, k).
     if m \<noteq> MSG_OK then Inr (0, g, k)
     else bindE (gpool_alloc g link) (\<lambda>(p, g). Inr (p, g, k)))"

definition chGuardedPoolAllocTimeout ::
  "sysinterval_t \<Rightarrow> guarded_memory_pool_t \<Rightarrow> links \<Rightarrow> kernel_t \<Rightarrow> (u32 option \<times> guarded_memory_pool_t \<times> kernel_t) result" where
  "chGuardedPoolAllocTimeout timeout g link k = chGuardedPoolAllocTimeoutS timeout g link k"

type_synonym gpool_state = "guarded_memory_pool_t \<times> links \<times> kernel_t"

definition chGuardedPoolFreeI :: "u32 \<Rightarrow> gpool_state \<Rightarrow> gpool_state result" where
  "chGuardedPoolFreeI objp = (\<lambda>(g, link, k).
     bindE (chPoolFreeI objp (gmp_pool g, link)) (\<lambda>(mp, link).
     bindE (chSemSignalI (gmp_sem g) k) (\<lambda>k. Inr (g\<lparr>gmp_pool := mp\<rparr>, link, k))))"

definition chGuardedPoolFreeS :: "u32 \<Rightarrow> gpool_state \<Rightarrow> gpool_state result" where
  "chGuardedPoolFreeS objp s =
     bindE (chGuardedPoolFreeI objp s) (\<lambda>(g, link, k). bindE (chSchRescheduleS k) (\<lambda>k. Inr (g, link, k)))"

definition chGuardedPoolFree :: "u32 \<Rightarrow> gpool_state \<Rightarrow> gpool_state result" where
  "chGuardedPoolFree objp s =
     bindE (chGuardedPoolFreeI objp s) (\<lambda>(g, link, k). bindE (chSchRescheduleS k) (\<lambda>k. Inr (g, link, k)))"

definition chGuardedPoolAdd :: "u32 \<Rightarrow> gpool_state \<Rightarrow> gpool_state result" where
  "chGuardedPoolAdd objp s = chGuardedPoolFree objp s"

definition chGuardedPoolAddI :: "u32 \<Rightarrow> gpool_state \<Rightarrow> gpool_state result" where
  "chGuardedPoolAddI objp s = chGuardedPoolFreeI objp s"

definition chGuardedPoolAddS :: "u32 \<Rightarrow> gpool_state \<Rightarrow> gpool_state result" where
  "chGuardedPoolAddS objp s = chGuardedPoolFreeS objp s"

primrec gpool_load :: "nat \<Rightarrow> u32 \<Rightarrow> gpool_state \<Rightarrow> gpool_state result" where
  "gpool_load 0 p s = Inr s"
| "gpool_load (Suc n) p s = bindE (chGuardedPoolAdd p s) (gpool_load n (p + mp_object_size (gmp_pool (fst s))))"

definition chGuardedPoolLoadArray :: "u32 \<Rightarrow> nat \<Rightarrow> gpool_state \<Rightarrow> gpool_state result" where
  "chGuardedPoolLoadArray p n s =
     bindE (assertE (n \<noteq> 0) (Halted ''chGuardedPoolLoadArray'')) (\<lambda>_. gpool_load n p s)"

text \<open>
  The semaphore counts the objects nobody has a claim on; the others in the pool belong to
  threads woken by a freed object that have not taken it yet.
\<close>

definition gpool_ok :: "guarded_memory_pool_t \<Rightarrow> links \<Rightarrow> kernel_t \<Rightarrow> u32 list \<Rightarrow> bool" where
  "gpool_ok g link k xs \<longleftrightarrow> pool_ok (gmp_pool g) link xs \<and> mp_provider (gmp_pool g) = None \<and> sem_inv k \<and>
     scnt k (gmp_sem g) \<le> int (length xs)"

lemma chGuardedPoolFreeI_ok:
  assumes "gpool_ok g link k xs" "x \<noteq> 0" "x \<notin> set xs" "MEM_IS_ALIGNED x (mp_align (gmp_pool g))"
    "squeue k (gmp_sem g) \<noteq> [] \<or> scnt k (gmp_sem g) < INT_MAX"
  shows "\<exists>g' link' k'. chGuardedPoolFreeI x (g, link, k) = Inr (g', link', k') \<and> gpool_ok g' link' k' (x # xs) \<and>
    scnt k' (gmp_sem g) = scnt k (gmp_sem g) + 1 \<and> squeue k' (gmp_sem g) = tl (squeue k (gmp_sem g))"
proof -
  have ok: "pool_ok (gmp_pool g) link xs" "mp_provider (gmp_pool g) = None" "sem_inv k" "scnt k (gmp_sem g) \<le> int (length xs)"
    using assms(1) by (simp_all add: gpool_ok_def)
  obtain mp link' where f: "chPoolFreeI x (gmp_pool g, link) = Inr (mp, link')" "pool_ok mp link' (x # xs)"
      "mp_provider mp = mp_provider (gmp_pool g)"
    using chPoolFree_ok[OF ok(1) assms(2-4)] by (auto simp: chPoolFree_def)
  obtain k' where "chSemSignalI (gmp_sem g) k = Inr k'" "sem_inv k'" "scnt k' (gmp_sem g) = scnt k (gmp_sem g) + 1"
      "squeue k' (gmp_sem g) = tl (squeue k (gmp_sem g))"
    using chSemSignalI_ok[OF ok(3) assms(5)] by blast
  with f ok show ?thesis
    by (simp add: chGuardedPoolFreeI_def gpool_ok_def)
qed

lemma gpool_alloc_ok:
  assumes "pool_ok (gmp_pool g) link (x # xs)"
  shows "\<exists>g'. gpool_alloc g link = Inr (x, g') \<and> pool_ok (gmp_pool g') link xs \<and>
    mp_provider (gmp_pool g') = mp_provider (gmp_pool g) \<and> gmp_sem g' = gmp_sem g"
  using chPoolAlloc_ok[OF assms, of "()"] by (auto simp: gpool_alloc_def chPoolAlloc_def)

end
