(* ===== verification/Ch_Heap.thy ===== *)
theory Ch_Heap
  imports Ch_Mem
begin

text \<open>
  The heap allocator: \<^verbatim>\<open>chmemheaps.c\<close>. A heap keeps a list of free blocks, sorted by address and
  linked through the headers in front of them. Memory holds at the address of a header the
  two words of the union \<open>heap_header\<close>: \<open>next\<close> and \<open>pages\<close> of a free block share them with \<open>heap\<close>
  and \<open>size\<close> of a used one. Addresses are 32-bit words and pointer arithmetic is in units of a
  header, 8 bytes. The blocks' headers are 8 bytes apart from each other and from the header in
  the heap structure, so that no two of them overlap.

  The loops over the list return \<open>None\<close> when the list never ends.
\<close>

section \<open>State\<close>

record mem_t =
  m_w0 :: "u32 \<Rightarrow> u32"
  m_w1 :: "u32 \<Rightarrow> u32"

definition CH_HEAP_ALIGNMENT :: u32 where
  "CH_HEAP_ALIGNMENT = 8"

definition H_BLOCK :: "u32 \<Rightarrow> u32" where
  "H_BLOCK hp = hp + 8"

definition H_NEXT :: "mem_t \<Rightarrow> u32 \<Rightarrow> u32" where
  "H_NEXT m hp = m_w0 m hp"

definition H_PAGES :: "mem_t \<Rightarrow> u32 \<Rightarrow> u32" where
  "H_PAGES m hp = m_w1 m hp"

definition H_HEAP :: "mem_t \<Rightarrow> u32 \<Rightarrow> u32" where
  "H_HEAP m hp = m_w0 m hp"

definition H_SIZE :: "mem_t \<Rightarrow> u32 \<Rightarrow> u32" where
  "H_SIZE m hp = m_w1 m hp"

definition H_LIMIT :: "mem_t \<Rightarrow> u32 \<Rightarrow> u32" where
  "H_LIMIT m hp = H_BLOCK hp + 8 * H_PAGES m hp"

definition NPAGES :: "u32 \<Rightarrow> u32 \<Rightarrow> u32" where
  "NPAGES p1 p2 = (p1 - p2) div 8"

definition set_w0 :: "u32 \<Rightarrow> u32 \<Rightarrow> mem_t \<Rightarrow> mem_t" where
  "set_w0 hp v m = m\<lparr>m_w0 := (m_w0 m)(hp := v)\<rparr>"

definition set_w1 :: "u32 \<Rightarrow> u32 \<Rightarrow> mem_t \<Rightarrow> mem_t" where
  "set_w1 hp v m = m\<lparr>m_w1 := (m_w1 m)(hp := v)\<rparr>"

text \<open>
  The structure \<open>memory_heap_t\<close> at address \<open>heapp\<close>: the provider, then the header, then the mutex.
  The only provider the code installs is \<open>chCoreAllocAlignedWithOffset\<close>, in the default heap.
\<close>

definition heap_header :: "u32 \<Rightarrow> u32" where
  "heap_header heapp = heapp + 4"

text \<open>
  The state of the allocator: memory, the core allocator, which heaps have it as provider, the
  mutex of each heap (a mutex of the kernel) and the address of the default heap.
\<close>

record heap_state =
  hs_mem :: mem_t
  hs_core :: memcore_t
  hs_provider :: "u32 \<Rightarrow> bool"
  hs_mtx :: "u32 \<Rightarrow> nat"
  hs_default :: u32

section \<open>Operations\<close>

text \<open>The default heap starts empty and takes its memory from the core allocator.\<close>

definition heap_sys_init :: "heap_state \<Rightarrow> kernel_t \<Rightarrow> heap_state \<times> kernel_t" where
  "heap_sys_init s k =
     (let h = hs_default s; m = set_w1 (heap_header h) 0 (set_w0 (heap_header h) 0 (hs_mem s)) in
      (s\<lparr>hs_mem := m, hs_provider := (hs_provider s)(h := True)\<rparr>, chMtxObjectInit (hs_mtx s h) k))"

definition chHeapObjectInit :: "u32 \<Rightarrow> u32 \<Rightarrow> u32 \<Rightarrow> heap_state \<Rightarrow> kernel_t \<Rightarrow> (heap_state \<times> kernel_t) result" where
  "chHeapObjectInit heapp buf sz s k =
     (let hp = MEM_ALIGN_NEXT buf CH_HEAP_ALIGNMENT in
      bindE (assertE (heapp \<noteq> 0 \<and> sz > 0) (Halted ''chHeapObjectInit'')) (\<lambda>_.
      let sz = sz - (hp - buf);
          m = set_w0 (heap_header heapp) hp (hs_mem s);
          m = set_w1 (heap_header heapp) 0 m;
          m = set_w0 hp 0 m;
          m = set_w1 hp ((sz - 8) div CH_HEAP_ALIGNMENT) m in
      Inr (s\<lparr>hs_mem := m, hs_provider := (hs_provider s)(heapp := False)\<rparr>, chMtxObjectInit (hs_mtx s heapp) k)))"

definition heap_pages :: "u32 \<Rightarrow> u32" where
  "heap_pages sz = MEM_ALIGN_NEXT sz CH_HEAP_ALIGNMENT div CH_HEAP_ALIGNMENT"

text \<open>
  The search: \<open>Some (Some (qp, hp, ahp))\<close> is the first block \<open>hp\<close> with room for the area and its
  predecessor; \<open>Some None\<close> says that there is none.
\<close>

definition alloc_fits :: "mem_t \<Rightarrow> u32 \<Rightarrow> u32 \<Rightarrow> u32 \<Rightarrow> bool" where
  "alloc_fits m pages hp ahp \<longleftrightarrow> ahp < H_LIMIT m hp \<and> pages \<le> NPAGES (H_LIMIT m hp) (ahp + 8)"

partial_function (option) alloc_loop :: "mem_t \<Rightarrow> u32 \<Rightarrow> u32 \<Rightarrow> u32 \<Rightarrow> (u32 \<times> u32 \<times> u32) option option" where
  "alloc_loop m pages align qp =
     (if H_NEXT m qp \<noteq> 0 then
        let hp = H_NEXT m qp; ahp = MEM_ALIGN_NEXT (H_BLOCK hp) align - 8 in
        if alloc_fits m pages hp ahp then Some (Some (qp, hp, ahp)) else alloc_loop m pages align hp
      else Some None)"

definition alloc_split :: "u32 \<Rightarrow> u32 \<Rightarrow> u32 \<Rightarrow> mem_t \<Rightarrow> mem_t" where
  "alloc_split pages hp ahp m =
     (let bpages = NPAGES (H_LIMIT m hp) (H_BLOCK ahp);
          m = set_w1 hp (NPAGES ahp (H_BLOCK hp)) m in
      if bpages > pages then
        let fp = H_BLOCK ahp + 8 * pages;
            m = set_w1 fp (bpages - pages - 1) m;
            m = set_w0 fp (H_NEXT m hp) m in
        set_w0 hp fp m
      else m)"

definition alloc_head :: "u32 \<Rightarrow> u32 \<Rightarrow> u32 \<Rightarrow> mem_t \<Rightarrow> mem_t" where
  "alloc_head pages qp hp m =
     (if H_PAGES m hp = pages then set_w0 qp (H_NEXT m hp) m
      else
        let fp = H_BLOCK hp + 8 * pages;
            m = set_w0 fp (H_NEXT m hp) m;
            m = set_w1 fp (NPAGES (H_LIMIT m hp) (H_BLOCK fp)) m in
        set_w0 qp fp m)"

definition alloc_take :: "u32 \<Rightarrow> u32 \<Rightarrow> u32 \<Rightarrow> u32 \<times> u32 \<times> u32 \<Rightarrow> mem_t \<Rightarrow> u32 \<times> mem_t" where
  "alloc_take heapp sz pages = (\<lambda>(qp, hp, ahp) m.
     let (hp, m) = (if ahp > hp then (ahp, alloc_split pages hp ahp m) else (hp, alloc_head pages qp hp m)) in
     (H_BLOCK hp, set_w0 hp heapp (set_w1 hp sz m)))"

definition heap_alloc :: "u32 \<Rightarrow> u32 \<Rightarrow> u32 \<Rightarrow> mem_t \<Rightarrow> (u32 option \<times> mem_t) result" where
  "heap_alloc heapp sz align m =
     (case alloc_loop m (heap_pages sz) align (heap_header heapp) of
        None \<Rightarrow> Inl Blocked
      | Some None \<Rightarrow> Inr (None, m)
      | Some (Some hit) \<Rightarrow> let (p, m) = alloc_take heapp sz (heap_pages sz) hit m in Inr (Some p, m))"

text \<open>The search of \<open>chHeapFree\<close> for the block after which to insert, and the insertion.\<close>

partial_function (option) free_loop :: "mem_t \<Rightarrow> u32 \<Rightarrow> u32 \<Rightarrow> u32 \<Rightarrow> u32 result option" where
  "free_loop m hdr hp qp =
     (if \<not> (hp < qp \<or> hp \<ge> H_LIMIT m qp) then Some (Inl (Halted ''within free block''))
      else if (qp = hdr \<or> hp > qp) \<and> (H_NEXT m qp = 0 \<or> hp < H_NEXT m qp) then Some (Inr qp)
      else free_loop m hdr hp (H_NEXT m qp))"

definition free_insert :: "u32 \<Rightarrow> u32 \<Rightarrow> mem_t \<Rightarrow> mem_t" where
  "free_insert qp hp m = set_w0 qp hp (set_w0 hp (H_NEXT m qp) m)"

definition merge_next :: "u32 \<Rightarrow> mem_t \<Rightarrow> mem_t" where
  "merge_next hp m =
     (if H_LIMIT m hp = H_NEXT m hp then
        let m = set_w1 hp (H_PAGES m hp + (H_PAGES m (H_NEXT m hp) + 1)) m in
        set_w0 hp (H_NEXT m (H_NEXT m hp)) m
      else m)"

definition merge_prev :: "u32 \<Rightarrow> u32 \<Rightarrow> mem_t \<Rightarrow> mem_t" where
  "merge_prev qp hp m =
     (if H_LIMIT m qp = hp then
        let m = set_w1 qp (H_PAGES m qp + (H_PAGES m hp + 1)) m in
        set_w0 qp (H_NEXT m hp) m
      else m)"

definition heap_free :: "u32 \<Rightarrow> u32 \<Rightarrow> mem_t \<Rightarrow> mem_t result" where
  "heap_free heapp hp m =
     (case free_loop m (heap_header heapp) hp (heap_header heapp) of
        None \<Rightarrow> Inl Blocked
      | Some r \<Rightarrow> bindE r (\<lambda>qp. Inr (merge_prev qp hp (merge_next hp (free_insert qp hp m)))))"

text \<open>
  The whole operations. The mutex of the heap is a mutex of the kernel: when it is taken the
  caller sleeps (result \<open>None\<close>) and continues with the part \<open>_resume\<close> once it owns it. When the
  list has no block large enough, memory comes from the core allocator if the heap has it as
  provider.
\<close>

definition heap_provide :: "u32 \<Rightarrow> u32 \<Rightarrow> u32 \<Rightarrow> heap_state \<Rightarrow> (u32 \<times> heap_state) result" where
  "heap_provide heapp sz align s =
     (if hs_provider s heapp then
        bindE (chCoreAllocFromTop (heap_pages sz * CH_HEAP_ALIGNMENT) align 8 (hs_core s)) (\<lambda>(ahp, c).
        if ahp \<noteq> 0
        then let hp = ahp - 8 in Inr (ahp, s\<lparr>hs_mem := set_w1 hp sz (set_w0 hp heapp (hs_mem s)), hs_core := c\<rparr>)
        else Inr (0, s\<lparr>hs_core := c\<rparr>))
      else Inr (0, s))"

definition heap_of :: "u32 \<Rightarrow> heap_state \<Rightarrow> u32" where
  "heap_of heapp s = (if heapp = 0 then hs_default s else heapp)"

definition chHeapAllocAligned_resume ::
  "u32 \<Rightarrow> u32 \<Rightarrow> u32 \<Rightarrow> heap_state \<Rightarrow> kernel_t \<Rightarrow> (u32 \<times> heap_state \<times> kernel_t) result" where
  "chHeapAllocAligned_resume heapp sz align s k =
     (let heapp = heap_of heapp s; align = (if align < CH_HEAP_ALIGNMENT then CH_HEAP_ALIGNMENT else align) in
      bindE (heap_alloc heapp sz align (hs_mem s)) (\<lambda>(r, m).
      bindE (chMtxUnlock (hs_mtx s heapp) k) (\<lambda>k.
      case r of
        Some p \<Rightarrow> Inr (p, s\<lparr>hs_mem := m\<rparr>, k)
      | None \<Rightarrow> bindE (heap_provide heapp sz align s) (\<lambda>(p, s). Inr (p, s, k)))))"

definition chHeapAllocAligned ::
  "u32 \<Rightarrow> u32 \<Rightarrow> u32 \<Rightarrow> heap_state \<Rightarrow> kernel_t \<Rightarrow> (u32 option \<times> heap_state \<times> kernel_t) result" where
  "chHeapAllocAligned heapp sz align s k =
     bindE (assertE (sz > 0 \<and> MEM_IS_VALID_ALIGNMENT align) (Halted ''chHeapAllocAligned'')) (\<lambda>_.
     let mtx = hs_mtx s (heap_of heapp s) in
     bindE (chMtxLock mtx k) (\<lambda>k1.
     if mowner k mtx \<noteq> None then Inr (None, s, k1)
     else bindE (chHeapAllocAligned_resume heapp sz align s k1) (\<lambda>(p, s, k). Inr (Some p, s, k))))"

definition chHeapAlloc ::
  "u32 \<Rightarrow> u32 \<Rightarrow> heap_state \<Rightarrow> kernel_t \<Rightarrow> (u32 option \<times> heap_state \<times> kernel_t) result" where
  "chHeapAlloc heapp sz s k = chHeapAllocAligned heapp sz CH_HEAP_ALIGNMENT s k"

definition chHeapFree_resume :: "u32 \<Rightarrow> u32 \<Rightarrow> heap_state \<Rightarrow> kernel_t \<Rightarrow> (heap_state \<times> kernel_t) result" where
  "chHeapFree_resume heapp hp s k =
     bindE (heap_free heapp hp (hs_mem s)) (\<lambda>m.
     bindE (chMtxUnlock (hs_mtx s heapp) k) (\<lambda>k. Inr (s\<lparr>hs_mem := m\<rparr>, k)))"

text \<open>The size becomes a number of pages before the mutex is taken.\<close>

definition chHeapFree :: "u32 \<Rightarrow> heap_state \<Rightarrow> kernel_t \<Rightarrow> (unit option \<times> heap_state \<times> kernel_t) result" where
  "chHeapFree p s k =
     bindE (assertE (p \<noteq> 0 \<and> MEM_IS_ALIGNED p CH_HEAP_ALIGNMENT) (Halted ''chHeapFree'')) (\<lambda>_.
     let hp = p - 8; heapp = H_HEAP (hs_mem s) hp;
         s = s\<lparr>hs_mem := set_w1 hp (heap_pages (H_SIZE (hs_mem s) hp)) (hs_mem s)\<rparr> in
     bindE (chMtxLock (hs_mtx s heapp) k) (\<lambda>k1.
     if mowner k (hs_mtx s heapp) \<noteq> None then Inr (None, s, k1)
     else bindE (chHeapFree_resume heapp hp s k1) (\<lambda>(s, k). Inr (Some (), s, k))))"

definition chHeapGetSize :: "u32 \<Rightarrow> mem_t \<Rightarrow> u32" where
  "chHeapGetSize p m = H_SIZE m (p - 8)"

text \<open>The statistics: number of blocks, total and largest number of pages.\<close>

partial_function (option) status_loop :: "mem_t \<Rightarrow> u32 \<Rightarrow> u32 \<Rightarrow> u32 \<Rightarrow> u32 \<Rightarrow> (u32 \<times> u32 \<times> u32) option" where
  "status_loop m qp n tpages lpages =
     (if H_NEXT m qp \<noteq> 0 then
        let pages = H_PAGES m (H_NEXT m qp) in
        status_loop m (H_NEXT m qp) (n + 1) (tpages + pages) (if pages > lpages then pages else lpages)
      else Some (n, tpages, lpages))"

definition heap_status :: "u32 \<Rightarrow> mem_t \<Rightarrow> (u32 \<times> u32 \<times> u32) result" where
  "heap_status heapp m =
     (case status_loop m (heap_header heapp) 0 0 0 of
        None \<Rightarrow> Inl Blocked
      | Some (n, tpages, lpages) \<Rightarrow> Inr (n, tpages * CH_HEAP_ALIGNMENT, lpages * CH_HEAP_ALIGNMENT))"

definition chHeapStatus_resume :: "u32 \<Rightarrow> heap_state \<Rightarrow> kernel_t \<Rightarrow> ((u32 \<times> u32 \<times> u32) \<times> kernel_t) result" where
  "chHeapStatus_resume heapp s k =
     bindE (heap_status (heap_of heapp s) (hs_mem s)) (\<lambda>r.
     bindE (chMtxUnlock (hs_mtx s (heap_of heapp s)) k) (\<lambda>k. Inr (r, k)))"

definition chHeapStatus :: "u32 \<Rightarrow> heap_state \<Rightarrow> kernel_t \<Rightarrow> ((u32 \<times> u32 \<times> u32) option \<times> kernel_t) result" where
  "chHeapStatus heapp s k =
     (let mtx = hs_mtx s (heap_of heapp s) in
      bindE (chMtxLock mtx k) (\<lambda>k1.
      if mowner k mtx \<noteq> None then Inr (None, k1)
      else bindE (chHeapStatus_resume heapp s k1) (\<lambda>(r, k). Inr (Some r, k))))"

section \<open>Free blocks\<close>

text \<open>
  A block is the address of its header and its number of pages. Sorted blocks with room in
  between are the normal form of the set of their bytes.
\<close>

type_synonym block = "nat \<times> nat"

definition b_end :: "block \<Rightarrow> nat" where
  "b_end b = fst b + 8 * (snd b + 1)"

definition b_bytes :: "block \<Rightarrow> nat set" where
  "b_bytes b = {fst b..<b_end b}"

definition free_bytes :: "block list \<Rightarrow> nat set" where
  "free_bytes bs = (\<Union>b \<in> set bs. b_bytes b)"

definition block_ok :: "block \<Rightarrow> bool" where
  "block_ok b \<longleftrightarrow> 8 dvd fst b \<and> 0 < fst b \<and> b_end b < 2 ^ 32"

fun blocks_ok :: "block list \<Rightarrow> bool" where
  "blocks_ok [] \<longleftrightarrow> True"
| "blocks_ok [b] \<longleftrightarrow> block_ok b"
| "blocks_ok (b # b' # bs) \<longleftrightarrow> block_ok b \<and> b_end b < fst b' \<and> blocks_ok (b' # bs)"

lemma blocks_ok_Cons:
  "blocks_ok (b # bs) \<longleftrightarrow> block_ok b \<and> blocks_ok bs \<and> (\<forall>b' \<in> set bs. b_end b < fst b')"
proof (induction bs arbitrary: b)
  case Nil
  then show ?case by simp
next
  case (Cons b' bs)
  have "fst b' < b_end b'" by (simp add: b_end_def)
  with Cons show ?case by (auto intro: order.strict_trans)
qed

lemma blocks_ok_append:
  "blocks_ok (xs @ ys) \<longleftrightarrow> blocks_ok xs \<and> blocks_ok ys \<and> (\<forall>b \<in> set xs. \<forall>b' \<in> set ys. b_end b < fst b')"
  by (induction xs) (auto simp: blocks_ok_Cons)

lemma blocks_ok_member: "blocks_ok bs \<Longrightarrow> b \<in> set bs \<Longrightarrow> block_ok b"
  by (induction bs) (auto simp: blocks_ok_Cons)

lemma blocks_ok_distinct: "blocks_ok bs \<Longrightarrow> distinct (map fst bs)"
proof (induction bs)
  case (Cons b bs)
  have "fst b < b_end b" by (simp add: b_end_def)
  with Cons show ?case by (fastforce simp: blocks_ok_Cons)
qed simp

text \<open>The normal form is unique.\<close>

lemma b_bytes_first: "fst b \<in> b_bytes b" "b_end b \<notin> b_bytes b" "x \<in> b_bytes b \<longleftrightarrow> fst b \<le> x \<and> x < b_end b"
  by (auto simp: b_bytes_def b_end_def)

lemma free_bytes_Cons [simp]: "free_bytes (b # bs) = b_bytes b \<union> free_bytes bs" "free_bytes [] = {}"
  by (simp_all add: free_bytes_def)

lemma free_bytes_append [simp]: "free_bytes (xs @ ys) = free_bytes xs \<union> free_bytes ys"
  by (simp add: free_bytes_def)

lemma free_bytes_above:
  assumes "blocks_ok (b # bs)" "x \<in> free_bytes bs"
  shows "b_end b < x"
  using assms by (auto simp: free_bytes_def blocks_ok_Cons b_bytes_first(3) intro: order.strict_trans2)

lemma blocks_ok_first:
  assumes "blocks_ok (b # bs)" "x \<in> free_bytes (b # bs)"
  shows "fst b \<le> x"
  using assms free_bytes_above[OF assms(1), of x] b_bytes_first(3)[of x b] by (auto simp: b_end_def)

lemma blocks_ok_gap:
  assumes "blocks_ok (b # bs)"
  shows "b_end b \<notin> free_bytes (b # bs)"
  using free_bytes_above[OF assms, of "b_end b"] b_bytes_first(2)[of b] by auto

lemma blocks_first_eq:
  assumes "blocks_ok (b # bs)" "blocks_ok (b' # bs')" "free_bytes (b # bs) = free_bytes (b' # bs')"
  shows "b = b'"
proof -
  have "fst b = fst b'"
    using blocks_ok_first[OF assms(1), of "fst b'"] blocks_ok_first[OF assms(2), of "fst b"] b_bytes_first(1) assms(3)
    by (metis Un_iff free_bytes_Cons(1) le_antisym)
  moreover have "b_end b = b_end b'"
  proof (rule ccontr)
    assume "b_end b \<noteq> b_end b'"
    then have "b_end b \<in> b_bytes b' \<or> b_end b' \<in> b_bytes b"
      using calculation by (auto simp: b_bytes_first(3) b_end_def)
    then show False
      using blocks_ok_gap[OF assms(1)] blocks_ok_gap[OF assms(2)] assms(3) by auto
  qed
  ultimately show ?thesis by (simp add: b_end_def prod_eq_iff)
qed

lemma blocks_unique:
  assumes "blocks_ok xs" "blocks_ok ys" "free_bytes xs = free_bytes ys"
  shows "xs = ys"
  using assms
proof (induction xs arbitrary: ys)
  case Nil
  then show ?case using b_bytes_first(1) by (cases ys) auto
next
  case (Cons b bs)
  obtain b' bs' where ys: "ys = b' # bs'" using Cons.prems(3) b_bytes_first(1)[of b] by (cases ys) auto
  have b: "b = b'" using blocks_first_eq Cons.prems unfolding ys by blast
  have "x \<notin> b_bytes b" if "x \<in> free_bytes bs \<or> x \<in> free_bytes bs'" for x
    using that free_bytes_above[OF Cons.prems(1), of x] free_bytes_above[OF Cons.prems(2)[unfolded ys], of x] b
    by (auto simp: b_bytes_first(3))
  then have "free_bytes bs = free_bytes bs'"
    using Cons.prems(3) unfolding ys b by auto
  with Cons ys b show ?case by (simp add: blocks_ok_Cons)
qed

section \<open>The list in memory\<close>

definition wd :: "nat \<Rightarrow> u32" where
  "wd = of_nat"

lemma unat_wd [simp]: "x < 2 ^ 32 \<Longrightarrow> unat (wd x) = x"
  by (simp add: wd_def unat_of_nat)

lemma wd_unat [simp]: "wd (unat w) = w"
  by (simp add: wd_def)

lemma wd_inj: "x < 2 ^ 32 \<Longrightarrow> y < 2 ^ 32 \<Longrightarrow> wd x = wd y \<longleftrightarrow> x = y"
  by (metis unat_wd)

lemma wd_arith: "wd (x + y) = wd x + wd y" "wd (8 * x) = 8 * wd x" "wd 8 = 8" "wd 1 = 1" "wd 0 = 0" "wd (Suc x) = wd x + 1"
  by (simp_all add: wd_def)

lemma wd_diff: "y \<le> x \<Longrightarrow> wd (x - y) = wd x - wd y"
  by (simp add: wd_def)

primrec path :: "mem_t \<Rightarrow> u32 \<Rightarrow> block list \<Rightarrow> u32 \<Rightarrow> bool" where
  "path m p [] q \<longleftrightarrow> H_NEXT m p = q"
| "path m p (b # bs) q \<longleftrightarrow> H_NEXT m p = wd (fst b) \<and> H_PAGES m (wd (fst b)) = wd (snd b) \<and> path m (wd (fst b)) bs q"

abbreviation nodes :: "block list \<Rightarrow> u32 set" where
  "nodes bs \<equiv> (\<lambda>b. wd (fst b)) ` set bs"

definition lastp :: "u32 \<Rightarrow> block list \<Rightarrow> u32" where
  "lastp p xs = (if xs = [] then p else wd (fst (last xs)))"

lemma lastp_simps [simp]: "lastp p [] = p" "lastp p (x # xs) = lastp (wd (fst x)) xs"
  by (simp_all add: lastp_def)

lemma lastp_in: "lastp p xs \<in> insert p (nodes xs)"
  by (induction xs arbitrary: p) auto

lemma path_append: "path m p (xs @ b # ys) q \<longleftrightarrow>
    path m p xs (wd (fst b)) \<and> H_PAGES m (wd (fst b)) = wd (snd b) \<and> path m (wd (fst b)) ys q"
  by (induction xs arbitrary: p) auto

lemma path_split: "path m p (xs @ ys) q \<longleftrightarrow> (\<exists>r. path m p xs r \<and> (case ys of [] \<Rightarrow> r = q | b # ys' \<Rightarrow>
    r = wd (fst b) \<and> H_PAGES m r = wd (snd b) \<and> path m r ys' q))"
  by (cases ys) (auto simp: path_append)

lemma path_cong:
  assumes "m_w0 m' p' = m_w0 m p" "\<forall>n \<in> nodes xs. m_w0 m' n = m_w0 m n \<and> m_w1 m' n = m_w1 m n"
  shows "path m' p' xs q \<longleftrightarrow> path m p xs q"
  using assms
proof (induction xs arbitrary: p p')
  case Nil
  then show ?case by (simp add: H_NEXT_def)
next
  case (Cons b bs)
  have "path m' (wd (fst b)) bs q \<longleftrightarrow> path m (wd (fst b)) bs q"
    by (rule Cons.IH) (use Cons.prems(2) in auto)
  with Cons.prems show ?case by (simp add: H_NEXT_def H_PAGES_def)
qed

lemma set_w_sel [simp]:
  "m_w0 (set_w0 p v m) = (m_w0 m)(p := v)" "m_w1 (set_w0 p v m) = m_w1 m"
  "m_w1 (set_w1 p v m) = (m_w1 m)(p := v)" "m_w0 (set_w1 p v m) = m_w0 m"
  by (simp_all add: set_w0_def set_w1_def)

lemma path_redirect:
  assumes "path m p xs q" "distinct (p # map (\<lambda>b. wd (fst b)) xs)"
  shows "path (set_w0 (lastp p xs) q' m) p xs q'"
  using assms
proof (induction xs arbitrary: p)
  case Nil
  then show ?case by (simp add: H_NEXT_def)
next
  case (Cons b bs)
  have "lastp (wd (fst b)) bs \<noteq> p" using lastp_in[of "wd (fst b)" bs] Cons.prems(2) by auto
  with Cons show ?case by (simp add: H_NEXT_def H_PAGES_def)
qed

lemma path_last: "path m p xs q \<Longrightarrow> H_NEXT m (lastp p xs) = q"
  by (induction xs arbitrary: p) auto

text \<open>
  The heap at \<open>heapp\<close> has the free blocks \<open>bs\<close>; none of them overlaps the header in the heap
  structure or starts right behind it, where the mutex is.
\<close>

definition apart :: "u32 \<Rightarrow> block \<Rightarrow> bool" where
  "apart hdr b \<longleftrightarrow> b_end b \<le> unat hdr \<or> unat hdr + 8 < fst b"

definition heap_ok :: "mem_t \<Rightarrow> u32 \<Rightarrow> block list \<Rightarrow> bool" where
  "heap_ok m heapp bs \<longleftrightarrow> blocks_ok bs \<and> path m (heap_header heapp) bs 0 \<and> H_PAGES m (heap_header heapp) = 0 \<and>
     unat (heap_header heapp) + 8 < 2 ^ 32 \<and> (\<forall>b \<in> set bs. apart (heap_header heapp) b)"

lemma block_lt: "block_ok b \<Longrightarrow> fst b < 2 ^ 32 \<and> snd b < 2 ^ 32 \<and> fst b + 8 < 2 ^ 32 \<and> 8 * snd b < 2 ^ 32"
  by (auto simp: block_ok_def b_end_def)

lemma limit_wd:
  assumes "block_ok b" "H_PAGES m (wd (fst b)) = wd (snd b)"
  shows "H_LIMIT m (wd (fst b)) = wd (b_end b)" "unat (H_LIMIT m (wd (fst b))) = b_end b"
proof -
  show l: "H_LIMIT m (wd (fst b)) = wd (b_end b)"
    using assms(2) by (simp add: H_LIMIT_def H_BLOCK_def b_end_def wd_arith distrib_left)
  show "unat (H_LIMIT m (wd (fst b))) = b_end b"
    unfolding l using assms(1) by (simp add: block_ok_def)
qed

lemma apart_header: "apart hdr b \<Longrightarrow> block_ok b \<Longrightarrow> wd (fst b) \<noteq> hdr"
  by (auto simp: apart_def b_end_def block_ok_def)

lemma heap_nodes_distinct:
  assumes "heap_ok m heapp bs"
  shows "distinct (heap_header heapp # map (\<lambda>b. wd (fst b)) bs)"
proof -
  have ok: "blocks_ok bs" "\<forall>b \<in> set bs. apart (heap_header heapp) b" using assms by (simp_all add: heap_ok_def)
  have "inj_on wd (fst ` set bs)"
    using blocks_ok_member[OF ok(1)] block_lt wd_inj by (intro inj_onI) (metis imageE)
  then have "distinct (map wd (map fst bs))"
    using blocks_ok_distinct[OF ok(1)] by (simp only: distinct_map[of wd "map fst bs"] set_map)
  moreover have "heap_header heapp \<notin> nodes bs"
    using ok(2) apart_header blocks_ok_member[OF ok(1)] by fastforce
  ultimately show ?thesis by (simp add: comp_def)
qed

section \<open>The search\<close>

definition area :: "nat \<Rightarrow> block \<Rightarrow> nat" where
  "area A b = (fst b + 8 + (A - 1)) div A * A - 8"

definition fits :: "nat \<Rightarrow> nat \<Rightarrow> block \<Rightarrow> bool" where
  "fits A P b \<longleftrightarrow> area A b + 8 * (P + 1) \<le> b_end b"

definition heap_align :: "u32 \<Rightarrow> bool" where
  "heap_align align \<longleftrightarrow> MEM_IS_VALID_ALIGNMENT align \<and> 8 \<le> align"

lemma area_bounds:
  assumes "8 dvd fst b" "heap_align align"
  shows "fst b \<le> area (unat align) b" "8 dvd area (unat align) b" "unat align dvd area (unat align) b + 8"
proof -
  obtain k where k: "unat align = 2 ^ k" using assms(2) valid_alignment heap_align_def by metis
  have "8 \<le> unat align" using assms(2) by (simp add: heap_align_def word_le_nat_alt)
  then have "(2::nat) ^ 3 \<le> 2 ^ k" unfolding k by simp
  then have "3 \<le> k" by (simp only: power_increasing_iff) 
  then have d: "8 dvd unat align" unfolding k using le_imp_power_dvd[of 3 k 2] by simp
  have r: "fst b + 8 \<le> (fst b + 8 + (unat align - 1)) div unat align * unat align"
    using round_up(1)[of "unat align" "fst b + 8"] \<open>8 \<le> unat align\<close> by simp
  then show "fst b \<le> area (unat align) b" by (simp add: area_def)
  have e: "area (unat align) b + 8 = (fst b + 8 + (unat align - 1)) div unat align * unat align"
    using r by (simp add: area_def)
  then show "unat align dvd area (unat align) b + 8" by simp
  have "8 dvd (fst b + 8 + (unat align - 1)) div unat align * unat align" using d by simp
  then show "8 dvd area (unat align) b" unfolding area_def by (rule dvd_diff_nat) simp
qed

lemma unat_area:
  assumes "block_ok b" "heap_align align"
  shows "MEM_ALIGN_NEXT (H_BLOCK (wd (fst b))) align - 8 = wd (area (unat align) b)" "area (unat align) b < 2 ^ 32"
proof -
  let ?A = "unat align" and ?p = "H_BLOCK (wd (fst b))"
  let ?r = "(fst b + 8 + (?A - 1)) div ?A * ?A"
  have v: "MEM_IS_VALID_ALIGNMENT align" "0 < ?A" using assms(2) by (auto simp: heap_align_def word_le_nat_alt)
  obtain k where k: "k < 32" "?A = 2 ^ k" using v(1) valid_alignment by metis
  have p: "unat ?p = fst b + 8" "?p = wd (fst b + 8)"
    using block_lt[OF assms(1)] by (simp_all add: H_BLOCK_def unat_plus_if' wd_arith)
  have a: "fst b \<le> area ?A b" using area_bounds(1)[OF _ assms(2)] assms(1) by (simp add: block_ok_def)
  have r8: "area ?A b + 8 = ?r" using round_up(1)[OF v(2), of "fst b + 8"] by (simp add: area_def)
  have "MEM_ALIGN_NEXT ?p align = wd ?r \<and> ?r \<le> 2 ^ 32"
  proof (cases "fst b + 8 + ?A \<le> 2 ^ 32")
    case True
    have "unat (MEM_ALIGN_NEXT ?p align) = ?r"
      using unat_align_next[OF v(1), of ?p] True by (simp add: p(1))
    moreover have "?r \<le> 2 ^ 32" using round_up(2)[OF v(2), of "fst b + 8"] True v(2) by linarith
    ultimately show ?thesis by (metis wd_unat)
  next
    case False
    have d: "?A dvd 2 ^ 32" unfolding k(2) using k(1) by (intro le_imp_power_dvd) simp
    then obtain q where q: "(2 :: nat) ^ 32 = q * ?A" by (auto simp: dvd_def mult.commute)
    have le: "q * ?A \<le> fst b + 8 + (?A - 1)" "fst b + 8 + (?A - 1) < (q + 1) * ?A"
      using False block_lt[OF assms(1)] q v(2) by (simp_all add: distrib_right)
    then have div: "(fst b + 8 + (?A - 1)) div ?A = q"
      using v(2) by (intro div_nat_eqI) (simp_all add: mult.commute)
    have "unat (?p + MEM_ALIGN_MASK align) = fst b + 8 + (?A - 1) - 2 ^ 32"
      using False p(1) v by (simp add: unat_plus_if' MEM_ALIGN_MASK_def unat_minus_one MEM_IS_VALID_ALIGNMENT_def)
    moreover have "fst b + 8 + (?A - 1) - 2 ^ 32 < ?A" using le(1,2) unfolding q by (simp add: distrib_right)
    ultimately have "unat (MEM_ALIGN_NEXT ?p align) = 0"
      unfolding MEM_ALIGN_NEXT_def unat_align_prev[OF v(1)] by simp
    moreover have "wd (2 ^ 32) = 0" by (simp add: wd_def)
    ultimately show ?thesis unfolding div q[symmetric] by (simp add: unat_eq_zero)
  qed
  then have "MEM_ALIGN_NEXT ?p align = wd (area ?A b) + 8" "area ?A b + 8 \<le> 2 ^ 32"
    unfolding r8[symmetric] by (simp_all add: wd_arith)
  then show "MEM_ALIGN_NEXT ?p align - 8 = wd (area ?A b)" "area ?A b < 2 ^ 32"
    by simp_all
qed

lemma npages_wd:
  assumes "y \<le> x" "x < 2 ^ 32"
  shows "NPAGES (wd x) (wd y) = wd ((x - y) div 8)"
proof -
  have "unat (wd x - wd y) = x - y" using assms by (simp add: unat_sub word_le_nat_alt)
  then have "unat (NPAGES (wd x) (wd y)) = (x - y) div 8" by (simp add: NPAGES_def unat_div)
  then show ?thesis by (metis wd_unat)
qed

lemma alloc_fits_iff:
  assumes b: "block_ok b" "H_PAGES m (wd (fst b)) = wd (snd b)" and A: "heap_align align"
  shows "alloc_fits m pages (wd (fst b)) (wd (area (unat align) b)) \<longleftrightarrow> fits (unat align) (unat pages) b"
proof -
  let ?a = "area (unat align) b"
  note l = limit_wd[OF b]
  have lt: "b_end b < 2 ^ 32" "8 dvd fst b" using b(1) by (simp_all add: block_ok_def)
  have a: "8 dvd ?a" "?a < 2 ^ 32" using area_bounds(2)[OF lt(2) A] unat_area(2)[OF b(1) A] by simp_all
  have e: "8 dvd b_end b" using lt(2) by (simp add: b_end_def)
  have less: "wd ?a < H_LIMIT m (wd (fst b)) \<longleftrightarrow> ?a < b_end b"
    using a(2) l(2) by (simp add: word_less_nat_alt)
  show ?thesis
  proof (cases "?a < b_end b")
    case False
    then show ?thesis by (simp add: alloc_fits_def less fits_def)
  next
    case True
    obtain i j where ij: "?a = 8 * i" "b_end b = 8 * j" using a(1) e by (auto simp: dvd_def)
    then have le: "?a + 8 \<le> b_end b" using True by simp
    have w: "wd ?a + 8 = wd (?a + 8)" by (simp add: wd_arith)
    have "unat (NPAGES (H_LIMIT m (wd (fst b))) (wd ?a + 8)) = (b_end b - (?a + 8)) div 8"
      unfolding l(1) w npages_wd[OF le lt(1)] using lt(1) by (intro unat_wd) linarith
    moreover have "unat pages \<le> (b_end b - (?a + 8)) div 8 \<longleftrightarrow> ?a + 8 * (unat pages + 1) \<le> b_end b"
      using le unfolding ij by auto
    ultimately show ?thesis
      using True less by (simp add: alloc_fits_def fits_def word_le_nat_alt)
  qed
qed

lemma alloc_loop_ok:
  assumes "path m p bs 0" "\<forall>b \<in> set bs. block_ok b" "heap_align align"
  shows "\<forall>b \<in> set bs. \<not> fits (unat align) (unat pages) b \<Longrightarrow> alloc_loop m pages align p = Some None"
    "bs = xs @ b # ys \<Longrightarrow> \<forall>x \<in> set xs. \<not> fits (unat align) (unat pages) x \<Longrightarrow> fits (unat align) (unat pages) b \<Longrightarrow>
      alloc_loop m pages align p = Some (Some (lastp p xs, wd (fst b), wd (area (unat align) b)))"
proof -
  have step: "alloc_loop m pages align p = (if fits (unat align) (unat pages) b
      then Some (Some (p, wd (fst b), wd (area (unat align) b))) else alloc_loop m pages align (wd (fst b)))"
    if "path m p (b # bs) 0" "block_ok b" for p b bs
  proof -
    have "wd (fst b) \<noteq> 0" using that(2) wd_inj[of "fst b" 0] block_lt[of b] by (auto simp: block_ok_def wd_arith)
    then show ?thesis
      using that alloc_fits_iff[OF that(2) _ assms(3), of m pages] unat_area(1)[OF that(2) assms(3)]
      by (subst alloc_loop.simps) (simp add: Let_def)
  qed
  show "alloc_loop m pages align p = Some None" if "\<forall>b \<in> set bs. \<not> fits (unat align) (unat pages) b"
    using assms(1,2) that
  proof (induction bs arbitrary: p)
    case Nil
    then show ?case by (subst alloc_loop.simps) simp
  next
    case (Cons b bs)
    then show ?case using step[OF Cons.prems(1)] by simp
  qed
  show "alloc_loop m pages align p = Some (Some (lastp p xs, wd (fst b), wd (area (unat align) b)))"
    if "bs = xs @ b # ys" "\<forall>x \<in> set xs. \<not> fits (unat align) (unat pages) x" "fits (unat align) (unat pages) b"
    using assms(1,2) that
  proof (induction xs arbitrary: p bs)
    case Nil
    then show ?case using step[of p b ys] by simp
  next
    case (Cons x xs)
    have "alloc_loop m pages align (wd (fst x)) = Some (Some (lastp (wd (fst x)) xs, wd (fst b), wd (area (unat align) b)))"
      by (rule Cons.IH[of _ "xs @ b # ys"]) (use Cons.prems in auto)
    then show ?case using step[of p x "xs @ b # ys"] Cons.prems by simp
  qed
qed

end
