(* ===== verification/Ch_Heap_Ok.thy ===== *)
theory Ch_Heap_Ok
  imports Ch_Heap
begin

text \<open>
  Correctness of the heap allocator. An allocation takes an area out of a free block, a
  deallocation puts it back and joins it with the free blocks next to it; the free list stays
  sorted, with gaps between its blocks, so that it is determined by the set of free bytes. The
  heap is an allocator in the sense of the locale \<open>alloc_free\<close>.
\<close>

section \<open>Allocation\<close>

text \<open>
  What is left of a block when an area of \<open>P\<close> pages at \<open>a\<close> is taken out of it: the part before the
  header of the area and the part behind the area.
\<close>

definition before :: "nat \<Rightarrow> block \<Rightarrow> block list" where
  "before a b = (if a > fst b then [(fst b, (a - fst b - 8) div 8)] else [])"

definition behind :: "nat \<Rightarrow> nat \<Rightarrow> block \<Rightarrow> block list" where
  "behind P a b = (if a + 8 * (P + 1) < b_end b then [(a + 8 * (P + 1), (b_end b - (a + 8 * (P + 1))) div 8 - 1)] else [])"

definition carve :: "nat \<Rightarrow> nat \<Rightarrow> block \<Rightarrow> block list" where
  "carve P a b = before a b @ behind P a b"

lemma carve_ok:
  assumes b: "block_ok b" and a: "8 dvd a" "fst b \<le> a" "a + 8 * (P + 1) \<le> b_end b"
  shows "blocks_ok (carve P a b)" "free_bytes (carve P a b) = b_bytes b - b_bytes (a, P)" "b_bytes (a, P) \<subseteq> b_bytes b"
    "block_ok (a, P)" "\<forall>c \<in> set (carve P a b). fst b \<le> fst c \<and> b_end c \<le> b_end b"
proof -
  have b': "8 dvd fst b" "0 < fst b" "b_end b < 2 ^ 32" using b by (simp_all add: block_ok_def)
  have "8 dvd b_end b" using b'(1) by (simp add: b_end_def)
  then obtain i j n where e: "fst b = 8 * i" "a = 8 * j" "b_end b = 8 * n"
    using b'(1) a(1) by (auto elim!: dvdE)
  have ij: "i \<le> j" "j + (P + 1) \<le> n" "0 < i" using a(2,3) b'(2) e by simp_all
  have b0: "before a b = (if i < j then [(8 * i, j - i - 1)] else [])"
    by (simp add: before_def e flip: diff_mult_distrib2) (metis Suc_eq_plus1 diff_diff_left diff_mult_distrib2 mult.right_neutral nonzero_mult_div_cancel_left zero_neq_numeral)
  have b1: "behind P a b = (if j + P + 1 < n then [(8 * (j + P + 1), n - (j + P + 1) - 1)] else [])"
  proof -
    have "8 * n - (8 * j + 8 * (P + 1)) = 8 * (n - (j + P + 1))" by simp
    then show ?thesis by (simp add: behind_def e)
  qed
  have ends: "b_end (8 * i, j - i - 1) = 8 * j" if "i < j" using that by (simp add: b_end_def)
  have ends1: "b_end (8 * (j + P + 1), n - (j + P + 1) - 1) = 8 * n" if "j + P + 1 < n" using that by (simp add: b_end_def)
  have endsa: "b_end (a, P) = 8 * (j + P + 1)" by (simp add: b_end_def e)
  show "blocks_ok (carve P a b)"
    using ij b'(3)[unfolded e] ends ends1 unfolding carve_def b0 b1 by (auto simp: block_ok_def)
  show "block_ok (a, P)" using a(1,3) b'(2,3) a(2) by (simp add: block_ok_def b_end_def)
  show "b_bytes (a, P) \<subseteq> b_bytes b" using ij endsa by (auto simp: b_bytes_first(3) e)
  show "free_bytes (carve P a b) = b_bytes b - b_bytes (a, P)"
    using ij ends ends1 endsa unfolding carve_def b0 b1 by (auto simp: b_bytes_first(3) e)
  show "\<forall>c \<in> set (carve P a b). fst b \<le> fst c \<and> b_end c \<le> b_end b"
    using ij ends ends1 unfolding carve_def b0 b1 by (auto simp: e)
qed

text \<open>Replacing a block by what is left of it.\<close>

lemma carve_list:
  assumes "blocks_ok (xs @ b # ys)" "8 dvd a" "fst b \<le> a" "a + 8 * (P + 1) \<le> b_end b"
  shows "blocks_ok (xs @ carve P a b @ ys)"
    "free_bytes (xs @ carve P a b @ ys) = free_bytes (xs @ b # ys) - b_bytes (a, P)"
    "b_bytes (a, P) \<subseteq> free_bytes (xs @ b # ys)"
proof -
  have ok: "blocks_ok xs" "block_ok b" "blocks_ok ys" "\<forall>x \<in> set xs. b_end x < fst b \<and> (\<forall>y \<in> set ys. b_end x < fst y)"
      "\<forall>y \<in> set ys. b_end b < fst y"
    using assms(1) by (auto simp: blocks_ok_append blocks_ok_Cons)
  note c = carve_ok[OF ok(2) assms(2-4)]
  show "blocks_ok (xs @ carve P a b @ ys)"
    using ok c(1,5) by (auto simp: blocks_ok_append intro: order.strict_trans2 order.strict_trans1)
  show "b_bytes (a, P) \<subseteq> free_bytes (xs @ b # ys)" using c(3) by auto
  have "free_bytes xs \<inter> b_bytes b = {}" "free_bytes ys \<inter> b_bytes b = {}"
    using ok(4,5) by (auto simp: free_bytes_def b_bytes_first(3))
  then show "free_bytes (xs @ carve P a b @ ys) = free_bytes (xs @ b # ys) - b_bytes (a, P)"
    using c(2,3) by auto
qed

lemma path_join:
  assumes "path m' p xs (H_NEXT m s)" "path m s ys q" "\<forall>n \<in> nodes ys. m_w0 m' n = m_w0 m n \<and> m_w1 m' n = m_w1 m n"
  shows "path m' p (xs @ ys) q"
  using assms
proof (induction xs arbitrary: p)
  case Nil
  have "m_w0 m' p = m_w0 m s" using Nil.prems(1) by (simp add: H_NEXT_def)
  with Nil.prems path_cong[of m' p m s ys q] show ?case by simp
qed simp

text \<open>Memory that changes only at addresses in \<open>B\<close>.\<close>

definition outside :: "nat set \<Rightarrow> mem_t \<Rightarrow> mem_t \<Rightarrow> bool" where
  "outside B m m' \<longleftrightarrow> (\<forall>n. unat n \<notin> B \<longrightarrow> m_w0 m' n = m_w0 m n \<and> m_w1 m' n = m_w1 m n)"

lemma outside_refl [simp]: "outside B m m"
  by (simp add: outside_def)

lemma outside_set:
  "outside B m m' \<Longrightarrow> unat p \<in> B \<Longrightarrow> outside B m (set_w0 p v m')"
  "outside B m m' \<Longrightarrow> unat p \<in> B \<Longrightarrow> outside B m (set_w1 p v m')"
  by (auto simp: outside_def)

lemma path_outside:
  assumes "outside B m m'" "path m p xs q" "unat p \<notin> B" "\<forall>x \<in> set xs. fst x \<notin> B \<and> fst x < 2 ^ 32"
  shows "path m' p xs q"
  using path_cong[of m' p m p xs q] assms by (auto simp: outside_def)

lemma alloc_setup:
  assumes ok: "heap_ok m heapp (xs @ b # ys)" and A: "heap_align align" and fit: "fits (unat align) (unat pages) b"
    and a: "a = area (unat align) b" and P: "P = unat pages"
  shows "block_ok b" "8 dvd a" "fst b \<le> a" "a + 8 * (P + 1) \<le> b_end b" "b_end b < 2 ^ 32"
    "H_PAGES m (wd (fst b)) = wd (snd b)" "H_LIMIT m (wd (fst b)) = wd (b_end b)" "pages = wd P"
    "unat (heap_header heapp) \<notin> b_bytes b" "\<forall>x \<in> set xs \<union> set ys. fst x \<notin> b_bytes b \<and> fst x < 2 ^ 32"
    "path m (heap_header heapp) xs (wd (fst b))" "path m (wd (fst b)) ys 0"
proof -
  have bok: "blocks_ok (xs @ b # ys)" "path m (heap_header heapp) (xs @ b # ys) 0" "apart (heap_header heapp) b"
    using ok by (simp_all add: heap_ok_def)
  show b: "block_ok b" using blocks_ok_member[OF bok(1)] by simp
  then have d: "8 dvd fst b" and "b_end b < 2 ^ 32" by (simp_all add: block_ok_def)
  then show "b_end b < 2 ^ 32" by simp
  show "8 dvd a" "fst b \<le> a" using area_bounds[OF d A] by (simp_all add: a)
  show "a + 8 * (P + 1) \<le> b_end b" using fit by (simp add: fits_def a P)
  show pg: "H_PAGES m (wd (fst b)) = wd (snd b)" "path m (heap_header heapp) xs (wd (fst b))" "path m (wd (fst b)) ys 0"
    using bok(2) by (simp_all add: path_append)
  show "H_LIMIT m (wd (fst b)) = wd (b_end b)" by (rule limit_wd(1)[OF b pg(1)])
  show "pages = wd P" by (simp add: P)
  show "unat (heap_header heapp) \<notin> b_bytes b"
    using bok(3) by (auto simp: apart_def b_bytes_first(3))
  have "fst x \<notin> b_bytes b" if "x \<in> set xs \<union> set ys" for x
  proof -
    have "b_end x < fst b \<or> b_end b < fst x" using bok(1) that by (auto simp: blocks_ok_append blocks_ok_Cons)
    then show ?thesis by (auto simp: b_bytes_first(3) b_end_def)
  qed
  moreover have "fst x < 2 ^ 32" if "x \<in> set xs \<union> set ys" for x
    using blocks_ok_member[OF bok(1), of x] block_lt[of x] that by auto
  ultimately show "\<forall>x \<in> set xs \<union> set ys. fst x \<notin> b_bytes b \<and> fst x < 2 ^ 32" by blast
qed

lemma block_end_dvd: "block_ok b \<Longrightarrow> 8 dvd b_end b"
  by (simp add: block_ok_def b_end_def)

text \<open>The area starts behind the start of the block: its header stays, with fewer pages.\<close>

lemma alloc_split_ok:
  assumes ok: "heap_ok m heapp (xs @ b # ys)" and A: "heap_align align" and fit: "fits (unat align) (unat pages) b"
    and a: "a = area (unat align) b" and P: "P = unat pages" and gt: "a > fst b"
    and m': "m' = set_w0 (wd a) v0 (set_w1 (wd a) v1 (alloc_split pages (wd (fst b)) (wd a) m))"
  shows "path m' (heap_header heapp) (xs @ carve P a b @ ys) 0" "outside (b_bytes b) m m'"
proof -
  note s = alloc_setup[OF ok A fit a P]
  let ?e = "b_end b" and ?f = "a + 8 * (P + 1)" and ?hp = "wd (fst b)"
  have gt8: "fst b + 8 \<le> a" using gt s(1,2) by (auto simp: block_ok_def elim!: dvdE)
  have le: "a + 8 \<le> ?e" "a < 2 ^ 32" "?f < 2 ^ 32" "fst b < 2 ^ 32" using s(4,5) gt by simp_all
  have mem: "fst b \<in> b_bytes b" "a \<in> b_bytes b" "?f < ?e \<Longrightarrow> ?f \<in> b_bytes b"
    using s(3,4) by (auto simp: b_bytes_first(3))
  have wds: "H_BLOCK (wd a) = wd (a + 8)" "H_BLOCK ?hp = wd (fst b + 8)" "wd (a + 8) + 8 * pages = wd ?f"
    by (simp_all add: H_BLOCK_def wd_arith s(8) distrib_left)
  obtain j n where jn: "a = 8 * j" "?e = 8 * n" using block_end_dvd[OF s(1)] s(2) by (auto elim!: dvdE)
  have div8: "(8 * n - (8 * j + 8)) div 8 = n - Suc j" by simp
  have bp: "NPAGES (wd ?e) (wd (a + 8)) = wd (n - (j + 1))" "NPAGES (wd a) (wd (fst b + 8)) = wd ((a - fst b - 8) div 8)"
    using npages_wd[OF le(1) s(5)] npages_wd[OF gt8 le(2)] by (simp_all add: jn div8)
  have lt: "pages < wd (n - (j + 1)) \<longleftrightarrow> ?f < ?e"
    using s(5) le by (simp add: word_less_nat_alt jn P) linarith
  have pg: "wd (n - (j + 1)) - pages - 1 = wd ((?e - ?f) div 8 - 1)" if "?f < ?e"
  proof -
    have "(?e - ?f) div 8 - 1 = n - (j + 1) - P - 1" "P + 1 \<le> n - (j + 1)" using that by (simp_all add: jn)
    then show ?thesis by (simp add: wd_diff s(8) wd_arith)
  qed
  have ne: "wd a \<noteq> ?hp" "wd a \<noteq> wd ?f" "?hp \<noteq> wd ?f"
    using wd_inj[OF le(2,4)] wd_inj[OF le(2,3)] wd_inj[OF le(4,3)] gt by simp_all
  let ?m1 = "set_w1 ?hp (wd ((a - fst b - 8) div 8)) m"
  let ?m2 = "if ?f < ?e then set_w0 ?hp (wd ?f) (set_w0 (wd ?f) (H_NEXT m ?hp) (set_w1 (wd ?f) (wd ((?e - ?f) div 8 - 1)) ?m1)) else ?m1"
  have split: "alloc_split pages ?hp (wd a) m = ?m2"
    using lt pg by (simp add: alloc_split_def Let_def wds s(7) bp H_NEXT_def)
  show out: "outside (b_bytes b) m m'"
    unfolding m' split using mem le by (simp add: outside_set)
  have nxt: "\<forall>n \<in> nodes ys. m_w0 m' n = m_w0 m n \<and> m_w1 m' n = m_w1 m n"
    using out s(10) by (auto simp: outside_def)
  have xs: "path m' (heap_header heapp) xs ?hp"
    by (rule path_outside[OF out s(11,9)]) (use s(10) in blast)
  have hp: "H_PAGES m' ?hp = wd ((a - fst b - 8) div 8)"
    using ne by (simp add: m' split H_PAGES_def)
  have "path m' ?hp (behind P a b @ ys) 0"
  proof (cases "?f < ?e")
    case True
    have "path m' (wd ?f) ([] @ ys) 0"
      by (rule path_join[OF _ s(12) nxt]) (use True ne in \<open>simp add: m' split H_NEXT_def\<close>)
    with True ne show ?thesis by (simp add: behind_def m' split H_NEXT_def H_PAGES_def)
  next
    case False
    have "path m' ?hp ([] @ ys) 0"
      by (rule path_join[OF _ s(12) nxt]) (use False ne in \<open>simp add: m' split H_NEXT_def\<close>)
    with False show ?thesis by (simp add: behind_def)
  qed
  then show "path m' (heap_header heapp) (xs @ carve P a b @ ys) 0"
    using xs hp gt by (simp add: carve_def before_def path_append)
qed

text \<open>The predecessor of the block in the list is outside the block and no later block.\<close>

lemma pred_outside:
  assumes ok: "heap_ok m heapp (xs @ b # ys)" and s: "unat (heap_header heapp) \<notin> b_bytes b"
    "\<forall>x \<in> set xs \<union> set ys. fst x \<notin> b_bytes b \<and> fst x < 2 ^ 32"
  shows "unat (lastp (heap_header heapp) xs) \<notin> b_bytes b" "lastp (heap_header heapp) xs \<notin> nodes ys"
proof -
  let ?hdr = "heap_header heapp"
  consider "lastp ?hdr xs = ?hdr" | x where "x \<in> set xs" "lastp ?hdr xs = wd (fst x)" using lastp_in[of ?hdr xs] by blast
  then show "unat (lastp ?hdr xs) \<notin> b_bytes b"
  proof cases
    case 2
    then have "fst x \<notin> b_bytes b" "fst x < 2 ^ 32" using s(2) by blast+
    then show ?thesis using 2(2) by simp
  qed (use s(1) in simp)
  have "distinct (?hdr # map (\<lambda>b. wd (fst b)) (xs @ b # ys))" by (rule heap_nodes_distinct[OF ok])
  then have "?hdr \<notin> nodes ys" "nodes xs \<inter> nodes ys = {}" by force+
  then show "lastp ?hdr xs \<notin> nodes ys" using lastp_in[of ?hdr xs] by (metis Int_iff empty_iff insert_iff)
qed

lemma alloc_head_eq:
  assumes ok: "heap_ok m heapp (xs @ b # ys)" and A: "heap_align align" and fit: "fits (unat align) (unat pages) b"
    and a: "a = area (unat align) b" and P: "P = unat pages" and eq: "a = fst b" and f: "f = a + 8 * (P + 1)"
  shows "alloc_head pages qp (wd a) m =
    (if f < b_end b
     then set_w0 qp (wd f) (set_w1 (wd f) (wd ((b_end b - f) div 8 - 1)) (set_w0 (wd f) (H_NEXT m (wd a)) m))
     else set_w0 qp (H_NEXT m (wd a)) m)"
proof -
  note s = alloc_setup[OF ok A fit a P]
  let ?e = "b_end b"
  have le: "P < 2 ^ 32" using s(4,5) by simp
  obtain j n where jn: "a = 8 * j" "?e = 8 * n" using block_end_dvd[OF s(1)] s(2) by (auto elim!: dvdE)
  have sn: "snd b = n - j - 1" "j < n" using jn eq by (simp_all add: b_end_def)
  have "wd (snd b) = wd P \<longleftrightarrow> snd b = P" using block_lt[OF s(1)] le by (intro wd_inj) simp_all
  then have exact: "H_PAGES m (wd a) = pages \<longleftrightarrow> \<not> f < ?e" using s(4,6,8) sn by (auto simp: eq[symmetric] jn f)
  have fpw: "H_BLOCK (wd a) + 8 * pages = wd f" "H_BLOCK (wd f) = wd (f + 8)"
    by (simp add: f H_BLOCK_def wd_arith s(8) distrib_left) (simp only: H_BLOCK_def wd_arith)
  show ?thesis
  proof (cases "f < ?e")
    case False
    then show ?thesis using exact by (simp add: alloc_head_def)
  next
    case True
    have f8: "f = 8 * (j + P + 1)" by (simp add: f jn)
    have "j + P + 1 < n" using True unfolding f8 jn by simp
    then have "f + 8 \<le> ?e" "(?e - (f + 8)) div 8 = (?e - f) div 8 - 1" unfolding f8 jn by simp_all
    then have pg: "NPAGES (wd ?e) (wd (f + 8)) = wd ((?e - f) div 8 - 1)" using npages_wd[of "f + 8" ?e] s(5) by simp
    have l: "H_LIMIT (set_w0 (wd f) (H_NEXT m (wd a)) m) (wd a) = wd ?e"
      using s(7) by (simp add: H_LIMIT_def H_PAGES_def eq)
    show ?thesis unfolding alloc_head_def Let_def fpw l pg using True exact by simp
  qed
qed

text \<open>The area starts with the block: the list goes round its header.\<close>

lemma alloc_head_ok:
  assumes ok: "heap_ok m heapp (xs @ b # ys)" and A: "heap_align align" and fit: "fits (unat align) (unat pages) b"
    and a: "a = area (unat align) b" and P: "P = unat pages" and eq: "a = fst b"
    and m': "m' = set_w0 (wd a) v0 (set_w1 (wd a) v1 (alloc_head pages (lastp (heap_header heapp) xs) (wd a) m))"
  shows "path m' (heap_header heapp) (xs @ carve P a b @ ys) 0"
    "outside (b_bytes b) (set_w0 (lastp (heap_header heapp) xs) (m_w0 m' (lastp (heap_header heapp) xs)) m) m'"
proof -
  note s = alloc_setup[OF ok A fit a P]
  let ?e = "b_end b" and ?f = "a + 8 * (P + 1)" and ?hdr = "heap_header heapp"
  let ?qp = "lastp ?hdr xs"
  have le: "a + 8 \<le> ?e" "a < 2 ^ 32" "?f < 2 ^ 32" using s(4,5) by simp_all
  have mem: "a \<in> b_bytes b" "?f < ?e \<Longrightarrow> ?f \<in> b_bytes b"
    using s(3,4) by (auto simp: b_bytes_first(3))
  note qp = pred_outside[OF ok s(9,10)]
  have nqp: "?qp \<noteq> wd a" "?f < ?e \<Longrightarrow> ?qp \<noteq> wd ?f"
    using qp(1) mem le by auto
  have ne: "wd a \<noteq> wd ?f" using wd_inj[OF le(2,3)] by simp
  let ?m1 = "if ?f < ?e then set_w1 (wd ?f) (wd ((?e - ?f) div 8 - 1)) (set_w0 (wd ?f) (H_NEXT m (wd a)) m) else m"
  let ?r = "if ?f < ?e then wd ?f else H_NEXT m (wd a)"
  have head: "alloc_head pages ?qp (wd a) m = set_w0 ?qp ?r ?m1"
    using alloc_head_eq[OF ok A fit a P eq refl] by simp
  let ?mm = "set_w0 (wd a) v0 (set_w1 (wd a) v1 ?m1)"
  have m'': "m' = set_w0 ?qp ?r ?mm"
    unfolding m' head using nqp(1) by (auto simp: set_w0_def set_w1_def fun_upd_twist)
  have out: "outside (b_bytes b) m ?mm" using mem le by (simp add: outside_set)
  have xs: "path m' ?hdr xs ?r"
    unfolding m''
  proof (rule path_redirect)
    show "path ?mm ?hdr xs (wd (fst b))"
      by (rule path_outside[OF out s(11,9)]) (use s(10) in blast)
    show "distinct (?hdr # map (\<lambda>b. wd (fst b)) xs)"
      using heap_nodes_distinct[OF ok] by simp
  qed
  show "outside (b_bytes b) (set_w0 ?qp (m_w0 m' ?qp) m) m'"
    using out unfolding m'' by (auto simp: outside_def)
  have nxt: "\<forall>n \<in> nodes ys. m_w0 m' n = m_w0 m n \<and> m_w1 m' n = m_w1 m n"
  proof
    fix n assume n: "n \<in> nodes ys"
    then obtain y where y: "y \<in> set ys" "n = wd (fst y)" by blast
    then have "unat n \<notin> b_bytes b" using s(10) by simp
    then have "m_w0 ?mm n = m_w0 m n \<and> m_w1 ?mm n = m_w1 m n" using out unfolding outside_def by blast
    moreover have "n \<noteq> ?qp" using n qp(2) by metis
    ultimately show "m_w0 m' n = m_w0 m n \<and> m_w1 m' n = m_w1 m n" unfolding m'' by simp
  qed
  have pre: "before a b = []" using eq by (simp add: before_def)
  show "path m' ?hdr (xs @ carve P a b @ ys) 0"
  proof (cases "?f < ?e")
    case True
    have "H_NEXT m' (wd ?f) = H_NEXT m (wd (fst b))" "H_PAGES m' (wd ?f) = wd ((?e - ?f) div 8 - 1)"
      using True ne nqp by (simp_all add: m'' H_NEXT_def H_PAGES_def eq[symmetric])
    moreover from this(1) have "path m' (wd ?f) ([] @ ys) 0"
      by (intro path_join[OF _ s(12) nxt]) simp
    ultimately show ?thesis using xs True by (simp add: carve_def pre behind_def path_append)
  next
    case False
    then show ?thesis using path_join[OF _ s(12) nxt] xs by (simp add: carve_def pre behind_def eq[symmetric])
  qed
qed

lemma fits_first:
  assumes "\<exists>b \<in> set bs. fits A P b"
  shows "\<exists>xs b ys. bs = xs @ b # ys \<and> (\<forall>x \<in> set xs. \<not> fits A P x) \<and> fits A P b"
  using assms split_list_first_prop[of bs "fits A P"] by blast

lemma free_bytes_node: "x \<in> set xs \<Longrightarrow> fst x \<in> free_bytes xs"
  using b_bytes_first(1)[of x] unfolding free_bytes_def by blast

lemma apart_sub: "apart hdr b \<Longrightarrow> fst b \<le> fst c \<Longrightarrow> b_end c \<le> b_end b \<Longrightarrow> apart hdr c"
  by (auto simp: apart_def)

definition heap_frame :: "u32 \<Rightarrow> nat set \<Rightarrow> mem_t \<Rightarrow> mem_t \<Rightarrow> bool" where
  "heap_frame heapp B m m' \<longleftrightarrow> (\<forall>n. n \<noteq> heap_header heapp \<longrightarrow> unat n \<notin> B \<longrightarrow> m_w0 m' n = m_w0 m n \<and> m_w1 m' n = m_w1 m n)"

lemma heap_alloc_none:
  assumes "heap_ok m heapp bs" "heap_align align" "\<forall>b \<in> set bs. \<not> fits (unat align) (unat (heap_pages sz)) b"
  shows "heap_alloc heapp sz align m = Inr (None, m)"
proof -
  have "path m (heap_header heapp) bs 0" "\<forall>b \<in> set bs. block_ok b"
    using assms(1) blocks_ok_member by (auto simp: heap_ok_def)
  from alloc_loop_ok(1)[OF this assms(2,3)] show ?thesis by (simp add: heap_alloc_def)
qed

text \<open>Taking the area out of the block, in both cases.\<close>

lemma pred_free:
  assumes "\<forall>x \<in> set xs. fst x < 2 ^ 32" "n \<noteq> hdr" "unat n \<notin> free_bytes xs"
  shows "n \<noteq> lastp hdr xs"
proof
  assume "n = lastp hdr xs"
  then obtain x where x: "x \<in> set xs" "n = wd (fst x)" using assms(2) lastp_in[of hdr xs] by auto
  then have "unat n = fst x" using assms(1) by simp
  then show False using assms(3) free_bytes_node[OF x(1)] by simp
qed

lemma alloc_take_ok:
  assumes ok: "heap_ok m heapp (xs @ b # ys)" and A: "heap_align align" and fit: "fits (unat align) (unat (heap_pages sz)) b"
    and a: "a = area (unat align) b" and P: "P = unat (heap_pages sz)"
  shows "\<exists>m'. alloc_take heapp sz (heap_pages sz) (lastp (heap_header heapp) xs, wd (fst b), wd a) m = (wd (a + 8), m') \<and>
    path m' (heap_header heapp) (xs @ carve P a b @ ys) 0 \<and> m_w1 m' (heap_header heapp) = m_w1 m (heap_header heapp) \<and>
    H_HEAP m' (wd a) = heapp \<and> H_SIZE m' (wd a) = sz \<and> heap_frame heapp (free_bytes (xs @ b # ys)) m m'"
proof -
  let ?hdr = "heap_header heapp"
  note s = alloc_setup[OF ok A fit a P]
  have lt: "a < 2 ^ 32" "fst b < 2 ^ 32" using s(3-5) by simp_all
  then have less: "wd (fst b) < wd a \<longleftrightarrow> fst b < a" by (simp add: word_less_nat_alt)
  define m' where m': "m' = set_w0 (wd a) heapp (set_w1 (wd a) sz (if fst b < a then alloc_split (heap_pages sz) (wd (fst b)) (wd a) m
      else alloc_head (heap_pages sz) (lastp ?hdr xs) (wd a) m))"
  have "alloc_take heapp sz (heap_pages sz) (lastp ?hdr xs, wd (fst b), wd a) m = (wd (a + 8), m')"
    using s(3) by (auto simp: alloc_take_def less m' H_BLOCK_def wd_arith Let_def)
  moreover have "path m' ?hdr (xs @ carve P a b @ ys) 0 \<and> m_w1 m' ?hdr = m_w1 m ?hdr \<and> heap_frame heapp (free_bytes (xs @ b # ys)) m m'"
  proof (cases "fst b < a")
    case True
    have m1: "m' = set_w0 (wd a) heapp (set_w1 (wd a) sz (alloc_split (heap_pages sz) (wd (fst b)) (wd a) m))"
      using True by (simp add: m')
    note r = alloc_split_ok[OF ok A fit a P True m1]
    then show ?thesis using s(9) unfolding heap_frame_def outside_def by simp
  next
    case False
    then have eq: "a = fst b" using s(3) by simp
    have m1: "m' = set_w0 (wd a) heapp (set_w1 (wd a) sz (alloc_head (heap_pages sz) (lastp ?hdr xs) (wd a) m))"
      using False by (simp add: m')
    note r = alloc_head_ok[OF ok A fit a P eq m1]
    have "n \<noteq> lastp ?hdr xs" if "n \<noteq> ?hdr" "unat n \<notin> free_bytes (xs @ b # ys)" for n
      by (rule pred_free) (use s(10) that in auto)
    then have "heap_frame heapp (free_bytes (xs @ b # ys)) m m'"
      using r(2) unfolding heap_frame_def outside_def by simp
    with r s(9) show ?thesis by (simp add: outside_def)
  qed
  ultimately show ?thesis by (auto simp: m' H_HEAP_def H_SIZE_def)
qed

lemma heap_alloc_ok:
  assumes ok: "heap_ok m heapp bs" and A: "heap_align align" and fit: "\<exists>b \<in> set bs. fits (unat align) (unat (heap_pages sz)) b"
  shows "\<exists>a m' bs'. heap_alloc heapp sz align m = Inr (Some (wd (a + 8)), m') \<and> heap_ok m' heapp bs' \<and>
    b_bytes (a, unat (heap_pages sz)) \<subseteq> free_bytes bs \<and>
    free_bytes bs' = free_bytes bs - b_bytes (a, unat (heap_pages sz)) \<and>
    block_ok (a, unat (heap_pages sz)) \<and> apart (heap_header heapp) (a, unat (heap_pages sz)) \<and> unat align dvd a + 8 \<and>
    H_HEAP m' (wd a) = heapp \<and> H_SIZE m' (wd a) = sz \<and> heap_frame heapp (free_bytes bs) m m'"
proof -
  define P where P: "P = unat (heap_pages sz)"
  let ?hdr = "heap_header heapp"
  obtain xs b ys where bs: "bs = xs @ b # ys" "\<forall>x \<in> set xs. \<not> fits (unat align) P x" "fits (unat align) P b"
    using fits_first[OF fit] unfolding P by blast
  define a where a: "a = area (unat align) b"
  note s = alloc_setup[OF ok[unfolded bs] A bs(3)[unfolded P] a P]
  have hok: "blocks_ok bs" "path m ?hdr bs 0" "H_PAGES m ?hdr = 0" "unat ?hdr + 8 < 2 ^ 32" "\<forall>b \<in> set bs. apart ?hdr b"
    using ok by (simp_all add: heap_ok_def)
  have hit: "alloc_loop m (heap_pages sz) align ?hdr = Some (Some (lastp ?hdr xs, wd (fst b), wd a))"
    using alloc_loop_ok(2)[OF hok(2) _ A bs(1), of "heap_pages sz"] blocks_ok_member[OF hok(1)] bs(2,3) by (simp add: P a)
  obtain m' where m': "alloc_take heapp sz (heap_pages sz) (lastp ?hdr xs, wd (fst b), wd a) m = (wd (a + 8), m')"
      "path m' ?hdr (xs @ carve P a b @ ys) 0" "m_w1 m' ?hdr = m_w1 m ?hdr" "H_HEAP m' (wd a) = heapp" "H_SIZE m' (wd a) = sz"
      "heap_frame heapp (free_bytes bs) m m'"
    using alloc_take_ok[OF ok[unfolded bs] A bs(3)[unfolded P] a P] unfolding bs(1) by blast
  note c = carve_list[OF hok(1)[unfolded bs(1)] s(2-4)] and k = carve_ok[OF s(1-4)]
  have "apart ?hdr b" using hok(5) bs(1) by simp
  then have "\<forall>c \<in> set (carve P a b). apart ?hdr c" and ap: "apart ?hdr (a, P)"
    using k(5) s(3,4) apart_sub[of ?hdr b] by (blast, simp add: b_end_def)
  then have "\<forall>c \<in> set (xs @ carve P a b @ ys). apart ?hdr c" using hok(5) bs(1) by auto
  then have "heap_ok m' heapp (xs @ carve P a b @ ys)"
    using m'(2,3) c(1) hok(3,4) by (simp add: heap_ok_def H_PAGES_def)
  moreover have "heap_alloc heapp sz align m = Inr (Some (wd (a + 8)), m')"
    using hit m'(1) by (simp add: heap_alloc_def)
  moreover have "unat align dvd a + 8" unfolding a by (rule area_bounds(3)[OF _ A]) (use s(1) in \<open>simp add: block_ok_def\<close>)
  ultimately show ?thesis
    using c(2,3) k(4) m'(4-6) ap unfolding P[symmetric] bs(1)[symmetric] by blast
qed

section \<open>Freeing\<close>

text \<open>The block joins the next one when they are adjacent.\<close>

definition join_next :: "block \<Rightarrow> block list \<Rightarrow> block list" where
  "join_next c ys =
     (case ys of
        [] \<Rightarrow> [c]
      | y # ys' \<Rightarrow> if b_end c = fst y then (fst c, snd c + (snd y + 1)) # ys' else c # ys)"

lemma join_next_ok:
  assumes "block_ok c" "blocks_ok ys" "\<forall>y \<in> set ys. b_end c \<le> fst y"
  shows "blocks_ok (join_next c ys)" "free_bytes (join_next c ys) = b_bytes c \<union> free_bytes ys"
    "\<forall>b \<in> set (join_next c ys). fst c \<le> fst b" "\<forall>b \<in> set (join_next c ys). b \<noteq> hd (join_next c ys) \<longrightarrow> b \<in> set ys"
    "apart hdr c \<Longrightarrow> \<forall>y \<in> set ys. apart hdr y \<Longrightarrow> \<forall>b \<in> set (join_next c ys). apart hdr b"
proof -
  have c: "fst c < b_end c" by (simp add: b_end_def)
  have "blocks_ok (join_next c ys) \<and> free_bytes (join_next c ys) = b_bytes c \<union> free_bytes ys \<and>
    (\<forall>b \<in> set (join_next c ys). fst c \<le> fst b) \<and> (\<forall>b \<in> set (join_next c ys). b \<noteq> hd (join_next c ys) \<longrightarrow> b \<in> set ys) \<and>
    (apart hdr c \<longrightarrow> (\<forall>y \<in> set ys. apart hdr y) \<longrightarrow> (\<forall>b \<in> set (join_next c ys). apart hdr b))"
  proof (cases ys)
    case Nil
    with assms show ?thesis by (simp add: join_next_def)
  next
    case (Cons y ys')
    have y: "block_ok y" "blocks_ok ys'" "\<forall>b \<in> set ys'. b_end y < fst b" "b_end c \<le> fst y" "fst y < b_end y"
      using assms(2,3) Cons by (simp_all add: blocks_ok_Cons) (simp add: b_end_def)
    show ?thesis
    proof (cases "b_end c = fst y")
      case True
      let ?d = "(fst c, snd c + (snd y + 1))"
      have d: "b_end ?d = b_end y" using True by (simp add: b_end_def)
      have "block_ok ?d" using assms(1) y(1) d by (simp add: block_ok_def)
      moreover have "b_bytes ?d = b_bytes c \<union> b_bytes y" using True d c y(5) by (auto simp: b_bytes_first(3))
      moreover have "apart hdr ?d" if "apart hdr c" "apart hdr y" using that True d by (auto simp: apart_def)
      moreover have "fst c \<le> fst b" if "b \<in> set ys'" for b using y(3,5) c True that by fastforce
      ultimately show ?thesis using Cons True y(2,3) d by (auto simp: join_next_def blocks_ok_Cons)
    next
      case False
      have "fst c \<le> fst b" if "b \<in> set ys" for b using assms(3) c that by fastforce
      moreover have "b_end c < fst b" if "b \<in> set ys" for b using False y(3-5) that Cons by fastforce
      ultimately show ?thesis using Cons False assms(1,2) by (simp add: join_next_def blocks_ok_Cons)
    qed
  qed
  then show "blocks_ok (join_next c ys)" "free_bytes (join_next c ys) = b_bytes c \<union> free_bytes ys"
    "\<forall>b \<in> set (join_next c ys). fst c \<le> fst b" "\<forall>b \<in> set (join_next c ys). b \<noteq> hd (join_next c ys) \<longrightarrow> b \<in> set ys"
    "apart hdr c \<Longrightarrow> \<forall>y \<in> set ys. apart hdr y \<Longrightarrow> \<forall>b \<in> set (join_next c ys). apart hdr b"
    by blast+
qed

lemma merge_next_ok:
  assumes p: "path m p (xs @ c # ys) 0" and d: "distinct (p # map (\<lambda>b. wd (fst b)) (xs @ c # ys))"
    and ok: "block_ok c" "\<forall>y \<in> set ys. block_ok y"
  shows "path (merge_next (wd (fst c)) m) p (xs @ join_next c ys) 0"
    "\<forall>n. n \<noteq> wd (fst c) \<longrightarrow> m_w0 (merge_next (wd (fst c)) m) n = m_w0 m n \<and> m_w1 (merge_next (wd (fst c)) m) n = m_w1 m n"
proof -
  let ?c = "wd (fst c)" and ?m = "merge_next (wd (fst c)) m"
  have s: "path m p xs ?c" "H_PAGES m ?c = wd (snd c)" "path m ?c ys 0" using p by (simp_all add: path_append)
  note l = limit_wd[OF ok(1) s(2)]
  show fr: "\<forall>n. n \<noteq> ?c \<longrightarrow> m_w0 ?m n = m_w0 m n \<and> m_w1 ?m n = m_w1 m n"
    by (simp add: merge_next_def Let_def)
  have xs: "path ?m p xs ?c"
  proof -
    have "?c \<notin> insert p (nodes xs)" using d by auto
    then have ne: "n \<noteq> ?c" if "n \<in> insert p (nodes xs)" for n using that by metis
    have "m_w0 ?m n = m_w0 m n \<and> m_w1 ?m n = m_w1 m n" if "n \<in> insert p (nodes xs)" for n
      by (rule fr[rule_format, OF ne[OF that]])
    then show ?thesis using path_cong[of ?m p m p xs ?c] s(1) by simp
  qed
  show "path ?m p (xs @ join_next c ys) 0"
  proof (cases ys)
    case Nil
    have "wd (b_end c) \<noteq> 0" using ok(1) wd_inj[of "b_end c" 0] by (auto simp: block_ok_def b_end_def wd_arith)
    then have "?m = m" using s(3) Nil l(1) by (simp add: merge_next_def)
    then show ?thesis using p Nil by (simp add: join_next_def)
  next
    case (Cons y ys')
    have y: "H_NEXT m ?c = wd (fst y)" "H_PAGES m (wd (fst y)) = wd (snd y)" "path m (wd (fst y)) ys' 0"
      using s(3) Cons by simp_all
    have ny: "wd (fst y) \<noteq> ?c" "?c \<notin> nodes ys'" using d Cons by auto
    have eq: "H_LIMIT m ?c = H_NEXT m ?c \<longleftrightarrow> b_end c = fst y"
      using wd_inj[of "b_end c" "fst y"] ok Cons block_lt[of y] by (simp add: l(1) y(1) block_ok_def)
    show ?thesis
    proof (cases "b_end c = fst y")
      case True
      have h: "H_NEXT ?m ?c = H_NEXT m (wd (fst y))" "H_PAGES ?m ?c = wd (snd c + (snd y + 1))"
        using True eq s(2) y(1,2) by (simp_all add: merge_next_def Let_def H_NEXT_def H_PAGES_def wd_arith)
      have "m_w0 ?m n = m_w0 m n \<and> m_w1 ?m n = m_w1 m n" if "n \<in> nodes ys'" for n
        using ny(2) that by (intro fr[rule_format]) metis
      then have "path ?m ?c ([] @ ys') 0"
        using h(1) by (intro path_join[OF _ y(3)]) simp_all
      then show ?thesis using xs h(2) True Cons by (simp add: join_next_def path_append)
    next
      case False
      then have "?m = m" using eq by (simp add: merge_next_def)
      then show ?thesis using p False Cons by (simp add: join_next_def)
    qed
  qed
qed

lemma merge_prev_next: "H_NEXT m qp = hp \<Longrightarrow> merge_prev qp hp m = merge_next qp m"
  by (simp add: merge_prev_def merge_next_def Let_def H_NEXT_def)

lemma free_loop_ok:
  assumes "path m qp (xs @ ys) 0" "\<forall>x \<in> set xs. block_ok x \<and> b_end x \<le> a" "\<forall>y \<in> set ys. block_ok y \<and> a < fst y" "a < 2 ^ 32"
    "wd a < qp \<or> wd a \<ge> H_LIMIT m qp" "qp = hdr \<or> wd a > qp"
  shows "free_loop m hdr (wd a) qp = Some (Inr (lastp qp xs))"
  using assms
proof (induction xs arbitrary: qp)
  case Nil
  have "H_NEXT m qp = 0 \<or> wd a < H_NEXT m qp"
    using Nil.prems(1,3,4) block_lt by (cases ys) (auto simp: word_less_nat_alt)
  then show ?case using Nil.prems(5,6) by (subst free_loop.simps) simp
next
  case (Cons x xs)
  have x: "block_ok x" "b_end x \<le> a" "H_NEXT m qp = wd (fst x)" "H_PAGES m (wd (fst x)) = wd (snd x)" "path m (wd (fst x)) (xs @ ys) 0"
    using Cons.prems(1,2) by simp_all
  have lt: "fst x < a" "fst x < 2 ^ 32" "0 < fst x" using x(1,2) block_lt[OF x(1)] by (auto simp: b_end_def block_ok_def)
  have "wd (fst x) \<noteq> 0" using lt wd_inj[of "fst x" 0] by (simp add: wd_arith)
  moreover have "\<not> wd a < wd (fst x)" using lt Cons.prems(4) by (simp add: word_less_nat_alt)
  ultimately have "free_loop m hdr (wd a) qp = free_loop m hdr (wd a) (wd (fst x))"
    using Cons.prems(5) x(3) by (subst free_loop.simps) simp
  also have "\<dots> = Some (Inr (lastp (wd (fst x)) xs))"
    by (rule Cons.IH[OF x(5)])
      (use Cons.prems limit_wd(2)[OF x(1,4)] x(2) lt in \<open>auto simp: word_le_nat_alt word_less_nat_alt\<close>)
  finally show ?case by simp
qed

text \<open>A block that overlaps no free one has its place in the list.\<close>

lemma free_place:
  assumes "blocks_ok bs" "b_bytes c \<inter> free_bytes bs = {}"
  shows "\<exists>xs ys. bs = xs @ ys \<and> (\<forall>x \<in> set xs. b_end x \<le> fst c) \<and> (\<forall>y \<in> set ys. b_end c \<le> fst y)"
proof -
  have c: "fst c < b_end c" by (simp add: b_end_def)
  have side: "b_end b \<le> fst c \<or> b_end c \<le> fst b" if "b \<in> set bs" for b
  proof (rule ccontr)
    assume n: "\<not> (b_end b \<le> fst c \<or> b_end c \<le> fst b)"
    have "max (fst b) (fst c) \<in> b_bytes b \<inter> b_bytes c" using n c by (auto simp: b_bytes_first(3) b_end_def)
    then show False using assms(2) that by (auto simp: free_bytes_def)
  qed
  let ?P = "\<lambda>b. b_end b \<le> fst c"
  have "b_end c \<le> fst y" if y: "y \<in> set (dropWhile ?P bs)" for y
  proof -
    obtain d ds where d: "dropWhile ?P bs = d # ds" using y by (cases "dropWhile ?P bs") auto
    have ok: "blocks_ok (d # ds)"
      using assms(1) takeWhile_dropWhile_id[of ?P bs] unfolding d[symmetric] by (metis blocks_ok_append)
    have "d \<in> set bs" using d set_dropWhileD[of d ?P bs] by simp
    then have "b_end c \<le> fst d" using side[of d] hd_dropWhile[of ?P bs] d by auto
    moreover have "fst d \<le> fst y"
      using y ok unfolding d by (auto simp: blocks_ok_Cons b_end_def)
    ultimately show ?thesis by simp
  qed
  moreover have "b_end x \<le> fst c" if "x \<in> set (takeWhile ?P bs)" for x
    using set_takeWhileD[OF that] by simp
  ultimately show ?thesis
    by (intro exI[of _ "takeWhile ?P bs"] exI[of _ "dropWhile ?P bs"]) simp
qed

text \<open>The list after the insertion, before any merging.\<close>

lemma free_insert_ok:
  assumes ok: "heap_ok m heapp (xs @ ys)" and c: "block_ok c" "apart (heap_header heapp) c" "H_PAGES m (wd (fst c)) = wd (snd c)"
    and place: "\<forall>x \<in> set xs. b_end x \<le> fst c" "\<forall>y \<in> set ys. b_end c \<le> fst y"
    and m1: "m1 = free_insert (lastp (heap_header heapp) xs) (wd (fst c)) m"
  shows "path m1 (heap_header heapp) (xs @ c # ys) 0"
    "distinct (heap_header heapp # map (\<lambda>b. wd (fst b)) (xs @ c # ys))"
    "m_w1 m1 = m_w1 m" "\<forall>n. n \<noteq> wd (fst c) \<longrightarrow> n \<noteq> lastp (heap_header heapp) xs \<longrightarrow> m_w0 m1 n = m_w0 m n"
proof -
  let ?hdr = "heap_header heapp" and ?hp = "wd (fst c)"
  let ?qp = "lastp ?hdr xs"
  have h: "blocks_ok (xs @ ys)" "path m ?hdr (xs @ ys) 0" using ok by (simp_all add: heap_ok_def)
  have d: "distinct (?hdr # map (\<lambda>b. wd (fst b)) (xs @ ys))" by (rule heap_nodes_distinct[OF ok])
  have new: "?hp \<noteq> wd (fst b)" if "b \<in> set (xs @ ys)" for b
  proof -
    have "fst b < 2 ^ 32" "fst c < 2 ^ 32" using blocks_ok_member[OF h(1) that] block_lt c(1) by blast+
    moreover have "fst c \<noteq> fst b" using that place by (auto simp: b_end_def)
    ultimately show ?thesis by (simp add: wd_inj)
  qed
  have nh: "?hp \<noteq> ?hdr" by (rule apart_header[OF c(2,1)])
  show d1: "distinct (?hdr # map (\<lambda>b. wd (fst b)) (xs @ c # ys))" using d new nh by auto
  obtain r where r: "path m ?hdr xs r" using h(2) by (auto simp: path_split)
  have qn: "H_NEXT m ?qp = r" by (rule path_last[OF r])
  have qh: "?qp \<noteq> ?hp"
  proof -
    consider "?qp = ?hdr" | x where "x \<in> set (xs @ ys)" "?qp = wd (fst x)" using lastp_in[of ?hdr xs] by auto
    then show ?thesis by cases (use nh new in metis)+
  qed
  let ?m0 = "set_w0 ?hp r m"
  have m1': "m1 = set_w0 ?qp ?hp ?m0" by (simp add: m1 free_insert_def qn)
  have agree: "m_w0 ?m0 n = m_w0 m n \<and> m_w1 ?m0 n = m_w1 m n" if "n \<noteq> ?hp" for n using that by simp
  have "\<forall>x \<in> set xs. wd (fst x) \<noteq> ?hp"
  proof
    fix x assume "x \<in> set xs"
    then have "?hp \<noteq> wd (fst x)" by (intro new) simp
    then show "wd (fst x) \<noteq> ?hp" by metis
  qed
  then have "path ?m0 ?hdr xs r"
    using path_cong[of ?m0 ?hdr m ?hdr xs r] r nh by simp
  then have xs: "path m1 ?hdr xs ?hp"
    unfolding m1' by (rule path_redirect) (use d in simp)
  have "path m ?qp ys 0"
  proof (cases ys)
    case Nil
    then show ?thesis using h(2) path_last by simp
  next
    case (Cons y ys')
    have "path m ?hdr xs (wd (fst y))" using h(2) Cons by (simp add: path_append)
    from path_last[OF this] show ?thesis using h(2) Cons by (simp add: path_append)
  qed
  moreover have "\<forall>n \<in> nodes ys. m_w0 m1 n = m_w0 m n \<and> m_w1 m1 n = m_w1 m n"
  proof
    fix n assume n: "n \<in> nodes ys"
    have "?hdr \<notin> nodes ys" "nodes xs \<inter> nodes ys = {}" using d by force+
    then have "n \<noteq> ?qp" using lastp_in[of ?hdr xs] n by (metis Int_iff empty_iff insert_iff)
    moreover have "n \<noteq> ?hp"
    proof -
      obtain y where "y \<in> set (xs @ ys)" "n = wd (fst y)" using n by auto
      then show ?thesis using new[of y] by metis
    qed
    ultimately show "m_w0 m1 n = m_w0 m n \<and> m_w1 m1 n = m_w1 m n" unfolding m1' by simp
  qed
  moreover have "H_NEXT m1 ?hp = H_NEXT m ?qp" using qh qn by (simp add: m1' H_NEXT_def)
  ultimately have "path m1 ?hp ([] @ ys) 0" by (intro path_join[of m1 ?hp "[]" m ?qp]) simp_all
  then show "path m1 ?hdr (xs @ c # ys) 0" using xs c(3) by (simp add: path_append m1' H_PAGES_def)
  show "m_w1 m1 = m_w1 m" "\<forall>n. n \<noteq> ?hp \<longrightarrow> n \<noteq> ?qp \<longrightarrow> m_w0 m1 n = m_w0 m n" by (simp_all add: m1')
qed

lemma join_next_distinct:
  "distinct (p # map (\<lambda>b. wd (fst b)) (xs @ c # ys)) \<Longrightarrow> distinct (p # map (\<lambda>b. wd (fst b)) (xs @ join_next c ys))"
  by (cases ys) (auto simp: join_next_def)

lemma join_next_head: "\<exists>d ds. join_next c ys = d # ds \<and> fst d = fst c"
  by (cases ys; cases c) (auto simp: join_next_def)

lemma merge_prev_ok:
  assumes p: "path m hdr (xs @ join_next c ys) 0" and d: "distinct (hdr # map (\<lambda>b. wd (fst b)) (xs @ join_next c ys))"
    and ok: "\<forall>x \<in> set xs. block_ok x" "\<forall>y \<in> set (join_next c ys). block_ok y" and c: "block_ok c" "apart hdr c"
    and hdr: "H_PAGES m hdr = 0" "unat hdr + 8 < 2 ^ 32"
  shows "path (merge_prev (lastp hdr xs) (wd (fst c)) m) hdr
      (if xs = [] then join_next c ys else butlast xs @ join_next (last xs) (join_next c ys)) 0"
    "\<forall>n. n \<noteq> lastp hdr xs \<longrightarrow> m_w0 (merge_prev (lastp hdr xs) (wd (fst c)) m) n = m_w0 m n \<and>
       m_w1 (merge_prev (lastp hdr xs) (wd (fst c)) m) n = m_w1 m n"
    "m_w1 (merge_prev (lastp hdr xs) (wd (fst c)) m) hdr = m_w1 m hdr"
proof -
  let ?m = "merge_prev (lastp hdr xs) (wd (fst c)) m"
  obtain e es where e: "join_next c ys = e # es" "fst e = fst c" using join_next_head by blast
  show fr: "\<forall>n. n \<noteq> lastp hdr xs \<longrightarrow> m_w0 ?m n = m_w0 m n \<and> m_w1 ?m n = m_w1 m n"
    by (simp add: merge_prev_def Let_def)
  have "path ?m hdr (if xs = [] then join_next c ys else butlast xs @ join_next (last xs) (join_next c ys)) 0 \<and>
      m_w1 ?m hdr = m_w1 m hdr"
  proof (cases xs rule: rev_cases)
    case Nil
    have "unat (H_LIMIT m hdr) = unat hdr + 8" using hdr by (simp add: H_LIMIT_def H_BLOCK_def unat_plus_if')
    moreover have "fst c \<noteq> unat hdr + 8" using c(2) by (auto simp: apart_def b_end_def)
    ultimately have "H_LIMIT m hdr \<noteq> wd (fst c)" using block_lt[OF c(1)] by auto
    then have "?m = m" using Nil by (simp add: merge_prev_def)
    then show ?thesis using p Nil by simp
  next
    case (snoc xs' x)
    have qp: "lastp hdr xs = wd (fst x)" by (simp add: snoc lastp_def)
    have "H_NEXT m (wd (fst x)) = wd (fst c)" using p e by (simp add: snoc path_append)
    then have m: "?m = merge_next (wd (fst x)) m" by (simp add: qp merge_prev_next)
    have px: "path m hdr (xs' @ x # join_next c ys) 0" "distinct (hdr # map (\<lambda>b. wd (fst b)) (xs' @ x # join_next c ys))"
      using p d by (simp_all add: snoc)
    have "path ?m hdr (xs' @ join_next x (join_next c ys)) 0"
      unfolding m by (rule merge_next_ok(1)[OF px]) (use ok snoc in auto)
    moreover have "hdr \<noteq> wd (fst x)" using px(2) by auto
    then have "m_w1 ?m hdr = m_w1 m hdr" using fr by (simp add: qp)
    ultimately show ?thesis by (simp add: snoc)
  qed
  then show "path ?m hdr (if xs = [] then join_next c ys else butlast xs @ join_next (last xs) (join_next c ys)) 0"
    "m_w1 ?m hdr = m_w1 m hdr" by simp_all
qed

lemma merged_blocks:
  assumes xs: "blocks_ok xs" and j: "blocks_ok js" "\<forall>x \<in> set xs. \<forall>y \<in> set js. b_end x \<le> fst y"
    and ap: "\<forall>b \<in> set xs \<union> set js. apart hdr b"
    and L: "L = (if xs = [] then js else butlast xs @ join_next (last xs) js)"
  shows "blocks_ok L" "free_bytes L = free_bytes xs \<union> free_bytes js" "\<forall>b \<in> set L. apart hdr b"
proof -
  have "blocks_ok L \<and> free_bytes L = free_bytes xs \<union> free_bytes js \<and> (\<forall>b \<in> set L. apart hdr b)"
  proof (cases xs rule: rev_cases)
    case Nil
    then show ?thesis using assms by simp
  next
    case (snoc zs x)
    have x: "block_ok x" "blocks_ok zs" "\<forall>z \<in> set zs. b_end z < fst x" using xs by (auto simp: snoc blocks_ok_append)
    have nx: "\<forall>y \<in> set js. b_end x \<le> fst y" using j(2) by (simp add: snoc)
    note k = join_next_ok[OF x(1) j(1) nx]
    have "\<forall>z \<in> set zs. \<forall>b \<in> set (join_next x js). b_end z < fst b" using x(3) k(3) by fastforce
    moreover have "\<forall>b \<in> set (join_next x js). apart hdr b" using k(5)[of hdr] ap by (simp add: snoc)
    ultimately show ?thesis
      using k(1,2) x(2) ap by (auto simp: L snoc blocks_ok_append)
  qed
  then show "blocks_ok L" "free_bytes L = free_bytes xs \<union> free_bytes js" "\<forall>b \<in> set L. apart hdr b" by simp_all
qed

lemma heap_free_ok:
  assumes ok: "heap_ok m heapp bs" and c: "block_ok c" "apart (heap_header heapp) c" "H_PAGES m (wd (fst c)) = wd (snd c)"
    and used: "b_bytes c \<inter> free_bytes bs = {}"
  shows "\<exists>m' bs'. heap_free heapp (wd (fst c)) m = Inr m' \<and> heap_ok m' heapp bs' \<and>
    free_bytes bs' = free_bytes bs \<union> b_bytes c \<and> heap_frame heapp (free_bytes bs \<union> b_bytes c) m m'"
proof -
  let ?hdr = "heap_header heapp" and ?hp = "wd (fst c)"
  have h: "blocks_ok bs" "path m ?hdr bs 0" "H_PAGES m ?hdr = 0" "unat ?hdr + 8 < 2 ^ 32" "\<forall>b \<in> set bs. apart ?hdr b"
    using ok by (simp_all add: heap_ok_def)
  obtain xs ys where bs: "bs = xs @ ys" "\<forall>x \<in> set xs. b_end x \<le> fst c" "\<forall>y \<in> set ys. b_end c \<le> fst y"
    using free_place[OF h(1) used] by blast
  have bo: "\<forall>x \<in> set xs. block_ok x" "\<forall>y \<in> set ys. block_ok y" "blocks_ok xs" "blocks_ok ys"
    using blocks_ok_member[OF h(1)] h(1) by (auto simp: bs(1) blocks_ok_append)
  let ?qp = "lastp ?hdr xs"
  have lt: "fst c < 2 ^ 32" "fst c < b_end c" using block_lt[OF c(1)] by (simp_all add: b_end_def)
  have loop: "free_loop m ?hdr ?hp ?hdr = Some (Inr ?qp)"
  proof (rule free_loop_ok)
    have "unat (H_LIMIT m ?hdr) = unat ?hdr + 8" using h(3,4) by (simp add: H_LIMIT_def H_BLOCK_def unat_plus_if')
    then show "?hp < ?hdr \<or> ?hp \<ge> H_LIMIT m ?hdr"
      using c(2) lt by (auto simp: apart_def word_less_nat_alt word_le_nat_alt)
    show "\<forall>y \<in> set ys. block_ok y \<and> fst c < fst y" using bs(3) bo(2) lt(2) by fastforce
  qed (use h(2) bs bo(1) lt in auto)
  define m1 where m1: "m1 = free_insert ?qp ?hp m"
  define m2 where m2: "m2 = merge_next ?hp m1"
  define m3 where m3: "m3 = merge_prev ?qp ?hp m2"
  note r1 = free_insert_ok[OF ok[unfolded bs(1)] c bs(2,3) m1]
  note r2 = merge_next_ok[OF r1(1,2) c(1) bo(2), folded m2]
  have jn: "blocks_ok (join_next c ys)" "free_bytes (join_next c ys) = b_bytes c \<union> free_bytes ys"
      "\<forall>b \<in> set (join_next c ys). fst c \<le> fst b" "\<forall>b \<in> set (join_next c ys). apart ?hdr b"
    using join_next_ok[OF c(1) bo(4) bs(3)] c(2) h(5) bs(1) by simp_all
  have hp: "?hp \<noteq> ?hdr" by (rule apart_header[OF c(2,1)])
  have pg: "m_w1 m2 ?hdr = m_w1 m ?hdr" using r2(2) r1(3) hp by metis
  note r3 = merge_prev_ok[OF r2(1) join_next_distinct[OF r1(2)] bo(1) _ c(1,2) _ h(4), folded m3]
  have r3': "path m3 ?hdr (if xs = [] then join_next c ys else butlast xs @ join_next (last xs) (join_next c ys)) 0"
      "\<forall>n. n \<noteq> ?qp \<longrightarrow> m_w0 m3 n = m_w0 m2 n \<and> m_w1 m3 n = m_w1 m2 n" "m_w1 m3 ?hdr = m_w1 m2 ?hdr"
    using r3 blocks_ok_member[OF jn(1)] pg h(3) by (simp_all add: H_PAGES_def)
  define L where L: "L = (if xs = [] then join_next c ys else butlast xs @ join_next (last xs) (join_next c ys))"
  have apx: "\<forall>b \<in> set xs \<union> set (join_next c ys). apart ?hdr b" using h(5) bs(1) jn(4) by auto
  have gap: "\<forall>x \<in> set xs. \<forall>y \<in> set (join_next c ys). b_end x \<le> fst y" using bs(2) jn(3) by fastforce
  note mb = merged_blocks[OF bo(3) jn(1) gap apx L]
  have "heap_ok m3 heapp L"
    using mb(1,3) r3'(1,3) pg h(3,4) by (simp add: heap_ok_def L H_PAGES_def)
  moreover have "heap_free heapp ?hp m = Inr m3"
    by (simp add: heap_free_def loop m1 m2 m3)
  moreover have "free_bytes L = free_bytes bs \<union> b_bytes c" using mb(2) jn(2) bs(1) by auto
  moreover have "heap_frame heapp (free_bytes bs \<union> b_bytes c) m m3"
    unfolding heap_frame_def
  proof (intro allI impI)
    fix n assume n: "n \<noteq> ?hdr" "unat n \<notin> free_bytes bs \<union> b_bytes c"
    have "n \<noteq> ?hp" using n(2) b_bytes_first(1)[of c] lt(1) by auto
    moreover have "n \<noteq> ?qp" by (rule pred_free[OF _ n(1)]) (use bo(1) block_lt n(2) bs(1) in auto)
    ultimately show "m_w0 m3 n = m_w0 m n \<and> m_w1 m3 n = m_w1 m n"
      using r3'(2) r2(2) r1(3,4) by simp
  qed
  ultimately show ?thesis by blast
qed

section \<open>The whole operations\<close>

lemma lock_unlock:
  assumes "mowner k m = None" "mqueue k m = []"
  shows "\<exists>k1. chMtxLock m k = Inr k1 \<and> chMtxUnlock m k1 = Inr k"
proof -
  let ?c = "k_cur k"
  let ?k1 = "upd_thr ?c (\<lambda>t. t\<lparr>t_mtxlist := m # t_mtxlist t\<rparr>) (upd_mtx m (\<lambda>mx. mx\<lparr>m_owner := Some ?c\<rparr>) k)"
  have "chMtxLock m k = Inr ?k1" using assms(1) by (simp add: chMtxLock_def chMtxLockS_def Let_def)
  moreover have "chMtxUnlock m ?k1 = Inr k"
  proof -
    have "mtx_checks m ?k1 = Inr (mtxlist k ?c)" by (simp add: mtx_checks_def Let_def upd_thr_def upd_mtx_def)
    then have "chMtxUnlock m ?k1 = Inr (upd_mtx m (\<lambda>mx. mx\<lparr>m_owner := None\<rparr>)
        (upd_thr ?c (\<lambda>t. t\<lparr>t_mtxlist := mtxlist k ?c\<rparr>) ?k1))"
      using assms(2) by (simp add: chMtxUnlock_def Let_def upd_thr_def upd_mtx_def)
    also have "upd_mtx m (\<lambda>mx. mx\<lparr>m_owner := None\<rparr>) (upd_thr ?c (\<lambda>t. t\<lparr>t_mtxlist := mtxlist k ?c\<rparr>) ?k1) = k"
    proof -
      have "k_mtx k m\<lparr>m_owner := None\<rparr> = k_mtx k m" using assms(1) by (cases "k_mtx k m") simp
      then show ?thesis by (simp add: upd_thr_def upd_mtx_def)
    qed
    finally show ?thesis .
  qed
  ultimately show ?thesis by blast
qed

lemma heap_pages_enough:
  assumes "unat sz \<le> 2 ^ 32 - 8"
  shows "unat sz \<le> 8 * unat (heap_pages sz)" "8 * unat (heap_pages sz) < unat sz + 8"
proof -
  have v: "MEM_IS_VALID_ALIGNMENT 8" by (simp add: MEM_IS_VALID_ALIGNMENT_def)
  have "unat (MEM_ALIGN_NEXT sz 8) = (unat sz + 7) div 8 * 8"
    using unat_align_next[OF v, of sz] assms by simp
  then have "unat (heap_pages sz) = (unat sz + 7) div 8"
    by (simp add: heap_pages_def CH_HEAP_ALIGNMENT_def unat_div)
  then show "unat sz \<le> 8 * unat (heap_pages sz)" "8 * unat (heap_pages sz) < unat sz + 8" by simp_all
qed

text \<open>The number of pages of a size within 7 bytes of the whole address space is 0.\<close>

lemma heap_pages_wraps:
  assumes "sz > 0xFFFFFFF8"
  shows "heap_pages sz = 0"
proof -
  have v: "MEM_IS_VALID_ALIGNMENT 8" by (simp add: MEM_IS_VALID_ALIGNMENT_def)
  have s: "unat sz > 0xFFFFFFF8" using assms by (simp add: word_less_nat_alt)
  have "unat sz < 2 ^ 32" using unsigned_less[of sz] by simp
  then have "unat (sz + MEM_ALIGN_MASK 8) < 8" using s by (simp add: MEM_ALIGN_MASK_def unat_plus_if')
  then have "unat (MEM_ALIGN_NEXT sz 8) = 0"
    unfolding MEM_ALIGN_NEXT_def unat_align_prev[OF v] by simp
  then have "MEM_ALIGN_NEXT sz 8 = 0" by (simp add: unat_eq_zero)
  then show ?thesis by (simp add: heap_pages_def CH_HEAP_ALIGNMENT_def)
qed

text \<open>A block of any size has room for no page.\<close>

lemma fits_no_page:
  assumes "block_ok b"
  shows "fits 8 0 b"
proof -
  obtain i where "fst b = 8 * i" using assms by (auto simp: block_ok_def)
  then show ?thesis by (simp add: fits_def area_def b_end_def)
qed

definition eff_align :: "u32 \<Rightarrow> u32" where
  "eff_align align = (if align < CH_HEAP_ALIGNMENT then CH_HEAP_ALIGNMENT else align)"

lemma eff_align_ok:
  assumes "MEM_IS_VALID_ALIGNMENT align"
  shows "heap_align (eff_align align)" "unat align dvd unat (eff_align align)"
proof -
  have v: "MEM_IS_VALID_ALIGNMENT 8" by (simp add: MEM_IS_VALID_ALIGNMENT_def)
  show "heap_align (eff_align align)"
    using assms v by (simp add: heap_align_def eff_align_def CH_HEAP_ALIGNMENT_def not_less)
  show "unat align dvd unat (eff_align align)"
  proof (cases "align < 8")
    case True
    obtain i where i: "unat align = 2 ^ i" using assms valid_alignment by metis
    have "unat align < 8" using True by (simp add: word_less_nat_alt)
    then have "(2::nat) ^ i < 2 ^ 3" using i by simp
    then have "i < 3" by (rule power_less_imp_less_exp[rotated]) simp
    then have "i \<le> 3" by simp
    then have "(2::nat) ^ i dvd 2 ^ 3" by (rule le_imp_power_dvd)
    then show ?thesis using True i by (simp add: eff_align_def CH_HEAP_ALIGNMENT_def)
  qed (simp add: eff_align_def CH_HEAP_ALIGNMENT_def)
qed

lemma chHeapAllocAligned_free_mutex:
  assumes "mowner k (hs_mtx s h) = None" "mqueue k (hs_mtx s h) = []" "h = heap_of heapp s" "0 < sz" "MEM_IS_VALID_ALIGNMENT align"
    "heap_alloc h sz (eff_align align) (hs_mem s) = Inr (Some p, m)"
  shows "chHeapAllocAligned heapp sz align s k = Inr (Some p, s\<lparr>hs_mem := m\<rparr>, k)"
proof -
  obtain k1 where "chMtxLock (hs_mtx s h) k = Inr k1" "chMtxUnlock (hs_mtx s h) k1 = Inr k"
    using lock_unlock[OF assms(1,2)] by blast
  then show ?thesis
    using assms(1,4-6) unfolding chHeapAllocAligned_def chHeapAllocAligned_resume_def eff_align_def Let_def assms(3)[symmetric]
    by simp
qed

lemma chHeapFree_free_mutex:
  assumes "mowner k (hs_mtx s h) = None" "mqueue k (hs_mtx s h) = []" "h = H_HEAP (hs_mem s) (p - 8)" "p \<noteq> 0" "MEM_IS_ALIGNED p 8"
    "heap_free h (p - 8) (set_w1 (p - 8) (heap_pages (H_SIZE (hs_mem s) (p - 8))) (hs_mem s)) = Inr m"
  shows "chHeapFree p s k = Inr (Some (), s\<lparr>hs_mem := m\<rparr>, k)"
proof -
  obtain k1 where "chMtxLock (hs_mtx s h) k = Inr k1" "chMtxUnlock (hs_mtx s h) k1 = Inr k"
    using lock_unlock[OF assms(1,2)] by blast
  then show ?thesis
    using assms(1,4-6) unfolding chHeapFree_def chHeapFree_resume_def Let_def assms(3)[symmetric] CH_HEAP_ALIGNMENT_def
    by (simp add: assms(3)[symmetric])
qed

lemma heap_ok_used:
  assumes ok: "heap_ok m heapp bs" and n: "unat n \<notin> free_bytes bs" "n \<noteq> heap_header heapp"
  shows "heap_ok (set_w1 n v m) heapp bs"
proof -
  have bo: "blocks_ok bs" "path m (heap_header heapp) bs 0" using ok by (simp_all add: heap_ok_def)
  have "wd (fst b) \<noteq> n" if "b \<in> set bs" for b
    using n(1) free_bytes_node[OF that] unat_wd[OF conjunct1[OF block_lt[OF blocks_ok_member[OF bo(1) that]]]] by auto
  then have "path (set_w1 n v m) (heap_header heapp) bs 0"
    using path_cong[of "set_w1 n v m" "heap_header heapp" m "heap_header heapp" bs 0] bo(2) by simp
  then show ?thesis using ok n(2) by (simp add: heap_ok_def H_PAGES_def)
qed

text \<open>The bytes an object takes, with its header.\<close>

definition heap_area :: "mem_t \<Rightarrow> u32 \<Rightarrow> nat set" where
  "heap_area m p = {unat p - 8..<unat p + 8 * unat (heap_pages (chHeapGetSize p m))}"

text \<open>An allocation, and the deallocation that undoes it.\<close>

lemma heap_alloc_call:
  assumes ok: "heap_ok (hs_mem s) h bs" "h = heap_of heapp s" and mtx: "mowner k (hs_mtx s h) = None" "mqueue k (hs_mtx s h) = []"
    and arg: "0 < sz" "MEM_IS_VALID_ALIGNMENT align" and fit: "\<exists>b \<in> set bs. fits (unat (eff_align align)) (unat (heap_pages sz)) b"
  shows "\<exists>p s' bs' s''. chHeapAllocAligned heapp sz align s k = Inr (Some p, s', k) \<and> heap_ok (hs_mem s') h bs' \<and>
    p \<noteq> 0 \<and> MEM_IS_ALIGNED p align \<and> chHeapGetSize p (hs_mem s') = sz \<and>
    heap_area (hs_mem s') p \<subseteq> free_bytes bs \<and> free_bytes bs' = free_bytes bs - heap_area (hs_mem s') p \<and>
    chHeapFree p s' k = Inr (Some (), s'', k) \<and> heap_ok (hs_mem s'') h bs"
proof -
  let ?P = "unat (heap_pages sz)" and ?A = "eff_align align"
  note A = eff_align_ok[OF arg(2)]
  obtain a m' bs' where r: "heap_alloc h sz ?A (hs_mem s) = Inr (Some (wd (a + 8)), m')" "heap_ok m' h bs'"
      "b_bytes (a, ?P) \<subseteq> free_bytes bs" "free_bytes bs' = free_bytes bs - b_bytes (a, ?P)" "block_ok (a, ?P)"
      "apart (heap_header h) (a, ?P)" "unat ?A dvd a + 8" "H_HEAP m' (wd a) = h" "H_SIZE m' (wd a) = sz"
    using heap_alloc_ok[OF ok(1) A(1) fit] by blast
  let ?p = "wd (a + 8)" and ?s' = "s\<lparr>hs_mem := m'\<rparr>"
  have lt: "a < 2 ^ 32" "a + 8 < 2 ^ 32" "0 < a" using block_lt[OF r(5)] r(5) by (simp_all add: block_ok_def)
  have p1: "unat ?p = a + 8" by (rule unat_wd[OF lt(2)])
  then have "?p \<noteq> 0" by auto
  moreover have "?p - 8 = wd a" by (simp add: wd_arith)
  ultimately have p: "unat ?p = a + 8" "?p - 8 = wd a" "?p \<noteq> 0" using p1 by simp_all
  have bytes: "heap_area m' ?p = b_bytes (a, ?P)"
    using p(1,2) r(9) by (auto simp: heap_area_def chHeapGetSize_def b_bytes_def b_end_def)
  have "unat align dvd a + 8" using A(2) r(7) by (rule dvd_trans)
  then have al: "MEM_IS_ALIGNED ?p align" using is_aligned_iff[OF arg(2)] p(1) by simp
  have v: "MEM_IS_VALID_ALIGNMENT 8" by (simp add: MEM_IS_VALID_ALIGNMENT_def)
  have al8: "MEM_IS_ALIGNED ?p 8" using is_aligned_iff[OF v] p(1) r(5) by (simp add: block_ok_def)
  have alloc: "chHeapAllocAligned heapp sz align s k = Inr (Some ?p, ?s', k)"
    by (rule chHeapAllocAligned_free_mutex[OF mtx ok(2) arg r(1)])
  let ?m = "set_w1 (wd a) (heap_pages sz) m'"
  have na: "unat (wd a) \<notin> free_bytes bs'" "wd a \<noteq> heap_header h"
    using lt(1) r(4) b_bytes_first(1)[of "(a, ?P)"] apart_header[OF r(6,5)] by auto
  obtain m'' bs'' where f: "heap_free h (wd a) ?m = Inr m''" "heap_ok m'' h bs''" "free_bytes bs'' = free_bytes bs' \<union> b_bytes (a, ?P)"
    using heap_free_ok[OF heap_ok_used[OF r(2) na, of "heap_pages sz"] r(5,6)] r(4) by (auto simp: H_PAGES_def)
  have "free_bytes bs'' = free_bytes bs" using f(3) r(3,4) by auto
  then have "bs'' = bs" using blocks_unique f(2) ok(1) unfolding heap_ok_def by blast
  moreover have "chHeapFree ?p ?s' k = Inr (Some (), ?s'\<lparr>hs_mem := m''\<rparr>, k)"
    by (rule chHeapFree_free_mutex[of _ _ h]) (use mtx r(8,9) f(1) p al8 in simp_all)
  ultimately show ?thesis
    using alloc r(2-4,9) p(2,3) al f(2)
    by (intro exI[of _ ?p] exI[of _ ?s'] exI[of _ bs'] exI[of _ "?s'\<lparr>hs_mem := m''\<rparr>"]) (simp add: bytes chHeapGetSize_def)
qed

section \<open>The heap as an allocator\<close>

text \<open>
  Allocation and deallocation of a program that runs while the mutex of the heap is free; a
  heap without provider. The program writes into the objects it holds: two words at offset
  \<open>i\<close>, if that is inside the object.
\<close>

definition heap_get :: "u32 \<Rightarrow> u32 \<times> u32 \<Rightarrow> heap_state \<times> kernel_t \<Rightarrow> (u32 \<times> heap_state \<times> kernel_t) result" where
  "heap_get h = (\<lambda>(sz, align) (s, k).
     bindE (chHeapAllocAligned h sz align s k) (\<lambda>(r, s, k). case r of None \<Rightarrow> Inl Blocked | Some p \<Rightarrow> Inr (p, s, k)))"

definition heap_put :: "u32 \<Rightarrow> heap_state \<times> kernel_t \<Rightarrow> (heap_state \<times> kernel_t) result" where
  "heap_put p = (\<lambda>(s, k).
     bindE (chHeapFree p s k) (\<lambda>(r, s, k). case r of None \<Rightarrow> Inl Blocked | Some _ \<Rightarrow> Inr (s, k)))"

definition heap_touch :: "u32 \<Rightarrow> nat \<times> u32 \<times> u32 \<Rightarrow> heap_state \<times> kernel_t \<Rightarrow> heap_state \<times> kernel_t" where
  "heap_touch p = (\<lambda>(i, v, v') (s, k).
     if i < 8 * unat (heap_pages (chHeapGetSize p (hs_mem s)))
     then (s\<lparr>hs_mem := set_w0 (p + wd i) v (set_w1 (p + wd i) v' (hs_mem s))\<rparr>, k) else (s, k))"

text \<open>An allocated object: the header in front of it names the heap and has its size.\<close>

definition heap_live :: "mem_t \<Rightarrow> u32 \<Rightarrow> u32 \<Rightarrow> nat set \<Rightarrow> bool" where
  "heap_live m h p A \<longleftrightarrow> (\<exists>a. let b = (a, unat (heap_pages (H_SIZE m (wd a)))) in
     p = wd (a + 8) \<and> A = b_bytes b \<and> block_ok b \<and> apart (heap_header h) b \<and> H_HEAP m (wd a) = h)"

definition heap_rep :: "u32 \<Rightarrow> heap_state \<times> kernel_t \<Rightarrow> nat set \<Rightarrow> (u32 \<rightharpoonup> nat set) \<Rightarrow> bool" where
  "heap_rep h = (\<lambda>(s, k) F L.
     h \<noteq> 0 \<and> \<not> hs_provider s h \<and> mowner k (hs_mtx s h) = None \<and> mqueue k (hs_mtx s h) = [] \<and>
     (\<exists>bs. heap_ok (hs_mem s) h bs \<and> F = free_bytes bs) \<and>
     (\<forall>p A. L p = Some A \<longrightarrow> heap_live (hs_mem s) h p A \<and> A \<inter> F = {}) \<and>
     (\<forall>p p' A B. L p = Some A \<longrightarrow> L p' = Some B \<longrightarrow> p \<noteq> p' \<longrightarrow> A \<inter> B = {}))"

lemma heap_liveE:
  assumes "heap_live m h p A"
  obtains a where "p = wd (a + 8)" "p - 8 = wd a" "unat p = a + 8" "unat (wd a) = a" "p \<noteq> 0" "MEM_IS_ALIGNED p 8"
    "A = b_bytes (a, unat (heap_pages (H_SIZE m (wd a))))" "block_ok (a, unat (heap_pages (H_SIZE m (wd a))))"
    "apart (heap_header h) (a, unat (heap_pages (H_SIZE m (wd a))))" "H_HEAP m (wd a) = h"
    "a \<in> A" "wd a \<noteq> heap_header h"
proof -
  obtain a where a: "p = wd (a + 8)" "A = b_bytes (a, unat (heap_pages (H_SIZE m (wd a))))"
      "block_ok (a, unat (heap_pages (H_SIZE m (wd a))))" "apart (heap_header h) (a, unat (heap_pages (H_SIZE m (wd a))))"
      "H_HEAP m (wd a) = h"
    using assms by (auto simp: heap_live_def Let_def)
  have lt: "a < 2 ^ 32" "a + 8 < 2 ^ 32" using block_lt[OF a(3)] by simp_all
  have u: "unat p = a + 8" unfolding a(1) by (rule unat_wd[OF lt(2)])
  have v: "MEM_IS_VALID_ALIGNMENT 8" by (simp add: MEM_IS_VALID_ALIGNMENT_def)
  show thesis
  proof (rule that[OF a(1) _ u _ _ _ a(2-5)])
    show "p - 8 = wd a" by (simp add: a(1) wd_arith)
    show "p \<noteq> 0" using u by auto
    show "MEM_IS_ALIGNED p 8" using is_aligned_iff[OF v, of p] u a(3) by (simp add: block_ok_def)
    show "a \<in> A" unfolding a(2) by (simp add: b_bytes_first(3) b_end_def)
    show "wd a \<noteq> heap_header h" using apart_header[OF a(4,3)] by simp
  qed (use lt in simp)
qed

lemma heap_live_frame:
  assumes "heap_live m h p A" "m_w0 m' (p - 8) = m_w0 m (p - 8)" "m_w1 m' (p - 8) = m_w1 m (p - 8)"
  shows "heap_live m' h p A"
proof (rule heap_liveE[OF assms(1)])
  fix a assume a: "p = wd (a + 8)" "p - 8 = wd a" "A = b_bytes (a, unat (heap_pages (H_SIZE m (wd a))))"
    "block_ok (a, unat (heap_pages (H_SIZE m (wd a))))" "apart (heap_header h) (a, unat (heap_pages (H_SIZE m (wd a))))"
    "H_HEAP m (wd a) = h"
  have "H_SIZE m' (wd a) = H_SIZE m (wd a)" "H_HEAP m' (wd a) = H_HEAP m (wd a)"
    using assms(2,3) a(2) by (simp_all add: H_SIZE_def H_HEAP_def)
  with a show ?thesis unfolding heap_live_def Let_def by metis
qed

text \<open>An object keeps its header when memory changes in \<open>B\<close> only.\<close>

lemma heap_live_outside:
  assumes "heap_live m h p A" "heap_frame h B m m'" "A \<inter> B = {}"
  shows "heap_live m' h p A"
proof (rule heap_liveE[OF assms(1)])
  fix a assume a: "p - 8 = wd a" "unat (wd a) = a" "a \<in> A" "wd a \<noteq> heap_header h"
  then have "unat (wd a) \<notin> B" using assms(3) by auto
  then show ?thesis using heap_live_frame[OF assms(1)] assms(2) a(1,4) unfolding heap_frame_def by simp
qed

lemma chHeapAllocAligned_none:
  assumes "mowner k (hs_mtx s h) = None" "mqueue k (hs_mtx s h) = []" "h = heap_of heapp s" "0 < sz" "MEM_IS_VALID_ALIGNMENT align"
    "heap_alloc h sz (eff_align align) (hs_mem s) = Inr (None, hs_mem s)" "\<not> hs_provider s h"
  shows "chHeapAllocAligned heapp sz align s k = Inr (Some 0, s, k)"
proof -
  obtain k1 where "chMtxLock (hs_mtx s h) k = Inr k1" "chMtxUnlock (hs_mtx s h) k1 = Inr k"
    using lock_unlock[OF assms(1,2)] by blast
  then show ?thesis
    using assms(1,4-7) unfolding chHeapAllocAligned_def chHeapAllocAligned_resume_def eff_align_def Let_def assms(3)[symmetric]
    by (simp add: heap_provide_def)
qed

definition heap_req :: "u32 \<times> u32 \<Rightarrow> bool" where
  "heap_req = (\<lambda>(sz, align). 0 < sz \<and> MEM_IS_VALID_ALIGNMENT align)"

lemma heap_repD:
  assumes "heap_rep h (s, k) F L"
  shows "h \<noteq> 0" "\<not> hs_provider s h" "mowner k (hs_mtx s h) = None" "mqueue k (hs_mtx s h) = []" "heap_of h s = h"
    "\<exists>bs. heap_ok (hs_mem s) h bs \<and> F = free_bytes bs"
    "L p = Some A \<Longrightarrow> heap_live (hs_mem s) h p A" "L p = Some A \<Longrightarrow> A \<inter> F = {}"
    "L p = Some A \<Longrightarrow> L p' = Some B \<Longrightarrow> p \<noteq> p' \<Longrightarrow> A \<inter> B = {}"
  using assms unfolding heap_rep_def heap_of_def prod.case by (simp_all del: disjoint_iff)

lemma heap_repI:
  assumes "h \<noteq> 0" "\<not> hs_provider s h" "mowner k (hs_mtx s h) = None" "mqueue k (hs_mtx s h) = []"
    "heap_ok (hs_mem s) h bs" "F = free_bytes bs"
    "\<And>p A. L p = Some A \<Longrightarrow> heap_live (hs_mem s) h p A" "\<And>p A. L p = Some A \<Longrightarrow> A \<inter> F = {}"
    "\<And>p p' A B. L p = Some A \<Longrightarrow> L p' = Some B \<Longrightarrow> p \<noteq> p' \<Longrightarrow> A \<inter> B = {}"
  shows "heap_rep h (s, k) F L"
  unfolding heap_rep_def prod.case
proof (intro conjI allI impI)
  show "\<exists>bs. heap_ok (hs_mem s) h bs \<and> F = free_bytes bs" using assms(5,6) by blast
qed (fact assms)+

lemma heap_get_ok:
  assumes rep: "heap_rep h x F L" and req: "heap_req q"
  shows "\<exists>p x'. heap_get h q x = Inr (p, x') \<and>
    (p = 0 \<and> heap_rep h x' F L \<or> p \<noteq> 0 \<and> L p = None \<and> (\<exists>A \<subseteq> F. heap_rep h x' (F - A) (L(p \<mapsto> A))))"
proof -
  obtain s k sz align where x: "x = (s, k)" "q = (sz, align)" by (cases x; cases q)
  have q: "0 < sz" "MEM_IS_VALID_ALIGNMENT align" using req x(2) by (simp_all add: heap_req_def)
  note d = heap_repD[OF rep[unfolded x(1)]]
  obtain bs where bs: "heap_ok (hs_mem s) h bs" "F = free_bytes bs" using d(6) by blast
  note r = d(1-5) bs d(7-9)
  let ?P = "unat (heap_pages sz)" and ?A = "eff_align align"
  note A = eff_align_ok(1)[OF q(2)]
  show ?thesis
  proof (cases "\<exists>b \<in> set bs. fits (unat ?A) ?P b")
    case False
    then have "heap_alloc h sz ?A (hs_mem s) = Inr (None, hs_mem s)"
      by (intro heap_alloc_none[OF r(6) A]) blast
    from chHeapAllocAligned_none[OF r(3,4) r(5)[symmetric] q this r(2)] rep show ?thesis
      by (auto simp: x heap_get_def)
  next
    case True
    obtain a m' bs' where m': "heap_alloc h sz ?A (hs_mem s) = Inr (Some (wd (a + 8)), m')" "heap_ok m' h bs'"
        "b_bytes (a, ?P) \<subseteq> F" "free_bytes bs' = F - b_bytes (a, ?P)" "block_ok (a, ?P)" "apart (heap_header h) (a, ?P)"
        "H_HEAP m' (wd a) = h" "H_SIZE m' (wd a) = sz" "heap_frame h F (hs_mem s) m'"
      using heap_alloc_ok[OF r(6) A True] unfolding r(7) by blast
    let ?p = "wd (a + 8)" and ?B = "b_bytes (a, ?P)" and ?s = "s\<lparr>hs_mem := m'\<rparr>"
    have live: "heap_live m' h ?p ?B" using m'(5-8) by (auto simp: heap_live_def Let_def)
    have old: "heap_live m' h p' A'" if "L p' = Some A'" for p' A'
      by (rule heap_live_outside[OF r(8)[OF that] m'(9) r(9)[OF that]])
    have new: "L ?p = None"
    proof (rule ccontr)
      assume "L ?p \<noteq> None"
      then obtain C where C: "L ?p = Some C" by blast
      obtain c where c: "unat ?p = c + 8" "c \<in> C" using r(8)[OF C] by (rule heap_liveE)
      obtain a' where a': "unat ?p = a' + 8" "a' \<in> ?B" using live by (rule heap_liveE)
      then show False using c r(9)[OF C] m'(3) by auto
    qed
    have "heap_rep h (?s, k) (F - ?B) (L(?p \<mapsto> ?B))"
    proof (rule heap_repI)
      show "heap_ok (hs_mem ?s) h bs'" "F - ?B = free_bytes bs'" using m'(2,4) by simp_all
      fix p' C assume C: "(L(?p \<mapsto> ?B)) p' = Some C"
      show "heap_live (hs_mem ?s) h p' C" using live old[of p' C] C by (cases "p' = ?p") simp_all
      show "C \<inter> (F - ?B) = {}" using r(9)[of p' C] C by (cases "p' = ?p") auto
      fix p'' D assume D: "(L(?p \<mapsto> ?B)) p'' = Some D" "p' \<noteq> p''"
      show "C \<inter> D = {}"
        using C D r(10)[of p' C p'' D] r(9)[of p' C] r(9)[of p'' D] m'(3) by (cases "p' = ?p"; cases "p'' = ?p") auto
    qed (use r(1-4) in simp_all)
    moreover have "?p \<noteq> 0" using live by (rule heap_liveE)
    moreover have "chHeapAllocAligned h sz align s k = Inr (Some ?p, ?s, k)"
      by (rule chHeapAllocAligned_free_mutex[OF r(3,4) r(5)[symmetric] q m'(1)])
    ultimately have "heap_get h q x = Inr (?p, ?s, k) \<and>
        (?p \<noteq> 0 \<and> L ?p = None \<and> (\<exists>A \<subseteq> F. heap_rep h (?s, k) (F - A) (L(?p \<mapsto> A))))"
      using new m'(3) by (auto simp: x heap_get_def)
    then show ?thesis by blast
  qed
qed

lemma heap_put_ok:
  assumes rep: "heap_rep h x F L" and p: "L p = Some A"
  shows "\<exists>x'. heap_put p x = Inr x' \<and> heap_rep h x' (F \<union> A) (L(p := None))"
proof -
  obtain s k where x: "x = (s, k)" by (cases x)
  note d = heap_repD[OF rep[unfolded x]]
  obtain bs where bs: "heap_ok (hs_mem s) h bs" "F = free_bytes bs" using d(6) by blast
  note r = d(1-5) bs d(7-9)
  let ?m = "hs_mem s"
  obtain a where a: "p - 8 = wd a" "unat (wd a) = a" "p \<noteq> 0" "MEM_IS_ALIGNED p 8"
      "A = b_bytes (a, unat (heap_pages (H_SIZE ?m (wd a))))" "block_ok (a, unat (heap_pages (H_SIZE ?m (wd a))))"
      "apart (heap_header h) (a, unat (heap_pages (H_SIZE ?m (wd a))))" "H_HEAP ?m (wd a) = h" "a \<in> A" "wd a \<noteq> heap_header h"
    using r(8)[OF p] by (rule heap_liveE)
  let ?P = "heap_pages (H_SIZE ?m (wd a))"
  let ?m1 = "set_w1 (wd a) ?P ?m"
  have na: "unat (wd a) \<notin> free_bytes bs" using a(2,9) r(9)[OF p] r(7) by auto
  obtain m' bs' where m': "heap_free h (wd a) ?m1 = Inr m'" "heap_ok m' h bs'" "free_bytes bs' = F \<union> A" "heap_frame h (F \<union> A) ?m1 m'"
  proof -
    have "H_PAGES ?m1 (wd a) = wd (unat ?P)" by (simp add: H_PAGES_def)
    moreover have "b_bytes (a, unat ?P) \<inter> free_bytes bs = {}" using r(9)[OF p] unfolding a(5) r(7) .
    ultimately show ?thesis
      using heap_free_ok[OF heap_ok_used[OF r(6) na a(10), of ?P] a(6,7)] that
      unfolding a(5)[symmetric] r(7)[symmetric] fst_conv snd_conv by blast
  qed
  let ?s = "s\<lparr>hs_mem := m'\<rparr>"
  have "heap_rep h (?s, k) (F \<union> A) (L(p := None))"
  proof (rule heap_repI)
    show "heap_ok (hs_mem ?s) h bs'" "F \<union> A = free_bytes bs'" using m'(2,3) by simp_all
    fix p' C assume "(L(p := None)) p' = Some C"
    then have C: "L p' = Some C" "p' \<noteq> p" by (simp_all split: if_splits)
    have cf: "C \<inter> (F \<union> A) = {}" using r(9)[OF C(1)] r(10)[OF C(1) p C(2)] by blast
    have "p' - 8 \<noteq> wd a"
    proof (rule heap_liveE[OF r(8)[OF C(1)]])
      fix c assume c: "p' - 8 = wd c" "unat (wd c) = c" "c \<in> C"
      then have "c \<noteq> a" using a(9) cf by blast
      then show ?thesis using c(1,2) a(2) by metis
    qed
    then have "heap_live ?m1 h p' C" by (intro heap_live_frame[OF r(8)[OF C(1)]]) simp_all
    then show "heap_live (hs_mem ?s) h p' C" using heap_live_outside[OF _ m'(4) cf] by simp
    show "C \<inter> (F \<union> A) = {}" by (rule cf)
    show "C \<inter> D = {}" if "(L(p := None)) p'' = Some D" "p' \<noteq> p''" for p'' D
      using r(10)[OF C(1), of p'' D] that by (simp split: if_splits)
  qed (use r(1-4) in simp_all)
  moreover have "chHeapFree p s k = Inr (Some (), ?s, k)"
    by (rule chHeapFree_free_mutex[OF r(3,4) _ a(3,4)]) (use a(1,8) m'(1) in simp_all)
  ultimately show ?thesis by (auto simp: x heap_put_def)
qed

lemma heap_ok_touch:
  assumes ok: "heap_ok m h bs" and c: "block_ok c" "apart (heap_header h) c" "b_bytes c \<inter> free_bytes bs = {}"
    and n: "unat n \<in> b_bytes c"
  shows "heap_ok (set_w0 n v (set_w1 n v' m)) h bs" "n \<noteq> heap_header h"
proof -
  have bo: "blocks_ok bs" "path m (heap_header h) bs 0" using ok by (simp_all add: heap_ok_def)
  show nh: "n \<noteq> heap_header h" using c(2) n by (auto simp: apart_def b_bytes_first(3))
  have "wd (fst b) \<noteq> n" if "b \<in> set bs" for b
  proof -
    have "fst b \<notin> b_bytes c" using free_bytes_node[OF that] c(3) by blast
    then show ?thesis using n unat_wd[OF conjunct1[OF block_lt[OF blocks_ok_member[OF bo(1) that]]]] by metis
  qed
  then have "path (set_w0 n v (set_w1 n v' m)) (heap_header h) bs 0"
    using path_cong[of "set_w0 n v (set_w1 n v' m)" "heap_header h" m "heap_header h" bs 0] bo(2) nh by simp
  then show "heap_ok (set_w0 n v (set_w1 n v' m)) h bs" using ok nh by (simp add: heap_ok_def H_PAGES_def)
qed

lemma heap_touch_ok:
  assumes rep: "heap_rep h x F L" and p: "L p = Some A"
  shows "heap_rep h (heap_touch p w x) F L"
proof -
  obtain s k i v v' where x: "x = (s, k)" "w = (i, v, v')" by (cases x; cases w)
  note d = heap_repD[OF rep[unfolded x(1)]]
  obtain bs where bs: "heap_ok (hs_mem s) h bs" "F = free_bytes bs" using d(6) by blast
  let ?m = "hs_mem s"
  obtain a where a: "p = wd (a + 8)" "p - 8 = wd a" "unat p = a + 8" "unat (wd a) = a"
      "A = b_bytes (a, unat (heap_pages (H_SIZE ?m (wd a))))" "block_ok (a, unat (heap_pages (H_SIZE ?m (wd a))))"
      "apart (heap_header h) (a, unat (heap_pages (H_SIZE ?m (wd a))))"
    using d(7)[OF p] by (rule heap_liveE)
  show ?thesis
  proof (cases "i < 8 * unat (heap_pages (chHeapGetSize p ?m))")
    case False
    then show ?thesis using rep by (simp add: x heap_touch_def)
  next
    case True
    let ?n = "p + wd i" and ?s = "s\<lparr>hs_mem := set_w0 (p + wd i) v (set_w1 (p + wd i) v' ?m)\<rparr>"
    have i: "i < 8 * unat (heap_pages (H_SIZE ?m (wd a)))" using True by (simp add: chHeapGetSize_def a(2))
    then have "a + 8 + i < 2 ^ 32" using a(6) by (simp add: block_ok_def b_end_def)
    then have n: "unat ?n = a + 8 + i" unfolding a(1) by (metis unat_wd wd_arith(1))
    then have nA: "unat ?n \<in> A" using i by (simp add: a(5) b_bytes_first(3) b_end_def)
    have dj: "b_bytes (a, unat (heap_pages (H_SIZE ?m (wd a)))) \<inter> free_bytes bs = {}"
      using d(8)[OF p] unfolding a(5) bs(2) .
    note t = heap_ok_touch[OF bs(1) a(6,7) dj nA[unfolded a(5)]]
    have "heap_rep h (?s, k) F L"
    proof (rule heap_repI)
      show "heap_ok (hs_mem ?s) h bs" using t(1) by simp
      fix p' C assume C: "L p' = Some C"
      show "C \<inter> F = {}" by (rule d(8)[OF C])
      show "C \<inter> D = {}" if "L p'' = Some D" "p' \<noteq> p''" for p'' D by (rule d(9)[OF C that])
      obtain c where c: "p' - 8 = wd c" "unat p' = c + 8" "unat (wd c) = c" "c \<in> C" using d(7)[OF C] by (rule heap_liveE)
      have "c \<noteq> a + 8 + i"
      proof (cases "p' = p")
        case True
        then show ?thesis using c(2) a(3) by simp
      next
        case False
        then show ?thesis using d(9)[OF C p False] c(4) nA n by auto
      qed
      then have "p' - 8 \<noteq> ?n" using c(1,3) n by metis
      then have "heap_live (set_w0 ?n v (set_w1 ?n v' ?m)) h p' C"
        by (intro heap_live_frame[OF d(7)[OF C]]) simp_all
      then show "heap_live (hs_mem ?s) h p' C" by simp
    qed (use d(1-4) bs(2) in simp_all)
    then show ?thesis using True by (simp add: x heap_touch_def)
  qed
qed

interpretation heap: alloc_free "heap_rep h" heap_req "heap_get h" heap_put heap_touch
  for h
proof
  fix x F L q p A p' B w
  assume rep: "heap_rep h x F L"
  show "\<exists>p x'. heap_get h q x = Inr (p, x') \<and>
    (p = 0 \<and> heap_rep h x' F L \<or> p \<noteq> 0 \<and> L p = None \<and> (\<exists>A \<subseteq> F. heap_rep h x' (F - A) (L(p \<mapsto> A))))" if "heap_req q"
    by (rule heap_get_ok[OF rep that])
  assume p: "L p = Some A"
  show "\<exists>x'. heap_put p x = Inr x' \<and> heap_rep h x' (F \<union> A) (L(p := None))" by (rule heap_put_ok[OF rep p])
  show "heap_rep h (heap_touch p w x) F L" by (rule heap_touch_ok[OF rep p])
  obtain s k where x: "x = (s, k)" by (cases x)
  note d = heap_repD[OF rep[unfolded x]]
  show "A \<inter> F = {}" by (rule d(8)[OF p])
  show "A \<inter> B = {}" if "L p' = Some B" "p \<noteq> p'" by (rule d(9)[OF p that])
qed

section \<open>Initialization and statistics\<close>

lemma heap_init_ok:
  assumes h: "h \<noteq> 0" "unat (heap_header h) + 8 < 2 ^ 32"
    and buf: "0 < unat buf" "15 \<le> unat sz" "unat buf + unat sz < 2 ^ 32"
      "unat buf + unat sz \<le> unat (heap_header h) \<or> unat (heap_header h) + 8 < unat buf"
    and a: "a = (unat buf + 7) div 8 * 8" "P = (unat sz - (a - unat buf) - 8) div 8"
  shows "\<exists>s' k'. chHeapObjectInit h buf sz s k = Inr (s', k') \<and> heap_ok (hs_mem s') h [(a, P)] \<and>
      heap_rep h (s', k') (b_bytes (a, P)) Map.empty"
    "unat buf \<le> a" "b_end (a, P) \<le> unat buf + unat sz" "unat buf + unat sz < b_end (a, P) + 8"
proof -
  let ?hp = "MEM_ALIGN_NEXT buf 8"
  have v: "MEM_IS_VALID_ALIGNMENT 8" by (simp add: MEM_IS_VALID_ALIGNMENT_def)
  have hp: "unat ?hp = a" using unat_align_next[OF v, of buf] buf by (simp add: a(1))
  show up: "unat buf \<le> a" unfolding a(1) by presburger
  have lt: "a < unat buf + 8" unfolding a(1) by presburger
  then show e: "b_end (a, P) \<le> unat buf + unat sz" "unat buf + unat sz < b_end (a, P) + 8"
    using up buf(2) by (simp_all add: b_end_def a(2))
  have sub: "unat (?hp - buf) = a - unat buf" using up by (simp add: unat_sub word_le_nat_alt hp)
  have "unat (sz - (?hp - buf)) = unat sz - (a - unat buf)"
    using up lt buf(2) by (subst unat_sub) (simp_all add: word_le_nat_alt sub)
  then have "unat (sz - (?hp - buf) - 8) = unat sz - (a - unat buf) - 8"
    using up lt buf(2) by (subst unat_sub) (simp_all add: word_le_nat_alt)
  then have pg: "unat ((sz - (?hp - buf) - 8) div 8) = P" by (simp add: unat_div a(2))
  have ok: "block_ok (a, P)" using e(1) buf(1,3) up by (simp add: block_ok_def a(1))
  have ap: "apart (heap_header h) (a, P)" using buf(4) e(1) up by (auto simp: apart_def)
  have w: "wd a = ?hp" "wd P = (sz - (?hp - buf) - 8) div 8" by (simp_all flip: hp pg)
  have ne: "?hp \<noteq> heap_header h" using apart_header[OF ap ok] w(1) by simp
  have "sz > 0" using buf(2) by (simp add: word_less_nat_alt)
  then obtain s' where s': "chHeapObjectInit h buf sz s k = Inr (s', chMtxObjectInit (hs_mtx s h) k)" "heap_ok (hs_mem s') h [(a, P)]"
      "\<not> hs_provider s' h" "hs_mtx s' = hs_mtx s"
    using h ok ap ne w by (simp add: chHeapObjectInit_def CH_HEAP_ALIGNMENT_def Let_def heap_ok_def H_NEXT_def H_PAGES_def)
  have "heap_rep h (s', chMtxObjectInit (hs_mtx s h) k) (b_bytes (a, P)) Map.empty"
    by (rule heap_repI[OF h(1) s'(3) _ _ s'(2)]) (simp_all add: s'(4) chMtxObjectInit_def upd_mtx_def)
  with s'(1,2) show "\<exists>s' k'. chHeapObjectInit h buf sz s k = Inr (s', k') \<and> heap_ok (hs_mem s') h [(a, P)] \<and>
      heap_rep h (s', k') (b_bytes (a, P)) Map.empty" by blast
qed

text \<open>The statistics are the number of the free blocks, their total and their largest size.\<close>

lemma status_loop_ok:
  assumes "path m p bs 0" "\<forall>b \<in> set bs. block_ok b" "l < 2 ^ 32"
  shows "status_loop m p n t (wd l) = Some (n + wd (length bs), t + wd (sum_list (map snd bs)), wd (fold max (map snd bs) l))"
  using assms
proof (induction bs arbitrary: p n t l)
  case Nil
  then show ?case by (subst status_loop.simps) (simp add: wd_arith)
next
  case (Cons b bs)
  have b: "block_ok b" "H_NEXT m p = wd (fst b)" "H_PAGES m (wd (fst b)) = wd (snd b)" "path m (wd (fst b)) bs 0"
    using Cons.prems by simp_all
  have lt: "fst b < 2 ^ 32" "snd b < 2 ^ 32" "0 < fst b" using block_lt[OF b(1)] b(1) by (simp_all add: block_ok_def)
  have "wd (fst b) \<noteq> 0" using lt wd_inj[of "fst b" 0] by (simp add: wd_arith)
  moreover have "(if wd (snd b) > wd l then wd (snd b) else wd l) = wd (max (snd b) l)"
    using lt(2) Cons.prems(3) by (simp add: word_less_nat_alt max_def)
  ultimately have "status_loop m p n t (wd l) = status_loop m (wd (fst b)) (n + 1) (t + wd (snd b)) (wd (max (snd b) l))"
    by (subst status_loop.simps) (simp add: b Let_def)
  also have "\<dots> = Some (n + 1 + wd (length bs), t + wd (snd b) + wd (sum_list (map snd bs)), wd (fold max (map snd bs) (max (snd b) l)))"
    by (rule Cons.IH[OF b(4)]) (use Cons.prems lt in simp_all)
  finally show ?case by (simp add: wd_arith algebra_simps)
qed

lemma heap_status_ok:
  assumes "heap_ok m h bs"
  shows "heap_status h m = Inr (wd (length bs), wd (8 * sum_list (map snd bs)), wd (8 * fold max (map snd bs) 0))"
proof -
  have "path m (heap_header h) bs 0" "\<forall>b \<in> set bs. block_ok b"
    using assms blocks_ok_member by (auto simp: heap_ok_def)
  from status_loop_ok[OF this, of 0 0 0] show ?thesis
    by (simp add: heap_status_def CH_HEAP_ALIGNMENT_def wd_arith)
qed

section \<open>Programs that use a heap\<close>

lemma heap_live_area: "heap_live m h p A \<Longrightarrow> A = heap_area m p"
  by (erule heap_liveE) (auto simp: heap_area_def chHeapGetSize_def b_bytes_first(3) b_end_def)

lemma heap_run_ok:
  assumes rep: "heap_rep h (s, k) F Map.empty" and req: "\<forall>q \<in> requests ops. heap_req q"
  shows "\<exists>s' k' ps bs. alloc_run (heap_get h) heap_put heap_touch ops ((s, k), []) = Inr ((s', k'), ps) \<and>
    heap_ok (hs_mem s') h bs \<and> distinct ps \<and>
    F = free_bytes bs \<union> (\<Union>p \<in> set ps. heap_area (hs_mem s') p) \<and>
    (\<forall>p \<in> set ps. heap_area (hs_mem s') p \<inter> free_bytes bs = {} \<and>
      (\<forall>p' \<in> set ps. p \<noteq> p' \<longrightarrow> heap_area (hs_mem s') p \<inter> heap_area (hs_mem s') p' = {}))"
proof -
  obtain x ps F' L where x: "alloc_run (heap_get h) heap_put heap_touch ops ((s, k), []) = Inr (x, ps)" "heap_rep h x F' L"
      "distinct ps" "dom L = set ps" "F' \<union> \<Union>(ran L) = F" "\<forall>p A. L p = Some A \<longrightarrow> A \<inter> F' = {}"
      "\<forall>p p' A B. L p = Some A \<longrightarrow> L p' = Some B \<longrightarrow> p \<noteq> p' \<longrightarrow> A \<inter> B = {}"
    using heap.run_ok[OF rep req] by (elim exE conjE) (rule that)
  obtain s' k' where s': "x = (s', k')" by (cases x)
  note d = heap_repD[OF x(2)[unfolded s']]
  obtain bs where bs: "heap_ok (hs_mem s') h bs" "F' = free_bytes bs" using d(6) by blast
  have A: "L p = Some (heap_area (hs_mem s') p)" if q: "p \<in> set ps" for p
  proof -
    obtain B where B: "L p = Some B" using q unfolding x(4)[symmetric] by blast
    show ?thesis using B unfolding heap_live_area[OF d(7)[OF B]] .
  qed
  have "\<Union>(ran L) = (\<Union>p \<in> set ps. heap_area (hs_mem s') p)"
  proof -
    have "ran L = heap_area (hs_mem s') ` set ps" using A x(4) unfolding ran_def by force
    then show ?thesis by simp
  qed
  then have "F = free_bytes bs \<union> (\<Union>p \<in> set ps. heap_area (hs_mem s') p)" using x(5) bs(2) by simp
  moreover have "heap_area (hs_mem s') p \<inter> free_bytes bs = {}" if "p \<in> set ps" for p
    using x(6) A[OF that] bs(2) by blast
  moreover have "heap_area (hs_mem s') p \<inter> heap_area (hs_mem s') p' = {}" if "p \<in> set ps" "p' \<in> set ps" "p \<noteq> p'" for p p'
    using x(7) A[OF that(1)] A[OF that(2)] that(3) by blast
  ultimately show ?thesis using x(1,3) bs(1) unfolding s' by blast
qed

end
