(* ===== verification/Ch_Reg.thy ===== *)
theory Ch_Reg
  imports Ch_Thd Ch_Heap_Ok
begin

text \<open>
  The life of threads: creation from descriptors, references, end and joining (the rest of
  \<^verbatim>\<open>chthreads.c\<close>), the registry (\<^verbatim>\<open>chregistry.c\<close>, \<^verbatim>\<open>chregistry.h\<close>) and threads in allocated memory
  (\<^verbatim>\<open>chdynamic.c\<close>). The fields of a thread that only these use are in a record of their own,
  \<open>thd_life\<close>; the registry is the list \<open>k_tids\<close> of the kernel, oldest thread first. With them go the
  allocators that hold the working areas of threads. Context and stack are below the model; the
  sizes of the thread structure and of the smallest working area come from the compiler.
\<close>

unbundle bit_operations_syntax

section \<open>State\<close>

definition CH_FLAG_MODE_MASK :: u8 where "CH_FLAG_MODE_MASK = 3"
definition CH_FLAG_MODE_STATIC :: u8 where "CH_FLAG_MODE_STATIC = 0"
definition CH_FLAG_MODE_HEAP :: u8 where "CH_FLAG_MODE_HEAP = 1"
definition CH_FLAG_MODE_MPOOL :: u8 where "CH_FLAG_MODE_MPOOL = 2"
definition CH_FLAG_TERMINATE :: u8 where "CH_FLAG_TERMINATE = 4"

text \<open>\<open>l_waiting\<close> is the list of the threads waiting for the end of this one, latest first.\<close>

record thd_life =
  l_name :: "string option"
  l_wabase :: u32
  l_flags :: u8
  l_refs :: u8
  l_waiting :: "tid list"
  l_mpool :: nat

record reg_t =
  r_life :: "tid \<Rightarrow> thd_life"
  r_heap :: heap_state
  r_pool :: "nat \<Rightarrow> memcore_t memory_pool_t"
  r_links :: links

type_synonym rk = "reg_t \<times> kernel_t"

abbreviation refs :: "reg_t \<Rightarrow> tid \<Rightarrow> u8" where
  "refs r t \<equiv> l_refs (r_life r t)"

abbreviation waiting :: "reg_t \<Rightarrow> tid \<Rightarrow> tid list" where
  "waiting r t \<equiv> l_waiting (r_life r t)"

definition upd_life :: "tid \<Rightarrow> (thd_life \<Rightarrow> thd_life) \<Rightarrow> reg_t \<Rightarrow> reg_t" where
  "upd_life t f r = r\<lparr>r_life := (r_life r)(t := f (r_life r t))\<rparr>"

record layout_t =
  thread_size :: u32
  wa_size0 :: u32

record thread_descriptor_t =
  td_name :: "string option"
  td_wbase :: u32
  td_wend :: u32
  td_prio :: nat
  td_funcp :: u32

definition PORT_STACK_ALIGN :: u32 where "PORT_STACK_ALIGN = 8"
definition PORT_WORKING_AREA_ALIGN :: u32 where "PORT_WORKING_AREA_ALIGN = 8"

section \<open>References, end and joining\<close>

definition chThdGetSelfX :: "kernel_t \<Rightarrow> tid" where
  "chThdGetSelfX k = k_cur k"

definition chThdGetPriorityX :: "kernel_t \<Rightarrow> nat" where
  "chThdGetPriorityX k = prio k (chThdGetSelfX k)"

definition chThdGetWorkingAreaX :: "tid \<Rightarrow> reg_t \<Rightarrow> u32" where
  "chThdGetWorkingAreaX t r = l_wabase (r_life r t)"

definition chThdTerminatedX :: "tid \<Rightarrow> kernel_t \<Rightarrow> bool" where
  "chThdTerminatedX t k \<longleftrightarrow> tstate k t = CH_STATE_FINAL"

definition chThdShouldTerminateX :: "rk \<Rightarrow> bool" where
  "chThdShouldTerminateX = (\<lambda>(r, k). l_flags (r_life r (chThdGetSelfX k)) AND CH_FLAG_TERMINATE \<noteq> 0)"

definition chThdTerminate :: "tid \<Rightarrow> reg_t \<Rightarrow> reg_t" where
  "chThdTerminate t = upd_life t (\<lambda>l. l\<lparr>l_flags := l_flags l OR CH_FLAG_TERMINATE\<rparr>)"

definition reg_remove :: "tid \<Rightarrow> kernel_t \<Rightarrow> kernel_t" where
  "reg_remove t k = k\<lparr>k_tids := remove1 t (k_tids k)\<rparr>"

definition chThdAddRef :: "tid \<Rightarrow> reg_t \<Rightarrow> reg_t result" where
  "chThdAddRef t r =
     bindE (assertE (refs r t < 255) (Halted ''too many references'')) (\<lambda>_.
     Inr (upd_life t (\<lambda>l. l\<lparr>l_refs := l_refs l + 1\<rparr>) r))"

text \<open>
  Returning the working area to its allocator; the flag says whether the call is done. It is
  not when the caller has to wait for the mutex of the heap, then \<open>_resume\<close> goes on.
\<close>

definition thd_dispose :: "tid \<Rightarrow> rk \<Rightarrow> (bool \<times> rk) result" where
  "thd_dispose t = (\<lambda>(r, k).
     let mode = l_flags (r_life r t) AND CH_FLAG_MODE_MASK; wa = chThdGetWorkingAreaX t r in
     if mode = CH_FLAG_MODE_HEAP then
       bindE (chHeapFree wa (r_heap r) k) (\<lambda>(d, h, k). Inr (d \<noteq> None, r\<lparr>r_heap := h\<rparr>, k))
     else if mode = CH_FLAG_MODE_MPOOL then
       let mp = l_mpool (r_life r t) in
       bindE (chPoolFree wa (r_pool r mp, r_links r)) (\<lambda>(p, l).
       Inr (True, r\<lparr>r_pool := (r_pool r)(mp := p), r_links := l\<rparr>, k))
     else Inr (True, r, k))"

definition chThdRelease :: "tid \<Rightarrow> rk \<Rightarrow> (bool \<times> rk) result" where
  "chThdRelease t = (\<lambda>(r, k).
     bindE (assertE (refs r t > 0) (Halted ''not referenced'')) (\<lambda>_.
     let r = upd_life t (\<lambda>l. l\<lparr>l_refs := l_refs l - 1\<rparr>) r in
     if refs r t = 0 \<and> tstate k t = CH_STATE_FINAL then thd_dispose t (r, reg_remove t k)
     else Inr (True, r, k)))"

definition chThdRelease_resume :: "tid \<Rightarrow> rk \<Rightarrow> rk result" where
  "chThdRelease_resume t = (\<lambda>(r, k).
     let hp = chThdGetWorkingAreaX t r - 8 in
     bindE (chHeapFree_resume (H_HEAP (hs_mem (r_heap r)) hp) hp (r_heap r) k) (\<lambda>(h, k). Inr (r\<lparr>r_heap := h\<rparr>, k)))"

text \<open>The loop over the list of waiting threads; each round takes the first one out.\<close>

definition wake_waiting :: "tid \<Rightarrow> rk \<Rightarrow> rk result" where
  "wake_waiting c = (\<lambda>(r, k).
     foldE (\<lambda>w (r, k).
       bindE (chSchReadyI w k) (\<lambda>k. Inr (upd_life c (\<lambda>l. l\<lparr>l_waiting := tl (l_waiting l)\<rparr>) r, k)))
     (waiting r c) (r, k))"

definition chThdExitS :: "msg_t \<Rightarrow> rk \<Rightarrow> rk result" where
  "chThdExitS msg = (\<lambda>(r, k).
     let c = chThdGetSelfX k; k = set_u c (ExitCode msg) k in
     bindE (wake_waiting c (r, k)) (\<lambda>(r, k).
     let k = (if refs r c = 0 \<and> l_flags (r_life r c) AND CH_FLAG_MODE_MASK = CH_FLAG_MODE_STATIC then reg_remove c k else k) in
     bindE (chSchGoSleepS CH_STATE_FINAL k) (\<lambda>k. Inr (r, k))))"

definition chThdExit :: "msg_t \<Rightarrow> rk \<Rightarrow> rk result" where
  "chThdExit msg s = chThdExitS msg s"

text \<open>
  The result of a call of \<open>chThdWait\<close>: the caller sleeps until the thread ends, or it has the exit
  code, and then it may still have to wait for the heap to release the thread.
\<close>

datatype wait_t = Waiting | Releasing msg_t | Ended msg_t

definition exitcode :: "tid \<Rightarrow> kernel_t \<Rightarrow> msg_t result" where
  "exitcode t k = (case t_u (k_thr k t) of ExitCode m \<Rightarrow> Inr m | _ \<Rightarrow> Inl OutOfBounds)"

definition chThdWait_resume :: "tid \<Rightarrow> rk \<Rightarrow> (wait_t \<times> rk) result" where
  "chThdWait_resume t = (\<lambda>(r, k).
     bindE (exitcode t k) (\<lambda>msg.
     bindE (chThdRelease t (r, k)) (\<lambda>(d, s). Inr (if d then Ended msg else Releasing msg, s))))"

definition chThdWait :: "tid \<Rightarrow> rk \<Rightarrow> (wait_t \<times> rk) result" where
  "chThdWait t = (\<lambda>(r, k).
     let c = chThdGetSelfX k in
     bindE (assertE (t \<noteq> c) (Halted ''waiting self'')) (\<lambda>_.
     bindE (assertE (refs r t > 0) (Halted ''no references'')) (\<lambda>_.
     if tstate k t \<noteq> CH_STATE_FINAL then
       let r = upd_life t (\<lambda>l. l\<lparr>l_waiting := c # l_waiting l\<rparr>) r in
       bindE (chSchGoSleepS CH_STATE_WTEXIT k) (\<lambda>k. Inr (Waiting, r, k))
     else chThdWait_resume t (r, k))))"

section \<open>The registry\<close>

definition chRegSetThreadNameX :: "tid \<Rightarrow> string option \<Rightarrow> reg_t \<Rightarrow> reg_t" where
  "chRegSetThreadNameX t name = upd_life t (\<lambda>l. l\<lparr>l_name := name\<rparr>)"

definition chRegSetThreadName :: "string option \<Rightarrow> rk \<Rightarrow> reg_t" where
  "chRegSetThreadName name = (\<lambda>(r, k). upd_life (k_cur k) (\<lambda>l. l\<lparr>l_name := name\<rparr>) r)"

definition chRegGetThreadNameX :: "tid \<Rightarrow> reg_t \<Rightarrow> string option" where
  "chRegGetThreadNameX t r = l_name (r_life r t)"

text \<open>The counter of the first thread is incremented without a test.\<close>

definition chRegFirstThread :: "rk \<Rightarrow> (tid \<times> rk) result" where
  "chRegFirstThread = (\<lambda>(r, k).
     case k_tids k of
       [] \<Rightarrow> Inl OutOfBounds
     | t # _ \<Rightarrow> Inr (t, upd_life t (\<lambda>l. l\<lparr>l_refs := l_refs l + 1\<rparr>) r, k))"

primrec next_in :: "tid \<Rightarrow> tid list \<Rightarrow> tid option option" where
  "next_in t [] = None"
| "next_in t (x # xs) = (if x = t then Some (case xs of [] \<Rightarrow> None | y # _ \<Rightarrow> Some y) else next_in t xs)"

definition chRegNextThread :: "tid \<Rightarrow> rk \<Rightarrow> (bool \<times> tid option \<times> rk) result" where
  "chRegNextThread t = (\<lambda>(r, k).
     case next_in t (k_tids k) of
       None \<Rightarrow> Inl OutOfBounds
     | Some ntp \<Rightarrow>
         bindE (case ntp of None \<Rightarrow> Inr r | Some n \<Rightarrow> chThdAddRef n r) (\<lambda>r.
         bindE (chThdRelease t (r, k)) (\<lambda>(d, s). Inr (d, ntp, s))))"

text \<open>
  The scans: \<open>Asleep t ntp\<close> says that the caller waits for the heap, to release thread \<open>t\<close>, and
  will go on with \<open>ntp\<close>. The test on a thread may fail.
\<close>

datatype scan_t = Found tid | NotFound | Asleep tid "tid option"

partial_function (option) reg_scan :: "(tid \<Rightarrow> reg_t \<Rightarrow> bool result) \<Rightarrow> tid \<Rightarrow> rk \<Rightarrow> (scan_t \<times> rk) result option" where
  "reg_scan P ctp s =
     (case P ctp (fst s) of
        Inl e \<Rightarrow> Some (Inl e)
      | Inr hit \<Rightarrow>
          if hit then Some (Inr (Found ctp, s))
          else case chRegNextThread ctp s of
            Inl e \<Rightarrow> Some (Inl e)
          | Inr nx \<Rightarrow>
              if \<not> fst nx then Some (Inr (Asleep ctp (fst (snd nx)), snd (snd nx)))
              else case fst (snd nx) of
                None \<Rightarrow> Some (Inr (NotFound, snd (snd nx)))
              | Some n \<Rightarrow> reg_scan P n (snd (snd nx)))"

definition reg_find :: "(tid \<Rightarrow> reg_t \<Rightarrow> bool result) \<Rightarrow> rk \<Rightarrow> (scan_t \<times> rk) result" where
  "reg_find P s = bindE (chRegFirstThread s) (\<lambda>(t, s). finished (reg_scan P t s))"

definition reg_find_resume :: "(tid \<Rightarrow> reg_t \<Rightarrow> bool result) \<Rightarrow> tid \<Rightarrow> tid option \<Rightarrow> rk \<Rightarrow> (scan_t \<times> rk) result" where
  "reg_find_resume P t ntp s =
     bindE (chThdRelease_resume t s) (\<lambda>s.
     case ntp of None \<Rightarrow> Inr (NotFound, s) | Some n \<Rightarrow> finished (reg_scan P n s))"

text \<open>Comparing with the name of a thread that has none reads the null pointer.\<close>

definition has_name :: "string \<Rightarrow> tid \<Rightarrow> reg_t \<Rightarrow> bool result" where
  "has_name name t r = (case chRegGetThreadNameX t r of None \<Rightarrow> Inl OutOfBounds | Some n \<Rightarrow> Inr (n = name))"

definition chRegFindThreadByName :: "string \<Rightarrow> rk \<Rightarrow> (scan_t \<times> rk) result" where
  "chRegFindThreadByName name = reg_find (has_name name)"

definition chRegFindThreadByPointer :: "tid \<Rightarrow> rk \<Rightarrow> (scan_t \<times> rk) result" where
  "chRegFindThreadByPointer tp = reg_find (\<lambda>t _. Inr (t = tp))"

definition has_wa :: "u32 \<Rightarrow> tid \<Rightarrow> reg_t \<Rightarrow> bool result" where
  "has_wa wa t r = Inr (chThdGetWorkingAreaX t r = wa)"

definition chRegFindThreadByWorkingArea :: "u32 \<Rightarrow> rk \<Rightarrow> (scan_t \<times> rk) result" where
  "chRegFindThreadByWorkingArea wa = reg_find (has_wa wa)"

section \<open>Creation\<close>

text \<open>The fields that \<open>thd_object_init\<close> leaves out.\<close>

definition thd_life_init :: "tid \<Rightarrow> string option \<Rightarrow> reg_t \<Rightarrow> reg_t" where
  "thd_life_init t name =
     upd_life t (\<lambda>l. l\<lparr>l_flags := CH_FLAG_MODE_STATIC, l_refs := 1, l_name := name, l_waiting := []\<rparr>)"

definition thd_at :: "layout_t \<Rightarrow> u32 \<Rightarrow> tid" where
  "thd_at lay wend = unat (wend - MEM_ALIGN_NEXT (thread_size lay) PORT_STACK_ALIGN)"

definition chThdCreateSuspendedI :: "layout_t \<Rightarrow> thread_descriptor_t \<Rightarrow> rk \<Rightarrow> (tid \<times> rk) result" where
  "chThdCreateSuspendedI lay td = (\<lambda>(r, k).
     bindE (assertE (MEM_IS_ALIGNED (td_wbase td) PORT_WORKING_AREA_ALIGN \<and> MEM_IS_ALIGNED (td_wend td) PORT_STACK_ALIGN \<and>
       td_wend td > td_wbase td \<and> td_wend td - td_wbase td \<ge> wa_size0 lay) (Halted ''chThdCreateSuspendedI'')) (\<lambda>_.
     bindE (assertE (td_prio td \<le> HIGHPRIO \<and> td_funcp td \<noteq> 0) (Halted ''chThdCreateSuspendedI'')) (\<lambda>_.
     let t = thd_at lay (td_wend td);
         r = upd_life t (\<lambda>l. l\<lparr>l_wabase := td_wbase td\<rparr>) r in
     Inr (t, thd_life_init t (td_name td) r, thd_object_init t (td_prio td) k))))"

definition chThdCreateI :: "layout_t \<Rightarrow> thread_descriptor_t \<Rightarrow> rk \<Rightarrow> (tid \<times> rk) result" where
  "chThdCreateI lay td s =
     bindE (chThdCreateSuspendedI lay td s) (\<lambda>(t, r, k). bindE (chSchReadyI t k) (\<lambda>k. Inr (t, r, k)))"

text \<open>
  The functions that look the working area up first; \<open>Inr (None, s)\<close> when that has to wait for the
  heap. After the wait, \<open>_resume\<close> goes on with the scan.
\<close>

definition wa_free :: "(rk \<Rightarrow> (tid \<times> rk) result) \<Rightarrow> scan_t \<times> rk \<Rightarrow> (tid option \<times> rk) result" where
  "wa_free mk = (\<lambda>(sc, s).
     case sc of
       Found _ \<Rightarrow> Inl (Halted ''working area in use'')
     | Asleep _ _ \<Rightarrow> Inr (None, s)
     | NotFound \<Rightarrow> bindE (mk s) (\<lambda>(t, s). Inr (Some t, s)))"

definition chThdCreateSuspended :: "layout_t \<Rightarrow> thread_descriptor_t \<Rightarrow> rk \<Rightarrow> (tid option \<times> rk) result" where
  "chThdCreateSuspended lay td s =
     bindE (chRegFindThreadByWorkingArea (td_wbase td) s) (wa_free (chThdCreateSuspendedI lay td))"

definition chThdCreateSuspended_resume ::
  "layout_t \<Rightarrow> thread_descriptor_t \<Rightarrow> tid \<Rightarrow> tid option \<Rightarrow> rk \<Rightarrow> (tid option \<times> rk) result" where
  "chThdCreateSuspended_resume lay td t ntp s =
     bindE (reg_find_resume (has_wa (td_wbase td)) t ntp s) (wa_free (chThdCreateSuspendedI lay td))"

definition create_start :: "layout_t \<Rightarrow> thread_descriptor_t \<Rightarrow> (tid \<Rightarrow> reg_t \<Rightarrow> reg_t) \<Rightarrow> rk \<Rightarrow> (tid \<times> rk) result" where
  "create_start lay td mark s =
     bindE (chThdCreateSuspendedI lay td s) (\<lambda>(t, r, k).
     let r = mark t r in
     bindE (chSchWakeupS t MSG_OK k) (\<lambda>k. Inr (t, r, k)))"

definition chThdCreate :: "layout_t \<Rightarrow> thread_descriptor_t \<Rightarrow> rk \<Rightarrow> (tid option \<times> rk) result" where
  "chThdCreate lay td s =
     bindE (chRegFindThreadByWorkingArea (td_wbase td) s) (wa_free (create_start lay td (\<lambda>_ r. r)))"

definition chThdCreate_resume ::
  "layout_t \<Rightarrow> thread_descriptor_t \<Rightarrow> tid \<Rightarrow> tid option \<Rightarrow> rk \<Rightarrow> (tid option \<times> rk) result" where
  "chThdCreate_resume lay td t ntp s =
     bindE (reg_find_resume (has_wa (td_wbase td)) t ntp s) (wa_free (create_start lay td (\<lambda>_ r. r)))"

text \<open>
  Threads in allocated memory; \<open>Inr (None, s)\<close> when the caller waits for the heap, and
  \<open>Some None\<close> when there is no memory.
\<close>

definition thd_in :: "layout_t \<Rightarrow> u32 \<Rightarrow> u32 \<Rightarrow> string option \<Rightarrow> nat \<Rightarrow> u32 \<Rightarrow> (tid \<Rightarrow> reg_t \<Rightarrow> reg_t) \<Rightarrow> rk \<Rightarrow>
   (tid option option \<times> rk) result" where
  "thd_in lay wbase sz name p pf mark s =
     (if wbase = 0 then Inr (Some None, s)
      else bindE (create_start lay \<lparr>td_name = name, td_wbase = wbase, td_wend = wbase + sz, td_prio = p, td_funcp = pf\<rparr> mark s)
             (\<lambda>(t, s). Inr (Some (Some t), s)))"

definition heap_mark :: "tid \<Rightarrow> reg_t \<Rightarrow> reg_t" where
  "heap_mark t = upd_life t (\<lambda>l. l\<lparr>l_flags := CH_FLAG_MODE_HEAP\<rparr>)"

definition chThdCreateFromHeap ::
  "layout_t \<Rightarrow> u32 \<Rightarrow> u32 \<Rightarrow> string option \<Rightarrow> nat \<Rightarrow> u32 \<Rightarrow> rk \<Rightarrow> (tid option option \<times> rk) result" where
  "chThdCreateFromHeap lay heapp sz name p pf = (\<lambda>(r, k).
     bindE (chHeapAllocAligned heapp sz PORT_WORKING_AREA_ALIGN (r_heap r) k) (\<lambda>(wb, h, k).
     let s = (r\<lparr>r_heap := h\<rparr>, k) in
     case wb of None \<Rightarrow> Inr (None, s) | Some wbase \<Rightarrow> thd_in lay wbase sz name p pf heap_mark s))"

definition chThdCreateFromHeap_resume ::
  "layout_t \<Rightarrow> u32 \<Rightarrow> u32 \<Rightarrow> string option \<Rightarrow> nat \<Rightarrow> u32 \<Rightarrow> rk \<Rightarrow> (tid option option \<times> rk) result" where
  "chThdCreateFromHeap_resume lay heapp sz name p pf = (\<lambda>(r, k).
     bindE (chHeapAllocAligned_resume heapp sz PORT_WORKING_AREA_ALIGN (r_heap r) k) (\<lambda>(wbase, h, k).
     thd_in lay wbase sz name p pf heap_mark (r\<lparr>r_heap := h\<rparr>, k)))"

definition pool_mark :: "nat \<Rightarrow> tid \<Rightarrow> reg_t \<Rightarrow> reg_t" where
  "pool_mark mp t = upd_life t (\<lambda>l. l\<lparr>l_flags := CH_FLAG_MODE_MPOOL, l_mpool := mp\<rparr>)"

definition chThdCreateFromMemoryPool ::
  "layout_t \<Rightarrow> nat \<Rightarrow> string option \<Rightarrow> nat \<Rightarrow> u32 \<Rightarrow> rk \<Rightarrow> (tid option option \<times> rk) result" where
  "chThdCreateFromMemoryPool lay mp name p pf = (\<lambda>(r, k).
     bindE (chPoolAlloc (r_pool r mp) (r_links r) (hs_core (r_heap r))) (\<lambda>(wbase, pool, c).
     thd_in lay wbase (mp_object_size pool) name p pf (pool_mark mp)
       (r\<lparr>r_pool := (r_pool r)(mp := pool), r_heap := (r_heap r)\<lparr>hs_core := c\<rparr>\<rparr>, k)))"

section \<open>Invariant\<close>

text \<open>
  The list of a thread holds threads that wait for an end, each in one list; a thread that has
  ended has an exit code and nobody waits for it any more.
\<close>

definition lives_ok :: "reg_t \<Rightarrow> kernel_t \<Rightarrow> bool" where
  "lives_ok r k \<longleftrightarrow> distinct (k_tids k) \<and>
     (\<forall>t. distinct (waiting r t)) \<and>
     (\<forall>t s. s \<in> set (waiting r t) \<longrightarrow> s \<in> set (k_tids k) \<and> tstate k s = CH_STATE_WTEXIT) \<and>
     (\<forall>t t' s. s \<in> set (waiting r t) \<longrightarrow> s \<in> set (waiting r t') \<longrightarrow> t = t') \<and>
     (\<forall>t \<in> set (k_tids k). tstate k t = CH_STATE_FINAL \<longrightarrow> waiting r t = [] \<and> (\<exists>m. t_u (k_thr k t) = ExitCode m))"

definition life_inv :: "rk \<Rightarrow> bool" where
  "life_inv = (\<lambda>(r, k). sys_inv k \<and> lives_ok r k)"

lemma upd_life_sel [simp]:
  "r_life (upd_life t f r) u = (if u = t then f (r_life r t) else r_life r u)"
  "r_heap (upd_life t f r) = r_heap r" "r_pool (upd_life t f r) = r_pool r" "r_links (upd_life t f r) = r_links r"
  by (simp_all add: upd_life_def)

lemma lives_okD:
  assumes "lives_ok r k"
  shows "distinct (k_tids k)" "distinct (waiting r t)" "s \<in> set (waiting r t) \<Longrightarrow> s \<in> set (k_tids k)"
    "s \<in> set (waiting r t) \<Longrightarrow> tstate k s = CH_STATE_WTEXIT"
    "s \<in> set (waiting r t) \<Longrightarrow> s \<in> set (waiting r t') \<Longrightarrow> t = t'"
    "t \<in> set (k_tids k) \<Longrightarrow> tstate k t = CH_STATE_FINAL \<Longrightarrow> waiting r t = []"
    "t \<in> set (k_tids k) \<Longrightarrow> tstate k t = CH_STATE_FINAL \<Longrightarrow> \<exists>m. t_u (k_thr k t) = ExitCode m"
  using assms unfolding lives_ok_def by blast+

text \<open>Waking the waiting threads.\<close>

lemma wake_loop:
  assumes "sys_inv k" "distinct ws" "\<forall>w \<in> set ws. w \<in> set (k_tids k) \<and> tstate k w = CH_STATE_WTEXIT"
    "waiting r c = ws @ xs"
  shows "\<exists>k'. foldE (\<lambda>w (r, k). bindE (chSchReadyI w k) (\<lambda>k. Inr (upd_life c (\<lambda>l. l\<lparr>l_waiting := tl (l_waiting l)\<rparr>) r, k))) ws (r, k) =
      Inr (upd_life c (\<lambda>l. l\<lparr>l_waiting := xs\<rparr>) r, k') \<and> sys_inv k' \<and> sched_frame k k' \<and> k_cur k' = k_cur k \<and>
    (\<forall>t. k_thr k' t = (if t \<in> set ws then (k_thr k t)\<lparr>t_state := CH_STATE_READY\<rparr> else k_thr k t))"
  using assms
proof (induction ws arbitrary: r k)
  case Nil
  then have "r_life r c\<lparr>l_waiting := xs\<rparr> = r_life r c" by (cases "r_life r c") simp
  then have "upd_life c (\<lambda>l. l\<lparr>l_waiting := xs\<rparr>) r = r" by (simp add: upd_life_def)
  then show ?case using Nil by simp
next
  case (Cons w ws)
  obtain k1 where k1: "chSchReadyI w k = Inr k1" "sys_inv k1" "sched_frame k k1" "k_cur k1 = k_cur k"
      "k_thr k1 = (k_thr k)(w := (k_thr k w)\<lparr>t_state := CH_STATE_READY\<rparr>)"
    using ready_elsewhere[OF Cons.prems(1), of w] Cons.prems(3) by auto
  let ?r = "upd_life c (\<lambda>l. l\<lparr>l_waiting := tl (l_waiting l)\<rparr>) r"
  have tids: "k_tids k1 = k_tids k" using k1(3) by (simp add: sched_frame_def)
  have pre: "distinct ws" "\<forall>v \<in> set ws. v \<in> set (k_tids k1) \<and> tstate k1 v = CH_STATE_WTEXIT" "waiting ?r c = ws @ xs"
    using Cons.prems by (auto simp: k1(5) tids)
  obtain k' where k': "foldE (\<lambda>w (r, k). bindE (chSchReadyI w k) (\<lambda>k. Inr (upd_life c (\<lambda>l. l\<lparr>l_waiting := tl (l_waiting l)\<rparr>) r, k))) ws (?r, k1) =
        Inr (upd_life c (\<lambda>l. l\<lparr>l_waiting := xs\<rparr>) ?r, k')" "sys_inv k'" "sched_frame k1 k'" "k_cur k' = k_cur k1"
      "\<forall>t. k_thr k' t = (if t \<in> set ws then (k_thr k1 t)\<lparr>t_state := CH_STATE_READY\<rparr> else k_thr k1 t)"
    using Cons.IH[OF k1(2) pre] by blast
  have "upd_life c (\<lambda>l. l\<lparr>l_waiting := xs\<rparr>) ?r = upd_life c (\<lambda>l. l\<lparr>l_waiting := xs\<rparr>) r"
    by (simp add: upd_life_def)
  moreover have "k_thr k' t = (if t \<in> set (w # ws) then (k_thr k t)\<lparr>t_state := CH_STATE_READY\<rparr> else k_thr k t)" for t
    using k'(5) Cons.prems(2) by (simp add: k1(5))
  ultimately show ?case
    using k1(1,3,4) k'(1-4) sched_frame_trans by auto
qed

lemma wake_waiting_ok:
  assumes "life_inv (r, k)"
  shows "\<exists>k'. wake_waiting c (r, k) = Inr (upd_life c (\<lambda>l. l\<lparr>l_waiting := []\<rparr>) r, k') \<and> sys_inv k' \<and> sched_frame k k' \<and>
    k_cur k' = k_cur k \<and> (\<forall>t. k_thr k' t = (if t \<in> set (waiting r c) then (k_thr k t)\<lparr>t_state := CH_STATE_READY\<rparr> else k_thr k t))"
proof -
  have s: "sys_inv k" "lives_ok r k" using assms by (simp_all add: life_inv_def)
  have w: "\<forall>w \<in> set (waiting r c). w \<in> set (k_tids k) \<and> tstate k w = CH_STATE_WTEXIT"
    using lives_okD(3,4)[OF s(2)] by blast
  from wake_loop[OF s(1) lives_okD(2)[OF s(2)] w, of r c "[]"] show ?thesis by (simp add: wake_waiting_def)
qed

text \<open>Removing a thread that has ended from the registry.\<close>

lemma reg_remove_sel [simp]:
  "k_thr (reg_remove t k) = k_thr k" "k_cur (reg_remove t k) = k_cur k" "k_ready (reg_remove t k) = k_ready k"
  "k_idle (reg_remove t k) = k_idle k" "k_mtx (reg_remove t k) = k_mtx k" "k_cond (reg_remove t k) = k_cond k"
  "k_sem (reg_remove t k) = k_sem k" "k_ref (reg_remove t k) = k_ref k" "k_queue (reg_remove t k) = k_queue k"
  "k_timer (reg_remove t k) = k_timer k" "k_tids (reg_remove t k) = remove1 t (k_tids k)"
  by (simp_all add: reg_remove_def)

lemma sleep_reg_remove:
  "chSchGoSleepS st (reg_remove t k) = bindE (chSchGoSleepS st k) (\<lambda>k. Inr (reg_remove t k))"
  by (simp add: chSchGoSleepS_def pick_next_def reg_remove_def kernel_upd Let_def assertE_def split: list.splits)

lemma reg_remove_sys_inv:
  assumes "sys_inv k" "distinct (k_tids k)" "tstate k t = CH_STATE_FINAL" "t \<noteq> k_idle k" "mtxlist k t = []"
  shows "sys_inv (reg_remove t k)"
proof (cases "t \<in> set (k_tids k)")
  case False
  then have "reg_remove t k = k" by (simp add: reg_remove_def remove1_idem)
  then show ?thesis using assms(1) by simp
next
  case True
  let ?k = "reg_remove t k"
  have inv: "sched_inv k" "mtx_struct k" "qsorted k" "inherits k" "\<forall>u \<in> set (k_tids k). realprio k u \<le> prio k u \<and> justified k u"
    using assms(1) by (simp_all add: sys_inv_def mtx_inv_def)
  have tids: "set (k_tids ?k) = set (k_tids k) - {t}" using assms(2) by simp
  have "t \<noteq> k_cur k" "t \<notin> set (k_ready k)" using inv(1) assms(3) True by (auto simp: sched_inv_def)
  then have "sched_inv ?k" using inv(1) assms(4) unfolding sched_inv_def tids by auto
  moreover have w: "waits_mtx ?k u m \<longleftrightarrow> waits_mtx k u m" "waits_cond ?k u c \<longleftrightarrow> waits_cond k u c" for u m c
    using assms(3) unfolding waits_mtx_def waits_cond_def tids by auto
  have "mtx_struct ?k" using inv(2) assms(5) unfolding mtx_struct_def w tids by auto
  moreover have "qsorted ?k" "inherits ?k" "justified ?k u \<longleftrightarrow> justified k u" for u
    using inv(3,4) by (simp_all add: qsorted_def inherits_def justified_def)
  ultimately show ?thesis using inv(5) tids by (simp add: sys_inv_def mtx_inv_def)
qed

section \<open>Joining\<close>

definition static_free :: "reg_t \<Rightarrow> tid \<Rightarrow> bool" where
  "static_free r t \<longleftrightarrow> refs r t = 0 \<and> l_flags (r_life r t) AND CH_FLAG_MODE_MASK = CH_FLAG_MODE_STATIC"

lemma life_cur:
  assumes "life_inv (r, k)"
  shows "k_cur k \<in> set (k_tids k)" "tstate k (k_cur k) = CH_STATE_CURRENT" "k_cur k \<notin> set (waiting r t)"
proof -
  have s: "sched_inv k" "lives_ok r k" using assms by (simp_all add: life_inv_def sys_inv_def)
  show c: "k_cur k \<in> set (k_tids k)" "tstate k (k_cur k) = CH_STATE_CURRENT"
    using s(1) by (simp_all add: sched_inv_def)
  then show "k_cur k \<notin> set (waiting r t)" using lives_okD(4)[OF s(2), of "k_cur k" t] by auto
qed

lemma chThdWait_ok:
  assumes inv: "life_inv (r, k)" and c: "k_cur k \<noteq> k_idle k" and t: "t \<noteq> k_cur k" "refs r t > 0" "tstate k t \<noteq> CH_STATE_FINAL"
  shows "\<exists>r' k'. chThdWait t (r, k) = Inr (Waiting, r', k') \<and> life_inv (r', k') \<and> sched_ok k' \<and> k_tids k' = k_tids k \<and>
    waiting r' t = k_cur k # waiting r t \<and> tstate k' (k_cur k) = CH_STATE_WTEXIT \<and> refs r' t = refs r t \<and>
    l_flags (r_life r' t) = l_flags (r_life r t)"
proof -
  let ?c = "k_cur k" and ?r = "upd_life t (\<lambda>l. l\<lparr>l_waiting := k_cur k # l_waiting l\<rparr>) r"
  have s: "sys_inv k" "lives_ok r k" using inv by (simp_all add: life_inv_def)
  note cur = life_cur[OF inv]
  obtain k' where k': "chSchGoSleepS CH_STATE_WTEXIT k = Inr k'" "sys_inv k'" "sched_ok k'" "sched_frame k k'"
      "tstate k' ?c = CH_STATE_WTEXIT"
      "\<forall>v. v \<noteq> ?c \<longrightarrow> t_u (k_thr k' v) = t_u (k_thr k v) \<and>
         (tstate k' v = tstate k v \<or> (tstate k v = CH_STATE_READY \<and> tstate k' v = CH_STATE_CURRENT))"
    using sleep_elsewhere[OF s(1) c, of CH_STATE_WTEXIT] by auto
  have tids: "k_tids k' = k_tids k" using k'(4) by (simp add: sched_frame_def)
  have st: "tstate k' v = x \<longleftrightarrow> tstate k v = x" if "v \<noteq> ?c" "x \<in> {CH_STATE_WTEXIT, CH_STATE_FINAL}" for v x
    using k'(6)[rule_format, OF that(1)] that(2) by auto
  have w: "s' \<in> set (waiting ?r v) \<longleftrightarrow> s' \<in> set (waiting r v) \<or> (s' = ?c \<and> v = t)" for s' v by auto
  have "lives_ok ?r k'"
    unfolding lives_ok_def tids
  proof (intro conjI allI impI ballI)
    show "distinct (k_tids k)" by (rule lives_okD(1)[OF s(2)])
    fix v
    show "distinct (waiting ?r v)" using lives_okD(2)[OF s(2)] cur(3)[of t] by simp
    fix s' assume s': "s' \<in> set (waiting ?r v)"
    then show "s' \<in> set (k_tids k)" using lives_okD(3)[OF s(2)] cur(1) unfolding w by blast
    show "tstate k' s' = CH_STATE_WTEXIT"
    proof (cases "s' = ?c")
      case False
      then show ?thesis using s' lives_okD(4)[OF s(2)] st[OF False] unfolding w by blast
    qed (use k'(5) in simp)
    fix v' assume "s' \<in> set (waiting ?r v')"
    then show "v = v'" using s' lives_okD(5)[OF s(2)] cur(3) unfolding w by blast
  next
    fix v assume v: "v \<in> set (k_tids k)" "tstate k' v = CH_STATE_FINAL"
    then have "v \<noteq> ?c" using k'(5) by auto
    then have f: "tstate k v = CH_STATE_FINAL" using st v(2) by blast
    show "waiting ?r v = []" using lives_okD(6)[OF s(2) v(1) f] t(3) f by auto
    show "\<exists>m. t_u (k_thr k' v) = ExitCode m" using lives_okD(7)[OF s(2) v(1) f] k'(6) \<open>v \<noteq> ?c\<close> by simp
  qed
  then show ?thesis
    using k'(1-3,5) t tids by (simp add: chThdWait_def chThdGetSelfX_def life_inv_def Let_def)
qed

text \<open>The state after the loop, and after the thread has gone to sleep for good.\<close>

lemma lives_ok_exit:
  assumes ok: "lives_ok r k" and c: "k_cur k \<in> set (k_tids k)" "tstate k (k_cur k) = CH_STATE_CURRENT"
    and tids: "k_tids k' = k_tids k"
    and me: "tstate k' (k_cur k) = CH_STATE_FINAL" "t_u (k_thr k' (k_cur k)) = ExitCode msg"
    and other: "\<And>v. v \<noteq> k_cur k \<Longrightarrow> t_u (k_thr k' v) = t_u (k_thr k v)"
      "\<And>v. v \<noteq> k_cur k \<Longrightarrow> v \<notin> set (waiting r (k_cur k)) \<Longrightarrow>
         tstate k' v = tstate k v \<or> (tstate k v = CH_STATE_READY \<and> tstate k' v = CH_STATE_CURRENT)"
      "\<And>v. v \<in> set (waiting r (k_cur k)) \<Longrightarrow> tstate k' v \<in> {CH_STATE_READY, CH_STATE_CURRENT}"
  shows "lives_ok (upd_life (k_cur k) (\<lambda>l. l\<lparr>l_waiting := []\<rparr>) r) k'"
proof -
  let ?c = "k_cur k" and ?r = "upd_life (k_cur k) (\<lambda>l. l\<lparr>l_waiting := []\<rparr>) r"
  have w: "s \<in> set (waiting ?r v) \<longleftrightarrow> s \<in> set (waiting r v) \<and> v \<noteq> ?c" for s v by simp
  show ?thesis
    unfolding lives_ok_def tids
  proof (intro conjI allI impI ballI)
    show "distinct (k_tids k)" by (rule lives_okD(1)[OF ok])
    fix v
    show "distinct (waiting ?r v)" using lives_okD(2)[OF ok, of v] by simp
    fix s assume s: "s \<in> set (waiting ?r v)"
    then have s': "s \<in> set (waiting r v)" "v \<noteq> ?c" unfolding w by blast+
    then show "s \<in> set (k_tids k)" using lives_okD(3)[OF ok] by blast
    have "s \<noteq> ?c" "s \<notin> set (waiting r ?c)" "tstate k s = CH_STATE_WTEXIT"
      using s' lives_okD(4,5)[OF ok] c(2) by force+
    then show "tstate k' s = CH_STATE_WTEXIT" using other(2) by fastforce
    fix v' assume "s \<in> set (waiting ?r v')"
    then show "v = v'" using s'(1) lives_okD(5)[OF ok] unfolding w by blast
  next
    fix v assume v: "v \<in> set (k_tids k)" "tstate k' v = CH_STATE_FINAL"
    show "waiting ?r v = []" "\<exists>m. t_u (k_thr k' v) = ExitCode m"
    proof (atomize (full), cases "v = ?c")
      case True
      then show "waiting ?r v = [] \<and> (\<exists>m. t_u (k_thr k' v) = ExitCode m)" using me(2) by simp
    next
      case False
      have "v \<notin> set (waiting r ?c)" using other(3)[of v] v(2) by auto
      then have f: "tstate k v = CH_STATE_FINAL" using other(2)[OF False] v(2) by auto
      show "waiting ?r v = [] \<and> (\<exists>m. t_u (k_thr k' v) = ExitCode m)"
        using lives_okD(6,7)[OF ok v(1) f] other(1)[OF False] False by simp
    qed
  qed
qed

lemma lives_ok_frame:
  assumes "lives_ok r k" "k_tids k' = k_tids k" "\<And>v. tstate k' v = tstate k v"
    "\<And>v. tstate k v = CH_STATE_FINAL \<Longrightarrow> t_u (k_thr k' v) = t_u (k_thr k v)"
  shows "lives_ok r k'"
proof -
  have u: "\<exists>m. t_u (k_thr k' v) = ExitCode m" if "v \<in> set (k_tids k)" "tstate k v = CH_STATE_FINAL" for v
    using lives_okD(7)[OF assms(1) that] assms(4)[OF that(2)] by simp
  show ?thesis
    unfolding lives_ok_def assms(2,3) using lives_okD(1-6)[OF assms(1)] u by blast
qed

text \<open>A thread that waits for no end is woken up; threads that wait stay as they are.\<close>

lemma lives_ok_wakeup:
  assumes "lives_ok r k" "k_tids k' = k_tids k"
    "\<And>u. u \<in> set (k_tids k) \<Longrightarrow> tstate k u \<in> {CH_STATE_WTEXIT, CH_STATE_FINAL} \<Longrightarrow> k_thr k' u = k_thr k u"
    "\<And>u. u \<in> set (k_tids k) \<Longrightarrow> tstate k' u = CH_STATE_FINAL \<Longrightarrow> tstate k u = CH_STATE_FINAL"
  shows "lives_ok r k'"
proof -
  have w: "tstate k' s = CH_STATE_WTEXIT" if "s \<in> set (waiting r t)" for s t
    using lives_okD(3,4)[OF assms(1) that] assms(3)[of s] by simp
  have u: "waiting r v = [] \<and> (\<exists>m. t_u (k_thr k' v) = ExitCode m)" if "v \<in> set (k_tids k)" "tstate k' v = CH_STATE_FINAL" for v
    using lives_okD(6,7)[OF assms(1) that(1)] assms(4)[OF that] assms(3)[OF that(1)] by simp
  show ?thesis
    unfolding lives_ok_def assms(2) using lives_okD(1-3,5)[OF assms(1)] w u by blast
qed

lemma chThdExit_ok:
  assumes inv: "life_inv (r, k)" and c: "k_cur k \<noteq> k_idle k" and free: "static_free r (k_cur k) \<longrightarrow> mtxlist k (k_cur k) = []"
  shows "\<exists>k'. chThdExit msg (r, k) = Inr (upd_life (k_cur k) (\<lambda>l. l\<lparr>l_waiting := []\<rparr>) r, k') \<and>
    life_inv (upd_life (k_cur k) (\<lambda>l. l\<lparr>l_waiting := []\<rparr>) r, k') \<and> sched_ok k' \<and>
    k_tids k' = (if static_free r (k_cur k) then remove1 (k_cur k) (k_tids k) else k_tids k) \<and>
    chThdTerminatedX (k_cur k) k' \<and> exitcode (k_cur k) k' = Inr msg \<and>
    (\<forall>w \<in> set (waiting r (k_cur k)). tstate k' w \<in> {CH_STATE_READY, CH_STATE_CURRENT})"
proof -
  let ?c = "k_cur k" and ?k = "set_u (k_cur k) (ExitCode msg) k"
  let ?r = "upd_life ?c (\<lambda>l. l\<lparr>l_waiting := []\<rparr>) r"
  have s: "sys_inv k" "lives_ok r k" using inv by (simp_all add: life_inv_def)
  note cur = life_cur[OF inv]
  have "obj_frame k ?k" using cur(2) by (simp add: obj_frame_def)
  then have s1: "sys_inv ?k" by (rule obj_frame_sys_inv[OF _ s(1)])
  have "lives_ok r ?k" by (rule lives_ok_frame[OF s(2)]) (use cur(2) in auto)
  then have "life_inv (r, ?k)" using s1 by (simp add: life_inv_def)
  then obtain k2 where k2: "wake_waiting ?c (r, ?k) = Inr (?r, k2)" "sys_inv k2" "sched_frame ?k k2" "k_cur k2 = ?c"
      "\<forall>t. k_thr k2 t = (if t \<in> set (waiting r ?c) then (k_thr ?k t)\<lparr>t_state := CH_STATE_READY\<rparr> else k_thr ?k t)"
    using wake_waiting_ok[of r ?k ?c] by auto
  obtain k3 where k3: "chSchGoSleepS CH_STATE_FINAL k2 = Inr k3" "sys_inv k3" "sched_ok k3" "sched_frame k2 k3"
      "tstate k3 ?c = CH_STATE_FINAL" "t_u (k_thr k3 ?c) = t_u (k_thr k2 ?c)"
      "\<forall>v. v \<noteq> ?c \<longrightarrow> t_u (k_thr k3 v) = t_u (k_thr k2 v) \<and>
         (tstate k3 v = tstate k2 v \<or> (tstate k2 v = CH_STATE_READY \<and> tstate k3 v = CH_STATE_CURRENT))"
    using sleep_elsewhere[OF k2(2), of CH_STATE_FINAL] c k2(3,4) by (auto simp: sched_frame_def)
  have fr: "k_tids k3 = k_tids k" "k_idle k3 = k_idle k" "mtxlist k3 ?c = mtxlist k ?c"
    using k2(3) k3(4) by (simp_all add: sched_frame_def)
  have u3: "t_u (k_thr k3 ?c) = ExitCode msg" using k3(6) k2(5) cur(3) by simp
  have th2: "t_u (k_thr k2 v) = t_u (k_thr k v)" "tstate k2 v = (if v \<in> set (waiting r ?c) then CH_STATE_READY else tstate k v)"
    if "v \<noteq> ?c" for v using k2(5) that by simp_all
  have run: "tstate k3 v \<in> {CH_STATE_READY, CH_STATE_CURRENT}" if "v \<in> set (waiting r ?c)" for v
  proof -
    have "v \<noteq> ?c" using that cur(3) by metis
    then show ?thesis using k3(7) th2(2) that by auto
  qed
  have "lives_ok ?r k3"
    by (rule lives_ok_exit[OF s(2) cur(1,2) fr(1) k3(5) u3]) (use k3(7) th2 run in auto)
  then have inv3: "life_inv (?r, k3)" using k3(2) by (simp add: life_inv_def)
  have sf: "static_free ?r ?c = static_free r ?c" by (simp add: static_free_def)
  show ?thesis
  proof (cases "static_free r ?c")
    case False
    have "chThdExit msg (r, k) = Inr (?r, k3)"
      using k2(1) k3(1) False by (simp add: chThdExit_def chThdExitS_def chThdGetSelfX_def Let_def flip: static_free_def sf)
    with inv3 k3(3,5) fr(1) u3 run False show ?thesis by (simp add: chThdTerminatedX_def exitcode_def)
  next
    case True
    let ?k' = "reg_remove ?c k3"
    have d: "distinct (k_tids k3)" using lives_okD(1)[OF s(2)] fr(1) by simp
    have "sys_inv ?k'"
      by (rule reg_remove_sys_inv[OF k3(2) d k3(5)]) (use c fr free True in simp_all)
    moreover have "lives_ok ?r ?k'"
    proof -
      have "v \<noteq> ?c" if "v \<in> set (waiting ?r t)" for v t using cur(3) that by (auto split: if_splits)
      then show ?thesis
        using \<open>lives_ok ?r k3\<close> d unfolding lives_ok_def by (auto simp del: upd_life_sel)
    qed
    moreover have "sched_ok ?k'" using k3(3) \<open>sys_inv ?k'\<close> by (simp add: sched_ok_def sys_inv_def firstprio_def split: list.splits)
    moreover have "chThdExit msg (r, k) = Inr (?r, ?k')"
      using k2(1) k3(1) True by (simp add: chThdExit_def chThdExitS_def chThdGetSelfX_def Let_def sleep_reg_remove flip: static_free_def sf)
    ultimately show ?thesis using k3(5) fr(1) u3 run True d by (simp add: life_inv_def chThdTerminatedX_def exitcode_def)
  qed
qed

text \<open>The end of a wait for a static thread: the exit code, and one reference less.\<close>

lemma chThdRelease_static:
  assumes "refs r t > 0" "l_flags (r_life r t) AND CH_FLAG_MODE_MASK = CH_FLAG_MODE_STATIC"
  shows "chThdRelease t (r, k) = Inr (True, upd_life t (\<lambda>l. l\<lparr>l_refs := l_refs l - 1\<rparr>) r,
    if refs r t = 1 \<and> tstate k t = CH_STATE_FINAL then reg_remove t k else k)"
  using assms by (simp add: chThdRelease_def thd_dispose_def Let_def CH_FLAG_MODE_STATIC_def CH_FLAG_MODE_HEAP_def CH_FLAG_MODE_MPOOL_def)

lemma chThdWait_resume_static:
  assumes "refs r t > 0" "l_flags (r_life r t) AND CH_FLAG_MODE_MASK = CH_FLAG_MODE_STATIC"
    "chThdTerminatedX t k" "exitcode t k = Inr msg"
  shows "chThdWait_resume t (r, k) = Inr (Ended msg, upd_life t (\<lambda>l. l\<lparr>l_refs := l_refs l - 1\<rparr>) r,
    if refs r t = 1 then reg_remove t k else k)"
  using assms(3,4) chThdRelease_static[OF assms(1,2), of k] by (simp add: chThdWait_resume_def chThdTerminatedX_def)

section \<open>Scans of the registry\<close>

definition addref :: "tid \<Rightarrow> reg_t \<Rightarrow> reg_t" where
  "addref t = upd_life t (\<lambda>l. l\<lparr>l_refs := l_refs l + 1\<rparr>)"

lemma addref_sel [simp]:
  "refs (addref t r) u = (if u = t then refs r t + 1 else refs r u)"
  "l_flags (r_life (addref t r) u) = l_flags (r_life r u)" "l_name (r_life (addref t r) u) = l_name (r_life r u)"
  "l_wabase (r_life (addref t r) u) = l_wabase (r_life r u)" "waiting (addref t r) u = waiting r u"
  by (simp_all add: addref_def)

text \<open>
  A scan may pass over a thread when its counter is not full, and it is referenced if it has ended:
  then the scan leaves it as it was.
\<close>

definition scannable :: "rk \<Rightarrow> bool" where
  "scannable = (\<lambda>(r, k). \<forall>t \<in> set (k_tids k). refs r t < 255 \<and> (tstate k t = CH_STATE_FINAL \<longrightarrow> refs r t > 0))"

lemma u8_inc_pos: "(x::u8) < 255 \<Longrightarrow> x + 1 > 0"
proof -
  assume x: "x < 255"
  have "x + 1 \<noteq> 0"
  proof
    assume "x + 1 = 0"
    then have "x = -1" by (simp add: eq_neg_iff_add_eq_0)
    then show False using x by simp
  qed
  then show ?thesis by (simp add: word_gt_0)
qed

lemma release_ref_eq:
  "upd_life t (\<lambda>l. l\<lparr>l_refs := l_refs l - 1\<rparr>) (addref t r) = r"
  "n \<noteq> t \<Longrightarrow> upd_life t (\<lambda>l. l\<lparr>l_refs := l_refs l - 1\<rparr>) (addref n (addref t r)) = addref n r"
  by (simp_all add: addref_def upd_life_def fun_upd_twist)

lemma release_addref:
  assumes "refs r t < 255" "tstate k t = CH_STATE_FINAL \<longrightarrow> refs r t > 0"
  shows "chThdRelease t (addref t r, k) = Inr (True, r, k)"
    "n \<noteq> t \<Longrightarrow> chThdRelease t (addref n (addref t r), k) = Inr (True, addref n r, k)"
  using assms u8_inc_pos[OF assms(1)] by (auto simp: chThdRelease_def release_ref_eq Let_def simp del: upd_life_sel)

lemma next_in_split: "distinct (xs @ t # ys) \<Longrightarrow> next_in t (xs @ t # ys) = Some (case ys of [] \<Rightarrow> None | y # _ \<Rightarrow> Some y)"
  by (induction xs) (auto split: list.splits)

lemma reg_scan_finds:
  assumes "distinct (k_tids k)" "scannable (r, k)" "k_tids k = xs @ t # ys"
    and P: "\<And>u. u \<in> set (k_tids k) \<Longrightarrow> P u (addref u r) = Inr (p u)"
  shows "reg_scan P t (addref t r, k) =
    Some (Inr (case find p (t # ys) of None \<Rightarrow> (NotFound, r, k) | Some u \<Rightarrow> (Found u, addref u r, k)))"
  using assms(3)
proof (induction ys arbitrary: t xs)
  case Nil
  have t: "t \<in> set (k_tids k)" "refs r t < 255" "tstate k t = CH_STATE_FINAL \<longrightarrow> refs r t > 0"
    using assms(2) Nil by (simp_all add: scannable_def)
  have "next_in t (k_tids k) = Some None" using next_in_split[of xs t "[]"] assms(1) Nil by simp
  then show ?case
    using P[OF t(1)] release_addref(1)[OF t(2,3)] by (simp add: reg_scan.simps[of P t] chRegNextThread_def)
next
  case (Cons n ys)
  have t: "t \<in> set (k_tids k)" "refs r t < 255" "tstate k t = CH_STATE_FINAL \<longrightarrow> refs r t > 0"
    and n: "n \<noteq> t" "refs r n < 255"
    using assms(1,2) Cons.prems by (auto simp: scannable_def)
  have "next_in t (k_tids k) = Some (Some n)" using next_in_split[of xs t "n # ys"] assms(1) Cons.prems by simp
  then have nx: "chRegNextThread t (addref t r, k) = Inr (True, Some n, addref n r, k)"
    using release_addref(2)[OF t(2,3) n(1)] n by (simp add: chRegNextThread_def chThdAddRef_def flip: addref_def)
  have "k_tids k = (xs @ [t]) @ n # ys" using Cons.prems by simp
  from Cons.IH[OF this] show ?case
    using P[OF t(1)] nx by (simp add: reg_scan.simps[of P t])
qed

lemma reg_find_ok:
  assumes "life_inv (r, k)" "scannable (r, k)" "\<And>u. u \<in> set (k_tids k) \<Longrightarrow> P u (addref u r) = Inr (p u)"
  shows "reg_find P (r, k) = Inr (case find p (k_tids k) of None \<Rightarrow> (NotFound, r, k) | Some u \<Rightarrow> (Found u, addref u r, k))"
proof -
  have d: "distinct (k_tids k)" "k_cur k \<in> set (k_tids k)"
    using assms(1) lives_okD(1) life_cur(1) by (auto simp: life_inv_def)
  then obtain t ys where t: "k_tids k = [] @ t # ys" by (cases "k_tids k") auto
  have "chRegFirstThread (r, k) = Inr (t, addref t r, k)" using t by (simp add: chRegFirstThread_def addref_def)
  then show ?thesis
    using reg_scan_finds[where P = P and p = p, OF d(1) assms(2) t] assms(3) t by (simp add: reg_find_def finished_def)
qed

lemma find_by_name:
  assumes "life_inv (r, k)" "scannable (r, k)" "\<forall>u \<in> set (k_tids k). l_name (r_life r u) \<noteq> None"
  shows "chRegFindThreadByName name (r, k) =
    Inr (case find (\<lambda>u. l_name (r_life r u) = Some name) (k_tids k) of None \<Rightarrow> (NotFound, r, k) | Some u \<Rightarrow> (Found u, addref u r, k))"
  unfolding chRegFindThreadByName_def
  by (rule reg_find_ok[OF assms(1,2)]) (use assms(3) in \<open>auto simp: has_name_def chRegGetThreadNameX_def\<close>)

lemma find_by_wa:
  assumes "life_inv (r, k)" "scannable (r, k)"
  shows "chRegFindThreadByWorkingArea wa (r, k) =
    Inr (case find (\<lambda>u. l_wabase (r_life r u) = wa) (k_tids k) of None \<Rightarrow> (NotFound, r, k) | Some u \<Rightarrow> (Found u, addref u r, k))"
  unfolding chRegFindThreadByWorkingArea_def
  by (rule reg_find_ok[OF assms]) (simp add: has_wa_def chThdGetWorkingAreaX_def)

lemma find_by_pointer:
  assumes "life_inv (r, k)" "scannable (r, k)"
  shows "chRegFindThreadByPointer tp (r, k) =
    Inr (if tp \<in> set (k_tids k) then (Found tp, addref tp r, k) else (NotFound, r, k))"
proof -
  have "find (\<lambda>u. u = tp) xs = (if tp \<in> set xs then Some tp else None)" for xs by (induction xs) auto
  moreover have "chRegFindThreadByPointer tp (r, k) =
      Inr (case find (\<lambda>u. u = tp) (k_tids k) of None \<Rightarrow> (NotFound, r, k) | Some u \<Rightarrow> (Found u, addref u r, k))"
    unfolding chRegFindThreadByPointer_def by (rule reg_find_ok[OF assms]) simp
  ultimately show ?thesis by simp
qed

text \<open>The counter of the first thread goes from 255 to 0; the next step of the scan then halts.\<close>

lemma first_thread_wraps:
  assumes "k_tids k = t # ts" "refs r t = 255" "\<forall>u \<in> set ts. refs r u < 255" "t \<notin> set ts"
  shows "chRegFirstThread (r, k) = Inr (t, addref t r, k)" "refs (addref t r) t = 0"
    "chRegNextThread t (addref t r, k) = Inl (Halted ''not referenced'')"
  using assms by (auto simp: chRegFirstThread_def chRegNextThread_def chThdAddRef_def chThdRelease_def addref_def assertE_def bindE_def split: list.splits)

section \<open>New threads\<close>

lemma thd_object_init_sel [simp]:
  "k_tids (thd_object_init t p k) = k_tids k @ [t]" "k_cur (thd_object_init t p k) = k_cur k"
  "k_ready (thd_object_init t p k) = k_ready k" "k_idle (thd_object_init t p k) = k_idle k"
  "k_mtx (thd_object_init t p k) = k_mtx k" "k_cond (thd_object_init t p k) = k_cond k"
  "k_thr (thd_object_init t p k) u = (if u = t then \<lparr>t_prio = p, t_realprio = p, t_state = CH_STATE_WTSTART, t_u = t_u (k_thr k t),
         t_mtxlist = [], t_epending = 0, t_msgqueue = []\<rparr> else k_thr k u)"
  by (simp_all add: thd_object_init_def)

lemma thd_new_sys_inv:
  assumes "sys_inv k" "t \<notin> set (k_tids k)" "0 < p"
  shows "sys_inv (thd_object_init t p k)"
proof -
  let ?k = "thd_object_init t p k"
  have inv: "sched_inv k" "mtx_struct k" "qsorted k" "inherits k" "\<forall>u \<in> set (k_tids k). realprio k u \<le> prio k u \<and> justified k u"
    using assms(1) by (simp_all add: sys_inv_def mtx_inv_def)
  have ne: "t \<noteq> k_cur k" "t \<notin> set (k_ready k)" "t \<notin> set (mqueue k m)" "t \<notin> set (k_cond k c)" "mowner k m \<noteq> Some t" for m c
    using inv(1,2) assms(2) by (auto simp: sched_inv_def mtx_struct_def waits_mtx_def waits_cond_def)
  have pr: "psorted (prio ?k) xs = psorted (prio k) xs" if "t \<notin> set xs" for xs
    using that by (intro psorted_cong) auto
  have "sched_inv ?k"
    using inv(1) ne assms(3) pr[OF ne(2)] by (auto simp: sched_inv_def)
  moreover have w: "waits_mtx ?k u m \<longleftrightarrow> waits_mtx k u m" "waits_cond ?k u c \<longleftrightarrow> waits_cond k u c" for u m c
    using assms(2) by (auto simp: waits_mtx_def waits_cond_def)
  have "mtx_struct ?k"
    using inv(2) ne(5) assms(2,3) unfolding mtx_struct_def w by auto
  moreover have "qsorted ?k" using inv(3) pr ne(3,4) by (simp add: qsorted_def)
  moreover have "inherits ?k" using inv(4) ne(3,5) by (fastforce simp: inherits_def)
  moreover have "\<forall>u \<in> set (k_tids ?k). realprio ?k u \<le> prio ?k u \<and> justified ?k u"
    using inv(5) ne(3) assms(2) by (fastforce simp: justified_def)
  ultimately show ?thesis by (simp add: sys_inv_def mtx_inv_def)
qed

lemma thd_new_lives:
  assumes "lives_ok r k" "t \<notin> set (k_tids k)"
  shows "lives_ok (thd_life_init t nm (upd_life t (\<lambda>l. l\<lparr>l_wabase := wa\<rparr>) r)) (thd_object_init t p k)"
    (is "lives_ok ?r ?k")
proof -
  have w: "waiting ?r u = (if u = t then [] else waiting r u)" for u by (simp add: thd_life_init_def)
  have nt: "t \<notin> set (waiting r u)" for u using lives_okD(3)[OF assms(1)] assms(2) by blast
  have m: "s \<in> set (waiting ?r u) \<longleftrightarrow> s \<in> set (waiting r u) \<and> u \<noteq> t" for s u by (simp add: w)
  have st: "tstate ?k u = CH_STATE_FINAL \<longleftrightarrow> tstate k u = CH_STATE_FINAL \<and> u \<noteq> t"
    "tstate ?k u = CH_STATE_WTEXIT \<longleftrightarrow> tstate k u = CH_STATE_WTEXIT \<and> u \<noteq> t" for u by simp_all
  show ?thesis
    unfolding lives_ok_def st
  proof (intro conjI allI ballI impI)
    show "distinct (k_tids ?k)" using lives_okD(1)[OF assms(1)] assms(2) by simp
    show "distinct (waiting ?r u)" for u using lives_okD(2)[OF assms(1)] by (simp add: w)
    fix u s assume s: "s \<in> set (waiting ?r u)"
    then show "s \<in> set (k_tids ?k)" "tstate k s = CH_STATE_WTEXIT" "s \<noteq> t"
      unfolding m using lives_okD(3,4)[OF assms(1)] nt by auto
    show "u = u'" if "s \<in> set (waiting ?r u')" for u' using s that lives_okD(5)[OF assms(1)] unfolding m by blast
  next
    fix u assume u: "u \<in> set (k_tids ?k)" "tstate k u = CH_STATE_FINAL \<and> u \<noteq> t"
    then have "u \<in> set (k_tids k)" by simp
    then show "waiting ?r u = []" "\<exists>m. t_u (k_thr ?k u) = ExitCode m"
      using lives_okD(6,7)[OF assms(1)] u(2) by (simp_all add: w)
  qed
qed

definition td_valid :: "layout_t \<Rightarrow> thread_descriptor_t \<Rightarrow> bool" where
  "td_valid lay td \<longleftrightarrow> MEM_IS_ALIGNED (td_wbase td) PORT_WORKING_AREA_ALIGN \<and> MEM_IS_ALIGNED (td_wend td) PORT_STACK_ALIGN \<and>
     td_wend td > td_wbase td \<and> td_wend td - td_wbase td \<ge> wa_size0 lay \<and> td_prio td \<le> HIGHPRIO \<and> td_funcp td \<noteq> 0"

lemma chThdCreateSuspendedI_ok:
  assumes "life_inv (r, k)" "td_valid lay td" "0 < td_prio td" "thd_at lay (td_wend td) \<notin> set (k_tids k)"
  shows "\<exists>r'. chThdCreateSuspendedI lay td (r, k) = Inr (thd_at lay (td_wend td), r', thd_object_init (thd_at lay (td_wend td)) (td_prio td) k) \<and>
    life_inv (r', thd_object_init (thd_at lay (td_wend td)) (td_prio td) k) \<and>
    (\<forall>u. u \<noteq> thd_at lay (td_wend td) \<longrightarrow> r_life r' u = r_life r u) \<and>
    l_name (r_life r' (thd_at lay (td_wend td))) = td_name td \<and> l_wabase (r_life r' (thd_at lay (td_wend td))) = td_wbase td \<and>
    refs r' (thd_at lay (td_wend td)) = 1 \<and> l_flags (r_life r' (thd_at lay (td_wend td))) = CH_FLAG_MODE_STATIC"
  using assms thd_new_lives[of r k "thd_at lay (td_wend td)"] thd_new_sys_inv[of k "thd_at lay (td_wend td)"]
  by (simp add: chThdCreateSuspendedI_def td_valid_def life_inv_def Let_def) (simp add: thd_life_init_def)

text \<open>
  The whole of \<open>chThdCreate\<close>: a free working area gives a thread that is listed in the registry with
  one reference and that runs or is ready; a used one stops the system.
\<close>

lemma chThdCreate_ok:
  assumes inv: "life_inv (r, k)" "sched_ok k" "scannable (r, k)"
    and td: "td_valid lay td" "0 < td_prio td" "thd_at lay (td_wend td) \<notin> set (k_tids k)"
    and free: "\<forall>u \<in> set (k_tids k). l_wabase (r_life r u) \<noteq> td_wbase td"
  shows "\<exists>r' k'. chThdCreate lay td (r, k) = Inr (Some (thd_at lay (td_wend td)), r', k') \<and> life_inv (r', k') \<and> sched_ok k' \<and>
    k_tids k' = k_tids k @ [thd_at lay (td_wend td)] \<and> tstate k' (thd_at lay (td_wend td)) \<in> {CH_STATE_READY, CH_STATE_CURRENT} \<and>
    (\<forall>u. u \<noteq> thd_at lay (td_wend td) \<longrightarrow> r_life r' u = r_life r u) \<and>
    l_name (r_life r' (thd_at lay (td_wend td))) = td_name td \<and> l_wabase (r_life r' (thd_at lay (td_wend td))) = td_wbase td \<and>
    refs r' (thd_at lay (td_wend td)) = 1 \<and> l_flags (r_life r' (thd_at lay (td_wend td))) = CH_FLAG_MODE_STATIC"
proof -
  let ?t = "thd_at lay (td_wend td)"
  let ?k = "thd_object_init ?t (td_prio td) k"
  obtain r' where r': "chThdCreateSuspendedI lay td (r, k) = Inr (?t, r', ?k)" "life_inv (r', ?k)"
      "\<forall>u. u \<noteq> ?t \<longrightarrow> r_life r' u = r_life r u" "l_name (r_life r' ?t) = td_name td"
      "l_wabase (r_life r' ?t) = td_wbase td" "refs r' ?t = 1" "l_flags (r_life r' ?t) = CH_FLAG_MODE_STATIC"
    using chThdCreateSuspendedI_ok[OF inv(1) td] by blast
  have s: "sys_inv ?k" "lives_ok r' ?k" using r'(2) by (simp_all add: life_inv_def)
  have fp: "firstprio ?k = firstprio k" "prio ?k (k_cur k) = prio k (k_cur k)"
    using inv(1) life_cur(1)[OF inv(1)] td(3) unfolding life_inv_def sys_inv_def sched_inv_def
    by (auto simp: firstprio_def split: list.splits)
  then have "sched_ok ?k" using s(1) inv(2) by (simp add: sched_ok_def sys_inv_def)
  then obtain k' where k': "chSchWakeupS ?t MSG_OK ?k = Inr k'" "sys_inv k'" "sched_ok k'" "sched_frame ?k k'"
      "\<forall>u. u \<noteq> ?t \<longrightarrow> t_u (k_thr k' u) = t_u (k_thr ?k u)"
      "\<forall>u \<in> set (k_tids ?k). tstate k' u \<in> {CH_STATE_READY, CH_STATE_CURRENT} \<longleftrightarrow>
         u = ?t \<or> tstate ?k u \<in> {CH_STATE_READY, CH_STATE_CURRENT}"
      "\<forall>u. u \<noteq> ?t \<longrightarrow> u \<noteq> k_cur k \<longrightarrow> k_thr k' u = k_thr ?k u"
    using wakeup_elsewhere[OF s(1), of ?t MSG_OK] by auto
  have tids: "k_tids k' = k_tids k @ [?t]" using k'(4) by (simp add: sched_frame_def)
  have "lives_ok r' k'"
  proof (rule lives_ok_wakeup[OF s(2)])
    show "k_tids k' = k_tids ?k" using tids by simp
    fix u assume u: "u \<in> set (k_tids ?k)"
    show "k_thr k' u = k_thr ?k u" if "tstate ?k u \<in> {CH_STATE_WTEXIT, CH_STATE_FINAL}"
      using that k'(7) life_cur(2)[OF inv(1)] by (auto split: if_splits)
    show "tstate ?k u = CH_STATE_FINAL" if "tstate k' u = CH_STATE_FINAL"
    proof (cases "u = ?t \<or> u = k_cur k")
      case True
      have "k_cur k \<noteq> ?t" using life_cur(1)[OF inv(1)] td(3) by metis
      then have "u = ?t \<or> tstate ?k u \<in> {CH_STATE_READY, CH_STATE_CURRENT}" using True life_cur(2)[OF inv(1)] by auto
      then show ?thesis using k'(6)[rule_format, OF u] that by simp
    next
      case False
      then show ?thesis using k'(7) that by simp
    qed
  qed
  moreover have "chRegFindThreadByWorkingArea (td_wbase td) (r, k) = Inr (NotFound, r, k)"
    using find_by_wa[OF inv(1,3)] free by (simp add: find_None_iff split: option.splits)
  then have "chThdCreate lay td (r, k) = Inr (Some ?t, r', k')"
    using r'(1) k'(1) by (simp add: chThdCreate_def wa_free_def create_start_def)
  ultimately show ?thesis
    using k'(2,3,6) tids r'(3-7) by (simp add: life_inv_def)
qed

lemma chThdCreate_in_use:
  assumes "life_inv (r, k)" "scannable (r, k)" "u \<in> set (k_tids k)" "l_wabase (r_life r u) = td_wbase td"
  shows "chThdCreate lay td (r, k) = Inl (Halted ''working area in use'')"
    "chThdCreateSuspended lay td (r, k) = Inl (Halted ''working area in use'')"
proof -
  have "find (\<lambda>u. l_wabase (r_life r u) = td_wbase td) (k_tids k) \<noteq> None"
    using assms(3,4) by (auto simp: find_None_iff)
  then show "chThdCreate lay td (r, k) = Inl (Halted ''working area in use'')"
    "chThdCreateSuspended lay td (r, k) = Inl (Halted ''working area in use'')"
    using find_by_wa[OF assms(1,2)] by (auto simp: chThdCreate_def chThdCreateSuspended_def wa_free_def)
qed

end
