(* ===== verification/Ch_Evt.thy ===== *)
theory Ch_Evt
  imports Ch_Thd
begin

text \<open>
  Events: \<^verbatim>\<open>chevents.c\<close> and \<^verbatim>\<open>chevents.h\<close>. An event source is the list of the listeners
  registered on it, latest first (the chain of their \<open>next\<close> fields); a listener is named by its
  address and registered on one source at a time. The events pending for a thread are a
  field of the thread. A call that has to wait returns \<open>None\<close> and its caller sleeps; the code
  after the sleep has the suffix \<open>_resume\<close>.
\<close>

unbundle bit_operations_syntax

section \<open>Operations\<close>

type_synonym eventmask_t = u32
type_synonym eventflags_t = u32

record event_listener_t =
  el_listener :: tid
  el_events :: eventmask_t
  el_flags :: eventflags_t
  el_wflags :: eventflags_t

record events_t =
  ev_source :: "nat \<Rightarrow> nat list"
  ev_listener :: "nat \<Rightarrow> event_listener_t"

definition EVENT_MASK :: "nat \<Rightarrow> eventmask_t" where
  "EVENT_MASK eid = push_bit eid 1"

abbreviation epending :: "kernel_t \<Rightarrow> tid \<Rightarrow> eventmask_t" where
  "epending k t \<equiv> t_epending (k_thr k t)"

definition set_epending :: "tid \<Rightarrow> eventmask_t \<Rightarrow> kernel_t \<Rightarrow> kernel_t" where
  "set_epending t m = upd_thr t (\<lambda>th. th\<lparr>t_epending := m\<rparr>)"

definition chEvtObjectInit :: "nat \<Rightarrow> events_t \<Rightarrow> events_t" where
  "chEvtObjectInit esp e = e\<lparr>ev_source := (ev_source e)(esp := [])\<rparr>"

definition chEvtIsListeningI :: "nat \<Rightarrow> events_t \<Rightarrow> bool" where
  "chEvtIsListeningI esp e \<longleftrightarrow> ev_source e esp \<noteq> []"

definition chEvtRegisterMaskWithFlagsI ::
  "nat \<Rightarrow> nat \<Rightarrow> eventmask_t \<Rightarrow> eventflags_t \<Rightarrow> kernel_t \<Rightarrow> events_t \<Rightarrow> events_t" where
  "chEvtRegisterMaskWithFlagsI esp elp events wflags k e =
     e\<lparr>ev_source := (ev_source e)(esp := elp # ev_source e esp),
       ev_listener := (ev_listener e)(elp :=
         \<lparr>el_listener = k_cur k, el_events = events, el_flags = 0, el_wflags = wflags\<rparr>)\<rparr>"

definition chEvtRegisterMaskWithFlags ::
  "nat \<Rightarrow> nat \<Rightarrow> eventmask_t \<Rightarrow> eventflags_t \<Rightarrow> kernel_t \<Rightarrow> events_t \<Rightarrow> events_t" where
  "chEvtRegisterMaskWithFlags esp elp events wflags k e = chEvtRegisterMaskWithFlagsI esp elp events wflags k e"

definition chEvtRegisterMask :: "nat \<Rightarrow> nat \<Rightarrow> eventmask_t \<Rightarrow> kernel_t \<Rightarrow> events_t \<Rightarrow> events_t" where
  "chEvtRegisterMask esp elp events k e = chEvtRegisterMaskWithFlags esp elp events (- 1) k e"

definition chEvtRegister :: "nat \<Rightarrow> nat \<Rightarrow> nat \<Rightarrow> kernel_t \<Rightarrow> events_t \<Rightarrow> events_t" where
  "chEvtRegister esp elp event k e = chEvtRegisterMask esp elp (EVENT_MASK event) k e"

text \<open>The scan of the chain for the listener.\<close>

primrec unlink :: "nat \<Rightarrow> nat list \<Rightarrow> nat list" where
  "unlink elp [] = []"
| "unlink elp (p # ps) = (if p = elp then ps else p # unlink elp ps)"

definition chEvtUnregister :: "nat \<Rightarrow> nat \<Rightarrow> events_t \<Rightarrow> events_t" where
  "chEvtUnregister esp elp e = e\<lparr>ev_source := (ev_source e)(esp := unlink elp (ev_source e esp))\<rparr>"

definition chEvtGetAndClearEventsI :: "eventmask_t \<Rightarrow> kernel_t \<Rightarrow> eventmask_t \<times> kernel_t" where
  "chEvtGetAndClearEventsI events k =
     (let c = k_cur k in (epending k c AND events, set_epending c (epending k c AND NOT events) k))"

definition chEvtGetAndClearEvents :: "eventmask_t \<Rightarrow> kernel_t \<Rightarrow> eventmask_t \<times> kernel_t" where
  "chEvtGetAndClearEvents events k = chEvtGetAndClearEventsI events k"

definition chEvtAddEventsI :: "eventmask_t \<Rightarrow> kernel_t \<Rightarrow> eventmask_t \<times> kernel_t" where
  "chEvtAddEventsI events k =
     (let c = k_cur k; m = epending k c OR events in (m, set_epending c m k))"

definition chEvtAddEvents :: "eventmask_t \<Rightarrow> kernel_t \<Rightarrow> eventmask_t \<times> kernel_t" where
  "chEvtAddEvents events k = chEvtAddEventsI events k"

definition chEvtGetEventsX :: "kernel_t \<Rightarrow> eventmask_t" where
  "chEvtGetEventsX k = epending k (k_cur k)"

definition chEvtGetAndClearFlagsI :: "nat \<Rightarrow> events_t \<Rightarrow> eventflags_t \<times> events_t" where
  "chEvtGetAndClearFlagsI elp e =
     (let l = ev_listener e elp in
      (el_flags l AND el_wflags l, e\<lparr>ev_listener := (ev_listener e)(elp := l\<lparr>el_flags := 0\<rparr>)\<rparr>))"

definition chEvtGetAndClearFlags :: "nat \<Rightarrow> events_t \<Rightarrow> eventflags_t \<times> events_t" where
  "chEvtGetAndClearFlags elp e =
     (let l = ev_listener e elp in
      (el_flags l AND el_wflags l, e\<lparr>ev_listener := (ev_listener e)(elp := l\<lparr>el_flags := 0\<rparr>)\<rparr>))"

text \<open>
  The test on the AND and OR conditions, and the wake-up of a thread that passes it. A thread in
  one of the two states has a mask in its union; the invariant below says so.
\<close>

definition evt_satisfied :: "kernel_t \<Rightarrow> tid \<Rightarrow> bool" where
  "evt_satisfied k t \<longleftrightarrow>
     (case t_u (k_thr k t) of
        EwMask m \<Rightarrow>
          (tstate k t = CH_STATE_WTOREVT \<and> epending k t AND m \<noteq> 0) \<or>
          (tstate k t = CH_STATE_WTANDEVT \<and> epending k t AND m = m)
      | _ \<Rightarrow> False)"

definition chEvtSignalI :: "tid \<Rightarrow> eventmask_t \<Rightarrow> kernel_t \<Rightarrow> kernel_t result" where
  "chEvtSignalI t events k =
     (let k = set_epending t (epending k t OR events) k in
      if evt_satisfied k t then chSchReadyI t (set_u t (RdyMsg MSG_OK) k) else Inr k)"

definition chEvtSignal :: "tid \<Rightarrow> eventmask_t \<Rightarrow> kernel_t \<Rightarrow> kernel_t result" where
  "chEvtSignal t events k = bindE (chEvtSignalI t events k) chSchRescheduleS"

definition evt_post :: "eventflags_t \<Rightarrow> nat \<Rightarrow> events_t \<times> kernel_t \<Rightarrow> (events_t \<times> kernel_t) result" where
  "evt_post flags elp = (\<lambda>(e, k).
     let l = (ev_listener e elp)\<lparr>el_flags := el_flags (ev_listener e elp) OR flags\<rparr>;
         e = e\<lparr>ev_listener := (ev_listener e)(elp := l)\<rparr> in
     if flags = 0 \<or> flags AND el_wflags l \<noteq> 0
     then bindE (chEvtSignalI (el_listener l) (el_events l) k) (\<lambda>k. Inr (e, k))
     else Inr (e, k))"

definition chEvtBroadcastFlagsI :: "nat \<Rightarrow> eventflags_t \<Rightarrow> events_t \<times> kernel_t \<Rightarrow> (events_t \<times> kernel_t) result" where
  "chEvtBroadcastFlagsI esp flags = (\<lambda>(e, k). foldE (evt_post flags) (ev_source e esp) (e, k))"

definition chEvtBroadcastFlags :: "nat \<Rightarrow> eventflags_t \<Rightarrow> events_t \<times> kernel_t \<Rightarrow> (events_t \<times> kernel_t) result" where
  "chEvtBroadcastFlags esp flags s =
     bindE (chEvtBroadcastFlagsI esp flags s) (\<lambda>(e, k). bindE (chSchRescheduleS k) (\<lambda>k. Inr (e, k)))"

definition chEvtBroadcastI :: "nat \<Rightarrow> events_t \<times> kernel_t \<Rightarrow> (events_t \<times> kernel_t) result" where
  "chEvtBroadcastI esp s = chEvtBroadcastFlagsI esp 0 s"

definition chEvtBroadcast :: "nat \<Rightarrow> events_t \<times> kernel_t \<Rightarrow> (events_t \<times> kernel_t) result" where
  "chEvtBroadcast esp s = chEvtBroadcastFlags esp 0 s"

text \<open>
  The loop of \<open>chEvtDispatch\<close> from event \<open>eid\<close> on. A handler is a null pointer (\<open>None\<close>) or a
  function on the state \<open>'s\<close> it works on.
\<close>

function dispatch_loop :: "(nat \<Rightarrow> 's \<Rightarrow> 's result) option list \<Rightarrow> nat \<Rightarrow> eventmask_t \<Rightarrow> 's \<Rightarrow> 's result" where
  "dispatch_loop handlers eid events s =
     (if events = 0 then Inr s
      else if eid \<ge> 32 then Inl BadShift
      else if events AND EVENT_MASK eid \<noteq> 0 then
        bindE (rd handlers (int eid)) (\<lambda>h.
        case h of
          None \<Rightarrow> Inl (Halted ''null handler'')
        | Some f \<Rightarrow> bindE (f eid s) (dispatch_loop handlers (eid + 1) (events AND NOT (EVENT_MASK eid))))
      else dispatch_loop handlers (eid + 1) events s)"
  by pat_completeness auto

termination dispatch_loop
  by (relation "measure (\<lambda>(_, eid, _, _). 32 - eid)") auto

declare dispatch_loop.simps [simp del]

definition chEvtDispatch :: "(nat \<Rightarrow> 's \<Rightarrow> 's result) option list \<Rightarrow> eventmask_t \<Rightarrow> 's \<Rightarrow> 's result" where
  "chEvtDispatch handlers events s = dispatch_loop handlers 0 events s"

text \<open>Taking events from the running thread: one, the event of the lowest number, or all of them.\<close>

definition lowest :: "eventmask_t \<Rightarrow> eventmask_t" where
  "lowest m = m XOR (m AND (m - 1))"

definition evt_take :: "tid \<Rightarrow> eventmask_t \<Rightarrow> kernel_t \<Rightarrow> eventmask_t \<times> kernel_t" where
  "evt_take t m k = (m, set_epending t (epending k t AND NOT m) k)"

definition evt_sleep :: "tstate_t \<Rightarrow> eventmask_t \<Rightarrow> kernel_t \<Rightarrow> (eventmask_t option \<times> kernel_t) result" where
  "evt_sleep st events k =
     bindE (chSchGoSleepS st (set_u (k_cur k) (EwMask events) k)) (\<lambda>k. Inr (None, k))"

definition chEvtWaitOne :: "eventmask_t \<Rightarrow> kernel_t \<Rightarrow> (eventmask_t option \<times> kernel_t) result" where
  "chEvtWaitOne events k =
     (let m = epending k (k_cur k) AND events in
      if m = 0 then evt_sleep CH_STATE_WTOREVT events k
      else let (m, k) = evt_take (k_cur k) (lowest m) k in Inr (Some m, k))"

definition chEvtWaitOne_resume :: "eventmask_t \<Rightarrow> tid \<Rightarrow> kernel_t \<Rightarrow> eventmask_t \<times> kernel_t" where
  "chEvtWaitOne_resume events t k = evt_take t (lowest (epending k t AND events)) k"

definition chEvtWaitAny :: "eventmask_t \<Rightarrow> kernel_t \<Rightarrow> (eventmask_t option \<times> kernel_t) result" where
  "chEvtWaitAny events k =
     (let m = epending k (k_cur k) AND events in
      if m = 0 then evt_sleep CH_STATE_WTOREVT events k
      else let (m, k) = evt_take (k_cur k) m k in Inr (Some m, k))"

definition chEvtWaitAny_resume :: "eventmask_t \<Rightarrow> tid \<Rightarrow> kernel_t \<Rightarrow> eventmask_t \<times> kernel_t" where
  "chEvtWaitAny_resume events t k = evt_take t (epending k t AND events) k"

definition chEvtWaitAll :: "eventmask_t \<Rightarrow> kernel_t \<Rightarrow> (eventmask_t option \<times> kernel_t) result" where
  "chEvtWaitAll events k =
     (if epending k (k_cur k) AND events \<noteq> events then evt_sleep CH_STATE_WTANDEVT events k
      else let (m, k) = evt_take (k_cur k) events k in Inr (Some m, k))"

definition chEvtWaitAll_resume :: "eventmask_t \<Rightarrow> tid \<Rightarrow> kernel_t \<Rightarrow> eventmask_t \<times> kernel_t" where
  "chEvtWaitAll_resume events t k = evt_take t events k"

text \<open>With a timeout. The sleep returns a negative message when the time is over.\<close>

definition evt_sleep_timeout ::
  "tstate_t \<Rightarrow> eventmask_t \<Rightarrow> sysinterval_t \<Rightarrow> kernel_t \<Rightarrow> (eventmask_t option \<times> kernel_t) result" where
  "evt_sleep_timeout st events timeout k =
     (if timeout = TIME_IMMEDIATE then Inr (Some 0, k)
      else bindE (chSchGoSleepTimeoutS st timeout (set_u (k_cur k) (EwMask events) k)) (\<lambda>k. Inr (None, k)))"

definition evt_resume_timeout ::
  "(tid \<Rightarrow> kernel_t \<Rightarrow> eventmask_t \<times> kernel_t) \<Rightarrow> tid \<Rightarrow> kernel_t \<Rightarrow> (eventmask_t \<times> kernel_t) result" where
  "evt_resume_timeout taking t k =
     bindE (chSchGoSleepTimeoutS_resume t k) (\<lambda>(msg, k). Inr (if msg < MSG_OK then (0, k) else taking t k))"

definition chEvtWaitOneTimeout :: "eventmask_t \<Rightarrow> sysinterval_t \<Rightarrow> kernel_t \<Rightarrow> (eventmask_t option \<times> kernel_t) result" where
  "chEvtWaitOneTimeout events timeout k =
     (let m = epending k (k_cur k) AND events in
      if m = 0 then evt_sleep_timeout CH_STATE_WTOREVT events timeout k
      else let (m, k) = evt_take (k_cur k) (lowest m) k in Inr (Some m, k))"

definition chEvtWaitOneTimeout_resume :: "eventmask_t \<Rightarrow> tid \<Rightarrow> kernel_t \<Rightarrow> (eventmask_t \<times> kernel_t) result" where
  "chEvtWaitOneTimeout_resume events = evt_resume_timeout (chEvtWaitOne_resume events)"

definition chEvtWaitAnyTimeout :: "eventmask_t \<Rightarrow> sysinterval_t \<Rightarrow> kernel_t \<Rightarrow> (eventmask_t option \<times> kernel_t) result" where
  "chEvtWaitAnyTimeout events timeout k =
     (let m = epending k (k_cur k) AND events in
      if m = 0 then evt_sleep_timeout CH_STATE_WTOREVT events timeout k
      else let (m, k) = evt_take (k_cur k) m k in Inr (Some m, k))"

definition chEvtWaitAnyTimeout_resume :: "eventmask_t \<Rightarrow> tid \<Rightarrow> kernel_t \<Rightarrow> (eventmask_t \<times> kernel_t) result" where
  "chEvtWaitAnyTimeout_resume events = evt_resume_timeout (chEvtWaitAny_resume events)"

definition chEvtWaitAllTimeout :: "eventmask_t \<Rightarrow> sysinterval_t \<Rightarrow> kernel_t \<Rightarrow> (eventmask_t option \<times> kernel_t) result" where
  "chEvtWaitAllTimeout events timeout k =
     (if epending k (k_cur k) AND events \<noteq> events then evt_sleep_timeout CH_STATE_WTANDEVT events timeout k
      else let (m, k) = evt_take (k_cur k) events k in Inr (Some m, k))"

definition chEvtWaitAllTimeout_resume :: "eventmask_t \<Rightarrow> tid \<Rightarrow> kernel_t \<Rightarrow> (eventmask_t \<times> kernel_t) result" where
  "chEvtWaitAllTimeout_resume events = evt_resume_timeout (chEvtWaitAll_resume events)"

section \<open>The lowest event\<close>

lemma lowest_eq:
  assumes "bit m i" "\<forall>j < i. \<not> bit m j"
  shows "lowest m = EVENT_MASK i"
proof (rule bit_word_eqI)
  fix j :: nat
  show "bit (lowest m) j \<longleftrightarrow> bit (EVENT_MASK i) j"
    using assms bit_pred[OF assms, of j] bit_imp_le_length[OF assms(1)]
    by (auto simp: lowest_def EVENT_MASK_def bit_simps)
qed

lemma lowest_ok:
  assumes "m \<noteq> 0"
  shows "\<exists>i < 32. bit m i \<and> (\<forall>j < i. \<not> bit m j) \<and> lowest m = EVENT_MASK i"
proof -
  obtain i where i: "i < 32" "bit m i" "\<forall>j < i. \<not> bit m j"
    using least_bit[OF assms] by blast
  with lowest_eq[OF i(2,3)] show ?thesis by blast
qed

section \<open>Dispatching\<close>

lemma event_mask_test: "m AND EVENT_MASK eid \<noteq> 0 \<longleftrightarrow> bit m eid"
  by (simp add: EVENT_MASK_def push_bit_eq_mult and_exp_eq_0_iff_not_bit)

text \<open>What the loop does: it calls the handlers of the events that are set, lowest number first.\<close>

definition run_handler :: "(nat \<Rightarrow> 's \<Rightarrow> 's result) option list \<Rightarrow> nat \<Rightarrow> 's \<Rightarrow> 's result" where
  "run_handler handlers i s =
     (if i < length handlers
      then (case handlers ! i of None \<Rightarrow> Inl (Halted ''null handler'') | Some f \<Rightarrow> f i s)
      else Inl OutOfBounds)"

lemma dispatch_loop_handlers:
  assumes "eid \<le> 32" "\<forall>j < eid. \<not> bit events j"
  shows "dispatch_loop handlers eid events s = foldE (run_handler handlers) (filter (bit events) [eid..<32]) s"
  using assms
proof (induction handlers eid events s rule: dispatch_loop.induct)
  case (1 handlers eid events s)
  consider "events = 0" | "events \<noteq> 0" "eid = 32" | "events \<noteq> 0" "eid < 32" using 1(3) by linarith
  then show ?case
  proof cases
    case 1
    then show ?thesis by (simp add: dispatch_loop.simps)
  next
    case 2
    have "\<not> bit events j" for j
      using 1(4) 2(2) bit_imp_le_length[of events j] by auto
    then have "events = 0" using bit_eq_iff[of events 0] by auto
    with 2(1) show ?thesis by simp
  next
    case 3
    then have upt: "[eid..<32] = eid # [eid + 1..<32]" by (simp add: upt_conv_Cons)
    show ?thesis
    proof (cases "bit events eid")
      case True
      let ?ev = "events AND NOT (EVENT_MASK eid)"
      have b: "bit ?ev j \<longleftrightarrow> bit events j \<and> j \<noteq> eid" for j
        using bit_imp_le_length[of events j] by (auto simp: EVENT_MASK_def bit_simps)
      have f: "filter (bit ?ev) [eid + 1..<32] = filter (bit events) [eid + 1..<32]"
        by (rule filter_cong) (auto simp: b)
      have low: "\<forall>j < eid + 1. \<not> bit ?ev j" using 1(4) b by (auto simp: less_Suc_eq)
      have IH: "dispatch_loop handlers (eid + 1) ?ev s' = foldE (run_handler handlers) (filter (bit events) [eid + 1..<32]) s'"
        if "eid < length handlers" "handlers ! eid = Some h" "h eid s = Inr s'" for h s'
        using 1(1)[OF 3(1) _ _ _ that(2) that(3) _ low] 3(2) True that(1) f by (simp add: event_mask_test rd_def)
      show ?thesis
        using 3 True IH unfolding upt
        by (subst dispatch_loop.simps) (auto simp: event_mask_test rd_def run_handler_def bindE_def split: option.splits sum.splits)
    next
      case False
      have low: "\<forall>j < eid + 1. \<not> bit events j" using 1(4) False by (auto simp: less_Suc_eq)
      show ?thesis
        using 3 False 1(2)[OF 3(1) _ _ _ low] unfolding upt by (subst dispatch_loop.simps) (simp add: event_mask_test)
    qed
  qed
qed

lemma chEvtDispatch_handlers:
  "chEvtDispatch handlers events s = foldE (run_handler handlers) (filter (bit events) [0..<32]) s"
  by (simp add: chEvtDispatch_def dispatch_loop_handlers)

section \<open>Invariant\<close>

text \<open>
  No wake-up is lost: a thread that waits for events has not yet got what it waits for.
\<close>

definition evt_waiting :: "kernel_t \<Rightarrow> bool" where
  "evt_waiting k \<longleftrightarrow> (\<forall>t \<in> set (k_tids k). tstate k t \<in> {CH_STATE_WTOREVT, CH_STATE_WTANDEVT} \<longrightarrow>
     (\<exists>m. t_u (k_thr k t) = EwMask m) \<and> \<not> evt_satisfied k t)"

definition evt_inv :: "kernel_t \<Rightarrow> bool" where
  "evt_inv k \<longleftrightarrow> sys_inv k \<and> evt_waiting k"

lemma set_epending_sel [simp]:
  "k_tids (set_epending t x k) = k_tids k" "k_cur (set_epending t x k) = k_cur k"
  "k_ready (set_epending t x k) = k_ready k" "k_idle (set_epending t x k) = k_idle k"
  "k_mtx (set_epending t x k) = k_mtx k" "k_sem (set_epending t x k) = k_sem k"
  "k_cond (set_epending t x k) = k_cond k" "k_ref (set_epending t x k) = k_ref k"
  "k_queue (set_epending t x k) = k_queue k" "k_timer (set_epending t x k) = k_timer k"
  "prio (set_epending t x k) u = prio k u" "realprio (set_epending t x k) u = realprio k u"
  "tstate (set_epending t x k) u = tstate k u" "t_u (k_thr (set_epending t x k) u) = t_u (k_thr k u)"
  "mtxlist (set_epending t x k) u = mtxlist k u"
  "epending (set_epending t x k) u = (if u = t then x else epending k u)"
  "t_msgqueue (k_thr (set_epending t x k) u) = t_msgqueue (k_thr k u)"
  by (simp_all add: set_epending_def upd_thr_def)

lemma set_epending_obj_frame: "obj_frame k (set_epending t x k)"
  by (simp add: obj_frame_def)

lemma evt_satisfied_cong:
  "t_u (k_thr k' t) = t_u (k_thr k t) \<Longrightarrow> tstate k' t = tstate k t \<Longrightarrow> epending k' t = epending k t \<Longrightarrow>
    evt_satisfied k' t = evt_satisfied k t"
  by (simp add: evt_satisfied_def split: tunion.split)

lemma chEvtSignalI_ok:
  assumes "evt_inv k" "t \<in> set (k_tids k)"
  shows "\<exists>k'. chEvtSignalI t events k = Inr k' \<and> evt_inv k' \<and> k_cur k' = k_cur k \<and> k_tids k' = k_tids k \<and>
    epending k' t = epending k t OR events \<and> (\<forall>u. u \<noteq> t \<longrightarrow> k_thr k' u = k_thr k u) \<and>
    (if evt_satisfied (set_epending t (epending k t OR events) k) t
     then tstate k' t = CH_STATE_READY \<and> rdymsg t k' = Inr MSG_OK
     else tstate k' t = tstate k t \<and> t_u (k_thr k' t) = t_u (k_thr k t))"
proof -
  let ?k = "set_epending t (epending k t OR events) k"
  have s: "sys_inv k" "evt_waiting k" using assms(1) by (simp_all add: evt_inv_def)
  have thr: "k_thr ?k u = k_thr k u" if "u \<noteq> t" for u using that by (simp add: set_epending_def upd_thr_def)
  show ?thesis
  proof (cases "evt_satisfied ?k t")
    case False
    have "sys_inv ?k" by (rule obj_frame_sys_inv[OF set_epending_obj_frame s(1)])
    moreover have "evt_waiting ?k"
      using s(2) False evt_satisfied_cong[of ?k _ k] unfolding evt_waiting_def by (metis set_epending_sel)
    ultimately show ?thesis
      using False thr by (simp add: chEvtSignalI_def evt_inv_def Let_def)
  next
    case True
    let ?k2 = "set_u t (RdyMsg MSG_OK) ?k"
    have st: "tstate k t \<in> {CH_STATE_WTOREVT, CH_STATE_WTANDEVT}"
      using True by (auto simp: evt_satisfied_def split: tunion.splits)
    have "obj_frame k ?k2" using st by (auto simp: obj_frame_def)
    then obtain k' where k': "chSchReadyI t ?k2 = Inr k'" "sys_inv k'" "sched_frame ?k2 k'" "k_cur k' = k_cur ?k2"
        "k_thr k' = (k_thr ?k2)(t := (k_thr ?k2 t)\<lparr>t_state := CH_STATE_READY\<rparr>)"
      using ready_elsewhere[of ?k2 t] obj_frame_sys_inv[OF _ s(1)] assms(2) st by auto
    have other: "k_thr k' u = k_thr k u" if "u \<noteq> t" for u
      using that thr by (simp add: k'(5) kernel_upd)
    have tids: "k_tids k' = k_tids k" using k'(3) by (simp add: sched_frame_def)
    have "evt_waiting k'"
      unfolding evt_waiting_def tids
    proof (intro ballI impI)
      fix u assume u: "u \<in> set (k_tids k)" "tstate k' u \<in> {CH_STATE_WTOREVT, CH_STATE_WTANDEVT}"
      then have "u \<noteq> t" by (auto simp: k'(5))
      then show "(\<exists>m. t_u (k_thr k' u) = EwMask m) \<and> \<not> evt_satisfied k' u"
        using s(2) u evt_satisfied_cong[of k' u k] unfolding evt_waiting_def other[OF \<open>u \<noteq> t\<close>] by auto
    qed
    then show ?thesis
      using k'(1,2,4,5) True other tids by (simp add: chEvtSignalI_def evt_inv_def Let_def rdymsg_def)
  qed
qed

text \<open>Scheduling does not touch events and waiting threads.\<close>

lemma evt_waiting_frame:
  assumes "evt_waiting k" "k_tids k' = k_tids k"
    "\<forall>t \<in> set (k_tids k). tstate k' t \<in> {CH_STATE_WTOREVT, CH_STATE_WTANDEVT} \<longrightarrow>
       tstate k' t = tstate k t \<and> t_u (k_thr k' t) = t_u (k_thr k t) \<and> epending k' t = epending k t"
  shows "evt_waiting k'"
  unfolding evt_waiting_def assms(2)
proof (intro ballI impI)
  fix t assume t: "t \<in> set (k_tids k)" "tstate k' t \<in> {CH_STATE_WTOREVT, CH_STATE_WTANDEVT}"
  then have "tstate k' t = tstate k t" "t_u (k_thr k' t) = t_u (k_thr k t)" "epending k' t = epending k t"
    using assms(3) by blast+
  then show "(\<exists>m. t_u (k_thr k' t) = EwMask m) \<and> \<not> evt_satisfied k' t"
    using assms(1) t evt_satisfied_cong[of k' t k] unfolding evt_waiting_def by metis
qed

lemma evt_inv_reschedule:
  assumes "evt_inv k"
  shows "\<exists>k'. chSchRescheduleS k = Inr k' \<and> evt_inv k' \<and> sched_ok k' \<and> sched_frame k k' \<and>
    (\<forall>t. t_u (k_thr k' t) = t_u (k_thr k t)) \<and>
    (\<forall>t \<in> set (k_tids k). tstate k' t \<in> {CH_STATE_READY, CH_STATE_CURRENT} \<longleftrightarrow> tstate k t \<in> {CH_STATE_READY, CH_STATE_CURRENT}) \<and>
    (\<forall>t \<in> set (k_tids k). tstate k t \<notin> {CH_STATE_READY, CH_STATE_CURRENT} \<longrightarrow> tstate k' t = tstate k t)"
proof -
  have s: "sys_inv k" "evt_waiting k" "sched_inv k" using assms by (simp_all add: evt_inv_def sys_inv_def)
  obtain k' where k': "chSchRescheduleS k = Inr k'" "sys_inv k'" "sched_ok k'" "sched_frame k k'"
      "\<forall>t \<in> set (k_tids k). tstate k' t \<in> {CH_STATE_READY, CH_STATE_CURRENT} \<longleftrightarrow> tstate k t \<in> {CH_STATE_READY, CH_STATE_CURRENT}"
    using sys_inv_reschedule[OF s(1)] by blast
  have u: "\<forall>t. t_u (k_thr k' t) = t_u (k_thr k t)"
      "\<forall>t. t \<notin> insert (k_cur k) (set (k_ready k)) \<longrightarrow> k_thr k' t = k_thr k t"
    using chSchRescheduleS_ok[OF s(3)] k'(1) by auto
  have same: "\<forall>t \<in> set (k_tids k). tstate k t \<notin> {CH_STATE_READY, CH_STATE_CURRENT} \<longrightarrow> tstate k' t = tstate k t"
    using u(2) sched_inv_running[OF s(3)] by metis
  have "evt_waiting k'"
  proof (rule evt_waiting_frame[OF s(2)])
    show "k_tids k' = k_tids k" using k'(4) by (simp add: sched_frame_def)
    have "tstate k' t = tstate k t"
      if "t \<in> set (k_tids k)" "tstate k' t \<in> {CH_STATE_WTOREVT, CH_STATE_WTANDEVT}" for t
      using that k'(5) same by (metis insertE singletonD tstate_t.distinct)
    then show "\<forall>t \<in> set (k_tids k). tstate k' t \<in> {CH_STATE_WTOREVT, CH_STATE_WTANDEVT} \<longrightarrow>
       tstate k' t = tstate k t \<and> t_u (k_thr k' t) = t_u (k_thr k t) \<and> epending k' t = epending k t"
      using k'(4) u(1) by (simp add: sched_frame_def)
  qed
  with k' u(1) same show ?thesis by (simp add: evt_inv_def)
qed

section \<open>Signalling and waiting\<close>

text \<open>A signal adds the events and wakes the thread exactly when that satisfies its condition.\<close>

lemma chEvtSignal_ok:
  assumes "evt_inv k" "t \<in> set (k_tids k)"
  shows "\<exists>k'. chEvtSignal t events k = Inr k' \<and> evt_inv k' \<and> sched_ok k' \<and> epending k' t = epending k t OR events \<and>
    (if evt_satisfied (set_epending t (epending k t OR events) k) t
     then tstate k' t \<in> {CH_STATE_READY, CH_STATE_CURRENT} \<and> rdymsg t k' = Inr MSG_OK
     else tstate k t \<notin> {CH_STATE_READY, CH_STATE_CURRENT} \<longrightarrow> tstate k' t = tstate k t)"
proof -
  obtain k1 where k1: "chEvtSignalI t events k = Inr k1" "evt_inv k1" "k_tids k1 = k_tids k"
      "epending k1 t = epending k t OR events"
      "if evt_satisfied (set_epending t (epending k t OR events) k) t
       then tstate k1 t = CH_STATE_READY \<and> rdymsg t k1 = Inr MSG_OK
       else tstate k1 t = tstate k t \<and> t_u (k_thr k1 t) = t_u (k_thr k t)"
    using chEvtSignalI_ok[OF assms] by blast
  obtain k' where k': "chSchRescheduleS k1 = Inr k'" "evt_inv k'" "sched_ok k'" "sched_frame k1 k'"
      "\<forall>t. t_u (k_thr k' t) = t_u (k_thr k1 t)"
      "\<forall>t \<in> set (k_tids k1). tstate k' t \<in> {CH_STATE_READY, CH_STATE_CURRENT} \<longleftrightarrow> tstate k1 t \<in> {CH_STATE_READY, CH_STATE_CURRENT}"
      "\<forall>t \<in> set (k_tids k1). tstate k1 t \<notin> {CH_STATE_READY, CH_STATE_CURRENT} \<longrightarrow> tstate k' t = tstate k1 t"
    using evt_inv_reschedule[OF k1(2)] by blast
  have "epending k' t = epending k1 t" using k'(4) by (simp add: sched_frame_def)
  moreover have "tstate k' t \<in> {CH_STATE_READY, CH_STATE_CURRENT}" if "tstate k1 t = CH_STATE_READY"
    using k'(6) k1(3) assms(2) that by simp
  moreover have "rdymsg t k' = rdymsg t k1" using k'(5) by (simp add: rdymsg_def)
  moreover have "tstate k' t = tstate k1 t" if "tstate k1 t \<notin> {CH_STATE_READY, CH_STATE_CURRENT}"
    using k'(7) k1(3) assms(2) that by simp
  ultimately show ?thesis
    using k1 k'(1-3) by (simp add: chEvtSignal_def split: if_splits)
qed

lemma evt_sleep_ok:
  assumes "evt_inv k" "k_cur k \<noteq> k_idle k" "st \<in> {CH_STATE_WTOREVT, CH_STATE_WTANDEVT}"
    "if st = CH_STATE_WTOREVT then epending k (k_cur k) AND events = 0 else epending k (k_cur k) AND events \<noteq> events"
  shows "\<exists>k'. evt_sleep st events k = Inr (None, k') \<and> evt_inv k' \<and> sched_ok k' \<and> k_tids k' = k_tids k \<and> tstate k' (k_cur k) = st \<and>
    t_u (k_thr k' (k_cur k)) = EwMask events \<and> epending k' (k_cur k) = epending k (k_cur k)"
proof -
  let ?c = "k_cur k" and ?k = "set_u (k_cur k) (EwMask events) k"
  have s: "sys_inv k" "evt_waiting k" using assms(1) by (simp_all add: evt_inv_def)
  have c: "tstate k ?c = CH_STATE_CURRENT" using s(1) sched_inv_cur by (simp add: sys_inv_def)
  have "obj_frame k ?k" using c by (simp add: obj_frame_def)
  then have "sys_inv ?k" by (rule obj_frame_sys_inv[OF _ s(1)])
  then obtain k' where k': "chSchGoSleepS st ?k = Inr k'" "sys_inv k'" "sched_ok k'" "sched_frame ?k k'"
      "tstate k' ?c = st" "t_u (k_thr k' ?c) = EwMask events"
      "\<forall>t. t \<noteq> ?c \<longrightarrow> t_u (k_thr k' t) = t_u (k_thr ?k t) \<and>
         (tstate k' t = tstate ?k t \<or> (tstate ?k t = CH_STATE_READY \<and> tstate k' t = CH_STATE_CURRENT))"
      "\<forall>t. epending k' t = epending ?k t"
    using sleep_elsewhere[of ?k st] assms(2,3) by auto
  have tids: "k_tids k' = k_tids k" using k'(4) by (simp add: sched_frame_def)
  have "evt_waiting k'"
    unfolding evt_waiting_def tids
  proof (intro ballI impI)
    fix t assume t: "t \<in> set (k_tids k)" "tstate k' t \<in> {CH_STATE_WTOREVT, CH_STATE_WTANDEVT}"
    show "(\<exists>m. t_u (k_thr k' t) = EwMask m) \<and> \<not> evt_satisfied k' t"
    proof (cases "t = ?c")
      case True
      then show ?thesis using k'(5,6,8) assms(3,4) by (auto simp: evt_satisfied_def)
    next
      case False
      then have "t_u (k_thr k' t) = t_u (k_thr k t)" "tstate k' t = tstate k t" "epending k' t = epending k t"
        using k'(7,8) t(2) by auto
      then show ?thesis
        using s(2) t evt_satisfied_cong[of k' t k] unfolding evt_waiting_def by metis
    qed
  qed
  then show ?thesis
    using k'(1-3,5,6,8) tids by (simp add: evt_sleep_def evt_inv_def)
qed

lemma set_epending_cur_inv:
  assumes "evt_inv k"
  shows "evt_inv (set_epending (k_cur k) m k)"
proof -
  have s: "sys_inv k" "evt_waiting k" using assms by (simp_all add: evt_inv_def)
  have c: "tstate k (k_cur k) = CH_STATE_CURRENT" using s(1) sched_inv_cur by (simp add: sys_inv_def)
  have "evt_waiting (set_epending (k_cur k) m k)"
    by (rule evt_waiting_frame[OF s(2)]) (use c in auto)
  with obj_frame_sys_inv[OF set_epending_obj_frame s(1)] show ?thesis by (simp add: evt_inv_def)
qed

lemma chEvtWaitAny_ok:
  assumes "evt_inv k" "k_cur k \<noteq> k_idle k"
  shows "if epending k (k_cur k) AND events = 0
    then \<exists>k'. chEvtWaitAny events k = Inr (None, k') \<and> evt_inv k' \<and> sched_ok k' \<and> k_tids k' = k_tids k \<and> tstate k' (k_cur k) = CH_STATE_WTOREVT \<and>
      t_u (k_thr k' (k_cur k)) = EwMask events \<and> epending k' (k_cur k) = epending k (k_cur k)
    else \<exists>k'. chEvtWaitAny events k = Inr (Some (epending k (k_cur k) AND events), k') \<and> evt_inv k' \<and>
      epending k' (k_cur k) = epending k (k_cur k) AND NOT (epending k (k_cur k) AND events)"
  using evt_sleep_ok[OF assms, of CH_STATE_WTOREVT events] set_epending_cur_inv[OF assms(1)]
  by (simp add: chEvtWaitAny_def Let_def evt_take_def)

text \<open>The signal and the end of the wait together: exactly the new events waited for are returned.\<close>

lemma signal_waiting:
  assumes "evt_inv k" "t \<in> set (k_tids k)" "tstate k t = CH_STATE_WTOREVT" "t_u (k_thr k t) = EwMask m"
  shows "\<exists>k'. chEvtSignal t events k = Inr k' \<and> evt_inv k' \<and> sched_ok k' \<and> epending k' t = epending k t OR events \<and>
    (if events AND m = 0 then tstate k' t = CH_STATE_WTOREVT
     else tstate k' t \<in> {CH_STATE_READY, CH_STATE_CURRENT} \<and> fst (chEvtWaitAny_resume m t k') = events AND m \<and>
       epending (snd (chEvtWaitAny_resume m t k')) t = (epending k t OR events) AND NOT m)"
proof -
  have "\<not> evt_satisfied k t" using assms by (simp add: evt_inv_def evt_waiting_def)
  then have none: "epending k t AND m = 0" using assms(3,4) by (simp add: evt_satisfied_def)
  then have new: "(epending k t OR events) AND m = events AND m" by (simp add: bit.conj_disj_distrib2)
  have left: "w AND NOT (w AND m) = w AND NOT m" for w :: eventmask_t
    by (rule bit_word_eqI) (auto simp: bit_simps)
  have sat: "evt_satisfied (set_epending t (epending k t OR events) k) t \<longleftrightarrow> events AND m \<noteq> 0"
    using assms(3,4) by (simp add: evt_satisfied_def new)
  obtain k' where k': "chEvtSignal t events k = Inr k'" "evt_inv k'" "sched_ok k'" "epending k' t = epending k t OR events"
      "if events AND m \<noteq> 0 then tstate k' t \<in> {CH_STATE_READY, CH_STATE_CURRENT} \<and> rdymsg t k' = Inr MSG_OK
       else tstate k t \<notin> {CH_STATE_READY, CH_STATE_CURRENT} \<longrightarrow> tstate k' t = tstate k t"
    using chEvtSignal_ok[OF assms(1,2), of events] unfolding sat by blast
  moreover have "epending (snd (chEvtWaitAny_resume m t k')) t = (epending k t OR events) AND NOT m"
    using left[of "epending k t OR events"] by (simp add: chEvtWaitAny_resume_def evt_take_def k'(4))
  ultimately show ?thesis
    using assms(3) new by (auto simp: chEvtWaitAny_resume_def evt_take_def split: if_splits)
qed

text \<open>A broadcast signals the listeners one after the other.\<close>

definition evt_selected :: "eventflags_t \<Rightarrow> events_t \<Rightarrow> nat \<Rightarrow> bool" where
  "evt_selected flags e l \<longleftrightarrow> flags = 0 \<or> flags AND el_wflags (ev_listener e l) \<noteq> 0"

definition evt_raised :: "eventflags_t \<Rightarrow> events_t \<Rightarrow> nat list \<Rightarrow> tid \<Rightarrow> eventmask_t \<Rightarrow> eventmask_t" where
  "evt_raised flags e ls t m =
     fold (\<lambda>l m. m OR el_events (ev_listener e l))
       (filter (\<lambda>l. evt_selected flags e l \<and> el_listener (ev_listener e l) = t) ls) m"

lemma evt_post_loop:
  assumes "evt_inv k" "distinct ls" "\<forall>l \<in> set ls. el_listener (ev_listener e l) \<in> set (k_tids k)"
  shows "\<exists>e' k'. foldE (evt_post flags) ls (e, k) = Inr (e', k') \<and> evt_inv k' \<and> k_tids k' = k_tids k \<and>
    ev_source e' = ev_source e \<and>
    (\<forall>l. ev_listener e' l = (if l \<in> set ls
       then (ev_listener e l)\<lparr>el_flags := el_flags (ev_listener e l) OR flags\<rparr> else ev_listener e l)) \<and>
    (\<forall>t. epending k' t = evt_raised flags e ls t (epending k t))"
  using assms
proof (induction ls arbitrary: e k)
  case Nil
  then show ?case by (simp add: evt_raised_def)
next
  case (Cons l ls)
  let ?l = "(ev_listener e l)\<lparr>el_flags := el_flags (ev_listener e l) OR flags\<rparr>"
  let ?e = "e\<lparr>ev_listener := (ev_listener e)(l := ?l)\<rparr>"
  let ?t = "el_listener (ev_listener e l)"
  have sel: "evt_selected flags ?e x = evt_selected flags e x" "el_listener (ev_listener ?e x) = el_listener (ev_listener e x)"
      "el_events (ev_listener ?e x) = el_events (ev_listener e x)" for x
    by (simp_all add: evt_selected_def)
  have raised: "evt_raised flags ?e xs t m = evt_raised flags e xs t m" for xs t m
    unfolding evt_raised_def sel ..
  obtain k1 where k1: "evt_post flags l (e, k) = Inr (?e, k1)" "evt_inv k1" "k_tids k1 = k_tids k"
      "\<forall>t. epending k1 t = (if evt_selected flags e l \<and> t = ?t then epending k t OR el_events (ev_listener e l) else epending k t)"
  proof (cases "evt_selected flags e l")
    case True
    obtain k1 where "chEvtSignalI ?t (el_events (ev_listener e l)) k = Inr k1" "evt_inv k1" "k_tids k1 = k_tids k"
        "epending k1 ?t = epending k ?t OR el_events (ev_listener e l)" "\<forall>u. u \<noteq> ?t \<longrightarrow> k_thr k1 u = k_thr k u"
      using chEvtSignalI_ok[OF Cons.prems(1), of ?t "el_events (ev_listener e l)"] Cons.prems(3) by (metis list.set_intros(1))
    then show ?thesis
      using that[of k1] True by (simp add: evt_post_def evt_selected_def Let_def)
  next
    case False
    then show ?thesis
      using that[of k] Cons.prems(1) by (simp add: evt_post_def evt_selected_def Let_def)
  qed
  have pre: "distinct ls" "\<forall>x \<in> set ls. el_listener (ev_listener ?e x) \<in> set (k_tids k1)"
    using Cons.prems(2,3) k1(3) unfolding sel by simp_all
  obtain e' k' where k': "foldE (evt_post flags) ls (?e, k1) = Inr (e', k')" "evt_inv k'" "k_tids k' = k_tids k1"
      "ev_source e' = ev_source ?e"
      "\<forall>x. ev_listener e' x = (if x \<in> set ls
         then (ev_listener ?e x)\<lparr>el_flags := el_flags (ev_listener ?e x) OR flags\<rparr> else ev_listener ?e x)"
      "\<forall>t. epending k' t = evt_raised flags ?e ls t (epending k1 t)"
    using Cons.IH[OF k1(2) pre] by blast
  have "epending k' t = evt_raised flags e (l # ls) t (epending k t)" for t
    using k'(6) k1(4) unfolding raised by (simp add: evt_raised_def)
  then show ?case
    using k1(1,3) k'(1-5) Cons.prems(2) by (intro exI[of _ e'] exI[of _ k']) auto
qed

lemma chEvtBroadcastFlags_ok:
  assumes "evt_inv k" "distinct (ev_source e esp)" "\<forall>l \<in> set (ev_source e esp). el_listener (ev_listener e l) \<in> set (k_tids k)"
  shows "\<exists>e' k'. chEvtBroadcastFlags esp flags (e, k) = Inr (e', k') \<and> evt_inv k' \<and> sched_ok k' \<and> ev_source e' = ev_source e \<and>
    (\<forall>l. ev_listener e' l = (if l \<in> set (ev_source e esp)
       then (ev_listener e l)\<lparr>el_flags := el_flags (ev_listener e l) OR flags\<rparr> else ev_listener e l)) \<and>
    (\<forall>t. epending k' t = evt_raised flags e (ev_source e esp) t (epending k t))"
proof -
  obtain e' k1 where k1: "foldE (evt_post flags) (ev_source e esp) (e, k) = Inr (e', k1)" "evt_inv k1"
      "ev_source e' = ev_source e"
      "\<forall>l. ev_listener e' l = (if l \<in> set (ev_source e esp)
         then (ev_listener e l)\<lparr>el_flags := el_flags (ev_listener e l) OR flags\<rparr> else ev_listener e l)"
      "\<forall>t. epending k1 t = evt_raised flags e (ev_source e esp) t (epending k t)"
    using evt_post_loop[OF assms] by blast
  obtain k' where "chSchRescheduleS k1 = Inr k'" "evt_inv k'" "sched_ok k'" "sched_frame k1 k'"
    using evt_inv_reschedule[OF k1(2)] by blast
  with k1 show ?thesis
    by (simp add: chEvtBroadcastFlags_def chEvtBroadcastFlagsI_def sched_frame_def)
qed

end
