(* ===== verification/Ch_Msg.thy ===== *)
theory Ch_Msg
  imports Ch_Thd
begin

text \<open>
  Synchronous messages: \<^verbatim>\<open>chmsg.c\<close> and \<^verbatim>\<open>chmsg.h\<close>, with first-in first-out queues
  (\<^verbatim>\<open>CH_CFG_USE_MESSAGES_PRIORITY\<close> is off). The sender joins the message queue of the receiver and
  sleeps until the receiver has taken the message and answered. A waiting call returns \<open>None\<close>
  when its caller sleeps; the code after the sleep has the suffix \<open>_resume\<close>.
\<close>

section \<open>Operations\<close>

abbreviation msgqueue :: "kernel_t \<Rightarrow> tid \<Rightarrow> tid list" where
  "msgqueue k t \<equiv> t_msgqueue (k_thr k t)"

definition set_msgqueue :: "tid \<Rightarrow> tid list \<Rightarrow> kernel_t \<Rightarrow> kernel_t" where
  "set_msgqueue t q = upd_thr t (\<lambda>th. th\<lparr>t_msgqueue := q\<rparr>)"

definition chMsgSend :: "tid \<Rightarrow> msg_t \<Rightarrow> kernel_t \<Rightarrow> kernel_t result" where
  "chMsgSend t msg k =
     (let c = k_cur k;
          k = set_u c (SentMsg msg) k;
          k = set_msgqueue t (msgqueue k t @ [c]) k in
      bindE (if tstate k t = CH_STATE_WTMSG then chSchReadyI t k else Inr k) (\<lambda>k.
      chSchGoSleepS CH_STATE_SNDMSGQ k))"

definition chMsgSend_resume :: "kernel_t \<Rightarrow> msg_t result" where
  "chMsgSend_resume k = rdymsg (k_cur k) k"

definition chMsgIsPendingI :: "tid \<Rightarrow> kernel_t \<Rightarrow> bool" where
  "chMsgIsPendingI t k \<longleftrightarrow> msgqueue k t \<noteq> []"

text \<open>The running thread takes its first sender; on an empty queue the code would take the header.\<close>

definition msg_accept :: "kernel_t \<Rightarrow> (tid \<times> kernel_t) result" where
  "msg_accept k =
     (case msgqueue k (k_cur k) of
        [] \<Rightarrow> Inl OutOfBounds
      | t # q \<Rightarrow> Inr (t, set_state t CH_STATE_SNDMSG (set_msgqueue (k_cur k) q k)))"

definition chMsgWaitS :: "kernel_t \<Rightarrow> (tid option \<times> kernel_t) result" where
  "chMsgWaitS k =
     (if \<not> chMsgIsPendingI (k_cur k) k
      then bindE (chSchGoSleepS CH_STATE_WTMSG k) (\<lambda>k. Inr (None, k))
      else bindE (msg_accept k) (\<lambda>(t, k). Inr (Some t, k)))"

definition chMsgWaitS_resume :: "kernel_t \<Rightarrow> (tid \<times> kernel_t) result" where
  "chMsgWaitS_resume k = msg_accept k"

definition chMsgWait :: "kernel_t \<Rightarrow> (tid option \<times> kernel_t) result" where
  "chMsgWait k = chMsgWaitS k"

definition chMsgWaitTimeoutS :: "sysinterval_t \<Rightarrow> kernel_t \<Rightarrow> (tid option \<times> kernel_t) result" where
  "chMsgWaitTimeoutS timeout k =
     (if \<not> chMsgIsPendingI (k_cur k) k
      then bindE (chSchGoSleepTimeoutS CH_STATE_WTMSG timeout k) (\<lambda>k. Inr (None, k))
      else bindE (msg_accept k) (\<lambda>(t, k). Inr (Some t, k)))"

text \<open>After the sleep: \<open>None\<close> is the null pointer that says that the time is over.\<close>

definition chMsgWaitTimeoutS_resume :: "kernel_t \<Rightarrow> (tid option \<times> kernel_t) result" where
  "chMsgWaitTimeoutS_resume k =
     bindE (chSchGoSleepTimeoutS_resume (k_cur k) k) (\<lambda>(msg, k).
     if msg \<noteq> MSG_OK then Inr (None, k)
     else bindE (msg_accept k) (\<lambda>(t, k). Inr (Some t, k)))"

definition chMsgWaitTimeout :: "sysinterval_t \<Rightarrow> kernel_t \<Rightarrow> (tid option \<times> kernel_t) result" where
  "chMsgWaitTimeout timeout k = chMsgWaitTimeoutS timeout k"

definition chMsgPollS :: "kernel_t \<Rightarrow> (tid option \<times> kernel_t) result" where
  "chMsgPollS k =
     (if chMsgIsPendingI (k_cur k) k
      then bindE (msg_accept k) (\<lambda>(t, k). Inr (Some t, k))
      else Inr (None, k))"

definition chMsgPoll :: "kernel_t \<Rightarrow> (tid option \<times> kernel_t) result" where
  "chMsgPoll k = chMsgPollS k"

definition chMsgGet :: "tid \<Rightarrow> kernel_t \<Rightarrow> msg_t result" where
  "chMsgGet t k =
     bindE (assertE (tstate k t = CH_STATE_SNDMSG) (Halted ''invalid state'')) (\<lambda>_.
     case t_u (k_thr k t) of SentMsg m \<Rightarrow> Inr m | _ \<Rightarrow> Inl OutOfBounds)"

definition chMsgReleaseS :: "tid \<Rightarrow> msg_t \<Rightarrow> kernel_t \<Rightarrow> kernel_t result" where
  "chMsgReleaseS t msg k = chSchWakeupS t msg k"

definition chMsgRelease :: "tid \<Rightarrow> msg_t \<Rightarrow> kernel_t \<Rightarrow> kernel_t result" where
  "chMsgRelease t msg k =
     bindE (assertE (tstate k t = CH_STATE_SNDMSG) (Halted ''invalid state'')) (\<lambda>_. chMsgReleaseS t msg k)"

section \<open>Invariant\<close>

text \<open>
  A message queue holds senders with a message, each in one queue; a thread that waits for
  messages has none, and a sender that was taken still carries its message.
\<close>

definition msgs_ok :: "kernel_t \<Rightarrow> bool" where
  "msgs_ok k \<longleftrightarrow>
     (\<forall>t. distinct (msgqueue k t)) \<and>
     (\<forall>t s. s \<in> set (msgqueue k t) \<longrightarrow> s \<in> set (k_tids k) \<and> tstate k s = CH_STATE_SNDMSGQ) \<and>
     (\<forall>t t' s. s \<in> set (msgqueue k t) \<longrightarrow> s \<in> set (msgqueue k t') \<longrightarrow> t = t') \<and>
     (\<forall>t \<in> set (k_tids k). tstate k t = CH_STATE_WTMSG \<longrightarrow> msgqueue k t = []) \<and>
     (\<forall>t \<in> set (k_tids k). tstate k t \<in> {CH_STATE_SNDMSGQ, CH_STATE_SNDMSG} \<longrightarrow> (\<exists>m. t_u (k_thr k t) = SentMsg m))"

definition msg_inv :: "kernel_t \<Rightarrow> bool" where
  "msg_inv k \<longleftrightarrow> sys_inv k \<and> msgs_ok k"

lemma set_msgqueue_sel [simp]:
  "k_tids (set_msgqueue t x k) = k_tids k" "k_cur (set_msgqueue t x k) = k_cur k"
  "k_ready (set_msgqueue t x k) = k_ready k" "k_idle (set_msgqueue t x k) = k_idle k"
  "k_mtx (set_msgqueue t x k) = k_mtx k" "k_sem (set_msgqueue t x k) = k_sem k"
  "k_cond (set_msgqueue t x k) = k_cond k" "k_ref (set_msgqueue t x k) = k_ref k"
  "k_queue (set_msgqueue t x k) = k_queue k" "k_timer (set_msgqueue t x k) = k_timer k"
  "prio (set_msgqueue t x k) u = prio k u" "realprio (set_msgqueue t x k) u = realprio k u"
  "tstate (set_msgqueue t x k) u = tstate k u" "t_u (k_thr (set_msgqueue t x k) u) = t_u (k_thr k u)"
  "mtxlist (set_msgqueue t x k) u = mtxlist k u" "t_epending (k_thr (set_msgqueue t x k) u) = t_epending (k_thr k u)"
  "msgqueue (set_msgqueue t x k) u = (if u = t then x else msgqueue k u)"
  by (simp_all add: set_msgqueue_def upd_thr_def)

lemma msgs_okD:
  assumes "msgs_ok k"
  shows "distinct (msgqueue k t)" "s \<in> set (msgqueue k t) \<Longrightarrow> s \<in> set (k_tids k)"
    "s \<in> set (msgqueue k t) \<Longrightarrow> tstate k s = CH_STATE_SNDMSGQ"
    "s \<in> set (msgqueue k t) \<Longrightarrow> s \<in> set (msgqueue k t') \<Longrightarrow> t = t'"
    "t \<in> set (k_tids k) \<Longrightarrow> tstate k t = CH_STATE_WTMSG \<Longrightarrow> msgqueue k t = []"
    "t \<in> set (k_tids k) \<Longrightarrow> tstate k t \<in> {CH_STATE_SNDMSGQ, CH_STATE_SNDMSG} \<Longrightarrow> \<exists>m. t_u (k_thr k t) = SentMsg m"
  using assms unfolding msgs_ok_def by blast+

text \<open>The running thread is in no message queue.\<close>

lemma msgs_ok_cur:
  assumes "msg_inv k"
  shows "k_cur k \<notin> set (msgqueue k t)" "tstate k (k_cur k) = CH_STATE_CURRENT" "k_cur k \<in> set (k_tids k)"
proof -
  show c: "tstate k (k_cur k) = CH_STATE_CURRENT" "k_cur k \<in> set (k_tids k)"
    using assms sched_inv_cur by (simp_all add: msg_inv_def sys_inv_def sched_inv_def)
  show "k_cur k \<notin> set (msgqueue k t)"
    using assms c(1) msgs_okD(3)[of k "k_cur k" t] by (auto simp: msg_inv_def)
qed

text \<open>
  Sending. The proof is about the state the sender leaves behind, whichever thread runs next.
\<close>

lemma msgs_ok_send:
  assumes inv: "msg_inv k" and ne: "t \<noteq> k_cur k" and tids: "k_tids k' = k_tids k"
    and q: "\<And>u. msgqueue k' u = (if u = t then msgqueue k t @ [k_cur k] else msgqueue k u)"
    and c: "tstate k' (k_cur k) = CH_STATE_SNDMSGQ" "t_u (k_thr k' (k_cur k)) = SentMsg msg"
    and u: "\<And>u. u \<noteq> k_cur k \<Longrightarrow> t_u (k_thr k' u) = t_u (k_thr k u)"
    and st: "\<And>u. u \<noteq> k_cur k \<Longrightarrow> u \<noteq> t \<Longrightarrow> tstate k' u = tstate k u \<or> (tstate k u = CH_STATE_READY \<and> tstate k' u = CH_STATE_CURRENT)"
      "tstate k' t \<noteq> CH_STATE_WTMSG" "tstate k t = CH_STATE_SNDMSGQ \<longleftrightarrow> tstate k' t = CH_STATE_SNDMSGQ"
      "tstate k t = CH_STATE_SNDMSG \<longleftrightarrow> tstate k' t = CH_STATE_SNDMSG"
  shows "msgs_ok k'"
proof -
  have ok: "msgs_ok k" using inv by (simp add: msg_inv_def)
  note cur = msgs_ok_cur[OF inv]
  have st': "tstate k' u = x \<longleftrightarrow> tstate k u = x" if "u \<noteq> k_cur k" "x \<in> {CH_STATE_SNDMSGQ, CH_STATE_SNDMSG}" for u x
    using st(1)[of u] st(3,4) that by (cases "u = t") auto
  show ?thesis
    unfolding msgs_ok_def tids
  proof (intro conjI allI impI ballI)
    fix v
    show "distinct (msgqueue k' v)" using msgs_okD(1)[OF ok] cur(1) unfolding q by simp
    fix s assume s: "s \<in> set (msgqueue k' v)"
    then have s': "s = k_cur k \<and> v = t \<or> s \<noteq> k_cur k \<and> s \<in> set (msgqueue k v)" using cur(1) by (auto simp: q split: if_splits)
    then show "s \<in> set (k_tids k)" using msgs_okD(2)[OF ok] cur(3) by blast
    show "tstate k' s = CH_STATE_SNDMSGQ"
      using s' c(1) st'[of s CH_STATE_SNDMSGQ] msgs_okD(3)[OF ok] by blast
    fix v' assume "s \<in> set (msgqueue k' v')"
    then have "s = k_cur k \<and> v' = t \<or> s \<noteq> k_cur k \<and> s \<in> set (msgqueue k v')" using cur(1) by (auto simp: q split: if_splits)
    with s' show "v = v'" using msgs_okD(4)[OF ok] by blast
  next
    fix v assume v: "v \<in> set (k_tids k)" "tstate k' v = CH_STATE_WTMSG"
    then have "v \<noteq> k_cur k" "v \<noteq> t" using c(1) st(2) by auto
    then show "msgqueue k' v = []" using v st(1)[of v] msgs_okD(5)[OF ok, of v] unfolding q by auto
  next
    fix v assume v: "v \<in> set (k_tids k)" "tstate k' v \<in> {CH_STATE_SNDMSGQ, CH_STATE_SNDMSG}"
    show "\<exists>m. t_u (k_thr k' v) = SentMsg m"
    proof (cases "v = k_cur k")
      case True
      with c(2) show ?thesis by simp
    next
      case False
      have "tstate k v \<in> {CH_STATE_SNDMSGQ, CH_STATE_SNDMSG}" using st'[OF False] v(2) by blast
      then show ?thesis using u[OF False] msgs_okD(6)[OF ok v(1)] by simp
    qed
  qed
qed

lemma chMsgSend_ok:
  assumes inv: "msg_inv k" and idle: "k_cur k \<noteq> k_idle k" and t: "t \<in> set (k_tids k)" "t \<noteq> k_cur k"
  shows "\<exists>k'. chMsgSend t msg k = Inr k' \<and> msg_inv k' \<and> sched_ok k' \<and> k_tids k' = k_tids k \<and> msgqueue k' t = msgqueue k t @ [k_cur k] \<and>
    tstate k' (k_cur k) = CH_STATE_SNDMSGQ \<and> t_u (k_thr k' (k_cur k)) = SentMsg msg \<and>
    (tstate k t = CH_STATE_WTMSG \<longrightarrow> tstate k' t \<in> {CH_STATE_READY, CH_STATE_CURRENT}) \<and>
    (\<forall>u. u \<noteq> k_cur k \<longrightarrow> t_u (k_thr k' u) = t_u (k_thr k u))"
proof -
  let ?c = "k_cur k"
  let ?k = "set_msgqueue t (msgqueue k t @ [?c]) (set_u ?c (SentMsg msg) k)"
  note cur = msgs_ok_cur[OF inv]
  have s: "sys_inv k" "msgs_ok k" using inv by (simp_all add: msg_inv_def)
  have fr: "obj_frame k ?k" using cur(2) by (simp add: obj_frame_def)
  have s1: "sys_inv ?k" by (rule obj_frame_sys_inv[OF fr s(1)])
  obtain k1 where k1: "(if tstate k t = CH_STATE_WTMSG then chSchReadyI t ?k else Inr ?k) = Inr k1" "sys_inv k1"
      "sched_frame ?k k1" "k_cur k1 = ?c"
      "k_thr k1 = (if tstate k t = CH_STATE_WTMSG then (k_thr ?k)(t := (k_thr ?k t)\<lparr>t_state := CH_STATE_READY\<rparr>) else k_thr ?k)"
  proof (cases "tstate k t = CH_STATE_WTMSG")
    case True
    with ready_elsewhere[OF s1, of t] t(1) that show ?thesis by auto
  next
    case False
    with that[of ?k] s1 show ?thesis by simp
  qed
  obtain k' where k': "chSchGoSleepS CH_STATE_SNDMSGQ k1 = Inr k'" "sys_inv k'" "sched_ok k'" "sched_frame k1 k'"
      "tstate k' ?c = CH_STATE_SNDMSGQ" "t_u (k_thr k' ?c) = t_u (k_thr k1 ?c)"
      "\<forall>v. v \<noteq> ?c \<longrightarrow> t_u (k_thr k' v) = t_u (k_thr k1 v) \<and>
         (tstate k' v = tstate k1 v \<or> (tstate k1 v = CH_STATE_READY \<and> tstate k' v = CH_STATE_CURRENT))"
    using sleep_elsewhere[OF k1(2), of CH_STATE_SNDMSGQ] idle k1(3,4) by (auto simp: sched_frame_def)
  have tids: "k_tids k' = k_tids k" using k'(4) k1(3) by (simp add: sched_frame_def)
  have q: "msgqueue k' u = (if u = t then msgqueue k t @ [?c] else msgqueue k u)" for u
    using k'(4) k1(3) by (simp add: sched_frame_def)
  have st1: "tstate k1 u = (if u = t \<and> tstate k t = CH_STATE_WTMSG then CH_STATE_READY else tstate k u)"
      "t_u (k_thr k1 u) = (if u = ?c then SentMsg msg else t_u (k_thr k u))" for u
    by (simp_all add: k1(5))
  have tt: "tstate k' t = tstate k1 t \<or> (tstate k1 t = CH_STATE_READY \<and> tstate k' t = CH_STATE_CURRENT)"
    using k'(7) t(2) by simp
  have "msgs_ok k'"
  proof (rule msgs_ok_send[OF inv t(2) tids q k'(5)])
    show "t_u (k_thr k' ?c) = SentMsg msg" using k'(6) st1(2) by simp
    show "t_u (k_thr k' u) = t_u (k_thr k u)" if "u \<noteq> ?c" for u using k'(7) st1(2) that by simp
    show "tstate k' u = tstate k u \<or> (tstate k u = CH_STATE_READY \<and> tstate k' u = CH_STATE_CURRENT)"
      if "u \<noteq> ?c" "u \<noteq> t" for u using k'(7)[THEN spec, of u] st1(1)[of u] that by auto
  qed (use tt st1(1)[of t] in \<open>auto split: if_splits\<close>)
  moreover have "tstate k t = CH_STATE_WTMSG \<longrightarrow> tstate k' t \<in> {CH_STATE_READY, CH_STATE_CURRENT}"
    using tt st1(1)[of t] by auto
  moreover have "chMsgSend t msg k = Inr k'"
    using k1(1) k'(1) t(2) by (cases "tstate k t = CH_STATE_WTMSG") (simp_all add: chMsgSend_def Let_def)
  moreover have "\<forall>u. u \<noteq> ?c \<longrightarrow> t_u (k_thr k' u) = t_u (k_thr k u)"
    using k'(7) st1(2) by simp
  ultimately show ?thesis
    using k'(2,3,5,6) st1(2) q tids by (simp add: msg_inv_def)
qed

section \<open>Receiving\<close>

text \<open>A sleeping thread that is in no queue of scheduler, mutexes and conditions moves to another such state.\<close>

lemma park_elsewhere:
  assumes "sys_inv k" "t \<in> set (k_tids k)"
    "tstate k t \<notin> {CH_STATE_READY, CH_STATE_CURRENT, CH_STATE_WTMTX, CH_STATE_WTCOND}"
    "st \<notin> {CH_STATE_READY, CH_STATE_CURRENT, CH_STATE_WTMTX, CH_STATE_WTCOND}"
  shows "sys_inv (set_state t st k)"
proof -
  have "mtx_frame k (set_state t st k)"
    using assms(3,4) by (auto simp: mtx_frame_def)
  moreover have "sched_inv (set_state t st k)"
    using assms unfolding sys_inv_def sched_inv_def by auto
  ultimately show ?thesis
    using assms(1) mtx_inv_frame by (auto simp: sys_inv_def)
qed

lemma msg_accept_ok:
  assumes inv: "msg_inv k" and q: "msgqueue k (k_cur k) = s # q" and m: "t_u (k_thr k s) = SentMsg m"
  shows "\<exists>k'. msg_accept k = Inr (s, k') \<and> msg_inv k' \<and> k_cur k' = k_cur k \<and> k_tids k' = k_tids k \<and>
    msgqueue k' (k_cur k) = q \<and> chMsgGet s k' = Inr m \<and> tstate k' s = CH_STATE_SNDMSG \<and> (sched_ok k \<longrightarrow> sched_ok k')"
proof -
  let ?c = "k_cur k" and ?k = "set_msgqueue (k_cur k) q k"
  let ?k' = "set_state s CH_STATE_SNDMSG ?k"
  have ok: "sys_inv k" "msgs_ok k" using inv by (simp_all add: msg_inv_def)
  have "s \<in> set (msgqueue k ?c)" "distinct (s # q)" using msgs_okD(1)[OF ok(2), of ?c] q by simp_all
  then have s: "s \<in> set (k_tids k)" "tstate k s = CH_STATE_SNDMSGQ" "s \<noteq> ?c" "s \<notin> set q"
    using msgs_okD(2,3)[OF ok(2)] msgs_ok_cur(1)[OF inv] by auto
  have other: "s \<notin> set (msgqueue k u)" if "u \<noteq> ?c" for u
    using msgs_okD(4)[OF ok(2), of s ?c u] q that by auto
  have fr: "obj_frame k ?k" by (simp add: obj_frame_def)
  have "sys_inv ?k'"
    by (rule park_elsewhere[OF obj_frame_sys_inv[OF fr ok(1)]]) (use s in simp_all)
  moreover have "sched_ok ?k'" if "sched_ok k"
    using obj_frame_sched_ok[OF fr that] \<open>sys_inv ?k'\<close>
    by (simp add: sched_ok_def sys_inv_def firstprio_def split: list.splits)
  moreover have "msgs_ok ?k'"
    unfolding msgs_ok_def
  proof (intro conjI allI impI ballI)
    fix v
    show "distinct (msgqueue ?k' v)" using msgs_okD(1)[OF ok(2), of v] msgs_okD(1)[OF ok(2), of ?c] q by simp
    fix x assume x: "x \<in> set (msgqueue ?k' v)"
    then have x': "x \<in> set (msgqueue k v)" "x \<noteq> s" using q s(4) other by (auto split: if_splits)
    then show "x \<in> set (k_tids ?k')" "tstate ?k' x = CH_STATE_SNDMSGQ"
      using msgs_okD(2,3)[OF ok(2)] by simp_all
    fix v' assume "x \<in> set (msgqueue ?k' v')"
    then have "x \<in> set (msgqueue k v')" using q by (auto split: if_splits)
    with x' show "v = v'" using msgs_okD(4)[OF ok(2)] by blast
  next
    fix v assume "v \<in> set (k_tids ?k')" "tstate ?k' v = CH_STATE_WTMSG"
    then show "msgqueue ?k' v = []"
      using msgs_okD(5)[OF ok(2), of v] msgs_ok_cur(2)[OF inv] by (auto split: if_splits)
  next
    fix v assume "v \<in> set (k_tids ?k')" "tstate ?k' v \<in> {CH_STATE_SNDMSGQ, CH_STATE_SNDMSG}"
    then show "\<exists>m. t_u (k_thr ?k' v) = SentMsg m"
      using msgs_okD(6)[OF ok(2), of v] m by (cases "v = s") simp_all
  qed
  ultimately show ?thesis
    using q m by (simp add: msg_accept_def msg_inv_def chMsgGet_def)
qed

lemma chMsgRelease_ok:
  assumes inv: "msg_inv k" and ok: "sched_ok k" and s: "s \<in> set (k_tids k)" "tstate k s = CH_STATE_SNDMSG"
  shows "\<exists>k'. chMsgRelease s msg k = Inr k' \<and> msg_inv k' \<and> sched_ok k' \<and> rdymsg s k' = Inr msg \<and>
    tstate k' s \<in> {CH_STATE_READY, CH_STATE_CURRENT} \<and> (\<forall>t. msgqueue k' t = msgqueue k t)"
proof -
  have i: "sys_inv k" "msgs_ok k" using inv by (simp_all add: msg_inv_def)
  obtain k' where k': "chSchWakeupS s msg k = Inr k'" "sys_inv k'" "sched_ok k'" "sched_frame k k'"
      "t_u (k_thr k' s) = RdyMsg msg" "\<forall>u. u \<noteq> s \<longrightarrow> t_u (k_thr k' u) = t_u (k_thr k u)"
      "\<forall>u \<in> set (k_tids k). tstate k' u \<in> {CH_STATE_READY, CH_STATE_CURRENT} \<longleftrightarrow>
         u = s \<or> tstate k u \<in> {CH_STATE_READY, CH_STATE_CURRENT}"
      "\<forall>u. u \<noteq> s \<longrightarrow> u \<noteq> k_cur k \<longrightarrow> k_thr k' u = k_thr k u"
    using wakeup_elsewhere[OF i(1) ok s(1), of msg] s(2) by auto
  note cur = msgs_ok_cur[OF inv]
  have run: "tstate k' s \<in> {CH_STATE_READY, CH_STATE_CURRENT}" "tstate k' (k_cur k) \<in> {CH_STATE_READY, CH_STATE_CURRENT}"
    using k'(7) s(1) cur(2,3) by auto
  have fr: "k_tids k' = k_tids k" "msgqueue k' t = msgqueue k t" for t
    using k'(4) by (simp_all add: sched_frame_def)
  have st: "tstate k' u = x \<longleftrightarrow> u \<noteq> s \<and> tstate k u = x"
    if "x \<in> {CH_STATE_SNDMSGQ, CH_STATE_SNDMSG, CH_STATE_WTMSG}" for u x
    using that run cur(2) k'(8) by (cases "u = s"; cases "u = k_cur k") auto
  have "msgs_ok k'"
  proof -
    have "s \<notin> set (msgqueue k t)" for t using msgs_okD(3)[OF i(2), of s t] s(2) by auto
    then have "tstate k' u = CH_STATE_SNDMSGQ" if "u \<in> set (msgqueue k t)" for u t
      using st[of CH_STATE_SNDMSGQ u] msgs_okD(3)[OF i(2) that] that by auto
    moreover have "\<exists>m. t_u (k_thr k' t) = SentMsg m"
      if "t \<in> set (k_tids k)" "tstate k' t \<in> {CH_STATE_SNDMSGQ, CH_STATE_SNDMSG}" for t
    proof -
      have "t \<noteq> s" "tstate k t \<in> {CH_STATE_SNDMSGQ, CH_STATE_SNDMSG}" using st that(2) by blast+
      then show ?thesis using k'(6) msgs_okD(6)[OF i(2) that(1)] by simp
    qed
    moreover have "msgqueue k t = []" if "t \<in> set (k_tids k)" "tstate k' t = CH_STATE_WTMSG" for t
      using st[of CH_STATE_WTMSG t] msgs_okD(5)[OF i(2)] that by blast
    ultimately show ?thesis
      using msgs_okD(1,2,4)[OF i(2)] unfolding msgs_ok_def fr by blast
  qed
  then show ?thesis
    using k'(1-3,5) run(1) s(2) fr(2) by (simp add: chMsgRelease_def chMsgReleaseS_def msg_inv_def rdymsg_def)
qed

text \<open>One exchange, from the receiver's side.\<close>

lemma msg_exchange:
  assumes "msg_inv k" "sched_ok k" "msgqueue k (k_cur k) = s # q" "t_u (k_thr k s) = SentMsg m"
  shows "\<exists>k1 k2. chMsgWait k = Inr (Some s, k1) \<and> chMsgGet s k1 = Inr m \<and> chMsgRelease s answer k1 = Inr k2 \<and>
    msg_inv k2 \<and> sched_ok k2 \<and> rdymsg s k2 = Inr answer \<and> tstate k2 s \<in> {CH_STATE_READY, CH_STATE_CURRENT} \<and>
    msgqueue k2 (k_cur k) = q"
proof -
  obtain k1 where k1: "msg_accept k = Inr (s, k1)" "msg_inv k1" "k_tids k1 = k_tids k" "msgqueue k1 (k_cur k) = q"
      "chMsgGet s k1 = Inr m" "tstate k1 s = CH_STATE_SNDMSG" "sched_ok k1"
    using msg_accept_ok[OF assms(1,3,4)] assms(2) by blast
  have "s \<in> set (k_tids k1)"
    using assms(1,3) k1(3) msgs_okD(2)[of k s "k_cur k"] by (simp add: msg_inv_def)
  from chMsgRelease_ok[OF k1(2,7) this k1(6), of answer] k1 show ?thesis
    using assms(3) by (auto simp: chMsgWait_def chMsgWaitS_def chMsgIsPendingI_def)
qed

text \<open>
  Sending does not write the wake-up message of the receiver. A receiver that waits with a
  timeout therefore reads the message it was woken with before, and reports a timeout when that
  was none of success, although a sender is in its queue.
\<close>

lemma chMsgWaitTimeoutS_resume_stale:
  assumes "t_u (k_thr k (k_cur k)) = RdyMsg m" "m \<noteq> MSG_OK"
  shows "chMsgWaitTimeoutS_resume k = Inr (None, k\<lparr>k_timer := (k_timer k)(k_cur k := None)\<rparr>)"
  using assms by (simp add: chMsgWaitTimeoutS_resume_def chSchGoSleepTimeoutS_resume_def rdymsg_def)

end
