(* ===== verification/Ch_Sys.thy ===== *)
theory Ch_Sys
  imports Ch_Dbg Ch_Lists Ch_Reg Ch_Sem Ch_Evt Ch_Msg
begin

text \<open>
  The start of the system: \<^verbatim>\<open>chsys.c\<close> and \<^verbatim>\<open>chinstances.c\<close>, with the check of the integrity of the
  kernel's lists on the store of links of \<open>Ch_Lists\<close>.
\<close>

section \<open>State\<close>

text \<open>
  The system object and the instance of the one core. The main thread is a field of the instance, at the
  address \<open>mainthread\<close>; the working areas come from the linker, \<open>idle_fn\<close> is the address of the function of
  the idle thread.
\<close>

datatype system_state_t = ch_sys_uninit | ch_sys_initializing | ch_sys_running | ch_sys_halted

record os_instance_config_t =
  mainthread :: tid
  mainthread_base :: u32
  idlethread_base :: u32
  idlethread_end :: u32
  idle_fn :: u32

record os_t =
  o_state :: system_state_t
  o_registered :: bool
  o_offset :: u32
  o_sys :: sys_t
  o_reg :: reg_t
  o_vt :: vt_t
  o_trace :: trace_buffer_t
  o_panic :: "string option"

abbreviation o_k :: "os_t \<Rightarrow> kernel_t" where
  "o_k os \<equiv> y_k (o_sys os)"

section \<open>Start\<close>

definition reg_object_init :: "kernel_t \<Rightarrow> kernel_t" where
  "reg_object_init k = k\<lparr>k_tids := []\<rparr>"

definition rfcu_object_init :: "vt_t \<Rightarrow> vt_t" where
  "rfcu_object_init v = v\<lparr>v_faults := 0\<rparr>"

definition idle_descriptor :: "os_instance_config_t \<Rightarrow> thread_descriptor_t" where
  "idle_descriptor oicp = \<lparr>td_name = Some ''idle'', td_wbase = idlethread_base oicp, td_wend = idlethread_end oicp,
     td_prio = IDLEPRIO, td_funcp = idle_fn oicp\<rparr>"

text \<open>
  \<open>k_idle\<close>, by which the model knows the idle thread, is set where it is created; the code finds it at the end
  of the ready list.
\<close>

definition chInstanceObjectInit :: "layout_t \<Rightarrow> os_instance_config_t \<Rightarrow> os_t \<Rightarrow> os_t result" where
  "chInstanceObjectInit lay oicp os =
     bindE (assertE (\<not> o_registered os) (Halted ''instance already registered'')) (\<lambda>_.
     let os = os\<lparr>o_registered := True\<rparr>;
         cpu = port_suspend (y_cpu (o_sys os));
         k = (o_k os)\<lparr>k_ready := []\<rparr>;
         k = reg_object_init k;
         v = rfcu_object_init (o_vt os);
         v = vt_object_init v;
         tb = trace_object_init (o_trace os);
         t = mainthread oicp;
         k = thd_object_init t NORMALPRIO k;
         r = thd_life_init t (Some ''main'') (o_reg os);
         k = k\<lparr>k_cur := t\<rparr>;
         r = upd_life t (\<lambda>l. l\<lparr>l_wabase := mainthread_base oicp\<rparr>) r;
         k = set_state t CH_STATE_CURRENT k in
     bindE (chThdCreateI lay (idle_descriptor oicp) (r, k)) (\<lambda>(idle, r, k).
     Inr (os\<lparr>o_sys := \<lparr>y_cpu = cpu, y_dbg = dbg_object_init, y_k = k\<lparr>k_idle := idle\<rparr>\<rparr>, o_reg := r, o_vt := v, o_trace := tb,
       o_panic := None\<rparr>)))"

text \<open>The library modules set the core allocator and the default heap up; \<open>rt\<close> are the readings of the realtime counter.\<close>

definition oslib_init :: "u32 \<Rightarrow> u32 \<Rightarrow> os_t \<Rightarrow> os_t" where
  "oslib_init heap_base heap_end os =
     (let h = (r_heap (o_reg os))\<lparr>hs_core := core_init heap_base heap_end\<rparr>;
          (h, k) = heap_sys_init h (o_k os) in
      os\<lparr>o_reg := (o_reg os)\<lparr>r_heap := h\<rparr>, o_sys := (o_sys os)\<lparr>y_k := k\<rparr>\<rparr>)"

definition chSysInit :: "layout_t \<Rightarrow> os_instance_config_t \<Rightarrow> u32 \<Rightarrow> u32 \<Rightarrow> (nat \<Rightarrow> u32) \<Rightarrow> os_t \<Rightarrow> os_t result" where
  "chSysInit lay ch_core0_cfg heap_base heap_end rt os =
     (let os = os\<lparr>o_state := ch_sys_initializing, o_registered := False\<rparr>;
          os = os\<lparr>o_offset := tm_calibration_object_init rt\<rparr>;
          os = oslib_init heap_base heap_end os in
      bindE (chInstanceObjectInit lay ch_core0_cfg os) (\<lambda>os.
      let os = os\<lparr>o_state := ch_sys_running\<rparr> in
      bindE (chSysUnlock (o_sys os)) (\<lambda>y. Inr (os\<lparr>o_sys := y\<rparr>))))"

text \<open>
  Halting, up to the endless loop: this is the state the system is left in wherever the model says
  \<open>Halted\<close>. The hooks are empty.
\<close>

definition chSysHalt :: "systime_t \<Rightarrow> u32 \<Rightarrow> string \<Rightarrow> os_t \<Rightarrow> os_t result" where
  "chSysHalt now rt reason os =
     (let os = os\<lparr>o_sys := (o_sys os)\<lparr>y_cpu := port_disable (y_cpu (o_sys os))\<rparr>\<rparr> in
      bindE (trace_halt now rt reason (o_trace os)) (\<lambda>tb.
      let os = os\<lparr>o_trace := tb\<rparr>; os = os\<lparr>o_panic := Some reason\<rparr> in
      Inr (os\<lparr>o_state := ch_sys_halted\<rparr>)))"

text \<open>The last thread of the ready list; of an empty list the code would take the header for a thread.\<close>

definition chSysGetIdleThreadX :: "kernel_t \<Rightarrow> tid result" where
  "chSysGetIdleThreadX k =
     (if k_ready k = [] then Inl OutOfBounds
      else let tp = last (k_ready k) in
           bindE (assertE (prio k tp = IDLEPRIO) (Halted ''not idle thread'')) (\<lambda>_. Inr tp))"

section \<open>Integrity\<close>

text \<open>
  The elements of a ring are counted up along one direction and down along the other, with a signed counter,
  in loops that nothing bounds.
\<close>

definition CH_INTEGRITY_RLIST :: u32 where "CH_INTEGRITY_RLIST = 1"
definition CH_INTEGRITY_VTLIST :: u32 where "CH_INTEGRITY_VTLIST = 2"
definition CH_INTEGRITY_REGISTRY :: u32 where "CH_INTEGRITY_REGISTRY = 4"

partial_function (option) scan_count :: "(nat \<Rightarrow> nat) \<Rightarrow> nat \<Rightarrow> int \<Rightarrow> nat \<Rightarrow> int \<Rightarrow> int result option" where
  "scan_count link h d p n =
     (if p = h then Some (Inr n)
      else case c_int (n + d) of
             Inl e \<Rightarrow> Some (Inl e)
           | Inr n \<Rightarrow> scan_count link h d (link p) n)"

definition ring_count :: "links_t \<Rightarrow> nat \<Rightarrow> int result" where
  "ring_count m h =
     bindE (finished (scan_count (l_next m) h 1 (l_next m h) 0)) (\<lambda>n.
     finished (scan_count (l_prev m) h (- 1) (l_prev m h) n))"

definition chSysIntegrityCheckI :: "nat \<Rightarrow> nat \<Rightarrow> nat \<Rightarrow> u32 \<Rightarrow> links_t \<Rightarrow> bool result" where
  "chSysIntegrityCheckI rlist vtlist reglist testmask m =
     bindE (if testmask AND CH_INTEGRITY_RLIST \<noteq> 0 then ring_count m rlist else Inr 0) (\<lambda>n.
     if n \<noteq> 0 then Inr True else
     bindE (if testmask AND CH_INTEGRITY_VTLIST \<noteq> 0 then ring_count m vtlist else Inr 0) (\<lambda>n.
     if n \<noteq> 0 then Inr True else
     bindE (if testmask AND CH_INTEGRITY_REGISTRY \<noteq> 0 then ring_count m reglist else Inr 0) (\<lambda>n.
     Inr (n \<noteq> 0))))"

text \<open>The links lead from \<open>p\<close> through \<open>xs\<close> to the header.\<close>

fun path :: "(nat \<Rightarrow> nat) \<Rightarrow> nat \<Rightarrow> nat list \<Rightarrow> nat \<Rightarrow> bool" where
  "path link p [] h \<longleftrightarrow> p = h"
| "path link p (x # xs) h \<longleftrightarrow> p = x \<and> x \<noteq> h \<and> path link (link x) xs h"

lemma scan_count_path:
  assumes "path link p xs h" "INT_MIN \<le> n + d * int (length xs)" "n + d * int (length xs) \<le> INT_MAX" "INT_MIN \<le> n" "n \<le> INT_MAX" "d \<in> {1, - 1}"
  shows "scan_count link h d p n = Some (Inr (n + d * int (length xs)))"
  using assms
proof (induction xs arbitrary: p n)
  case Nil
  then show ?case by (simp add: scan_count.simps)
next
  case (Cons x xs)
  have x: "p = x" "x \<noteq> h" "path link (link x) xs h" using Cons.prems(1) by simp_all
  have d: "INT_MIN \<le> n + d" "n + d \<le> INT_MAX"
    using Cons.prems(2-6) by (auto simp: algebra_simps)
  have "scan_count link h d (link x) (n + d) = Some (Inr (n + d + d * int (length xs)))"
    by (rule Cons.IH[OF x(3)]) (use Cons.prems(2,3,6) d in \<open>auto simp: algebra_simps\<close>)
  then show ?case
    using x(1,2) d by (subst scan_count.simps) (simp add: c_int_ok algebra_simps)
qed

lemma ring_count_paths:
  assumes "path (l_next m) (l_next m h) fs h" "path (l_prev m) (l_prev m h) bs h"
    "int (length fs) \<le> INT_MAX" "int (length bs) \<le> INT_MAX"
  shows "ring_count m h = Inr (int (length fs) - int (length bs))"
proof -
  have "scan_count (l_next m) h 1 (l_next m h) 0 = Some (Inr (0 + 1 * int (length fs)))"
    by (rule scan_count_path[OF assms(1)]) (use assms(3) in \<open>auto simp: INT_MIN_def INT_MAX_def\<close>)
  moreover have "scan_count (l_prev m) h (- 1) (l_prev m h) (int (length fs)) = Some (Inr (int (length fs) + - 1 * int (length bs)))"
    by (rule scan_count_path[OF assms(2)]) (use assms(3,4) in \<open>auto simp: INT_MIN_def INT_MAX_def\<close>)
  ultimately show ?thesis by (simp add: ring_count_def finished_def)
qed

lemma chain_path: "chain m a xs h \<Longrightarrow> h \<notin> set xs \<Longrightarrow> path (l_next m) (l_next m a) xs h"
  by (induction xs arbitrary: a) auto

lemma chain_path_back:
  assumes "chain m h xs a" "h \<notin> set xs"
  shows "path (l_prev m) (l_prev m a) (rev xs) h"
  using assms
proof (induction xs arbitrary: a rule: rev_induct)
  case Nil
  then show ?case by simp
next
  case (snoc x xs)
  then show ?case by (simp add: chain_append)
qed

lemma ring_paths:
  assumes "ring m h xs"
  shows "path (l_next m) (l_next m h) xs h" "path (l_prev m) (l_prev m h) (rev xs) h"
  using assms chain_path[of m h xs h] chain_path_back[of m h xs h] by (simp_all add: ring_def)

definition selected :: "u32 \<Rightarrow> nat \<Rightarrow> nat \<Rightarrow> nat \<Rightarrow> nat set" where
  "selected testmask rlist vtlist reglist =
     (if testmask AND CH_INTEGRITY_RLIST \<noteq> 0 then {rlist} else {}) \<union>
     (if testmask AND CH_INTEGRITY_VTLIST \<noteq> 0 then {vtlist} else {}) \<union>
     (if testmask AND CH_INTEGRITY_REGISTRY \<noteq> 0 then {reglist} else {})"

lemma integrity_check_ok:
  assumes "\<And>h. h \<in> selected testmask rlist vtlist reglist \<Longrightarrow>
    path (l_next m) (l_next m h) (fs h) h \<and> path (l_prev m) (l_prev m h) (bs h) h \<and>
    int (length (fs h)) \<le> INT_MAX \<and> int (length (bs h)) \<le> INT_MAX"
  shows "chSysIntegrityCheckI rlist vtlist reglist testmask m =
    Inr (\<exists>h \<in> selected testmask rlist vtlist reglist. length (fs h) \<noteq> length (bs h))"
proof -
  have "ring_count m h = Inr (int (length (fs h)) - int (length (bs h)))" if "h \<in> selected testmask rlist vtlist reglist" for h
    using assms[OF that] by (intro ring_count_paths) auto
  then show ?thesis
    by (auto simp: chSysIntegrityCheckI_def selected_def)
qed

section \<open>The state after the start\<close>

text \<open>
  Before the start no synchronisation object is in use. What the registers and the debug data hold does not
  matter, except that the start is not made from an exception handler.
\<close>

definition unused :: "os_t \<Rightarrow> bool" where
  "unused os \<longleftrightarrow> c_active (y_cpu (o_sys os)) = [] \<and>
     (\<forall>m. k_mtx (o_k os) m = \<lparr>m_queue = [], m_owner = None\<rparr>) \<and> (\<forall>c. k_cond (o_k os) c = []) \<and>
     (\<forall>s. s_queue (k_sem (o_k os) s) = [] \<and> 0 \<le> s_cnt (k_sem (o_k os) s) \<and> s_cnt (k_sem (o_k os) s) \<le> INT_MAX) \<and>
     (\<forall>r. k_ref (o_k os) r = None) \<and> (\<forall>q. k_queue (o_k os) q = []) \<and>
     (\<forall>t. t_msgqueue (k_thr (o_k os) t) = [] \<and> waiting (o_reg os) t = []) \<and>
     length (tb_buffer (o_trace os)) = CH_DBG_TRACE_BUFFER_SIZE"

text \<open>Two threads: the running one with the priority of the main thread and the idle thread, ready.\<close>

definition started :: "tid \<Rightarrow> tid \<Rightarrow> kernel_t \<Rightarrow> bool" where
  "started t i k \<longleftrightarrow> k_tids k = [t, i] \<and> k_cur k = t \<and> k_idle k = i \<and> k_ready k = [i] \<and>
     tstate k t = CH_STATE_CURRENT \<and> tstate k i = CH_STATE_READY \<and>
     (\<forall>u \<in> {t, i}. prio k u = realprio k u \<and> mtxlist k u = []) \<and> prio k t = NORMALPRIO \<and> prio k i = IDLEPRIO"

definition kernel_inv :: "os_t \<Rightarrow> bool" where
  "kernel_inv os \<longleftrightarrow> life_inv (o_reg os, o_k os) \<and> sched_ok (o_k os) \<and> thd_inv (o_k os) \<and> sem_inv (o_k os) \<and> evt_inv (o_k os) \<and>
     msg_inv (o_k os) \<and> vt_ok (o_vt os) \<and> trace_ok (o_trace os)"

lemma started_sched_inv: "started t i k \<Longrightarrow> t \<noteq> i \<Longrightarrow> sched_ok k"
  by (auto simp: started_def sched_ok_def sched_inv_def firstprio_def NORMALPRIO_def IDLEPRIO_def psorted_def)

lemma started_sys_inv:
  assumes "started t i k" "t \<noteq> i" "\<And>m. k_mtx k m = \<lparr>m_queue = [], m_owner = None\<rparr>" "\<And>c. k_cond k c = []"
  shows "sys_inv k"
proof -
  have "mtx_struct k"
    using assms by (auto simp: started_def mtx_struct_def waits_mtx_def waits_cond_def NORMALPRIO_def IDLEPRIO_def)
  moreover have "qsorted k" using assms(3,4) by (simp add: qsorted_def psorted_def)
  moreover have "inherits k" using assms(3) by (simp add: inherits_def)
  moreover have "\<forall>u \<in> set (k_tids k). realprio k u \<le> prio k u \<and> justified k u"
    using assms(1) by (auto simp: started_def justified_def)
  ultimately show ?thesis
    using started_sched_inv[OF assms(1,2)] by (simp add: sys_inv_def mtx_inv_def sched_ok_def)
qed

lemma started_kernel_inv:
  assumes "started t i (o_k os)" "t \<noteq> i" "unused os" "vt_ok (o_vt os)" "trace_ok (o_trace os)"
  shows "kernel_inv os"
proof -
  let ?k = "o_k os"
  have s: "sys_inv ?k" using started_sys_inv[OF assms(1,2)] assms(3) by (simp add: unused_def)
  have st: "tstate ?k u \<in> {CH_STATE_CURRENT, CH_STATE_READY}" "u = t \<or> u = i" if "u \<in> set (k_tids ?k)" for u
    using that assms(1) by (auto simp: started_def)
  have lv: "lives_ok (o_reg os) ?k" using assms(1-3) st(1) by (force simp: lives_ok_def unused_def started_def)
  have rq: "refs_ok ?k" "queues_ok ?k" using assms(3) st(1) by (force simp: refs_ok_def queues_ok_def unused_def)+
  have "\<not> waits_sem ?k u m" for u m using st(1)[of u] by (auto simp: waits_sem_def)
  moreover have "INT_MIN < 0" "0 \<le> scnt ?k m" for m using assms(3) by (simp_all add: unused_def INT_MIN_def)
  then have "INT_MIN < scnt ?k m" for m by (rule less_le_trans)
  ultimately have "sem_ok ?k m" for m using assms(3) by (auto simp: sem_ok_defs unused_def)
  moreover have ns: "tstate ?k u \<notin> {CH_STATE_WTOREVT, CH_STATE_WTANDEVT, CH_STATE_WTMSG, CH_STATE_SNDMSGQ, CH_STATE_SNDMSG}"
    if "u \<in> set (k_tids ?k)" for u using st(1)[OF that] by auto
  then have "evt_waiting ?k" by (simp add: evt_waiting_def)
  moreover have "msgqueue ?k u = []" for u using assms(3) by (simp add: unused_def)
  with ns have "msgs_ok ?k" by (simp add: msgs_ok_def)
  ultimately show ?thesis
    using s lv rq started_sched_inv[OF assms(1,2)] assms(4,5)
    by (simp add: kernel_inv_def life_inv_def thd_inv_def sem_inv_def evt_inv_def msg_inv_def)
qed

lemma create_idle:
  assumes "td_valid lay (idle_descriptor cfg)" "k_ready k = []"
  shows "chThdCreateI lay (idle_descriptor cfg) (r, k) =
    (let i = thd_at lay (idlethread_end cfg) in
     Inr (i, thd_life_init i (Some ''idle'') (upd_life i (\<lambda>l. l\<lparr>l_wabase := idlethread_base cfg\<rparr>) r),
       (set_state i CH_STATE_READY (thd_object_init i IDLEPRIO k))\<lparr>k_ready := [i]\<rparr>))"
  using assms by (simp add: chThdCreateI_def chThdCreateSuspendedI_def td_valid_def idle_descriptor_def Let_def chSchReadyI_def
      sch_ready_behind_def ch_pqueue_insert_behind_def)

lemma chInstanceObjectInit_ok:
  assumes u: "unused os" "\<not> o_registered os" and td: "td_valid lay (idle_descriptor cfg)" "thd_at lay (idlethread_end cfg) \<noteq> mainthread cfg"
  shows "\<exists>os'. chInstanceObjectInit lay cfg os = Inr os' \<and>
    started (mainthread cfg) (thd_at lay (idlethread_end cfg)) (o_k os') \<and> in_zone (Locked, False) (o_sys os') \<and> kernel_inv os'"
proof -
  let ?t = "mainthread cfg" and ?i = "thd_at lay (idlethread_end cfg)"
  obtain os' where os': "chInstanceObjectInit lay cfg os = Inr os'" "started ?t ?i (o_k os')" "in_zone (Locked, False) (o_sys os')"
      "unused os'" "v_dlist (o_vt os') = []" "o_trace os' = trace_object_init (o_trace os)"
    using u td(2)
    by (simp add: chInstanceObjectInit_def create_idle[OF td(1)] reg_object_init_def Let_def started_def in_zone_def unused_def
        thd_life_init_def ports dbg_object_init_def vt_object_init_def trace_object_init_def thd_object_init_def)
  have "trace_ok (o_trace os')" using trace_init_ok(1) u(1) os'(6) by (simp add: unused_def)
  moreover have "vt_ok (o_vt os')" using os'(5) by (simp add: vt_ok_def)
  ultimately have "kernel_inv os'" using os'(2,4) td(2) by (intro started_kernel_inv[OF os'(2)]) auto
  with os' show ?thesis by blast
qed

lemma chSysInit_ok:
  assumes u: "unused os" and td: "td_valid lay (idle_descriptor cfg)" "thd_at lay (idlethread_end cfg) \<noteq> mainthread cfg"
  shows "\<exists>os'. chSysInit lay cfg hb he rt os = Inr os' \<and> o_state os' = ch_sys_running \<and>
    started (mainthread cfg) (thd_at lay (idlethread_end cfg)) (o_k os') \<and> in_zone (Thread, False) (o_sys os') \<and> kernel_inv os'"
proof -
  let ?os = "oslib_init hb he (os\<lparr>o_state := ch_sys_initializing, o_registered := False, o_offset := tm_calibration_object_init rt\<rparr>)"
  have "unused ?os" "\<not> o_registered ?os"
    using u by (simp_all add: unused_def oslib_init_def heap_sys_init_def chMtxObjectInit_def kernel_upd Let_def)
  then obtain os1 where os1: "chInstanceObjectInit lay cfg ?os = Inr os1"
      "started (mainthread cfg) (thd_at lay (idlethread_end cfg)) (o_k os1)" "in_zone (Locked, False) (o_sys os1)" "kernel_inv os1"
    using chInstanceObjectInit_ok[OF _ _ td] by blast
  have "no_preemption (o_k os1)" using os1(4) by (simp add: kernel_inv_def sched_ok_def no_preemption_def)
  then obtain y where "chSysUnlock (o_sys os1) = Inr y" "in_zone (Thread, False) y" "y_k y = o_k os1"
    using sys_call_allowed[OF os1(3), of CUnlock] by auto
  with os1 show ?thesis by (auto simp: chSysInit_def Let_def kernel_inv_def)
qed

text \<open>The thread found at the end of the ready list is the idle thread, as long as no other has its priority.\<close>

lemma idle_thread_ok:
  assumes "sched_inv k" "k_idle k \<noteq> k_cur k" "prio k (k_idle k) = IDLEPRIO" "\<forall>t \<in> set (k_ready k) - {k_idle k}. prio k t > IDLEPRIO"
  shows "chSysGetIdleThreadX k = Inr (k_idle k)"
proof -
  have i: "k_idle k \<in> set (k_ready k)" "psorted (prio k) (k_ready k)" using assms(1,2) by (simp_all add: sched_inv_def)
  then obtain xs where x: "k_ready k = xs @ [last (k_ready k)]" by (metis append_butlast_last_id empty_iff empty_set)
  have "prio k (last (k_ready k)) \<le> prio k (k_idle k)"
  proof (cases "k_idle k \<in> set xs")
    case True
    then show ?thesis using i(2) x unfolding psorted_def by (metis sorted_wrt_append list.set_intros(1))
  next
    case False
    then have "k_idle k = last (k_ready k)" using i(1) x by (metis Un_iff set_append set_ConsD empty_iff empty_set)
    then show ?thesis by simp
  qed
  moreover have "last (k_ready k) \<in> set (k_ready k)" using i(1) by (intro last_in_set) auto
  ultimately have "last (k_ready k) = k_idle k" using assms(3,4) by (metis Diff_iff leD singletonD)
  then show ?thesis using i(1) assms(3) by (auto simp: chSysGetIdleThreadX_def)
qed

end
