(* ===== verification/Hal_Queues.thy ===== *)
theory Hal_Queues
  imports Ch_Thd Ring
begin

text \<open>
  The I/O queues of the HAL: \<^verbatim>\<open>hal_queues.c\<close> and \<^verbatim>\<open>hal_queues.h\<close>. Pointers into the buffer are
  indices, \<open>q_top\<close> is the length of the buffer, \<open>q_waiting\<close> names the threads queue. The
  notification callback \<open>q_notify\<close> is the argument \<open>nfy\<close> of the operations that call it,
  \<open>None\<close> when the pointer is null. The counter holds the bytes in an input queue and the free
  places in an output queue.
\<close>

section \<open>State\<close>

record io_queue_t =
  q_waiting :: nat
  q_counter :: nat
  q_buffer :: "u8 list"
  q_wrptr :: nat
  q_rdptr :: nat

type_synonym notify = "(io_queue_t \<Rightarrow> kernel_t \<Rightarrow> (io_queue_t \<times> kernel_t) result) option"

definition notify :: "notify \<Rightarrow> io_queue_t \<Rightarrow> kernel_t \<Rightarrow> (io_queue_t \<times> kernel_t) result" where
  "notify nfy q k = (case nfy of None \<Rightarrow> Inr (q, k) | Some f \<Rightarrow> f q k)"

definition qSizeX :: "io_queue_t \<Rightarrow> nat" where
  "qSizeX q = length (q_buffer q)"

definition iqIsEmptyI :: "io_queue_t \<Rightarrow> bool" where
  "iqIsEmptyI q \<longleftrightarrow> q_counter q = 0"

definition iqIsFullI :: "io_queue_t \<Rightarrow> bool" where
  "iqIsFullI q \<longleftrightarrow> q_wrptr q = q_rdptr q \<and> q_counter q \<noteq> 0"

definition oqIsEmptyI :: "io_queue_t \<Rightarrow> bool" where
  "oqIsEmptyI q \<longleftrightarrow> q_wrptr q = q_rdptr q \<and> q_counter q \<noteq> 0"

definition oqIsFullI :: "io_queue_t \<Rightarrow> bool" where
  "oqIsFullI q \<longleftrightarrow> q_counter q = 0"

text \<open>\<open>memcpy\<close> out of and into the buffer.\<close>

definition cpy_from :: "u8 list \<Rightarrow> nat \<Rightarrow> nat \<Rightarrow> u8 list result" where
  "cpy_from buf p n = (if p + n \<le> length buf then Inr (take n (drop p buf)) else Inl OutOfBounds)"

definition cpy_to :: "u8 list \<Rightarrow> nat \<Rightarrow> u8 list \<Rightarrow> u8 list result" where
  "cpy_to buf p xs =
     (if p + length xs \<le> length buf then Inr (take p buf @ xs @ drop (p + length xs) buf) else Inl OutOfBounds)"

section \<open>Input queues\<close>

definition iqObjectInit :: "u8 list \<Rightarrow> nat \<Rightarrow> kernel_t \<Rightarrow> io_queue_t \<times> kernel_t" where
  "iqObjectInit buf w k =
     (\<lparr>q_waiting = w, q_counter = 0, q_buffer = buf, q_wrptr = 0, q_rdptr = 0\<rparr>, chThdQueueObjectInit w k)"

definition iqResetI :: "io_queue_t \<Rightarrow> kernel_t \<Rightarrow> (io_queue_t \<times> kernel_t) result" where
  "iqResetI q k =
     bindE (chThdDequeueAllI (q_waiting q) MSG_RESET k) (\<lambda>k. Inr (q\<lparr>q_rdptr := 0, q_wrptr := 0, q_counter := 0\<rparr>, k))"

text \<open>Storing a byte at the write pointer and taking one from the read pointer.\<close>

definition store_byte :: "u8 \<Rightarrow> io_queue_t \<Rightarrow> io_queue_t result" where
  "store_byte b q =
     bindE (wr (q_buffer q) (int (q_wrptr q)) b) (\<lambda>buf.
     let w = q_wrptr q + 1 in Inr (q\<lparr>q_buffer := buf, q_wrptr := (if w \<ge> length buf then 0 else w)\<rparr>))"

definition take_byte :: "io_queue_t \<Rightarrow> (u8 \<times> io_queue_t) result" where
  "take_byte q =
     bindE (rd (q_buffer q) (int (q_rdptr q))) (\<lambda>b.
     let r = q_rdptr q + 1 in Inr (b, q\<lparr>q_rdptr := (if r \<ge> length (q_buffer q) then 0 else r)\<rparr>))"

definition iq_put1 :: "u8 \<Rightarrow> io_queue_t \<Rightarrow> io_queue_t result" where
  "iq_put1 b q = store_byte b (q\<lparr>q_counter := q_counter q + 1\<rparr>)"

definition iq_get1 :: "io_queue_t \<Rightarrow> (u8 \<times> io_queue_t) result" where
  "iq_get1 q = take_byte (q\<lparr>q_counter := q_counter q - 1\<rparr>)"

definition iqPutI :: "u8 \<Rightarrow> io_queue_t \<Rightarrow> kernel_t \<Rightarrow> (msg_t \<times> io_queue_t \<times> kernel_t) result" where
  "iqPutI b q k =
     (if \<not> iqIsFullI q then
        bindE (iq_put1 b q) (\<lambda>q.
        bindE (chThdDequeueNextI (q_waiting q) MSG_OK k) (\<lambda>k. Inr (MSG_OK, q, k)))
      else Inr (MSG_TIMEOUT, q, k))"

definition iqGetI :: "notify \<Rightarrow> io_queue_t \<Rightarrow> kernel_t \<Rightarrow> (msg_t \<times> io_queue_t \<times> kernel_t) result" where
  "iqGetI nfy q k =
     (if \<not> iqIsEmptyI q then
        bindE (iq_get1 q) (\<lambda>(b, q). bindE (notify nfy q k) (\<lambda>(q, k). Inr (uint b, q, k)))
      else Inr (MSG_TIMEOUT, q, k))"

text \<open>
  The waiting loops: a call that has to wait sleeps (\<open>None\<close>), and goes on with
  \<open>iqGetTimeout_resume\<close> when it runs again.
\<close>

definition iqGetTimeout :: "notify \<Rightarrow> sysinterval_t \<Rightarrow> io_queue_t \<Rightarrow> kernel_t \<Rightarrow> (msg_t option \<times> io_queue_t \<times> kernel_t) result" where
  "iqGetTimeout nfy timeout q k =
     (if iqIsEmptyI q then
        bindE (chThdEnqueueTimeoutS (q_waiting q) timeout k) (\<lambda>(m, k). Inr (m, q, k))
      else
        bindE (iq_get1 q) (\<lambda>(b, q). bindE (notify nfy q k) (\<lambda>(q, k). Inr (Some (uint b), q, k))))"

definition iqGetTimeout_resume ::
  "notify \<Rightarrow> sysinterval_t \<Rightarrow> io_queue_t \<Rightarrow> kernel_t \<Rightarrow> (msg_t option \<times> io_queue_t \<times> kernel_t) result" where
  "iqGetTimeout_resume nfy timeout q k =
     bindE (chSchGoSleepTimeoutS_resume (k_cur k) k) (\<lambda>(m, k).
     if m < MSG_OK then Inr (Some m, q, k) else iqGetTimeout nfy timeout q k)"

definition iq_read :: "nat \<Rightarrow> io_queue_t \<Rightarrow> (u8 list \<times> io_queue_t) result" where
  "iq_read n q =
     bindE (assertE (n > 0) (Halted ''iq_read'')) (\<lambda>_.
     let n = (if n > q_counter q then q_counter q else n);
         s1 = length (q_buffer q) - q_rdptr q
     in bindE
          (if n < s1 then bindE (cpy_from (q_buffer q) (q_rdptr q) n) (\<lambda>bs. Inr (bs, q_rdptr q + n))
           else if n > s1 then
             bindE (cpy_from (q_buffer q) (q_rdptr q) s1) (\<lambda>bs1.
             let s2 = n - s1 in bindE (cpy_from (q_buffer q) 0 s2) (\<lambda>bs2. Inr (bs1 @ bs2, s2)))
           else bindE (cpy_from (q_buffer q) (q_rdptr q) n) (\<lambda>bs. Inr (bs, 0)))
          (\<lambda>(bs, r). Inr (bs, q\<lparr>q_rdptr := r, q_counter := q_counter q - n\<rparr>)))"

definition iqReadI :: "notify \<Rightarrow> nat \<Rightarrow> io_queue_t \<Rightarrow> kernel_t \<Rightarrow> (u8 list \<times> io_queue_t \<times> kernel_t) result" where
  "iqReadI nfy n q k =
     bindE (iq_read n q) (\<lambda>(bs, q).
     bindE (if bs \<noteq> [] then notify nfy q k else Inr (q, k)) (\<lambda>(q, k). Inr (bs, q, k)))"

text \<open>
  The reading loop: the bytes read so far, what is left to read, and whether the caller
  is asleep waiting for more.
\<close>

function iq_read_loop ::
  "notify \<Rightarrow> sysinterval_t \<Rightarrow> u8 list \<Rightarrow> nat \<Rightarrow> io_queue_t \<Rightarrow> kernel_t \<Rightarrow>
   (bool \<times> u8 list \<times> nat \<times> io_queue_t \<times> kernel_t) result" where
  "iq_read_loop nfy timeout acc n q k =
     (if n = 0 then Inr (False, acc, 0, q, k)
      else bindE (iq_read n q) (\<lambda>(bs, q).
        if bs = [] then
          bindE (chThdEnqueueTimeoutS (q_waiting q) timeout k) (\<lambda>(m, k). Inr (m = None, acc, n, q, k))
        else bindE (notify nfy q k) (\<lambda>(q, k). iq_read_loop nfy timeout (acc @ bs) (n - length bs) q k)))"
  by pat_completeness auto

termination iq_read_loop
  by (relation "measure (\<lambda>(_, _, _, n, _, _). n)") (auto simp: neq_Nil_conv)

declare iq_read_loop.simps [simp del]

definition iqReadTimeout ::
  "notify \<Rightarrow> nat \<Rightarrow> sysinterval_t \<Rightarrow> io_queue_t \<Rightarrow> kernel_t \<Rightarrow> (bool \<times> u8 list \<times> nat \<times> io_queue_t \<times> kernel_t) result" where
  "iqReadTimeout nfy n timeout q k =
     bindE (assertE (n > 0) (Halted ''iqReadTimeout'')) (\<lambda>_. iq_read_loop nfy timeout [] n q k)"

definition iqReadTimeout_resume ::
  "notify \<Rightarrow> sysinterval_t \<Rightarrow> u8 list \<Rightarrow> nat \<Rightarrow> io_queue_t \<Rightarrow> kernel_t \<Rightarrow>
   (bool \<times> u8 list \<times> nat \<times> io_queue_t \<times> kernel_t) result" where
  "iqReadTimeout_resume nfy timeout acc n q k =
     bindE (chSchGoSleepTimeoutS_resume (k_cur k) k) (\<lambda>(m, k).
     if m \<noteq> MSG_OK then Inr (False, acc, n, q, k) else iq_read_loop nfy timeout acc n q k)"

section \<open>Output queues\<close>

definition oqObjectInit :: "u8 list \<Rightarrow> nat \<Rightarrow> kernel_t \<Rightarrow> io_queue_t \<times> kernel_t" where
  "oqObjectInit buf w k =
     (\<lparr>q_waiting = w, q_counter = length buf, q_buffer = buf, q_wrptr = 0, q_rdptr = 0\<rparr>, chThdQueueObjectInit w k)"

definition oqResetI :: "io_queue_t \<Rightarrow> kernel_t \<Rightarrow> (io_queue_t \<times> kernel_t) result" where
  "oqResetI q k =
     bindE (chThdDequeueAllI (q_waiting q) MSG_RESET k) (\<lambda>k.
     Inr (q\<lparr>q_rdptr := 0, q_wrptr := 0, q_counter := qSizeX q\<rparr>, k))"

definition oq_put1 :: "u8 \<Rightarrow> io_queue_t \<Rightarrow> io_queue_t result" where
  "oq_put1 b q = store_byte b (q\<lparr>q_counter := q_counter q - 1\<rparr>)"

definition oq_get1 :: "io_queue_t \<Rightarrow> (u8 \<times> io_queue_t) result" where
  "oq_get1 q = take_byte (q\<lparr>q_counter := q_counter q + 1\<rparr>)"

definition oqPutI :: "notify \<Rightarrow> u8 \<Rightarrow> io_queue_t \<Rightarrow> kernel_t \<Rightarrow> (msg_t \<times> io_queue_t \<times> kernel_t) result" where
  "oqPutI nfy b q k =
     (if \<not> oqIsFullI q then
        bindE (oq_put1 b q) (\<lambda>q. bindE (notify nfy q k) (\<lambda>(q, k). Inr (MSG_OK, q, k)))
      else Inr (MSG_TIMEOUT, q, k))"

definition oqPutTimeout ::
  "notify \<Rightarrow> u8 \<Rightarrow> sysinterval_t \<Rightarrow> io_queue_t \<Rightarrow> kernel_t \<Rightarrow> (msg_t option \<times> io_queue_t \<times> kernel_t) result" where
  "oqPutTimeout nfy b timeout q k =
     (if oqIsFullI q then
        bindE (chThdEnqueueTimeoutS (q_waiting q) timeout k) (\<lambda>(m, k). Inr (m, q, k))
      else
        bindE (oq_put1 b q) (\<lambda>q. bindE (notify nfy q k) (\<lambda>(q, k). Inr (Some MSG_OK, q, k))))"

definition oqPutTimeout_resume ::
  "notify \<Rightarrow> u8 \<Rightarrow> sysinterval_t \<Rightarrow> io_queue_t \<Rightarrow> kernel_t \<Rightarrow> (msg_t option \<times> io_queue_t \<times> kernel_t) result" where
  "oqPutTimeout_resume nfy b timeout q k =
     bindE (chSchGoSleepTimeoutS_resume (k_cur k) k) (\<lambda>(m, k).
     if m < MSG_OK then Inr (Some m, q, k) else oqPutTimeout nfy b timeout q k)"

definition oqGetI :: "io_queue_t \<Rightarrow> kernel_t \<Rightarrow> (msg_t \<times> io_queue_t \<times> kernel_t) result" where
  "oqGetI q k =
     (if \<not> oqIsEmptyI q then
        bindE (oq_get1 q) (\<lambda>(b, q).
        bindE (chThdDequeueNextI (q_waiting q) MSG_OK k) (\<lambda>k. Inr (uint b, q, k)))
      else Inr (MSG_TIMEOUT, q, k))"

definition oq_write :: "u8 list \<Rightarrow> io_queue_t \<Rightarrow> (nat \<times> io_queue_t) result" where
  "oq_write bs q =
     bindE (assertE (length bs > 0) (Halted ''oq_write'')) (\<lambda>_.
     let n = (if length bs > q_counter q then q_counter q else length bs);
         s1 = length (q_buffer q) - q_wrptr q
     in bindE
          (if n < s1 then bindE (cpy_to (q_buffer q) (q_wrptr q) (take n bs)) (\<lambda>buf. Inr (buf, q_wrptr q + n))
           else if n > s1 then
             bindE (cpy_to (q_buffer q) (q_wrptr q) (take s1 bs)) (\<lambda>buf.
             let s2 = n - s1 in bindE (cpy_to buf 0 (take s2 (drop s1 bs))) (\<lambda>buf. Inr (buf, s2)))
           else bindE (cpy_to (q_buffer q) (q_wrptr q) (take n bs)) (\<lambda>buf. Inr (buf, 0)))
          (\<lambda>(buf, w). Inr (n, q\<lparr>q_buffer := buf, q_wrptr := w, q_counter := q_counter q - n\<rparr>)))"

definition oqWriteI :: "notify \<Rightarrow> u8 list \<Rightarrow> io_queue_t \<Rightarrow> kernel_t \<Rightarrow> (nat \<times> io_queue_t \<times> kernel_t) result" where
  "oqWriteI nfy bs q k =
     bindE (oq_write bs q) (\<lambda>(n, q).
     bindE (if n > 0 then notify nfy q k else Inr (q, k)) (\<lambda>(q, k). Inr (n, q, k)))"

function oq_write_loop ::
  "notify \<Rightarrow> sysinterval_t \<Rightarrow> u8 list \<Rightarrow> io_queue_t \<Rightarrow> kernel_t \<Rightarrow> (bool \<times> u8 list \<times> io_queue_t \<times> kernel_t) result" where
  "oq_write_loop nfy timeout bs q k =
     (if bs = [] then Inr (False, [], q, k)
      else bindE (oq_write bs q) (\<lambda>(done, q).
        if done = 0 then
          bindE (chThdEnqueueTimeoutS (q_waiting q) timeout k) (\<lambda>(m, k). Inr (m = None, bs, q, k))
        else bindE (notify nfy q k) (\<lambda>(q, k). oq_write_loop nfy timeout (drop done bs) q k)))"
  by pat_completeness auto

termination oq_write_loop
  by (relation "measure (\<lambda>(_, _, bs, _, _). length bs)") (auto simp: neq_Nil_conv)

declare oq_write_loop.simps [simp del]

definition oqWriteTimeout ::
  "notify \<Rightarrow> u8 list \<Rightarrow> sysinterval_t \<Rightarrow> io_queue_t \<Rightarrow> kernel_t \<Rightarrow> (bool \<times> u8 list \<times> io_queue_t \<times> kernel_t) result" where
  "oqWriteTimeout nfy bs timeout q k =
     bindE (assertE (length bs > 0) (Halted ''oqWriteTimeout'')) (\<lambda>_. oq_write_loop nfy timeout bs q k)"

definition oqWriteTimeout_resume ::
  "notify \<Rightarrow> sysinterval_t \<Rightarrow> u8 list \<Rightarrow> io_queue_t \<Rightarrow> kernel_t \<Rightarrow> (bool \<times> u8 list \<times> io_queue_t \<times> kernel_t) result" where
  "oqWriteTimeout_resume nfy timeout bs q k =
     bindE (chSchGoSleepTimeoutS_resume (k_cur k) k) (\<lambda>(m, k).
     if m \<noteq> MSG_OK then Inr (False, bs, q, k) else oq_write_loop nfy timeout bs q k)"

section \<open>Queues as sequences of bytes\<close>

definition iq_ok :: "io_queue_t \<Rightarrow> bool" where
  "iq_ok q \<longleftrightarrow> ring_ok (q_buffer q) (q_rdptr q) (q_wrptr q) (q_counter q)"

definition iq_bytes :: "io_queue_t \<Rightarrow> u8 list" where
  "iq_bytes q = ring_contents (q_buffer q) (q_rdptr q) (q_counter q)"

definition oq_ok :: "io_queue_t \<Rightarrow> bool" where
  "oq_ok q \<longleftrightarrow> q_counter q \<le> qSizeX q \<and>
     ring_ok (q_buffer q) (q_rdptr q) (q_wrptr q) (qSizeX q - q_counter q)"

definition oq_bytes :: "io_queue_t \<Rightarrow> u8 list" where
  "oq_bytes q = ring_contents (q_buffer q) (q_rdptr q) (qSizeX q - q_counter q)"

lemma length_q_bytes [simp]: "length (iq_bytes q) = q_counter q" "length (oq_bytes q) = qSizeX q - q_counter q"
  by (simp_all add: iq_bytes_def oq_bytes_def)

lemma store_byte_ok:
  "q_wrptr q < length (q_buffer q) \<Longrightarrow> store_byte b q =
     Inr (q\<lparr>q_buffer := (q_buffer q)[q_wrptr q := b], q_wrptr := ring_next (q_buffer q) (q_wrptr q)\<rparr>)"
  by (simp add: store_byte_def wr_nat_ok ring_next_def Let_def)

lemma take_byte_ok:
  "q_rdptr q < length (q_buffer q) \<Longrightarrow> take_byte q =
     Inr (q_buffer q ! q_rdptr q, q\<lparr>q_rdptr := ring_next (q_buffer q) (q_rdptr q)\<rparr>)"
  by (simp add: take_byte_def rd_nat_ok ring_next_def Let_def)

lemma iq_put1_ok:
  assumes "iq_ok q" "length (iq_bytes q) < qSizeX q"
  shows "\<exists>q'. iq_put1 b q = Inr q' \<and> iq_ok q' \<and> iq_bytes q' = iq_bytes q @ [b] \<and> qSizeX q' = qSizeX q \<and> q_waiting q' = q_waiting q"
proof -
  have "ring_ok (q_buffer q) (q_rdptr q) (q_wrptr q) (q_counter q)" "q_counter q < length (q_buffer q)"
    using assms by (simp_all add: iq_ok_def qSizeX_def)
  note p = ring_put[OF this]
  show ?thesis
    using p(1)[of b] p(2) p(3)[of b] by (simp add: iq_put1_def store_byte_ok iq_ok_def iq_bytes_def qSizeX_def)
qed

lemma iq_get1_ok:
  assumes "iq_ok q" "iq_bytes q = b # bs"
  shows "\<exists>q'. iq_get1 q = Inr (b, q') \<and> iq_ok q' \<and> iq_bytes q' = bs \<and> qSizeX q' = qSizeX q \<and> q_waiting q' = q_waiting q"
proof -
  have "0 < q_counter q" using assms(2) length_q_bytes(1)[of q] by (cases "q_counter q") auto
  with assms(1) have "ring_ok (q_buffer q) (q_rdptr q) (q_wrptr q) (q_counter q)" "0 < q_counter q"
    by (simp_all add: iq_ok_def)
  note g = ring_get[OF this]
  have "b = q_buffer q ! q_rdptr q" "bs = ring_contents (q_buffer q) (ring_next (q_buffer q) (q_rdptr q)) (q_counter q - 1)"
    using assms(2) g(3) by (simp_all add: iq_bytes_def)
  then show ?thesis
    using g(1,2) by (simp add: iq_get1_def take_byte_ok iq_ok_def iq_bytes_def qSizeX_def)
qed

interpretation inq: bounded_fifo iq_ok iq_bytes qSizeX iq_put1 iq_get1
proof unfold_locales
  show "\<exists>q'. iq_put1 x q = Inr q' \<and> iq_ok q' \<and> iq_bytes q' = iq_bytes q @ [x] \<and> qSizeX q' = qSizeX q"
    if "iq_ok q" "length (iq_bytes q) < qSizeX q" for q x
    using iq_put1_ok[OF that] by blast
  show "\<exists>q'. iq_get1 q = Inr (x, q') \<and> iq_ok q' \<and> iq_bytes q' = xs \<and> qSizeX q' = qSizeX q"
    if "iq_ok q" "iq_bytes q = x # xs" for q x xs
    using iq_get1_ok[OF that] by blast
qed

lemma oq_put1_ok:
  assumes "oq_ok q" "length (oq_bytes q) < qSizeX q"
  shows "\<exists>q'. oq_put1 b q = Inr q' \<and> oq_ok q' \<and> oq_bytes q' = oq_bytes q @ [b] \<and> qSizeX q' = qSizeX q \<and> q_waiting q' = q_waiting q"
proof -
  have "0 < q_counter q" "q_counter q \<le> length (q_buffer q)"
    using assms by (simp_all add: oq_ok_def qSizeX_def)
  then have n: "length (q_buffer q) - (q_counter q - 1) = length (q_buffer q) - q_counter q + 1" by simp
  have "ring_ok (q_buffer q) (q_rdptr q) (q_wrptr q) (length (q_buffer q) - q_counter q)"
      "length (q_buffer q) - q_counter q < length (q_buffer q)"
    using assms by (simp_all add: oq_ok_def qSizeX_def)
  note p = ring_put[OF this]
  show ?thesis
    using p(1)[of b] p(2) p(3)[of b] \<open>q_counter q \<le> _\<close> n
    by (simp add: oq_put1_def store_byte_ok oq_ok_def oq_bytes_def qSizeX_def)
qed

lemma oq_get1_ok:
  assumes "oq_ok q" "oq_bytes q = b # bs"
  shows "\<exists>q'. oq_get1 q = Inr (b, q') \<and> oq_ok q' \<and> oq_bytes q' = bs \<and> qSizeX q' = qSizeX q \<and> q_waiting q' = q_waiting q"
proof -
  let ?n = "length (q_buffer q) - q_counter q"
  have pos: "0 < ?n" using assms(2) length_q_bytes(2)[of q] by (cases ?n) (auto simp: qSizeX_def)
  then have n: "length (q_buffer q) - (q_counter q + 1) = ?n - 1" "q_counter q + 1 \<le> length (q_buffer q)" by simp_all
  have "ring_ok (q_buffer q) (q_rdptr q) (q_wrptr q) ?n" using assms(1) by (simp add: oq_ok_def qSizeX_def)
  note g = ring_get[OF this pos]
  have "b = q_buffer q ! q_rdptr q" "bs = ring_contents (q_buffer q) (ring_next (q_buffer q) (q_rdptr q)) (?n - 1)"
    using assms(2) g(3) by (simp_all add: oq_bytes_def qSizeX_def)
  then show ?thesis
    using g(1,2) n by (simp add: oq_get1_def take_byte_ok oq_ok_def oq_bytes_def qSizeX_def)
qed

interpretation outq: bounded_fifo oq_ok oq_bytes qSizeX oq_put1 oq_get1
proof unfold_locales
  show "\<exists>q'. oq_put1 x q = Inr q' \<and> oq_ok q' \<and> oq_bytes q' = oq_bytes q @ [x] \<and> qSizeX q' = qSizeX q"
    if "oq_ok q" "length (oq_bytes q) < qSizeX q" for q x
    using oq_put1_ok[OF that] by blast
  show "\<exists>q'. oq_get1 q = Inr (x, q') \<and> oq_ok q' \<and> oq_bytes q' = xs \<and> qSizeX q' = qSizeX q"
    if "oq_ok q" "oq_bytes q = x # xs" for q x xs
    using oq_get1_ok[OF that] by blast
qed

text \<open>The tests for a full input queue and an empty output queue compare the pointers.\<close>

lemma ring_full:
  assumes "ring_ok buf r w n"
  shows "w = r \<longleftrightarrow> n = 0 \<or> n = length buf"
proof
  assume "w = r"
  then have "(r + n) mod length buf = (r + 0) mod length buf" using assms by (simp add: ring_ok_def)
  then have "\<not> (0 < n \<and> n < length buf)"
    using mod_shift_neq[of 0 n "length buf" r] by auto
  then show "n = 0 \<or> n = length buf"
    using assms by (auto simp: ring_ok_def)
qed (use assms in \<open>auto simp: ring_ok_def\<close>)

lemma iqIsFullI_iff: "iq_ok q \<Longrightarrow> iqIsFullI q \<longleftrightarrow> length (iq_bytes q) = qSizeX q"
  using ring_full[of "q_buffer q" "q_rdptr q" "q_wrptr q" "q_counter q"]
  by (auto simp: iq_ok_def iqIsFullI_def qSizeX_def ring_ok_def)

lemma oqIsEmptyI_iff: "oq_ok q \<Longrightarrow> oqIsEmptyI q \<longleftrightarrow> oq_bytes q = []"
proof -
  assume ok: "oq_ok q"
  have "oq_bytes q = [] \<longleftrightarrow> qSizeX q - q_counter q = 0"
    using length_q_bytes(2)[of q] by (metis length_0_conv)
  moreover have "q_wrptr q = q_rdptr q \<longleftrightarrow> qSizeX q - q_counter q = 0 \<or> qSizeX q - q_counter q = length (q_buffer q)"
    using ok by (intro ring_full) (simp add: oq_ok_def)
  ultimately show ?thesis
    using ok by (auto simp: oq_ok_def oqIsEmptyI_def qSizeX_def ring_ok_def)
qed

section \<open>Block transfers\<close>

text \<open>The reference: one byte at a time.\<close>

fun iq_gets :: "nat \<Rightarrow> io_queue_t \<Rightarrow> (u8 list \<times> io_queue_t) result" where
  "iq_gets 0 q = Inr ([], q)"
| "iq_gets (Suc n) q = bindE (iq_get1 q) (\<lambda>(b, q). bindE (iq_gets n q) (\<lambda>(bs, q). Inr (b # bs, q)))"

lemma iq_gets_add:
  "iq_gets (m + n) q = bindE (iq_gets m q) (\<lambda>(bs, q). bindE (iq_gets n q) (\<lambda>(cs, q). Inr (bs @ cs, q)))"
  by (induction m arbitrary: q) (auto simp: bindE_def split: sum.splits)

lemma iq_gets_block:
  assumes "q_rdptr q < length (q_buffer q)" "q_rdptr q + n \<le> length (q_buffer q)"
  shows "iq_gets n q = Inr (take n (drop (q_rdptr q) (q_buffer q)),
    q\<lparr>q_rdptr := (if q_rdptr q + n \<ge> length (q_buffer q) then 0 else q_rdptr q + n), q_counter := q_counter q - n\<rparr>)"
  using assms
proof (induction n arbitrary: q)
  case 0
  then show ?case by simp
next
  case (Suc n)
  have hd: "drop (q_rdptr q) (q_buffer q) = q_buffer q ! q_rdptr q # drop (Suc (q_rdptr q)) (q_buffer q)"
    using Suc.prems(1) by (simp add: Cons_nth_drop_Suc)
  have get: "iq_get1 q = Inr (q_buffer q ! q_rdptr q,
      q\<lparr>q_counter := q_counter q - 1, q_rdptr := ring_next (q_buffer q) (q_rdptr q)\<rparr>)"
    using Suc.prems(1) by (simp add: iq_get1_def take_byte_ok)
  show ?case
  proof (cases "n = 0")
    case True
    then show ?thesis using get hd Suc.prems by (simp add: ring_next_def)
  next
    case False
    then have "ring_next (q_buffer q) (q_rdptr q) = Suc (q_rdptr q)" "Suc (q_rdptr q) < length (q_buffer q)"
      using Suc.prems(2) by (simp_all add: ring_next_def)
    then show ?thesis
      using get hd Suc.prems Suc.IH[of "q\<lparr>q_counter := q_counter q - 1, q_rdptr := Suc (q_rdptr q)\<rparr>"] by simp
  qed
qed

text \<open>Reading a block is reading its bytes one by one.\<close>

lemma iq_read_gets:
  assumes "iq_ok q" "0 < n"
  shows "iq_read n q = iq_gets (min n (q_counter q)) q"
proof -
  let ?n = "min n (q_counter q)" and ?b = "q_buffer q" and ?r = "q_rdptr q"
  let ?s = "length ?b - ?r"
  have r: "?r < length ?b" "?n \<le> length ?b" using assms(1) by (auto simp: iq_ok_def ring_ok_def)
  have m: "(if n > q_counter q then q_counter q else n) = ?n" by simp
  show ?thesis
  proof (cases "?n \<le> ?s")
    case True
    then have "?r + ?n \<le> length ?b" using r(1) by simp
    then show ?thesis
      using iq_gets_block[OF r(1), of ?n] True assms(2) r(1) unfolding iq_read_def m
      by (auto simp: Let_def cpy_from_def not_less)
  next
    case False
    then obtain d where d: "?n = ?s + d" "0 < d" by (metis less_imp_add_positive not_le)
    then have dl: "d < length ?b" "d \<le> length ?b" using r by simp_all
    obtain s where s: "length ?b = ?r + s" using r(1) by (metis less_imp_add_positive)
    let ?q = "q\<lparr>q_rdptr := 0, q_counter := q_counter q - ?s\<rparr>"
    have "iq_gets ?s q = Inr (drop ?r ?b, ?q)"
      using iq_gets_block[OF r(1), of ?s] r(1) by simp
    moreover have "iq_gets d ?q = Inr (take d ?b, q\<lparr>q_rdptr := d, q_counter := q_counter q - ?s - d\<rparr>)"
      using iq_gets_block[of ?q d] dl by (cases "?b = []") simp_all
    ultimately have "iq_gets ?n q = Inr (drop ?r ?b @ take d ?b, q\<lparr>q_rdptr := d, q_counter := q_counter q - ?n\<rparr>)"
      unfolding d(1) by (simp add: iq_gets_add)
    then show ?thesis
      using assms(2) d(2) dl s unfolding iq_read_def m d(1) by (simp add: Let_def cpy_from_def)
  qed
qed

lemma cpy_to_Cons:
  assumes "p < length buf" "p + Suc (length xs) \<le> length buf"
  shows "take p buf @ (x # xs) @ drop (p + Suc (length xs)) buf =
    take (Suc p) (buf[p := x]) @ xs @ drop (Suc p + length xs) (buf[p := x])"
  using assms by (simp add: take_Suc_conv_app_nth drop_update_cancel)

lemma oq_puts_block:
  assumes "q_wrptr q < length (q_buffer q)" "q_wrptr q + length bs \<le> length (q_buffer q)"
  shows "foldE oq_put1 bs q = Inr (q\<lparr>
    q_buffer := take (q_wrptr q) (q_buffer q) @ bs @ drop (q_wrptr q + length bs) (q_buffer q),
    q_wrptr := (if q_wrptr q + length bs \<ge> length (q_buffer q) then 0 else q_wrptr q + length bs),
    q_counter := q_counter q - length bs\<rparr>)"
  using assms
proof (induction bs arbitrary: q)
  case Nil
  then show ?case by simp
next
  case (Cons b bs)
  let ?q = "q\<lparr>q_counter := q_counter q - 1, q_buffer := (q_buffer q)[q_wrptr q := b],
    q_wrptr := ring_next (q_buffer q) (q_wrptr q)\<rparr>"
  have put: "oq_put1 b q = Inr ?q"
    using Cons.prems(1) by (simp add: oq_put1_def store_byte_ok)
  show ?case
  proof (cases "bs = []")
    case True
    then show ?thesis using put Cons.prems by (simp add: ring_next_def upd_conv_take_nth_drop)
  next
    case False
    then have n: "ring_next (q_buffer q) (q_wrptr q) = Suc (q_wrptr q)" "Suc (q_wrptr q) < length (q_buffer q)"
      using Cons.prems(2) by (cases bs; simp add: ring_next_def)+
    have "foldE oq_put1 bs ?q = Inr (?q\<lparr>
        q_buffer := take (q_wrptr ?q) (q_buffer ?q) @ bs @ drop (q_wrptr ?q + length bs) (q_buffer ?q),
        q_wrptr := (if q_wrptr ?q + length bs \<ge> length (q_buffer ?q) then 0 else q_wrptr ?q + length bs),
        q_counter := q_counter ?q - length bs\<rparr>)"
      using Cons.prems n by (intro Cons.IH) simp_all
    then show ?thesis
      using put n cpy_to_Cons[OF Cons.prems(1), of bs b] Cons.prems(2) by simp
  qed
qed

text \<open>Writing a block is writing its bytes one by one, as many as there is room for.\<close>

lemma oq_write_puts:
  assumes "oq_ok q" "bs \<noteq> []"
  shows "oq_write bs q = bindE (foldE oq_put1 (take (q_counter q) bs) q) (\<lambda>q'. Inr (min (q_counter q) (length bs), q'))"
proof -
  let ?n = "min (q_counter q) (length bs)" and ?b = "q_buffer q" and ?w = "q_wrptr q"
  let ?s = "length ?b - ?w"
  have l: "0 < length ?b" "?n \<le> length ?b" using assms(1) by (auto simp: oq_ok_def ring_ok_def qSizeX_def)
  have w: "?w < length ?b" using assms(1) l(1) by (simp add: oq_ok_def ring_ok_def)
  have m: "(if length bs > q_counter q then q_counter q else length bs) = ?n" by simp
  have t: "take (q_counter q) bs = take ?n bs" by (simp add: min_def)
  have len: "length (take ?n bs) = ?n" by simp
  show ?thesis
  proof (cases "?n \<le> ?s")
    case True
    then have "?w + length (take ?n bs) \<le> length ?b" using w by simp
    from oq_puts_block[OF w this] show ?thesis
      using True assms(2) w l unfolding oq_write_def m t len
      by (auto simp: Let_def cpy_to_def not_less)
  next
    case False
    then obtain d where d: "?n = ?s + d" "0 < d" by (metis less_imp_add_positive not_le)
    have dl: "d < length ?b" "d \<le> length ?b" using l(2) w d by simp_all
    let ?x = "take ?s bs" and ?y = "take d (drop ?s bs)"
    have xl: "length ?x = ?s" using False by simp
    have yl: "length ?y = d" using d(1) by simp
    have xy: "take ?n bs = ?x @ ?y" unfolding d(1) by (simp add: take_add)
    let ?q = "q\<lparr>q_buffer := take ?w ?b @ ?x, q_wrptr := 0, q_counter := q_counter q - ?s\<rparr>"
    have p1: "foldE oq_put1 ?x q = Inr ?q"
      using oq_puts_block[OF w, of ?x] w unfolding xl by simp
    have p2: "foldE oq_put1 ?y ?q = Inr (q\<lparr>q_buffer := ?y @ drop d (take ?w ?b @ ?x), q_wrptr := d, q_counter := q_counter q - ?s - d\<rparr>)"
      using oq_puts_block[of ?q ?y] w l(1) dl xl assms(2) unfolding yl by simp
    have "foldE oq_put1 (take ?n bs) q = Inr (q\<lparr>q_buffer := ?y @ drop d (take ?w ?b @ ?x), q_wrptr := d, q_counter := q_counter q - ?n\<rparr>)"
      unfolding xy foldE_append p1 using p2 d(1) by simp
    moreover have "cpy_to ?b ?w ?x = Inr (take ?w ?b @ ?x)"
      using w xl by (simp add: cpy_to_def)
    moreover have "cpy_to (take ?w ?b @ ?x) 0 ?y = Inr (?y @ drop d (take ?w ?b @ ?x))"
      using w xl yl dl by (simp add: cpy_to_def)
    ultimately show ?thesis
      using assms(2) False d unfolding oq_write_def m t by (simp add: Let_def)
  qed
qed

end
