(* ===== verification/Ch_Pipe.thy ===== *)
theory Ch_Pipe
  imports Ch_Thd Hal_Queues
begin

text \<open>
  Pipes: \<^verbatim>\<open>chpipes.c\<close> and \<^verbatim>\<open>chpipes.h\<close>. The pointers into the buffer are indices, \<open>top\<close> is the length
  of the buffer; references and mutexes are named by numbers. A call consists of steps: another
  thread may run between two of them, at every call of the kernel that may sleep or switch and
  wherever an interrupt may come in between. What a mutex protects is one step.
\<close>

section \<open>Operations\<close>

record pipe_t =
  pp_buffer :: "u8 list"
  pp_wrptr :: nat
  pp_rdptr :: nat
  pp_cnt :: nat
  pp_reset :: bool
  pp_wtr :: nat
  pp_rtr :: nat
  pp_cmtx :: nat
  pp_wmtx :: nat
  pp_rmtx :: nat

definition chPipeGetSize :: "pipe_t \<Rightarrow> nat" where
  "chPipeGetSize pp = length (pp_buffer pp)"

definition chPipeGetUsedCount :: "pipe_t \<Rightarrow> nat" where
  "chPipeGetUsedCount pp = pp_cnt pp"

definition chPipeGetFreeCount :: "pipe_t \<Rightarrow> nat" where
  "chPipeGetFreeCount pp = chPipeGetSize pp - chPipeGetUsedCount pp"

definition chPipeResume :: "pipe_t \<Rightarrow> pipe_t" where
  "chPipeResume pp = pp\<lparr>pp_reset := False\<rparr>"

definition set_ref :: "nat \<Rightarrow> tid option \<Rightarrow> kernel_t \<Rightarrow> kernel_t" where
  "set_ref r t k = k\<lparr>k_ref := (k_ref k)(r := t)\<rparr>"

definition chPipeObjectInit :: "u8 list \<Rightarrow> nat \<Rightarrow> nat \<Rightarrow> nat \<Rightarrow> nat \<Rightarrow> nat \<Rightarrow> kernel_t \<Rightarrow> (pipe_t \<times> kernel_t) result" where
  "chPipeObjectInit buf wtr rtr cmtx wmtx rmtx k =
     bindE (assertE (length buf > 0) (Halted ''chPipeObjectInit'')) (\<lambda>_.
     Inr (\<lparr>pp_buffer = buf, pp_wrptr = 0, pp_rdptr = 0, pp_cnt = 0, pp_reset = False, pp_wtr = wtr, pp_rtr = rtr,
         pp_cmtx = cmtx, pp_wmtx = wmtx, pp_rmtx = rmtx\<rparr>,
       chMtxObjectInit rmtx (chMtxObjectInit wmtx (chMtxObjectInit cmtx (set_ref rtr None (set_ref wtr None k))))))"

text \<open>The part of \<open>pipe_write\<close> and \<open>pipe_read\<close> between the lock and the unlock of the common mutex.\<close>

definition pipe_write :: "u8 list \<Rightarrow> pipe_t \<Rightarrow> (nat \<times> pipe_t) result" where
  "pipe_write bp pp =
     (let n = (if length bp > chPipeGetFreeCount pp then chPipeGetFreeCount pp else length bp);
          pp = pp\<lparr>pp_cnt := pp_cnt pp + n\<rparr>;
          s1 = length (pp_buffer pp) - pp_wrptr pp
      in bindE
           (if n < s1 then bindE (cpy_to (pp_buffer pp) (pp_wrptr pp) (take n bp)) (\<lambda>buf. Inr (buf, pp_wrptr pp + n))
            else if n > s1 then
              bindE (cpy_to (pp_buffer pp) (pp_wrptr pp) (take s1 bp)) (\<lambda>buf.
              let s2 = n - s1 in bindE (cpy_to buf 0 (take s2 (drop s1 bp))) (\<lambda>buf. Inr (buf, s2)))
            else bindE (cpy_to (pp_buffer pp) (pp_wrptr pp) (take n bp)) (\<lambda>buf. Inr (buf, 0)))
           (\<lambda>(buf, w). Inr (n, pp\<lparr>pp_buffer := buf, pp_wrptr := w\<rparr>)))"

definition pipe_read :: "nat \<Rightarrow> pipe_t \<Rightarrow> (u8 list \<times> pipe_t) result" where
  "pipe_read n pp =
     (let n = (if n > chPipeGetUsedCount pp then chPipeGetUsedCount pp else n);
          pp = pp\<lparr>pp_cnt := pp_cnt pp - n\<rparr>;
          s1 = length (pp_buffer pp) - pp_rdptr pp
      in bindE
           (if n < s1 then bindE (cpy_from (pp_buffer pp) (pp_rdptr pp) n) (\<lambda>bs. Inr (bs, pp_rdptr pp + n))
            else if n > s1 then
              bindE (cpy_from (pp_buffer pp) (pp_rdptr pp) s1) (\<lambda>bs1.
              let s2 = n - s1 in bindE (cpy_from (pp_buffer pp) 0 s2) (\<lambda>bs2. Inr (bs1 @ bs2, s2)))
            else bindE (cpy_from (pp_buffer pp) (pp_rdptr pp) n) (\<lambda>bs. Inr (bs, 0)))
           (\<lambda>(bs, r). Inr (bs, pp\<lparr>pp_rdptr := r\<rparr>)))"

text \<open>
  Where a call is: before the test of the reset flag; before the lock of the side's own mutex; at
  the head of the loop; holding the common mutex; after the copy of some bytes; after the unlock;
  suspended; before the unlock of the side's mutex; at the end. Where a lock was just taken, the
  flag says whether the caller slept for it, then the code checks that it owns the mutex.
\<close>

datatype pipe_pc = P_Enter | P_Lock | P_Loop bool | P_Copy bool | P_Copied nat | P_Test nat | P_Suspended | P_Unlock | P_Return

record pipe_call =
  c_pc :: pipe_pc
  c_max :: nat
  c_n :: nat
  c_bp :: "u8 list"
  c_timeout :: sysinterval_t

definition mtx_woken :: "bool \<Rightarrow> nat \<Rightarrow> kernel_t \<Rightarrow> unit result" where
  "mtx_woken slept m k = (if slept then chMtxLockS_resume m (k_cur k) k else Inr ())"

text \<open>A call of \<open>chPipeWriteTimeout\<close>: \<open>c_bp\<close> holds the bytes still to be written.\<close>

definition pipe_write_call :: "u8 list \<Rightarrow> sysinterval_t \<Rightarrow> pipe_call result" where
  "pipe_write_call bp timeout =
     bindE (assertE (length bp > 0) (Halted ''chPipeWriteTimeout'')) (\<lambda>_.
     Inr \<lparr>c_pc = P_Enter, c_max = length bp, c_n = length bp, c_bp = bp, c_timeout = timeout\<rparr>)"

definition chPipeWriteTimeout_step :: "pipe_call \<Rightarrow> pipe_t \<Rightarrow> kernel_t \<Rightarrow> (pipe_call \<times> pipe_t \<times> kernel_t) result" where
  "chPipeWriteTimeout_step c pp k =
     (case c_pc c of
        P_Enter \<Rightarrow> if pp_reset pp then Inr (c\<lparr>c_pc := P_Return\<rparr>, pp, k) else Inr (c\<lparr>c_pc := P_Lock\<rparr>, pp, k)
      | P_Lock \<Rightarrow>
          bindE (chMtxLock (pp_wmtx pp) k) (\<lambda>k'. Inr (c\<lparr>c_pc := P_Loop (mowner k (pp_wmtx pp) \<noteq> None)\<rparr>, pp, k'))
      | P_Loop slept \<Rightarrow>
          bindE (mtx_woken slept (pp_wmtx pp) k) (\<lambda>_.
          if c_n c > 0 then
            bindE (chMtxLock (pp_cmtx pp) k) (\<lambda>k'. Inr (c\<lparr>c_pc := P_Copy (mowner k (pp_cmtx pp) \<noteq> None)\<rparr>, pp, k'))
          else Inr (c\<lparr>c_pc := P_Unlock\<rparr>, pp, k))
      | P_Copy slept \<Rightarrow>
          bindE (mtx_woken slept (pp_cmtx pp) k) (\<lambda>_.
          bindE (pipe_write (c_bp c) pp) (\<lambda>(done, pp). Inr (c\<lparr>c_pc := P_Copied done\<rparr>, pp, k)))
      | P_Copied done \<Rightarrow>
          bindE (chMtxUnlock (pp_cmtx pp) k) (\<lambda>k. Inr (c\<lparr>c_pc := P_Test done\<rparr>, pp, k))
      | P_Test done \<Rightarrow>
          if done = 0 then
            bindE (chThdSuspendTimeoutS (pp_wtr pp) (c_timeout c) k) (\<lambda>(m, k).
            case m of
              None \<Rightarrow> Inr (c\<lparr>c_pc := P_Suspended\<rparr>, pp, k)
            | Some msg \<Rightarrow> Inr (c\<lparr>c_pc := (if msg \<noteq> MSG_OK then P_Unlock else P_Loop False)\<rparr>, pp, k))
          else
            bindE (chThdResume (pp_rtr pp) MSG_OK k) (\<lambda>k.
            Inr (c\<lparr>c_pc := P_Loop False, c_n := c_n c - done, c_bp := drop done (c_bp c)\<rparr>, pp, k))
      | P_Suspended \<Rightarrow>
          bindE (chSchGoSleepTimeoutS_resume (k_cur k) k) (\<lambda>(msg, k).
          Inr (c\<lparr>c_pc := (if msg \<noteq> MSG_OK then P_Unlock else P_Loop False)\<rparr>, pp, k))
      | P_Unlock \<Rightarrow> bindE (chMtxUnlock (pp_wmtx pp) k) (\<lambda>k. Inr (c\<lparr>c_pc := P_Return\<rparr>, pp, k))
      | P_Return \<Rightarrow> Inr (c, pp, k))"

text \<open>A call of \<open>chPipeReadTimeout\<close>: \<open>c_bp\<close> holds the bytes read so far.\<close>

definition pipe_read_call :: "nat \<Rightarrow> sysinterval_t \<Rightarrow> pipe_call result" where
  "pipe_read_call n timeout =
     bindE (assertE (n > 0) (Halted ''chPipeReadTimeout'')) (\<lambda>_.
     Inr \<lparr>c_pc = P_Enter, c_max = n, c_n = n, c_bp = [], c_timeout = timeout\<rparr>)"

definition chPipeReadTimeout_step :: "pipe_call \<Rightarrow> pipe_t \<Rightarrow> kernel_t \<Rightarrow> (pipe_call \<times> pipe_t \<times> kernel_t) result" where
  "chPipeReadTimeout_step c pp k =
     (case c_pc c of
        P_Enter \<Rightarrow> if pp_reset pp then Inr (c\<lparr>c_pc := P_Return\<rparr>, pp, k) else Inr (c\<lparr>c_pc := P_Lock\<rparr>, pp, k)
      | P_Lock \<Rightarrow>
          bindE (chMtxLock (pp_rmtx pp) k) (\<lambda>k'. Inr (c\<lparr>c_pc := P_Loop (mowner k (pp_rmtx pp) \<noteq> None)\<rparr>, pp, k'))
      | P_Loop slept \<Rightarrow>
          bindE (mtx_woken slept (pp_rmtx pp) k) (\<lambda>_.
          if c_n c > 0 then
            bindE (chMtxLock (pp_cmtx pp) k) (\<lambda>k'. Inr (c\<lparr>c_pc := P_Copy (mowner k (pp_cmtx pp) \<noteq> None)\<rparr>, pp, k'))
          else Inr (c\<lparr>c_pc := P_Unlock\<rparr>, pp, k))
      | P_Copy slept \<Rightarrow>
          bindE (mtx_woken slept (pp_cmtx pp) k) (\<lambda>_.
          bindE (pipe_read (c_n c) pp) (\<lambda>(bs, pp). Inr (c\<lparr>c_pc := P_Copied (length bs), c_bp := c_bp c @ bs\<rparr>, pp, k)))
      | P_Copied done \<Rightarrow>
          bindE (chMtxUnlock (pp_cmtx pp) k) (\<lambda>k. Inr (c\<lparr>c_pc := P_Test done\<rparr>, pp, k))
      | P_Test done \<Rightarrow>
          if done = 0 then
            bindE (chThdSuspendTimeoutS (pp_rtr pp) (c_timeout c) k) (\<lambda>(m, k).
            case m of
              None \<Rightarrow> Inr (c\<lparr>c_pc := P_Suspended\<rparr>, pp, k)
            | Some msg \<Rightarrow> Inr (c\<lparr>c_pc := (if msg \<noteq> MSG_OK then P_Unlock else P_Loop False)\<rparr>, pp, k))
          else
            bindE (chThdResume (pp_wtr pp) MSG_OK k) (\<lambda>k.
            Inr (c\<lparr>c_pc := P_Loop False, c_n := c_n c - done\<rparr>, pp, k))
      | P_Suspended \<Rightarrow>
          bindE (chSchGoSleepTimeoutS_resume (k_cur k) k) (\<lambda>(msg, k).
          Inr (c\<lparr>c_pc := (if msg \<noteq> MSG_OK then P_Unlock else P_Loop False)\<rparr>, pp, k))
      | P_Unlock \<Rightarrow> bindE (chMtxUnlock (pp_rmtx pp) k) (\<lambda>k. Inr (c\<lparr>c_pc := P_Return\<rparr>, pp, k))
      | P_Return \<Rightarrow> Inr (c, pp, k))"

text \<open>What a finished call returns.\<close>

definition pipe_result :: "pipe_call \<Rightarrow> nat" where
  "pipe_result c = (if c_pc c = P_Return then c_max c - c_n c else 0)"

text \<open>\<open>chPipeReset\<close>: the lock, the body and the unlock.\<close>

definition chPipeReset_lock :: "pipe_t \<Rightarrow> kernel_t \<Rightarrow> (bool \<times> kernel_t) result" where
  "chPipeReset_lock pp k = bindE (chMtxLock (pp_cmtx pp) k) (\<lambda>k'. Inr (mowner k (pp_cmtx pp) \<noteq> None, k'))"

definition chPipeReset_body :: "bool \<Rightarrow> pipe_t \<Rightarrow> kernel_t \<Rightarrow> (pipe_t \<times> kernel_t) result" where
  "chPipeReset_body slept pp k =
     bindE (mtx_woken slept (pp_cmtx pp) k) (\<lambda>_.
     let pp = pp\<lparr>pp_wrptr := 0, pp_rdptr := 0, pp_cnt := 0, pp_reset := True\<rparr> in
     bindE (chThdResumeI (pp_wtr pp) MSG_RESET k) (\<lambda>k.
     bindE (chThdResumeI (pp_rtr pp) MSG_RESET k) (\<lambda>k.
     bindE (chSchRescheduleS k) (\<lambda>k. Inr (pp, k)))))"

definition chPipeReset_unlock :: "pipe_t \<Rightarrow> kernel_t \<Rightarrow> kernel_t result" where
  "chPipeReset_unlock pp k = chMtxUnlock (pp_cmtx pp) k"

section \<open>A pipe holds a queue of bytes\<close>

definition pipe_ok :: "pipe_t \<Rightarrow> bool" where
  "pipe_ok pp \<longleftrightarrow> ring_ok (pp_buffer pp) (pp_rdptr pp) (pp_wrptr pp) (pp_cnt pp)"

definition pipe_bytes :: "pipe_t \<Rightarrow> u8 list" where
  "pipe_bytes pp = ring_contents (pp_buffer pp) (pp_rdptr pp) (pp_cnt pp)"

text \<open>Writing is what an output queue does with its bytes, and reading what an input queue does.\<close>

definition as_oq :: "pipe_t \<Rightarrow> io_queue_t" where
  "as_oq pp = \<lparr>q_waiting = 0, q_counter = chPipeGetFreeCount pp, q_buffer = pp_buffer pp, q_wrptr = pp_wrptr pp, q_rdptr = pp_rdptr pp\<rparr>"

definition as_iq :: "pipe_t \<Rightarrow> io_queue_t" where
  "as_iq pp = \<lparr>q_waiting = 0, q_counter = pp_cnt pp, q_buffer = pp_buffer pp, q_wrptr = pp_wrptr pp, q_rdptr = pp_rdptr pp\<rparr>"

lemma pipe_write_oq:
  "bp \<noteq> [] \<Longrightarrow> pipe_write bp pp = bindE (oq_write bp (as_oq pp)) (\<lambda>(n, q).
     Inr (n, pp\<lparr>pp_cnt := pp_cnt pp + n, pp_buffer := q_buffer q, pp_wrptr := q_wrptr q\<rparr>))"
  by (simp add: pipe_write_def oq_write_def as_oq_def Let_def bindE_def split: sum.splits)

lemma oq_write_frame:
  "oq_write bs q = Inr (n, q') \<Longrightarrow> n = min (length bs) (q_counter q) \<and> q_rdptr q' = q_rdptr q \<and> q_counter q' = q_counter q - n"
  by (auto simp: oq_write_def Let_def bindE_eq_Inr min_def split: if_splits)

lemma pipe_read_iq:
  "n > 0 \<Longrightarrow> pipe_read n pp = bindE (iq_read n (as_iq pp)) (\<lambda>(bs, q).
     Inr (bs, pp\<lparr>pp_cnt := q_counter q, pp_rdptr := q_rdptr q\<rparr>))"
  by (simp add: pipe_read_def iq_read_def as_iq_def chPipeGetUsedCount_def Let_def bindE_def split: sum.splits)

lemma iq_read_frame:
  "iq_read n q = Inr (bs, q') \<Longrightarrow> q_buffer q' = q_buffer q \<and> q_wrptr q' = q_wrptr q"
  by (auto simp: iq_read_def Let_def bindE_eq_Inr split: if_splits)

definition pipe_frame :: "pipe_t \<Rightarrow> pipe_t \<Rightarrow> bool" where
  "pipe_frame pp pp' \<longleftrightarrow> chPipeGetSize pp' = chPipeGetSize pp \<and> pp_reset pp' = pp_reset pp \<and> pp_wtr pp' = pp_wtr pp \<and>
     pp_rtr pp' = pp_rtr pp \<and> pp_cmtx pp' = pp_cmtx pp \<and> pp_wmtx pp' = pp_wmtx pp \<and> pp_rmtx pp' = pp_rmtx pp"

text \<open>As many bytes as there is room for are appended.\<close>

lemma pipe_write_ok:
  assumes "pipe_ok pp" "bp \<noteq> []"
  shows "\<exists>pp'. pipe_write bp pp = Inr (min (length bp) (chPipeGetFreeCount pp), pp') \<and> pipe_ok pp' \<and> pipe_frame pp pp' \<and>
    pipe_bytes pp' = pipe_bytes pp @ take (chPipeGetFreeCount pp) bp"
proof -
  let ?q = "as_oq pp" and ?n = "min (length bp) (chPipeGetFreeCount pp)"
  have c: "pp_cnt pp \<le> length (pp_buffer pp)" using assms(1) by (simp add: pipe_ok_def ring_ok_def)
  then have f: "chPipeGetFreeCount pp = length (pp_buffer pp) - pp_cnt pp" "qSizeX ?q - q_counter ?q = pp_cnt pp"
    by (simp_all add: chPipeGetFreeCount_def chPipeGetSize_def chPipeGetUsedCount_def as_oq_def qSizeX_def)
  have q: "oq_ok ?q" "oq_bytes ?q = pipe_bytes pp" "q_counter ?q = chPipeGetFreeCount pp"
    using assms(1) f by (simp_all add: oq_ok_def oq_bytes_def pipe_ok_def pipe_bytes_def) (simp_all add: as_oq_def qSizeX_def)
  have room: "length (oq_bytes ?q) + length (take (q_counter ?q) bp) \<le> qSizeX ?q"
    using f c q(3) by (simp add: as_oq_def qSizeX_def)
  obtain q' where q': "foldE oq_put1 (take (q_counter ?q) bp) ?q = Inr q'" "oq_ok q'"
      "oq_bytes q' = oq_bytes ?q @ take (q_counter ?q) bp" "qSizeX q' = qSizeX ?q"
    using outq.put_all[OF q(1) room] by blast
  have w: "oq_write bp ?q = Inr (?n, q')"
    using oq_write_puts[OF q(1) assms(2)] q'(1) q(3) by (simp add: min.commute)
  note fr = oq_write_frame[OF w]
  let ?pp = "pp\<lparr>pp_cnt := pp_cnt pp + ?n, pp_buffer := q_buffer q', pp_wrptr := q_wrptr q'\<rparr>"
  have sz: "length (q_buffer q') = length (pp_buffer pp)" using q'(4) by (simp add: qSizeX_def as_oq_def)
  have cnt: "qSizeX q' - q_counter q' = pp_cnt pp + ?n" "q_rdptr q' = pp_rdptr pp"
    using fr sz c f(1) by (simp_all add: qSizeX_def as_oq_def)
  have "pipe_ok ?pp" "pipe_bytes ?pp = oq_bytes q'"
    using q'(2) cnt unfolding oq_ok_def oq_bytes_def by (simp_all add: pipe_ok_def pipe_bytes_def)
  then show ?thesis
    using pipe_write_oq[OF assms(2)] w q'(3) q(2,3) sz by (simp add: pipe_frame_def chPipeGetSize_def)
qed

lemma iq_gets_ok:
  assumes "iq_ok q" "n \<le> length (iq_bytes q)"
  shows "\<exists>q'. iq_gets n q = Inr (take n (iq_bytes q), q') \<and> iq_ok q' \<and> iq_bytes q' = drop n (iq_bytes q)"
  using assms
proof (induction n arbitrary: q)
  case 0
  then show ?case by simp
next
  case (Suc n)
  then obtain b bs where b: "iq_bytes q = b # bs" by (cases "iq_bytes q") auto
  obtain q1 where q1: "iq_get1 q = Inr (b, q1)" "iq_ok q1" "iq_bytes q1 = bs" using iq_get1_ok[OF Suc.prems(1) b] by blast
  have "n \<le> length (iq_bytes q1)" using Suc.prems(2) unfolding b q1(3) by simp
  from Suc.IH[OF q1(2) this] show ?case using q1(1,3) b by auto
qed

text \<open>As many bytes as there are come out, the oldest first.\<close>

lemma pipe_read_ok:
  assumes "pipe_ok pp" "n > 0"
  shows "\<exists>pp'. pipe_read n pp = Inr (take n (pipe_bytes pp), pp') \<and> pipe_ok pp' \<and> pipe_frame pp pp' \<and>
    pipe_bytes pp' = drop n (pipe_bytes pp)"
proof -
  let ?q = "as_iq pp"
  have q: "iq_ok ?q" "iq_bytes ?q = pipe_bytes pp" "q_counter ?q = pp_cnt pp" "length (pipe_bytes pp) = pp_cnt pp"
    using assms(1) by (simp_all add: iq_ok_def iq_bytes_def as_iq_def pipe_ok_def pipe_bytes_def)
  obtain q' where q': "iq_gets (min n (pp_cnt pp)) ?q = Inr (take (min n (pp_cnt pp)) (pipe_bytes pp), q')" "iq_ok q'"
      "iq_bytes q' = drop (min n (pp_cnt pp)) (pipe_bytes pp)"
    using iq_gets_ok[OF q(1), of "min n (pp_cnt pp)"] q(2,4) by auto
  have td: "take (min n (pp_cnt pp)) (pipe_bytes pp) = take n (pipe_bytes pp)"
      "drop (min n (pp_cnt pp)) (pipe_bytes pp) = drop n (pipe_bytes pp)"
    using q(4) by (simp_all add: min_def)
  have w: "iq_read n ?q = Inr (take n (pipe_bytes pp), q')" using iq_read_gets[OF q(1) assms(2)] q'(1) q(3) td by simp
  let ?pp = "pp\<lparr>pp_cnt := q_counter q', pp_rdptr := q_rdptr q'\<rparr>"
  have "pipe_ok ?pp" "pipe_bytes ?pp = iq_bytes q'"
    using q'(2) iq_read_frame[OF w] by (simp_all add: iq_ok_def iq_bytes_def pipe_ok_def pipe_bytes_def as_iq_def)
  then show ?thesis
    using pipe_read_iq[OF assms(2)] w q'(3) td by (simp add: pipe_frame_def chPipeGetSize_def)
qed

definition pipe_put1 :: "u8 \<Rightarrow> pipe_t \<Rightarrow> pipe_t result" where
  "pipe_put1 b pp = bindE (pipe_write [b] pp) (\<lambda>(_, pp). Inr pp)"

definition pipe_get1 :: "pipe_t \<Rightarrow> (u8 \<times> pipe_t) result" where
  "pipe_get1 pp = bindE (pipe_read 1 pp) (\<lambda>(bs, pp). bindE (rd bs 0) (\<lambda>b. Inr (b, pp)))"

lemma length_pipe_bytes [simp]: "length (pipe_bytes pp) = pp_cnt pp"
  by (simp add: pipe_bytes_def)

lemma pipe_free: "chPipeGetFreeCount pp = chPipeGetSize pp - length (pipe_bytes pp)"
  by (simp add: chPipeGetFreeCount_def chPipeGetUsedCount_def)

interpretation pipe: bounded_fifo pipe_ok pipe_bytes chPipeGetSize pipe_put1 pipe_get1
proof unfold_locales
  show "\<exists>p'. pipe_put1 x p = Inr p' \<and> pipe_ok p' \<and> pipe_bytes p' = pipe_bytes p @ [x] \<and> chPipeGetSize p' = chPipeGetSize p"
    if "pipe_ok p" "length (pipe_bytes p) < chPipeGetSize p" for p x
    using pipe_write_ok[OF that(1), of "[x]"] that(2) by (auto simp: pipe_put1_def pipe_free pipe_frame_def)
  show "\<exists>p'. pipe_get1 p = Inr (x, p') \<and> pipe_ok p' \<and> pipe_bytes p' = xs \<and> chPipeGetSize p' = chPipeGetSize p"
    if "pipe_ok p" "pipe_bytes p = x # xs" for p x xs
    using pipe_read_ok[OF that(1), of 1] that(2) by (auto simp: pipe_get1_def pipe_frame_def rd_def)
qed

section \<open>Threads at both ends\<close>

text \<open>
  Any number of threads write, read and reset, one step at a time, each when it is the running
  thread; \<open>env\<close> is what the rest of the system does to the kernel in between. \<open>ps_in\<close> and \<open>ps_out\<close>
  record the bytes that were copied in and out since the last reset.
\<close>

datatype reset_pc = R_Body bool | R_Unlock

record pipe_sys =
  ps_pipe :: pipe_t
  ps_k :: kernel_t
  ps_w :: "tid \<Rightarrow> pipe_call option"
  ps_r :: "tid \<Rightarrow> pipe_call option"
  ps_z :: "tid \<Rightarrow> reset_pc option"
  ps_in :: "u8 list"
  ps_out :: "u8 list"

definition copied_in :: "pipe_call \<Rightarrow> pipe_call \<Rightarrow> u8 list" where
  "copied_in c c' = (case (c_pc c, c_pc c') of (P_Copy _, P_Copied n) \<Rightarrow> take n (c_bp c) | _ \<Rightarrow> [])"

definition idle_in :: "tid \<Rightarrow> pipe_sys \<Rightarrow> bool" where
  "idle_in t s \<longleftrightarrow> ps_w s t = None \<and> ps_r s t = None \<and> ps_z s t = None"

inductive pipe_step :: "(kernel_t \<Rightarrow> kernel_t \<Rightarrow> bool) \<Rightarrow> pipe_sys \<Rightarrow> pipe_sys \<Rightarrow> bool" for env where
  w_begin: "k_cur (ps_k s) = t \<Longrightarrow> idle_in t s \<Longrightarrow> pipe_write_call bp tmo = Inr c \<Longrightarrow>
    pipe_step env s (s\<lparr>ps_w := (ps_w s)(t := Some c)\<rparr>)"
| w_go: "k_cur (ps_k s) = t \<Longrightarrow> ps_w s t = Some c \<Longrightarrow> chPipeWriteTimeout_step c (ps_pipe s) (ps_k s) = Inr (c', pp, k) \<Longrightarrow>
    pipe_step env s (s\<lparr>ps_pipe := pp, ps_k := k, ps_w := (ps_w s)(t := Some c'), ps_in := ps_in s @ copied_in c c'\<rparr>)"
| w_end: "k_cur (ps_k s) = t \<Longrightarrow> ps_w s t = Some c \<Longrightarrow> c_pc c = P_Return \<Longrightarrow>
    pipe_step env s (s\<lparr>ps_w := (ps_w s)(t := None)\<rparr>)"
| r_begin: "k_cur (ps_k s) = t \<Longrightarrow> idle_in t s \<Longrightarrow> pipe_read_call n tmo = Inr c \<Longrightarrow>
    pipe_step env s (s\<lparr>ps_r := (ps_r s)(t := Some c)\<rparr>)"
| r_go: "k_cur (ps_k s) = t \<Longrightarrow> ps_r s t = Some c \<Longrightarrow> chPipeReadTimeout_step c (ps_pipe s) (ps_k s) = Inr (c', pp, k) \<Longrightarrow>
    pipe_step env s (s\<lparr>ps_pipe := pp, ps_k := k, ps_r := (ps_r s)(t := Some c'), ps_out := ps_out s @ drop (length (c_bp c)) (c_bp c')\<rparr>)"
| r_end: "k_cur (ps_k s) = t \<Longrightarrow> ps_r s t = Some c \<Longrightarrow> c_pc c = P_Return \<Longrightarrow>
    pipe_step env s (s\<lparr>ps_r := (ps_r s)(t := None)\<rparr>)"
| z_begin: "k_cur (ps_k s) = t \<Longrightarrow> idle_in t s \<Longrightarrow> chPipeReset_lock (ps_pipe s) (ps_k s) = Inr (slept, k) \<Longrightarrow>
    pipe_step env s (s\<lparr>ps_k := k, ps_z := (ps_z s)(t := Some (R_Body slept))\<rparr>)"
| z_body: "k_cur (ps_k s) = t \<Longrightarrow> ps_z s t = Some (R_Body slept) \<Longrightarrow> chPipeReset_body slept (ps_pipe s) (ps_k s) = Inr (pp, k) \<Longrightarrow>
    pipe_step env s (s\<lparr>ps_pipe := pp, ps_k := k, ps_z := (ps_z s)(t := Some R_Unlock), ps_in := [], ps_out := []\<rparr>)"
| z_unlock: "k_cur (ps_k s) = t \<Longrightarrow> ps_z s t = Some R_Unlock \<Longrightarrow> chPipeReset_unlock (ps_pipe s) (ps_k s) = Inr k \<Longrightarrow>
    pipe_step env s (s\<lparr>ps_k := k, ps_z := (ps_z s)(t := None)\<rparr>)"
| resume: "pipe_step env s (s\<lparr>ps_pipe := chPipeResume (ps_pipe s)\<rparr>)"
| elsewhere: "env (ps_k s) k \<Longrightarrow> pipe_step env s (s\<lparr>ps_k := k\<rparr>)"

definition w_call_ok :: "pipe_call \<Rightarrow> bool" where
  "w_call_ok c \<longleftrightarrow> length (c_bp c) = c_n c \<and> c_n c \<le> c_max c \<and>
     (case c_pc c of P_Copy _ \<Rightarrow> c_n c > 0 | P_Copied d \<Rightarrow> d \<le> c_n c | P_Test d \<Rightarrow> d \<le> c_n c | _ \<Rightarrow> True)"

definition r_call_ok :: "pipe_call \<Rightarrow> bool" where
  "r_call_ok c \<longleftrightarrow> c_n c \<le> c_max c \<and>
     (case c_pc c of
        P_Copied d \<Rightarrow> d \<le> c_n c \<and> length (c_bp c) = c_max c - c_n c + d
      | P_Test d \<Rightarrow> d \<le> c_n c \<and> length (c_bp c) = c_max c - c_n c + d
      | P_Copy _ \<Rightarrow> c_n c > 0 \<and> length (c_bp c) = c_max c - c_n c
      | _ \<Rightarrow> length (c_bp c) = c_max c - c_n c)"

definition stream_ok :: "pipe_sys \<Rightarrow> bool" where
  "stream_ok s \<longleftrightarrow> pipe_ok (ps_pipe s) \<and> ps_in s = ps_out s @ pipe_bytes (ps_pipe s) \<and>
     (\<forall>t c. ps_w s t = Some c \<longrightarrow> w_call_ok c) \<and> (\<forall>t c. ps_r s t = Some c \<longrightarrow> r_call_ok c)"

text \<open>One step of a writer: nothing but the copy touches the pipe.\<close>

lemma write_step_ok:
  assumes "chPipeWriteTimeout_step c pp k = Inr (c', pp', k')" "pipe_ok pp" "w_call_ok c"
  shows "pipe_ok pp' \<and> pipe_bytes pp' = pipe_bytes pp @ copied_in c c' \<and> w_call_ok c' \<and> pipe_frame pp pp'"
proof (cases "\<exists>slept. c_pc c = P_Copy slept")
  case True
  then obtain slept where pc: "c_pc c = P_Copy slept" by blast
  then have "c_bp c \<noteq> []" using assms(3) by (auto simp: w_call_ok_def)
  from pipe_write_ok[OF assms(2) this] show ?thesis
    using assms(1,3) pc by (auto simp: chPipeWriteTimeout_step_def bindE_eq_Inr copied_in_def w_call_ok_def min_def)
next
  case False
  then have "pp' = pp \<and> copied_in c c' = [] \<and> w_call_ok c'"
    using assms(1,3) unfolding chPipeWriteTimeout_step_def
    by (cases "c_pc c") (auto simp: bindE_eq_Inr copied_in_def w_call_ok_def Let_def split: if_splits option.splits)
  then show ?thesis using assms(2) by (simp add: pipe_frame_def)
qed

lemma read_step_ok:
  assumes "chPipeReadTimeout_step c pp k = Inr (c', pp', k')" "pipe_ok pp" "r_call_ok c"
  shows "pipe_ok pp' \<and> pipe_bytes pp = drop (length (c_bp c)) (c_bp c') @ pipe_bytes pp' \<and> r_call_ok c' \<and> pipe_frame pp pp'"
proof (cases "\<exists>slept. c_pc c = P_Copy slept")
  case True
  then obtain slept where pc: "c_pc c = P_Copy slept" by blast
  then have "c_n c > 0" using assms(3) by (auto simp: r_call_ok_def)
  from pipe_read_ok[OF assms(2) this] show ?thesis
    using assms(1,3) pc by (auto simp: chPipeReadTimeout_step_def bindE_eq_Inr r_call_ok_def)
next
  case False
  then have "pp' = pp \<and> c_bp c' = c_bp c \<and> r_call_ok c'"
    using assms(1,3) unfolding chPipeReadTimeout_step_def
    by (cases "c_pc c") (auto simp: bindE_eq_Inr r_call_ok_def Let_def split: if_splits option.splits)
  then show ?thesis using assms(2) by (simp add: pipe_frame_def)
qed

lemma reset_body_ok:
  assumes "chPipeReset_body slept pp k = Inr (pp', k')" "pipe_ok pp"
  shows "pipe_ok pp'" "pipe_bytes pp' = []" "pp_reset pp'"
  using assms by (auto simp: chPipeReset_body_def bindE_eq_Inr Let_def pipe_ok_def ring_ok_def pipe_bytes_def ring_contents_def)

lemma pipe_step_stream:
  assumes "pipe_step env s s'" "stream_ok s"
  shows "stream_ok s'"
  using assms
proof (cases rule: pipe_step.cases)
  case (w_begin t bp tmo c)
  then have "w_call_ok c" by (auto simp: pipe_write_call_def w_call_ok_def bindE_eq_Inr)
  then show ?thesis using assms(2) w_begin by (simp add: stream_ok_def)
next
  case (w_go t c c' pp k)
  have "w_call_ok c" "pipe_ok (ps_pipe s)" using assms(2) w_go(3) by (auto simp: stream_ok_def)
  from write_step_ok[OF w_go(4) this(2,1)] show ?thesis using assms(2) w_go(1) by (simp add: stream_ok_def)
next
  case (r_begin t n tmo c)
  then have "r_call_ok c" by (auto simp: pipe_read_call_def r_call_ok_def bindE_eq_Inr)
  then show ?thesis using assms(2) r_begin by (simp add: stream_ok_def)
next
  case (r_go t c c' pp k)
  have "r_call_ok c" "pipe_ok (ps_pipe s)" using assms(2) r_go(3) by (auto simp: stream_ok_def)
  from read_step_ok[OF r_go(4) this(2,1)] show ?thesis using assms(2) r_go(1) by (simp add: stream_ok_def)
next
  case (z_body t slept pp k)
  then show ?thesis using reset_body_ok[OF z_body(4)] assms(2) by (simp add: stream_ok_def)
qed (simp_all add: stream_ok_def pipe_ok_def pipe_bytes_def chPipeResume_def)

lemma pipe_steps_stream: "(pipe_step env)\<^sup>*\<^sup>* s s' \<Longrightarrow> stream_ok s \<Longrightarrow> stream_ok s'"
  by (induction rule: rtranclp_induct) (auto intro: pipe_step_stream)

section \<open>A call that nobody disturbs\<close>

primrec run_call :: "(pipe_call \<Rightarrow> pipe_t \<Rightarrow> kernel_t \<Rightarrow> (pipe_call \<times> pipe_t \<times> kernel_t) result) \<Rightarrow> nat \<Rightarrow>
    pipe_call \<times> pipe_t \<times> kernel_t \<Rightarrow> (pipe_call \<times> pipe_t \<times> kernel_t) result" where
  "run_call step 0 s = Inr s"
| "run_call step (Suc n) s = bindE (step (fst s) (fst (snd s)) (snd (snd s))) (run_call step n)"

lemma run_call_add: "run_call step (m + n) s = bindE (run_call step m s) (run_call step n)"
  by (induction m arbitrary: s) (simp_all add: bindE_def split: sum.splits)

text \<open>Taking a free mutex and giving it back changes nothing.\<close>

definition taken :: "nat \<Rightarrow> kernel_t \<Rightarrow> kernel_t" where
  "taken m k = upd_thr (k_cur k) (\<lambda>t. t\<lparr>t_mtxlist := m # t_mtxlist t\<rparr>) (upd_mtx m (\<lambda>x. x\<lparr>m_owner := Some (k_cur k)\<rparr>) k)"

lemma taken_sel [simp]:
  "k_cur (taken m k) = k_cur k" "k_ref (taken m k) = k_ref k" "mqueue (taken m k) n = mqueue k n"
  "mowner (taken m k) n = (if n = m then Some (k_cur k) else mowner k n)"
  "mtxlist (taken m k) t = (if t = k_cur k then m # mtxlist k t else mtxlist k t)"
  by (auto simp: taken_def kernel_upd fun_eq_iff)

lemma lock_free: "mowner k m = None \<Longrightarrow> chMtxLock m k = Inr (taken m k)"
  by (simp add: chMtxLock_def chMtxLockS_def taken_def Let_def)

lemma unlock_taken:
  assumes "mowner k m = None" "mqueue k m = []"
  shows "chMtxUnlock m (taken m k) = Inr k"
proof -
  have "(k_thr k)(k_cur k := (k_thr k (k_cur k))\<lparr>t_mtxlist := mtxlist k (k_cur k)\<rparr>) = k_thr k" by simp
  moreover have "(k_mtx k)(m := (k_mtx k m)\<lparr>m_owner := None\<rparr>) = k_mtx k" using assms(1) by (simp add: fun_upd_idem)
  ultimately show ?thesis
    using assms by (simp add: chMtxUnlock_def mtx_checks_def Let_def) (simp add: taken_def kernel_upd)
qed

text \<open>The mutexes and references of the pipe are not in use.\<close>

definition pipe_quiet :: "pipe_t \<Rightarrow> kernel_t \<Rightarrow> bool" where
  "pipe_quiet pp k \<longleftrightarrow> (\<forall>m \<in> {pp_cmtx pp, pp_wmtx pp, pp_rmtx pp}. mowner k m = None \<and> mqueue k m = []) \<and>
     pp_cmtx pp \<notin> {pp_wmtx pp, pp_rmtx pp} \<and> k_ref k (pp_wtr pp) = None \<and> k_ref k (pp_rtr pp) = None"

lemma pipe_quiet_frame: "pipe_frame pp pp' \<Longrightarrow> pipe_quiet pp' k = pipe_quiet pp k"
  by (simp add: pipe_quiet_def pipe_frame_def)

lemma write_alone:
  assumes "pipe_ok pp" "pipe_quiet pp k" "\<not> pp_reset pp" "pipe_write_call bp tmo = Inr c" "length bp \<le> chPipeGetFreeCount pp"
  shows "\<exists>c' pp'. run_call chPipeWriteTimeout_step 8 (c, pp, k) = Inr (c', pp', k) \<and> c_pc c' = P_Return \<and>
    pipe_result c' = length bp \<and> pipe_ok pp' \<and> pipe_bytes pp' = pipe_bytes pp @ bp \<and> pipe_frame pp pp'"
proof -
  have bp: "bp \<noteq> []" and c: "c = \<lparr>c_pc = P_Enter, c_max = length bp, c_n = length bp, c_bp = bp, c_timeout = tmo\<rparr>"
    using assms(4) by (auto simp: pipe_write_call_def bindE_eq_Inr)
  obtain pp' where pp': "pipe_write bp pp = Inr (length bp, pp')" "pipe_ok pp'" "pipe_frame pp pp'" "pipe_bytes pp' = pipe_bytes pp @ bp"
    using pipe_write_ok[OF assms(1) bp] assms(5) by (auto simp: min_def)
  have q: "mowner k (pp_wmtx pp) = None" "mowner k (pp_cmtx pp) = None" "mqueue k (pp_wmtx pp) = []" "mqueue k (pp_cmtx pp) = []"
      "pp_cmtx pp \<noteq> pp_wmtx pp" "k_ref k (pp_rtr pp) = None"
    using assms(2) by (simp_all add: pipe_quiet_def)
  have f: "pp_cmtx pp' = pp_cmtx pp" "pp_wmtx pp' = pp_wmtx pp" "pp_rtr pp' = pp_rtr pp"
    using pp'(3) by (simp_all add: pipe_frame_def)
  show ?thesis
    using bp pp' q f assms(3)
    by (simp add: c numeral_eq_Suc chPipeWriteTimeout_step_def lock_free unlock_taken mtx_woken_def chThdResume_def
        chThdResumeS_def pipe_result_def)
qed

lemma read_alone:
  assumes "pipe_ok pp" "pipe_quiet pp k" "\<not> pp_reset pp" "pipe_read_call n tmo = Inr c" "n \<le> length (pipe_bytes pp)"
  shows "\<exists>c' pp'. run_call chPipeReadTimeout_step 8 (c, pp, k) = Inr (c', pp', k) \<and> c_pc c' = P_Return \<and>
    pipe_result c' = n \<and> c_bp c' = take n (pipe_bytes pp) \<and> pipe_ok pp' \<and> pipe_bytes pp' = drop n (pipe_bytes pp) \<and> pipe_frame pp pp'"
proof -
  have n: "n > 0" and c: "c = \<lparr>c_pc = P_Enter, c_max = n, c_n = n, c_bp = [], c_timeout = tmo\<rparr>"
    using assms(4) by (auto simp: pipe_read_call_def bindE_eq_Inr)
  obtain pp' where pp': "pipe_read n pp = Inr (take n (pipe_bytes pp), pp')" "pipe_ok pp'" "pipe_frame pp pp'"
      "pipe_bytes pp' = drop n (pipe_bytes pp)"
    using pipe_read_ok[OF assms(1) n] by blast
  have q: "mowner k (pp_rmtx pp) = None" "mowner k (pp_cmtx pp) = None" "mqueue k (pp_rmtx pp) = []" "mqueue k (pp_cmtx pp) = []"
      "pp_cmtx pp \<noteq> pp_rmtx pp" "k_ref k (pp_wtr pp) = None"
    using assms(2) by (simp_all add: pipe_quiet_def)
  have f: "pp_cmtx pp' = pp_cmtx pp" "pp_rmtx pp' = pp_rmtx pp" "pp_wtr pp' = pp_wtr pp"
    using pp'(3) by (simp_all add: pipe_frame_def)
  show ?thesis
    using n pp' q f assms(3,5)
    by (simp add: c numeral_eq_Suc chPipeReadTimeout_step_def lock_free unlock_taken mtx_woken_def chThdResume_def
        chThdResumeS_def pipe_result_def)
qed

section \<open>Concrete runs\<close>

text \<open>A timer expires and wakes up a sleeping thread, at the end of the interrupt the first thread runs.\<close>

definition expire :: "kernel_t \<Rightarrow> kernel_t \<Rightarrow> bool" where
  "expire k k' \<longleftrightarrow> (\<exists>t. tstate k t = CH_STATE_SLEEPING \<and> bindE (sch_wakeup t k) chSchRescheduleS = Inr k')"

datatype move = M_Write "u8 list" sysinterval_t | M_Read nat sysinterval_t | M_W | M_R | M_Expire tid

definition play1 :: "move \<Rightarrow> pipe_sys \<Rightarrow> pipe_sys result" where
  "play1 mv s =
     (let t = k_cur (ps_k s) in
      case mv of
        M_Write bp tmo \<Rightarrow>
          bindE (assertE (idle_in t s) Blocked) (\<lambda>_.
          bindE (pipe_write_call bp tmo) (\<lambda>c. Inr (s\<lparr>ps_w := (ps_w s)(t := Some c)\<rparr>)))
      | M_Read n tmo \<Rightarrow>
          bindE (assertE (idle_in t s) Blocked) (\<lambda>_.
          bindE (pipe_read_call n tmo) (\<lambda>c. Inr (s\<lparr>ps_r := (ps_r s)(t := Some c)\<rparr>)))
      | M_W \<Rightarrow> (case ps_w s t of
          None \<Rightarrow> Inl Blocked
        | Some c \<Rightarrow> bindE (chPipeWriteTimeout_step c (ps_pipe s) (ps_k s)) (\<lambda>(c', pp, k).
            Inr (s\<lparr>ps_pipe := pp, ps_k := k, ps_w := (ps_w s)(t := Some c'), ps_in := ps_in s @ copied_in c c'\<rparr>)))
      | M_R \<Rightarrow> (case ps_r s t of
          None \<Rightarrow> Inl Blocked
        | Some c \<Rightarrow> bindE (chPipeReadTimeout_step c (ps_pipe s) (ps_k s)) (\<lambda>(c', pp, k).
            Inr (s\<lparr>ps_pipe := pp, ps_k := k, ps_r := (ps_r s)(t := Some c'), ps_out := ps_out s @ drop (length (c_bp c)) (c_bp c')\<rparr>)))
      | M_Expire u \<Rightarrow>
          bindE (assertE (tstate (ps_k s) u = CH_STATE_SLEEPING) Blocked) (\<lambda>_.
          bindE (bindE (sch_wakeup u (ps_k s)) chSchRescheduleS) (\<lambda>k. Inr (s\<lparr>ps_k := k\<rparr>))))"

lemma play1_step: "play1 mv s = Inr s' \<Longrightarrow> pipe_step expire s s'"
proof (cases mv)
  case (M_Expire u)
  assume "play1 mv s = Inr s'"
  then obtain k where k: "tstate (ps_k s) u = CH_STATE_SLEEPING" "bindE (sch_wakeup u (ps_k s)) chSchRescheduleS = Inr k" "s' = s\<lparr>ps_k := k\<rparr>"
    unfolding play1_def M_Expire Let_def by (auto simp only: move.case bindE_eq_Inr assertE_eq_Inr)
  then have "expire (ps_k s) k" by (auto simp: expire_def)
  then show ?thesis unfolding k(3) by (rule pipe_step.elsewhere)
qed (auto simp: play1_def Let_def bindE_eq_Inr intro: pipe_step.intros split: option.splits)

lemma play_steps: "foldE play1 ms s = Inr s' \<Longrightarrow> (pipe_step expire)\<^sup>*\<^sup>* s s'"
  by (induction ms arbitrary: s) (auto simp: bindE_eq_Inr dest!: play1_step intro: converse_rtranclp_into_rtranclp)

end
