(* ===== verification/Ch_Mbx.thy ===== *)
theory Ch_Mbx
  imports Ch_Thd Ring
begin

text \<open>
  Mailboxes: \<^verbatim>\<open>chmboxes.c\<close> and \<^verbatim>\<open>chmboxes.h\<close>. The pointers into the buffer are indices, \<open>top\<close> is
  the length of the buffer, \<open>qw\<close> and \<open>qr\<close> name the threads queues of the waiting writers and
  readers. A posting or fetching call that has to wait puts its caller to sleep; when the
  caller runs again, the loop of the code looks at the message it was woken up with, which
  is the part \<open>_resume\<close>.
\<close>

section \<open>Operations\<close>

record mailbox_t =
  mb_buffer :: "msg_t list"
  mb_wrptr :: nat
  mb_rdptr :: nat
  mb_cnt :: nat
  mb_reset :: bool
  mb_qw :: nat
  mb_qr :: nat

definition chMBGetSizeI :: "mailbox_t \<Rightarrow> nat" where
  "chMBGetSizeI mb = length (mb_buffer mb)"

definition chMBGetUsedCountI :: "mailbox_t \<Rightarrow> nat" where
  "chMBGetUsedCountI mb = mb_cnt mb"

definition chMBGetFreeCountI :: "mailbox_t \<Rightarrow> nat" where
  "chMBGetFreeCountI mb = chMBGetSizeI mb - chMBGetUsedCountI mb"

definition chMBPeekI :: "mailbox_t \<Rightarrow> msg_t result" where
  "chMBPeekI mb = rd (mb_buffer mb) (int (mb_rdptr mb))"

definition chMBResumeX :: "mailbox_t \<Rightarrow> mailbox_t" where
  "chMBResumeX mb = mb\<lparr>mb_reset := False\<rparr>"

definition chMBObjectInit :: "msg_t list \<Rightarrow> nat \<Rightarrow> nat \<Rightarrow> kernel_t \<Rightarrow> (mailbox_t \<times> kernel_t) result" where
  "chMBObjectInit buf qw qr k =
     bindE (assertE (length buf > 0) (Halted ''chMBObjectInit'')) (\<lambda>_.
     Inr (\<lparr>mb_buffer = buf, mb_wrptr = 0, mb_rdptr = 0, mb_cnt = 0, mb_reset = False, mb_qw = qw, mb_qr = qr\<rparr>,
       chThdQueueObjectInit qr (chThdQueueObjectInit qw k)))"

definition chMBResetI :: "mailbox_t \<Rightarrow> kernel_t \<Rightarrow> (mailbox_t \<times> kernel_t) result" where
  "chMBResetI mb k =
     bindE (chThdDequeueAllI (mb_qw mb) MSG_RESET k) (\<lambda>k.
     bindE (chThdDequeueAllI (mb_qr mb) MSG_RESET k) (\<lambda>k.
     Inr (mb\<lparr>mb_wrptr := 0, mb_rdptr := 0, mb_cnt := 0, mb_reset := True\<rparr>, k)))"

definition chMBReset :: "mailbox_t \<Rightarrow> kernel_t \<Rightarrow> (mailbox_t \<times> kernel_t) result" where
  "chMBReset mb k =
     bindE (chMBResetI mb k) (\<lambda>(mb, k). bindE (chSchRescheduleS k) (\<lambda>k. Inr (mb, k)))"

text \<open>Writing behind the last message, before the first one, and reading the first one.\<close>

definition mb_put :: "msg_t \<Rightarrow> mailbox_t \<Rightarrow> mailbox_t result" where
  "mb_put msg mb =
     bindE (wr (mb_buffer mb) (int (mb_wrptr mb)) msg) (\<lambda>buf.
     let w = mb_wrptr mb + 1; w = (if w \<ge> length buf then 0 else w) in
     Inr (mb\<lparr>mb_buffer := buf, mb_wrptr := w, mb_cnt := mb_cnt mb + 1\<rparr>))"

definition mb_put_ahead :: "msg_t \<Rightarrow> mailbox_t \<Rightarrow> mailbox_t result" where
  "mb_put_ahead msg mb =
     (let r = int (mb_rdptr mb) - 1; r = (if r < 0 then int (length (mb_buffer mb)) - 1 else r) in
      bindE (wr (mb_buffer mb) r msg) (\<lambda>buf.
      Inr (mb\<lparr>mb_buffer := buf, mb_rdptr := nat r, mb_cnt := mb_cnt mb + 1\<rparr>)))"

definition mb_get :: "mailbox_t \<Rightarrow> (msg_t \<times> mailbox_t) result" where
  "mb_get mb =
     bindE (rd (mb_buffer mb) (int (mb_rdptr mb))) (\<lambda>msg.
     let r = mb_rdptr mb + 1; r = (if r \<ge> length (mb_buffer mb) then 0 else r) in
     Inr (msg, mb\<lparr>mb_rdptr := r, mb_cnt := mb_cnt mb - 1\<rparr>))"

definition chMBPostI :: "msg_t \<Rightarrow> mailbox_t \<Rightarrow> kernel_t \<Rightarrow> (msg_t \<times> mailbox_t \<times> kernel_t) result" where
  "chMBPostI msg mb k =
     (if mb_reset mb then Inr (MSG_RESET, mb, k)
      else if chMBGetFreeCountI mb > 0 then
        bindE (mb_put msg mb) (\<lambda>mb.
        bindE (chThdDequeueNextI (mb_qr mb) MSG_OK k) (\<lambda>k. Inr (MSG_OK, mb, k)))
      else Inr (MSG_TIMEOUT, mb, k))"

definition chMBPostAheadI :: "msg_t \<Rightarrow> mailbox_t \<Rightarrow> kernel_t \<Rightarrow> (msg_t \<times> mailbox_t \<times> kernel_t) result" where
  "chMBPostAheadI msg mb k =
     (if mb_reset mb then Inr (MSG_RESET, mb, k)
      else if chMBGetFreeCountI mb > 0 then
        bindE (mb_put_ahead msg mb) (\<lambda>mb.
        bindE (chThdDequeueNextI (mb_qr mb) MSG_OK k) (\<lambda>k. Inr (MSG_OK, mb, k)))
      else Inr (MSG_TIMEOUT, mb, k))"

definition chMBFetchI :: "mailbox_t \<Rightarrow> kernel_t \<Rightarrow> (msg_t \<times> msg_t option \<times> mailbox_t \<times> kernel_t) result" where
  "chMBFetchI mb k =
     (if mb_reset mb then Inr (MSG_RESET, None, mb, k)
      else if chMBGetUsedCountI mb > 0 then
        bindE (mb_get mb) (\<lambda>(msg, mb).
        bindE (chThdDequeueNextI (mb_qw mb) MSG_OK k) (\<lambda>k. Inr (MSG_OK, Some msg, mb, k)))
      else Inr (MSG_TIMEOUT, None, mb, k))"

text \<open>
  One round of the posting loops, with \<open>put\<close> the way the message is stored; the message
  returned is \<open>None\<close> when the caller sleeps.
\<close>

definition mb_post_round ::
  "(msg_t \<Rightarrow> mailbox_t \<Rightarrow> mailbox_t result) \<Rightarrow> msg_t \<Rightarrow> sysinterval_t \<Rightarrow> mailbox_t \<Rightarrow> kernel_t \<Rightarrow>
   (msg_t option \<times> mailbox_t \<times> kernel_t) result" where
  "mb_post_round put msg timeout mb k =
     (if mb_reset mb then Inr (Some MSG_RESET, mb, k)
      else if chMBGetFreeCountI mb > 0 then
        bindE (put msg mb) (\<lambda>mb.
        bindE (bindE (chThdDequeueNextI (mb_qr mb) MSG_OK k) chSchRescheduleS) (\<lambda>k. Inr (Some MSG_OK, mb, k)))
      else bindE (chThdEnqueueTimeoutS (mb_qw mb) timeout k) (\<lambda>(r, k). Inr (r, mb, k)))"

definition chMBPostTimeoutS ::
  "msg_t \<Rightarrow> sysinterval_t \<Rightarrow> mailbox_t \<Rightarrow> kernel_t \<Rightarrow> (msg_t option \<times> mailbox_t \<times> kernel_t) result" where
  "chMBPostTimeoutS = mb_post_round mb_put"

definition chMBPostTimeout ::
  "msg_t \<Rightarrow> sysinterval_t \<Rightarrow> mailbox_t \<Rightarrow> kernel_t \<Rightarrow> (msg_t option \<times> mailbox_t \<times> kernel_t) result" where
  "chMBPostTimeout = chMBPostTimeoutS"

definition chMBPostAheadTimeoutS ::
  "msg_t \<Rightarrow> sysinterval_t \<Rightarrow> mailbox_t \<Rightarrow> kernel_t \<Rightarrow> (msg_t option \<times> mailbox_t \<times> kernel_t) result" where
  "chMBPostAheadTimeoutS = mb_post_round mb_put_ahead"

definition chMBPostAheadTimeout ::
  "msg_t \<Rightarrow> sysinterval_t \<Rightarrow> mailbox_t \<Rightarrow> kernel_t \<Rightarrow> (msg_t option \<times> mailbox_t \<times> kernel_t) result" where
  "chMBPostAheadTimeout = chMBPostAheadTimeoutS"

definition chMBFetchTimeoutS ::
  "sysinterval_t \<Rightarrow> mailbox_t \<Rightarrow> kernel_t \<Rightarrow> (msg_t option \<times> msg_t option \<times> mailbox_t \<times> kernel_t) result" where
  "chMBFetchTimeoutS timeout mb k =
     (if mb_reset mb then Inr (Some MSG_RESET, None, mb, k)
      else if chMBGetUsedCountI mb > 0 then
        bindE (mb_get mb) (\<lambda>(msg, mb).
        bindE (bindE (chThdDequeueNextI (mb_qw mb) MSG_OK k) chSchRescheduleS) (\<lambda>k. Inr (Some MSG_OK, Some msg, mb, k)))
      else bindE (chThdEnqueueTimeoutS (mb_qr mb) timeout k) (\<lambda>(r, k). Inr (r, None, mb, k)))"

definition chMBFetchTimeout ::
  "sysinterval_t \<Rightarrow> mailbox_t \<Rightarrow> kernel_t \<Rightarrow> (msg_t option \<times> msg_t option \<times> mailbox_t \<times> kernel_t) result" where
  "chMBFetchTimeout = chMBFetchTimeoutS"

text \<open>The end of a round for a thread that slept: the loop goes on only after \<open>MSG_OK\<close>.\<close>

definition chMBPostTimeoutS_resume ::
  "msg_t \<Rightarrow> sysinterval_t \<Rightarrow> mailbox_t \<Rightarrow> kernel_t \<Rightarrow> (msg_t option \<times> mailbox_t \<times> kernel_t) result" where
  "chMBPostTimeoutS_resume msg timeout mb k =
     bindE (chSchGoSleepTimeoutS_resume (k_cur k) k) (\<lambda>(r, k).
     if r = MSG_OK then chMBPostTimeoutS msg timeout mb k else Inr (Some r, mb, k))"

definition chMBFetchTimeoutS_resume ::
  "sysinterval_t \<Rightarrow> mailbox_t \<Rightarrow> kernel_t \<Rightarrow> (msg_t option \<times> msg_t option \<times> mailbox_t \<times> kernel_t) result" where
  "chMBFetchTimeoutS_resume timeout mb k =
     bindE (chSchGoSleepTimeoutS_resume (k_cur k) k) (\<lambda>(r, k).
     if r = MSG_OK then chMBFetchTimeoutS timeout mb k else Inr (Some r, None, mb, k))"

section \<open>A mailbox is a bounded queue of messages\<close>

definition mb_ok :: "mailbox_t \<Rightarrow> bool" where
  "mb_ok mb \<longleftrightarrow> ring_ok (mb_buffer mb) (mb_rdptr mb) (mb_wrptr mb) (mb_cnt mb)"

definition mb_messages :: "mailbox_t \<Rightarrow> msg_t list" where
  "mb_messages mb = ring_contents (mb_buffer mb) (mb_rdptr mb) (mb_cnt mb)"

lemma length_mb_messages [simp]: "length (mb_messages mb) = mb_cnt mb"
  by (simp add: mb_messages_def)

lemma mb_put_ok:
  assumes "mb_ok mb" "length (mb_messages mb) < chMBGetSizeI mb"
  shows "\<exists>mb'. mb_put msg mb = Inr mb' \<and> mb_ok mb' \<and> mb_messages mb' = mb_messages mb @ [msg] \<and>
    chMBGetSizeI mb' = chMBGetSizeI mb \<and> mb_qr mb' = mb_qr mb"
proof -
  have "ring_ok (mb_buffer mb) (mb_rdptr mb) (mb_wrptr mb) (mb_cnt mb)" "mb_cnt mb < length (mb_buffer mb)"
    using assms by (simp_all add: mb_ok_def chMBGetSizeI_def)
  note p = ring_put[OF this]
  have "mb_put msg mb = Inr (mb\<lparr>mb_buffer := (mb_buffer mb)[mb_wrptr mb := msg],
      mb_wrptr := ring_next (mb_buffer mb) (mb_wrptr mb), mb_cnt := mb_cnt mb + 1\<rparr>)"
    using wr_nat_ok[OF p(2)] by (simp add: mb_put_def ring_next_def Let_def)
  then show ?thesis
    using p(1)[of msg] p(3)[of msg] by (simp add: mb_ok_def mb_messages_def chMBGetSizeI_def)
qed

lemma mb_put_ahead_ok:
  assumes "mb_ok mb" "length (mb_messages mb) < chMBGetSizeI mb"
  shows "\<exists>mb'. mb_put_ahead msg mb = Inr mb' \<and> mb_ok mb' \<and> mb_messages mb' = msg # mb_messages mb \<and>
    chMBGetSizeI mb' = chMBGetSizeI mb \<and> mb_qr mb' = mb_qr mb"
proof -
  let ?p = "if mb_rdptr mb = 0 then length (mb_buffer mb) - 1 else mb_rdptr mb - 1"
  have ok: "ring_ok (mb_buffer mb) (mb_rdptr mb) (mb_wrptr mb) (mb_cnt mb)" "mb_cnt mb < length (mb_buffer mb)"
    using assms by (simp_all add: mb_ok_def chMBGetSizeI_def)
  note p = ring_put_ahead[OF ok refl]
  have e: "(if int (mb_rdptr mb) - 1 < 0 then int (length (mb_buffer mb)) - 1 else int (mb_rdptr mb) - 1) = int ?p"
    using ok(2) by (cases "mb_rdptr mb") auto
  have "mb_put_ahead msg mb = Inr (mb\<lparr>mb_buffer := (mb_buffer mb)[?p := msg], mb_rdptr := ?p, mb_cnt := mb_cnt mb + 1\<rparr>)"
    unfolding mb_put_ahead_def Let_def e using wr_nat_ok[OF p(2)] by simp
  then show ?thesis
    using p(1)[of msg] p(3)[of msg] by (simp add: mb_ok_def mb_messages_def chMBGetSizeI_def)
qed

lemma mb_get_ok:
  assumes "mb_ok mb" "mb_messages mb = msg # ms"
  shows "\<exists>mb'. mb_get mb = Inr (msg, mb') \<and> mb_ok mb' \<and> mb_messages mb' = ms \<and> chMBGetSizeI mb' = chMBGetSizeI mb \<and>
    mb_qw mb' = mb_qw mb"
proof -
  have "0 < mb_cnt mb" using assms(2) length_mb_messages[of mb] by (cases "mb_cnt mb") auto
  with assms(1) have "ring_ok (mb_buffer mb) (mb_rdptr mb) (mb_wrptr mb) (mb_cnt mb)" "0 < mb_cnt mb"
    by (simp_all add: mb_ok_def)
  note g = ring_get[OF this]
  have "msg = mb_buffer mb ! mb_rdptr mb" "ms = ring_contents (mb_buffer mb) (ring_next (mb_buffer mb) (mb_rdptr mb)) (mb_cnt mb - 1)"
    using assms(2) g(3) by (simp_all add: mb_messages_def)
  moreover have "mb_get mb = Inr (mb_buffer mb ! mb_rdptr mb,
      mb\<lparr>mb_rdptr := ring_next (mb_buffer mb) (mb_rdptr mb), mb_cnt := mb_cnt mb - 1\<rparr>)"
    using rd_nat_ok[OF g(2)] by (simp add: mb_get_def ring_next_def Let_def)
  ultimately show ?thesis
    using g(1) by (simp add: mb_ok_def mb_messages_def chMBGetSizeI_def)
qed

interpretation mbx: bounded_fifo mb_ok mb_messages chMBGetSizeI mb_put mb_get
proof unfold_locales
  show "\<exists>mb'. mb_put x mb = Inr mb' \<and> mb_ok mb' \<and> mb_messages mb' = mb_messages mb @ [x] \<and> chMBGetSizeI mb' = chMBGetSizeI mb"
    if "mb_ok mb" "length (mb_messages mb) < chMBGetSizeI mb" for mb x
    using mb_put_ok[OF that] by blast
  show "\<exists>mb'. mb_get mb = Inr (x, mb') \<and> mb_ok mb' \<and> mb_messages mb' = xs \<and> chMBGetSizeI mb' = chMBGetSizeI mb"
    if "mb_ok mb" "mb_messages mb = x # xs" for mb x xs
    using mb_get_ok[OF that] by blast
qed

lemma mb_free: "mb_ok mb \<Longrightarrow> chMBGetFreeCountI mb > 0 \<longleftrightarrow> length (mb_messages mb) < chMBGetSizeI mb"
  by (simp add: chMBGetFreeCountI_def chMBGetUsedCountI_def)

text \<open>
  Posting: a free slot takes the message and wakes the first waiting reader; without one
  the caller joins the waiting writers, or returns at once with an immediate timeout.
\<close>

lemma chMBPostTimeout_ok:
  assumes "mb_ok mb" "\<not> mb_reset mb" "thd_inv k"
  shows "if length (mb_messages mb) < chMBGetSizeI mb
    then \<exists>mb' k'. chMBPostTimeout msg timeout mb k = Inr (Some MSG_OK, mb', k') \<and> mb_ok mb' \<and>
      mb_messages mb' = mb_messages mb @ [msg] \<and> thd_inv k' \<and> sched_ok k' \<and>
      k_queue k' (mb_qr mb) = tl (k_queue k (mb_qr mb)) \<and>
      (k_queue k (mb_qr mb) \<noteq> [] \<longrightarrow> rdymsg (hd (k_queue k (mb_qr mb))) k' = Inr MSG_OK)
    else if timeout = TIME_IMMEDIATE then chMBPostTimeout msg timeout mb k = Inr (Some MSG_TIMEOUT, mb, k)
    else k_cur k \<noteq> k_idle k \<longrightarrow> (\<exists>k'. chMBPostTimeout msg timeout mb k = Inr (None, mb, k') \<and> thd_inv k' \<and> sched_ok k' \<and>
      k_queue k' (mb_qw mb) = k_queue k (mb_qw mb) @ [k_cur k])"
proof -
  note f = mb_free[OF assms(1)]
  note defs = chMBPostTimeout_def chMBPostTimeoutS_def mb_post_round_def
  show ?thesis
  proof (cases "length (mb_messages mb) < chMBGetSizeI mb")
    case True
    obtain mb' where mb': "mb_put msg mb = Inr mb'" "mb_ok mb'" "mb_messages mb' = mb_messages mb @ [msg]" "mb_qr mb' = mb_qr mb"
      using mb_put_ok[OF assms(1) True] by blast
    obtain k' where k': "bindE (chThdDequeueNextI (mb_qr mb) MSG_OK k) chSchRescheduleS = Inr k'" "thd_inv k'" "sched_ok k'"
        "\<forall>q'. k_queue k' q' = (if q' = mb_qr mb then tl (k_queue k (mb_qr mb)) else k_queue k q')"
        "k_queue k (mb_qr mb) \<noteq> [] \<longrightarrow> rdymsg (hd (k_queue k (mb_qr mb))) k' = Inr MSG_OK"
      using wake_and_reschedule[OF assms(3)] by blast
    have "chMBPostTimeout msg timeout mb k = Inr (Some MSG_OK, mb', k')"
      using assms(2) True f mb'(1,4) k'(1) by (simp add: defs)
    then show ?thesis using True mb' k' by simp
  next
    case False
    then show ?thesis
      using assms(2) f chThdEnqueueTimeoutS_ok[OF assms(3), of timeout "mb_qw mb"]
      by (auto simp: defs chThdEnqueueTimeoutS_def)
  qed
qed

end
