(* ===== verification/Ch_Objs.thy ===== *)
theory Ch_Objs
  imports Ch_Mem Ch_Mbx
begin

text \<open>
  Queues of objects, \<^verbatim>\<open>chobjfifos.h\<close>, and queues of jobs, \<^verbatim>\<open>chjobs.h\<close>: a guarded pool of the free
  objects and a mailbox with a slot for each of them, that passes their addresses on. An
  operation that waits returns \<open>None\<close>; \<open>_resume\<close> goes on when its caller runs again.
\<close>

section \<open>Object FIFOs\<close>

text \<open>The casts between the address of an object and a message.\<close>

definition to_msg :: "u32 \<Rightarrow> msg_t" where
  "to_msg p = sint p"

definition of_msg :: "msg_t \<Rightarrow> u32" where
  "of_msg m = word_of_int m"

lemma of_to_msg [simp]: "of_msg (to_msg p) = p"
  by (simp add: of_msg_def to_msg_def)

record objects_fifo_t =
  of_free :: guarded_memory_pool_t
  of_mbx :: mailbox_t

type_synonym fifo_state = "objects_fifo_t \<times> links \<times> kernel_t"

text \<open>\<open>sem\<close>, \<open>qw\<close> and \<open>qr\<close> name the semaphore of the pool and the queues of the mailbox.\<close>

definition chFifoObjectInitAligned ::
  "nat \<Rightarrow> nat \<Rightarrow> nat \<Rightarrow> u32 \<Rightarrow> nat \<Rightarrow> u32 \<Rightarrow> u32 \<Rightarrow> msg_t list \<Rightarrow> links \<times> kernel_t \<Rightarrow> fifo_state result" where
  "chFifoObjectInitAligned sem qw qr objsize objn objalign objbuf msgbuf = (\<lambda>(link, k).
     bindE (assertE (objsize \<ge> objalign \<and> objsize mod objalign = 0) (Halted ''chFifoObjectInitAligned'')) (\<lambda>_.
     bindE (chGuardedPoolObjectInitAligned sem objsize objalign k) (\<lambda>(g, k).
     bindE (chGuardedPoolLoadArray objbuf objn (g, link, k)) (\<lambda>(g, link, k).
     bindE (chMBObjectInit (take objn msgbuf) qw qr k) (\<lambda>(mb, k).
     Inr (\<lparr>of_free = g, of_mbx = mb\<rparr>, link, k))))))"

definition chFifoObjectInit ::
  "nat \<Rightarrow> nat \<Rightarrow> nat \<Rightarrow> u32 \<Rightarrow> nat \<Rightarrow> u32 \<Rightarrow> msg_t list \<Rightarrow> links \<times> kernel_t \<Rightarrow> fifo_state result" where
  "chFifoObjectInit sem qw qr objsize objn objbuf msgbuf =
     chFifoObjectInitAligned sem qw qr objsize objn PORT_NATURAL_ALIGN objbuf msgbuf"

definition chFifoTakeObjectI :: "fifo_state \<Rightarrow> (u32 \<times> fifo_state) result" where
  "chFifoTakeObjectI = (\<lambda>(f, link, k).
     bindE (chGuardedPoolAllocI (of_free f) link k) (\<lambda>(p, g, k). Inr (p, f\<lparr>of_free := g\<rparr>, link, k)))"

definition chFifoTakeObjectTimeoutS :: "sysinterval_t \<Rightarrow> fifo_state \<Rightarrow> (u32 option \<times> fifo_state) result" where
  "chFifoTakeObjectTimeoutS timeout = (\<lambda>(f, link, k).
     bindE (chGuardedPoolAllocTimeoutS timeout (of_free f) link k) (\<lambda>(p, g, k). Inr (p, f\<lparr>of_free := g\<rparr>, link, k)))"

definition chFifoTakeObjectTimeout :: "sysinterval_t \<Rightarrow> fifo_state \<Rightarrow> (u32 option \<times> fifo_state) result" where
  "chFifoTakeObjectTimeout timeout = (\<lambda>(f, link, k).
     bindE (chGuardedPoolAllocTimeout timeout (of_free f) link k) (\<lambda>(p, g, k). Inr (p, f\<lparr>of_free := g\<rparr>, link, k)))"

definition chFifoTakeObject_resume :: "fifo_state \<Rightarrow> (u32 \<times> fifo_state) result" where
  "chFifoTakeObject_resume = (\<lambda>(f, link, k).
     bindE (chGuardedPoolAllocTimeoutS_resume (of_free f) link k) (\<lambda>(p, g, k). Inr (p, f\<lparr>of_free := g\<rparr>, link, k)))"

definition chFifoReturnObjectI :: "u32 \<Rightarrow> fifo_state \<Rightarrow> fifo_state result" where
  "chFifoReturnObjectI objp = (\<lambda>(f, link, k).
     bindE (chGuardedPoolFreeI objp (of_free f, link, k)) (\<lambda>(g, link, k). Inr (f\<lparr>of_free := g\<rparr>, link, k)))"

definition chFifoReturnObjectS :: "u32 \<Rightarrow> fifo_state \<Rightarrow> fifo_state result" where
  "chFifoReturnObjectS objp = (\<lambda>(f, link, k).
     bindE (chGuardedPoolFreeS objp (of_free f, link, k)) (\<lambda>(g, link, k). Inr (f\<lparr>of_free := g\<rparr>, link, k)))"

definition chFifoReturnObject :: "u32 \<Rightarrow> fifo_state \<Rightarrow> fifo_state result" where
  "chFifoReturnObject objp = (\<lambda>(f, link, k).
     bindE (chGuardedPoolFree objp (of_free f, link, k)) (\<lambda>(g, link, k). Inr (f\<lparr>of_free := g\<rparr>, link, k)))"

definition chFifoSendObjectI :: "u32 \<Rightarrow> fifo_state \<Rightarrow> fifo_state result" where
  "chFifoSendObjectI objp = (\<lambda>(f, link, k).
     bindE (chMBPostI (to_msg objp) (of_mbx f) k) (\<lambda>(msg, mb, k).
     bindE (assertE (msg = MSG_OK) (Halted ''post failed'')) (\<lambda>_. Inr (f\<lparr>of_mbx := mb\<rparr>, link, k))))"

definition chFifoSendObjectS :: "u32 \<Rightarrow> fifo_state \<Rightarrow> fifo_state result" where
  "chFifoSendObjectS objp = (\<lambda>(f, link, k).
     bindE (chMBPostTimeoutS (to_msg objp) TIME_IMMEDIATE (of_mbx f) k) (\<lambda>(msg, mb, k).
     bindE (assertE (msg = Some MSG_OK) (Halted ''post failed'')) (\<lambda>_. Inr (f\<lparr>of_mbx := mb\<rparr>, link, k))))"

definition chFifoSendObject :: "u32 \<Rightarrow> fifo_state \<Rightarrow> fifo_state result" where
  "chFifoSendObject objp = (\<lambda>(f, link, k).
     bindE (chMBPostTimeout (to_msg objp) TIME_IMMEDIATE (of_mbx f) k) (\<lambda>(msg, mb, k).
     bindE (assertE (msg = Some MSG_OK) (Halted ''post failed'')) (\<lambda>_. Inr (f\<lparr>of_mbx := mb\<rparr>, link, k))))"

definition chFifoSendObjectAheadI :: "u32 \<Rightarrow> fifo_state \<Rightarrow> fifo_state result" where
  "chFifoSendObjectAheadI objp = (\<lambda>(f, link, k).
     bindE (chMBPostAheadI (to_msg objp) (of_mbx f) k) (\<lambda>(msg, mb, k).
     bindE (assertE (msg = MSG_OK) (Halted ''post failed'')) (\<lambda>_. Inr (f\<lparr>of_mbx := mb\<rparr>, link, k))))"

definition chFifoSendObjectAheadS :: "u32 \<Rightarrow> fifo_state \<Rightarrow> fifo_state result" where
  "chFifoSendObjectAheadS objp = (\<lambda>(f, link, k).
     bindE (chMBPostAheadTimeoutS (to_msg objp) TIME_IMMEDIATE (of_mbx f) k) (\<lambda>(msg, mb, k).
     bindE (assertE (msg = Some MSG_OK) (Halted ''post failed'')) (\<lambda>_. Inr (f\<lparr>of_mbx := mb\<rparr>, link, k))))"

definition chFifoSendObjectAhead :: "u32 \<Rightarrow> fifo_state \<Rightarrow> fifo_state result" where
  "chFifoSendObjectAhead objp = (\<lambda>(f, link, k).
     bindE (chMBPostAheadTimeout (to_msg objp) TIME_IMMEDIATE (of_mbx f) k) (\<lambda>(msg, mb, k).
     bindE (assertE (msg = Some MSG_OK) (Halted ''post failed'')) (\<lambda>_. Inr (f\<lparr>of_mbx := mb\<rparr>, link, k))))"

definition chFifoReceiveObjectI :: "fifo_state \<Rightarrow> (msg_t \<times> u32 option \<times> fifo_state) result" where
  "chFifoReceiveObjectI = (\<lambda>(f, link, k).
     bindE (chMBFetchI (of_mbx f) k) (\<lambda>(msg, objp, mb, k).
     Inr (msg, map_option of_msg objp, f\<lparr>of_mbx := mb\<rparr>, link, k)))"

definition chFifoReceiveObjectTimeoutS :: "sysinterval_t \<Rightarrow> fifo_state \<Rightarrow> (msg_t option \<times> u32 option \<times> fifo_state) result" where
  "chFifoReceiveObjectTimeoutS timeout = (\<lambda>(f, link, k).
     bindE (chMBFetchTimeoutS timeout (of_mbx f) k) (\<lambda>(msg, objp, mb, k).
     Inr (msg, map_option of_msg objp, f\<lparr>of_mbx := mb\<rparr>, link, k)))"

definition chFifoReceiveObjectTimeout :: "sysinterval_t \<Rightarrow> fifo_state \<Rightarrow> (msg_t option \<times> u32 option \<times> fifo_state) result" where
  "chFifoReceiveObjectTimeout timeout = (\<lambda>(f, link, k).
     bindE (chMBFetchTimeout timeout (of_mbx f) k) (\<lambda>(msg, objp, mb, k).
     Inr (msg, map_option of_msg objp, f\<lparr>of_mbx := mb\<rparr>, link, k)))"

definition chFifoReceiveObject_resume :: "sysinterval_t \<Rightarrow> fifo_state \<Rightarrow> (msg_t option \<times> u32 option \<times> fifo_state) result" where
  "chFifoReceiveObject_resume timeout = (\<lambda>(f, link, k).
     bindE (chMBFetchTimeoutS_resume timeout (of_mbx f) k) (\<lambda>(msg, objp, mb, k).
     Inr (msg, map_option of_msg objp, f\<lparr>of_mbx := mb\<rparr>, link, k)))"

section \<open>Jobs\<close>

text \<open>
  A descriptor holds the address of a function, 0 for none, and its argument; \<open>jd\<close> gives the
  descriptors by their addresses. What the functions of jobs do is a parameter.
\<close>

definition MSG_JOB_NULL :: msg_t where "MSG_JOB_NULL = - 2"

record job_descriptor_t =
  jobfunc :: u32
  jobarg :: u32

record jobs_queue_t =
  jq_free :: guarded_memory_pool_t
  jq_mbx :: mailbox_t

type_synonym job_state = "jobs_queue_t \<times> links \<times> kernel_t"

definition chJobObjectInit ::
  "nat \<Rightarrow> nat \<Rightarrow> nat \<Rightarrow> nat \<Rightarrow> u32 \<Rightarrow> msg_t list \<Rightarrow> links \<times> kernel_t \<Rightarrow> job_state result" where
  "chJobObjectInit sem qw qr jobsn jobsbuf msgbuf = (\<lambda>(link, k).
     bindE (assertE (jobsn > 0 \<and> jobsbuf \<noteq> 0 \<and> msgbuf \<noteq> []) (Halted ''chJobObjectInit'')) (\<lambda>_.
     bindE (chGuardedPoolObjectInit sem 8 k) (\<lambda>(g, k).
     bindE (chGuardedPoolLoadArray jobsbuf jobsn (g, link, k)) (\<lambda>(g, link, k).
     bindE (chMBObjectInit (take jobsn msgbuf) qw qr k) (\<lambda>(mb, k).
     Inr (\<lparr>jq_free = g, jq_mbx = mb\<rparr>, link, k))))))"

definition chJobGetI :: "job_state \<Rightarrow> (u32 \<times> job_state) result" where
  "chJobGetI = (\<lambda>(j, link, k).
     bindE (chGuardedPoolAllocI (jq_free j) link k) (\<lambda>(p, g, k). Inr (p, j\<lparr>jq_free := g\<rparr>, link, k)))"

definition chJobGetTimeoutS :: "sysinterval_t \<Rightarrow> job_state \<Rightarrow> (u32 option \<times> job_state) result" where
  "chJobGetTimeoutS timeout = (\<lambda>(j, link, k).
     bindE (chGuardedPoolAllocTimeoutS timeout (jq_free j) link k) (\<lambda>(p, g, k). Inr (p, j\<lparr>jq_free := g\<rparr>, link, k)))"

definition chJobGetTimeout :: "sysinterval_t \<Rightarrow> job_state \<Rightarrow> (u32 option \<times> job_state) result" where
  "chJobGetTimeout timeout = (\<lambda>(j, link, k).
     bindE (chGuardedPoolAllocTimeout timeout (jq_free j) link k) (\<lambda>(p, g, k). Inr (p, j\<lparr>jq_free := g\<rparr>, link, k)))"

definition chJobGet :: "job_state \<Rightarrow> (u32 option \<times> job_state) result" where
  "chJobGet = (\<lambda>(j, link, k).
     bindE (chGuardedPoolAllocTimeout TIME_INFINITE (jq_free j) link k) (\<lambda>(p, g, k). Inr (p, j\<lparr>jq_free := g\<rparr>, link, k)))"

definition chJobPostI :: "u32 \<Rightarrow> job_state \<Rightarrow> job_state result" where
  "chJobPostI jp = (\<lambda>(j, link, k).
     bindE (chMBPostI (to_msg jp) (jq_mbx j) k) (\<lambda>(msg, mb, k).
     bindE (assertE (msg = MSG_OK) (Halted ''post failed'')) (\<lambda>_. Inr (j\<lparr>jq_mbx := mb\<rparr>, link, k))))"

definition chJobPostS :: "u32 \<Rightarrow> job_state \<Rightarrow> job_state result" where
  "chJobPostS jp = (\<lambda>(j, link, k).
     bindE (chMBPostTimeoutS (to_msg jp) TIME_IMMEDIATE (jq_mbx j) k) (\<lambda>(msg, mb, k).
     bindE (assertE (msg = Some MSG_OK) (Halted ''post failed'')) (\<lambda>_. Inr (j\<lparr>jq_mbx := mb\<rparr>, link, k))))"

definition chJobPost :: "u32 \<Rightarrow> job_state \<Rightarrow> job_state result" where
  "chJobPost jp = (\<lambda>(j, link, k).
     bindE (chMBPostTimeout (to_msg jp) TIME_IMMEDIATE (jq_mbx j) k) (\<lambda>(msg, mb, k).
     bindE (assertE (msg = Some MSG_OK) (Halted ''post failed'')) (\<lambda>_. Inr (j\<lparr>jq_mbx := mb\<rparr>, link, k))))"

definition chJobPostAheadI :: "u32 \<Rightarrow> job_state \<Rightarrow> job_state result" where
  "chJobPostAheadI jp = (\<lambda>(j, link, k).
     bindE (chMBPostAheadI (to_msg jp) (jq_mbx j) k) (\<lambda>(msg, mb, k).
     bindE (assertE (msg = MSG_OK) (Halted ''post failed'')) (\<lambda>_. Inr (j\<lparr>jq_mbx := mb\<rparr>, link, k))))"

definition chJobPostAheadS :: "u32 \<Rightarrow> job_state \<Rightarrow> job_state result" where
  "chJobPostAheadS jp = (\<lambda>(j, link, k).
     bindE (chMBPostAheadTimeoutS (to_msg jp) TIME_IMMEDIATE (jq_mbx j) k) (\<lambda>(msg, mb, k).
     bindE (assertE (msg = Some MSG_OK) (Halted ''post failed'')) (\<lambda>_. Inr (j\<lparr>jq_mbx := mb\<rparr>, link, k))))"

definition chJobPostAhead :: "u32 \<Rightarrow> job_state \<Rightarrow> job_state result" where
  "chJobPostAhead jp = (\<lambda>(j, link, k).
     bindE (chMBPostAheadTimeout (to_msg jp) TIME_IMMEDIATE (jq_mbx j) k) (\<lambda>(msg, mb, k).
     bindE (assertE (msg = Some MSG_OK) (Halted ''post failed'')) (\<lambda>_. Inr (j\<lparr>jq_mbx := mb\<rparr>, link, k))))"

text \<open>The rest of \<open>chJobDispatch\<close>, once the fetch has returned.\<close>

definition job_execute ::
  "(u32 \<Rightarrow> job_descriptor_t) \<Rightarrow> (u32 \<Rightarrow> u32 \<Rightarrow> 'w \<times> kernel_t \<Rightarrow> ('w \<times> kernel_t) result) \<Rightarrow> msg_t \<Rightarrow> msg_t option \<Rightarrow>
   'w \<times> job_state \<Rightarrow> (msg_t \<times> 'w \<times> job_state) result" where
  "job_execute jd call msg jmsg = (\<lambda>(w, j, link, k).
     if msg = MSG_OK then
       case jmsg of
         None \<Rightarrow> Inl OutOfBounds
       | Some jm \<Rightarrow>
           let jp = of_msg jm in
           bindE (assertE (jp \<noteq> 0) (Halted ''is NULL'')) (\<lambda>_.
           if jobfunc (jd jp) \<noteq> 0 then
             bindE (call (jobfunc (jd jp)) (jobarg (jd jp)) (w, k)) (\<lambda>(w, k).
             bindE (chGuardedPoolFree jp (jq_free j, link, k)) (\<lambda>(g, link, k).
             Inr (msg, w, j\<lparr>jq_free := g\<rparr>, link, k)))
           else Inr (MSG_JOB_NULL, w, j, link, k))
     else Inr (msg, w, j, link, k))"

definition chJobDispatchTimeout ::
  "(u32 \<Rightarrow> job_descriptor_t) \<Rightarrow> (u32 \<Rightarrow> u32 \<Rightarrow> 'w \<times> kernel_t \<Rightarrow> ('w \<times> kernel_t) result) \<Rightarrow> sysinterval_t \<Rightarrow>
   'w \<times> job_state \<Rightarrow> (msg_t option \<times> 'w \<times> job_state) result" where
  "chJobDispatchTimeout jd call timeout = (\<lambda>(w, j, link, k).
     bindE (chMBFetchTimeout timeout (jq_mbx j) k) (\<lambda>(msg, jmsg, mb, k).
     let j = j\<lparr>jq_mbx := mb\<rparr> in
     case msg of
       None \<Rightarrow> Inr (None, w, j, link, k)
     | Some m \<Rightarrow> bindE (job_execute jd call m jmsg (w, j, link, k)) (\<lambda>(m, s). Inr (Some m, s))))"

definition chJobDispatch ::
  "(u32 \<Rightarrow> job_descriptor_t) \<Rightarrow> (u32 \<Rightarrow> u32 \<Rightarrow> 'w \<times> kernel_t \<Rightarrow> ('w \<times> kernel_t) result) \<Rightarrow>
   'w \<times> job_state \<Rightarrow> (msg_t option \<times> 'w \<times> job_state) result" where
  "chJobDispatch jd call = chJobDispatchTimeout jd call TIME_INFINITE"

definition chJobDispatch_resume ::
  "(u32 \<Rightarrow> job_descriptor_t) \<Rightarrow> (u32 \<Rightarrow> u32 \<Rightarrow> 'w \<times> kernel_t \<Rightarrow> ('w \<times> kernel_t) result) \<Rightarrow> sysinterval_t \<Rightarrow>
   'w \<times> job_state \<Rightarrow> (msg_t option \<times> 'w \<times> job_state) result" where
  "chJobDispatch_resume jd call timeout = (\<lambda>(w, j, link, k).
     bindE (chMBFetchTimeoutS_resume timeout (jq_mbx j) k) (\<lambda>(msg, jmsg, mb, k).
     let j = j\<lparr>jq_mbx := mb\<rparr> in
     case msg of
       None \<Rightarrow> Inr (None, w, j, link, k)
     | Some m \<Rightarrow> bindE (job_execute jd call m jmsg (w, j, link, k)) (\<lambda>(m, s). Inr (Some m, s))))"

section \<open>Objects are neither lost nor given out twice\<close>

definition fifo_ok :: "nat \<Rightarrow> objects_fifo_t \<Rightarrow> links \<Rightarrow> u32 list \<Rightarrow> u32 list \<Rightarrow> bool" where
  "fifo_ok n f link free sent \<longleftrightarrow>
     pool_ok (gmp_pool (of_free f)) link free \<and> mp_provider (gmp_pool (of_free f)) = None \<and>
     mb_ok (of_mbx f) \<and> \<not> mb_reset (of_mbx f) \<and> mb_messages (of_mbx f) = map to_msg sent \<and> chMBGetSizeI (of_mbx f) = n"

lemma gpool_alloc_data:
  assumes "gpool_alloc g link = Inr (p, g')" "pool_ok (gmp_pool g) link xs" "mp_provider (gmp_pool g) = None"
  shows "mp_provider (gmp_pool g') = None \<and> (p = 0 \<and> pool_ok (gmp_pool g') link xs \<or>
    (\<exists>ys. xs = p # ys \<and> p \<noteq> 0 \<and> pool_ok (gmp_pool g') link ys))"
  using assms by (cases xs) (auto simp: gpool_alloc_def chPoolAllocI_def pool_ok_def Let_def)

lemma pool_free_data:
  assumes "chPoolFreeI x (mp, link) = Inr (mp', link')" "pool_ok mp link xs" "x \<notin> set xs"
  shows "pool_ok mp' link' (x # xs) \<and> mp_provider mp' = mp_provider mp"
  using assms by (auto simp: chPoolFreeI_def pool_ok_def pool_chain_upd bindE_eq_Inr)

lemmas take_defs = chFifoTakeObjectI_def chFifoTakeObject_resume_def chGuardedPoolAllocI_def chGuardedPoolAllocTimeoutS_resume_def

text \<open>Taking: nothing (0, or the caller sleeps), or the first free object.\<close>

definition took :: "nat \<Rightarrow> u32 list \<Rightarrow> u32 list \<Rightarrow> links \<Rightarrow> u32 option \<Rightarrow> fifo_state \<Rightarrow> bool" where
  "took n free sent link p = (\<lambda>(f, link', k). link' = link \<and>
     ((p \<in> {None, Some 0} \<and> fifo_ok n f link free sent) \<or>
      (\<exists>x ys. p = Some x \<and> x \<noteq> 0 \<and> free = x # ys \<and> fifo_ok n f link ys sent)))"

lemma gpool_took:
  assumes "gpool_alloc (of_free f) link = Inr (p, g)" "fifo_ok n f link free sent"
  shows "took n free sent link (Some p) (f\<lparr>of_free := g\<rparr>, link, k)"
  using gpool_alloc_data[OF assms(1), of free] assms(2) by (auto simp: took_def fifo_ok_def)

lemma fifo_ok_same [simp]: "fifo_ok n (f\<lparr>of_free := of_free f\<rparr>) = fifo_ok n f" "fifo_ok n (f\<lparr>of_mbx := of_mbx f\<rparr>) = fifo_ok n f"
  by (simp_all add: fifo_ok_def fun_eq_iff)

lemma gpool_timeout_data:
  assumes "chGuardedPoolAllocTimeoutS tmo g link k = Inr (q, g', k')"
  shows "(q \<in> {None, Some 0} \<and> g' = g) \<or> (\<exists>p. q = Some p \<and> gpool_alloc g link = Inr (p, g'))"
proof -
  obtain m k1 where m: "chSemWaitTimeoutS (gmp_sem g) tmo k = Inr (m, k1)"
    using assms by (auto simp: chGuardedPoolAllocTimeoutS_def bindE_eq_Inr)
  show ?thesis
    using assms m by (cases m) (auto simp: chGuardedPoolAllocTimeoutS_def bindE_eq_Inr split: if_splits)
qed

lemma fifo_take:
  assumes "fifo_ok n f link free sent"
  shows "chFifoTakeObjectI (f, link, k) = Inr (p, s) \<Longrightarrow> took n free sent link (Some p) s"
    "chFifoTakeObjectTimeoutS tmo (f, link, k) = Inr (q, s) \<Longrightarrow> took n free sent link q s"
    "chFifoTakeObjectTimeout tmo (f, link, k) = Inr (q, s) \<Longrightarrow> took n free sent link q s"
    "chFifoTakeObject_resume (f, link, k) = Inr (p, s) \<Longrightarrow> took n free sent link (Some p) s"
proof -
  have none: "took n free sent link q (f\<lparr>of_free := of_free f\<rparr>, link, k)" if "q \<in> {None, Some 0}" for q k
    using that assms by (simp add: took_def)
  show s: "chFifoTakeObjectTimeoutS tmo (f, link, k) = Inr (q, s) \<Longrightarrow> took n free sent link q s" for q s tmo
    using none assms by (auto simp: chFifoTakeObjectTimeoutS_def bindE_eq_Inr dest!: gpool_timeout_data intro: gpool_took)
  then show "chFifoTakeObjectTimeout tmo (f, link, k) = Inr (q, s) \<Longrightarrow> took n free sent link q s"
    by (simp add: chFifoTakeObjectTimeout_def chFifoTakeObjectTimeoutS_def chGuardedPoolAllocTimeout_def)
  show "chFifoTakeObjectI (f, link, k) = Inr (p, s) \<Longrightarrow> took n free sent link (Some p) s"
    "chFifoTakeObject_resume (f, link, k) = Inr (p, s) \<Longrightarrow> took n free sent link (Some p) s"
    using none assms by (auto simp: take_defs bindE_eq_Inr intro: gpool_took split: if_splits)
qed

lemmas return_defs = chFifoReturnObjectI_def chFifoReturnObjectS_def chFifoReturnObject_def
  chGuardedPoolFreeI_def chGuardedPoolFreeS_def chGuardedPoolFree_def

lemma fifo_return:
  assumes "fifo_ok n f link free sent" "x \<notin> set free"
    "chFifoReturnObjectI x (f, link, k) = Inr (f', link', k') \<or> chFifoReturnObjectS x (f, link, k) = Inr (f', link', k') \<or>
     chFifoReturnObject x (f, link, k) = Inr (f', link', k')"
  shows "fifo_ok n f' link' (x # free) sent"
proof -
  obtain mp where mp: "chPoolFreeI x (gmp_pool (of_free f), link) = Inr (mp, link')" "f' = f\<lparr>of_free := (of_free f)\<lparr>gmp_pool := mp\<rparr>\<rparr>"
    using assms(3) by (auto simp: return_defs bindE_eq_Inr)
  then show ?thesis
    using pool_free_data[OF mp(1) _ assms(2)] assms(1) by (simp add: fifo_ok_def)
qed

lemma mb_put_reset: "mb_put m mb = Inr mb' \<Longrightarrow> mb_reset mb' = mb_reset mb" "mb_put_ahead m mb = Inr mb' \<Longrightarrow> mb_reset mb' = mb_reset mb"
    "mb_get mb = Inr (m, mb') \<Longrightarrow> mb_reset mb' = mb_reset mb"
  by (auto simp: mb_put_def mb_put_ahead_def mb_get_def bindE_eq_Inr Let_def)

lemmas send_defs = chFifoSendObjectI_def chFifoSendObjectS_def chFifoSendObject_def
  chMBPostI_def chMBPostTimeout_def chMBPostTimeoutS_def mb_post_round_def

lemmas send_ahead_defs = chFifoSendObjectAheadI_def chFifoSendObjectAheadS_def chFifoSendObjectAhead_def
  chMBPostAheadI_def chMBPostAheadTimeout_def chMBPostAheadTimeoutS_def mb_post_round_def

lemma fifo_room:
  assumes "fifo_ok n f link free sent" "length sent < n"
  shows "chMBGetFreeCountI (of_mbx f) > 0" "\<exists>mb. mb_put (to_msg x) (of_mbx f) = Inr mb \<and> fifo_ok n (f\<lparr>of_mbx := mb\<rparr>) link free (sent @ [x])"
    "\<exists>mb. mb_put_ahead (to_msg x) (of_mbx f) = Inr mb \<and> fifo_ok n (f\<lparr>of_mbx := mb\<rparr>) link free (x # sent)"
proof -
  have ok: "mb_ok (of_mbx f)" "length (mb_messages (of_mbx f)) < chMBGetSizeI (of_mbx f)"
    using assms unfolding fifo_ok_def by auto
  show "chMBGetFreeCountI (of_mbx f) > 0" using mb_free[OF ok(1)] ok(2) by simp
  show "\<exists>mb. mb_put (to_msg x) (of_mbx f) = Inr mb \<and> fifo_ok n (f\<lparr>of_mbx := mb\<rparr>) link free (sent @ [x])"
    using mb_put_ok[OF ok, of "to_msg x"] mb_put_reset(1) assms(1) by (fastforce simp: fifo_ok_def)
  show "\<exists>mb. mb_put_ahead (to_msg x) (of_mbx f) = Inr mb \<and> fifo_ok n (f\<lparr>of_mbx := mb\<rparr>) link free (x # sent)"
    using mb_put_ahead_ok[OF ok, of "to_msg x"] mb_put_reset(2) assms(1) by (fastforce simp: fifo_ok_def)
qed

text \<open>Sending with room: the post does not fail, all that remains is to wake up a waiting reader.\<close>

definition post_wakes :: "(kernel_t \<Rightarrow> kernel_t result) \<Rightarrow> objects_fifo_t \<Rightarrow> links \<Rightarrow> mailbox_t \<Rightarrow> kernel_t \<Rightarrow> fifo_state result" where
  "post_wakes resched f link mb k =
     bindE (bindE (chThdDequeueNextI (mb_qr mb) MSG_OK k) resched) (\<lambda>k. Inr (f\<lparr>of_mbx := mb\<rparr>, link, k))"

lemma fifo_send_eq:
  assumes "fifo_ok n f link free sent" "length sent < n"
  shows "\<exists>mb. fifo_ok n (f\<lparr>of_mbx := mb\<rparr>) link free (sent @ [x]) \<and> chFifoSendObjectI x (f, link, k) = post_wakes Inr f link mb k \<and>
      chFifoSendObjectS x (f, link, k) = post_wakes chSchRescheduleS f link mb k \<and>
      chFifoSendObject x (f, link, k) = post_wakes chSchRescheduleS f link mb k" (is "\<exists>mb. ?P mb")
    and "\<exists>mb. fifo_ok n (f\<lparr>of_mbx := mb\<rparr>) link free (x # sent) \<and> chFifoSendObjectAheadI x (f, link, k) = post_wakes Inr f link mb k \<and>
      chFifoSendObjectAheadS x (f, link, k) = post_wakes chSchRescheduleS f link mb k \<and>
      chFifoSendObjectAhead x (f, link, k) = post_wakes chSchRescheduleS f link mb k" (is "\<exists>mb. ?Q mb")
proof -
  have r: "chMBGetFreeCountI (of_mbx f) > 0" "\<not> mb_reset (of_mbx f)" using fifo_room(1)[OF assms] assms(1) by (simp_all add: fifo_ok_def)
  obtain mb where "mb_put (to_msg x) (of_mbx f) = Inr mb" "fifo_ok n (f\<lparr>of_mbx := mb\<rparr>) link free (sent @ [x])"
    using fifo_room(2)[OF assms, of x] by blast
  with r have "?P mb" by (simp add: send_defs post_wakes_def bindE_assoc)
  then show "\<exists>mb. ?P mb" by blast
  obtain mb where "mb_put_ahead (to_msg x) (of_mbx f) = Inr mb" "fifo_ok n (f\<lparr>of_mbx := mb\<rparr>) link free (x # sent)"
    using fifo_room(3)[OF assms, of x] by blast
  with r have "?Q mb" by (simp add: send_ahead_defs post_wakes_def bindE_assoc)
  then show "\<exists>mb. ?Q mb" by blast
qed

definition sends :: "u32 \<Rightarrow> fifo_state \<Rightarrow> fifo_state \<Rightarrow> bool" where
  "sends x s s' \<longleftrightarrow> Inr s' \<in> {chFifoSendObjectI x s, chFifoSendObjectS x s, chFifoSendObject x s}"

definition sends_ahead :: "u32 \<Rightarrow> fifo_state \<Rightarrow> fifo_state \<Rightarrow> bool" where
  "sends_ahead x s s' \<longleftrightarrow> Inr s' \<in> {chFifoSendObjectAheadI x s, chFifoSendObjectAheadS x s, chFifoSendObjectAhead x s}"

lemma post_wakes_Inr: "Inr (f', link', k') = post_wakes g f link mb k \<Longrightarrow> f' = f\<lparr>of_mbx := mb\<rparr> \<and> link' = link"
  unfolding post_wakes_def by (drule sym) (auto simp: bindE_eq_Inr)

lemma fifo_send:
  assumes "fifo_ok n f link free sent" "length sent < n"
  shows "sends x (f, link, k) (f', link', k') \<Longrightarrow> link' = link \<and> fifo_ok n f' link free (sent @ [x])"
    "sends_ahead x (f, link, k) (f', link', k') \<Longrightarrow> link' = link \<and> fifo_ok n f' link free (x # sent)"
proof -
  obtain mb where "fifo_ok n (f\<lparr>of_mbx := mb\<rparr>) link free (sent @ [x])" "chFifoSendObjectI x (f, link, k) = post_wakes Inr f link mb k"
      "chFifoSendObjectS x (f, link, k) = post_wakes chSchRescheduleS f link mb k"
      "chFifoSendObject x (f, link, k) = post_wakes chSchRescheduleS f link mb k"
    using fifo_send_eq(1)[OF assms] by blast
  then show "sends x (f, link, k) (f', link', k') \<Longrightarrow> link' = link \<and> fifo_ok n f' link free (sent @ [x])"
    unfolding sends_def by (auto dest: post_wakes_Inr)
  obtain mb where "fifo_ok n (f\<lparr>of_mbx := mb\<rparr>) link free (x # sent)" "chFifoSendObjectAheadI x (f, link, k) = post_wakes Inr f link mb k"
      "chFifoSendObjectAheadS x (f, link, k) = post_wakes chSchRescheduleS f link mb k"
      "chFifoSendObjectAhead x (f, link, k) = post_wakes chSchRescheduleS f link mb k"
    using fifo_send_eq(2)[OF assms] by blast
  then show "sends_ahead x (f, link, k) (f', link', k') \<Longrightarrow> link' = link \<and> fifo_ok n f' link free (x # sent)"
    unfolding sends_ahead_def by (auto dest: post_wakes_Inr)
qed

lemmas receive_defs = chFifoReceiveObjectI_def chFifoReceiveObjectTimeoutS_def chFifoReceiveObjectTimeout_def chFifoReceiveObject_resume_def
  chMBFetchI_def chMBFetchTimeout_def chMBFetchTimeoutS_resume_def chMBFetchTimeoutS_def

definition received :: "nat \<Rightarrow> u32 list \<Rightarrow> u32 list \<Rightarrow> links \<Rightarrow> u32 option \<Rightarrow> fifo_state \<Rightarrow> bool" where
  "received n free sent link p = (\<lambda>(f, link', k). link' = link \<and>
     ((p = None \<and> fifo_ok n f link free sent) \<or> (\<exists>x ys. p = Some x \<and> sent = x # ys \<and> fifo_ok n f link free ys)))"

lemma mb_get_received:
  assumes "mb_get (of_mbx f) = Inr (m, mb)" "fifo_ok n f link free sent" "chMBGetUsedCountI (of_mbx f) > 0"
  shows "received n free sent link (Some (of_msg m)) (f\<lparr>of_mbx := mb\<rparr>, link, k)"
proof -
  have ok: "mb_ok (of_mbx f)" "mb_messages (of_mbx f) = map to_msg sent" using assms(2) by (simp_all add: fifo_ok_def)
  have "length sent > 0" using assms(3) ok(2) length_mb_messages[of "of_mbx f"] by (simp add: chMBGetUsedCountI_def)
  then obtain x ys where s: "sent = x # ys" by (cases sent) auto
  obtain mb' where "mb_get (of_mbx f) = Inr (to_msg x, mb')" "mb_ok mb'" "mb_messages mb' = map to_msg ys"
      "chMBGetSizeI mb' = chMBGetSizeI (of_mbx f)"
    using mb_get_ok[OF ok(1), of "to_msg x" "map to_msg ys"] ok(2) s by auto
  then show ?thesis
    using assms(1,2) mb_put_reset(3)[OF assms(1)] s by (auto simp: received_def fifo_ok_def)
qed

lemma fifo_receive:
  assumes "fifo_ok n f link free sent"
  shows "chFifoReceiveObjectI (f, link, k) = Inr (m, p, s) \<Longrightarrow> received n free sent link p s"
    "chFifoReceiveObjectTimeoutS tmo (f, link, k) = Inr (q, p, s) \<Longrightarrow> received n free sent link p s"
    "chFifoReceiveObjectTimeout tmo (f, link, k) = Inr (q, p, s) \<Longrightarrow> received n free sent link p s"
    "chFifoReceiveObject_resume tmo (f, link, k) = Inr (q, p, s) \<Longrightarrow> received n free sent link p s"
  using assms
  by (auto simp: receive_defs bindE_eq_Inr intro: mb_get_received split: if_splits)
    (auto simp: received_def)

text \<open>
  Threads and interrupt handlers take, send, receive and return objects in any order; \<open>H\<close> is the set
  of the objects they hold. They write to objects they hold, where the first word is the link of
  the pool, and send and return only such objects. The rest of the kernel moves in between.
\<close>

definition got :: "u32 option \<Rightarrow> u32 set" where
  "got p = set_option p - {0}"

definition takes :: "fifo_state \<Rightarrow> u32 option \<Rightarrow> fifo_state \<Rightarrow> bool" where
  "takes s p s' \<longleftrightarrow> (\<exists>x. p = Some x \<and> Inr (x, s') \<in> {chFifoTakeObjectI s, chFifoTakeObject_resume s}) \<or>
     (\<exists>tmo. Inr (p, s') \<in> {chFifoTakeObjectTimeoutS tmo s, chFifoTakeObjectTimeout tmo s})"

definition returns :: "u32 \<Rightarrow> fifo_state \<Rightarrow> fifo_state \<Rightarrow> bool" where
  "returns x s s' \<longleftrightarrow> Inr s' \<in> {chFifoReturnObjectI x s, chFifoReturnObjectS x s, chFifoReturnObject x s}"

definition receives :: "fifo_state \<Rightarrow> u32 option \<Rightarrow> fifo_state \<Rightarrow> bool" where
  "receives s p s' \<longleftrightarrow> (\<exists>m. chFifoReceiveObjectI s = Inr (m, p, s')) \<or>
     (\<exists>tmo m. Inr (m, p, s') \<in> {chFifoReceiveObjectTimeoutS tmo s, chFifoReceiveObjectTimeout tmo s, chFifoReceiveObject_resume tmo s})"

inductive fifo_step :: "u32 set \<times> fifo_state \<Rightarrow> u32 set \<times> fifo_state \<Rightarrow> bool" where
  take: "takes s p s' \<Longrightarrow> fifo_step (H, s) (H \<union> got p, s')"
| return: "x \<in> H \<Longrightarrow> returns x s s' \<Longrightarrow> fifo_step (H, s) (H - {x}, s')"
| send: "x \<in> H \<Longrightarrow> sends x s s' \<Longrightarrow> fifo_step (H, s) (H - {x}, s')"
| send_ahead: "x \<in> H \<Longrightarrow> sends_ahead x s s' \<Longrightarrow> fifo_step (H, s) (H - {x}, s')"
| receive: "receives s p s' \<Longrightarrow> fifo_step (H, s) (H \<union> set_option p, s')"
| touch: "x \<in> H \<Longrightarrow> fifo_step (H, f, link, k) (H, f, link(x := v), k)"
| elsewhere: "fifo_step (H, f, link, k) (H, f, link, k')"

definition fifo_inv :: "u32 set \<Rightarrow> u32 set \<Rightarrow> fifo_state \<Rightarrow> bool" where
  "fifo_inv objs H = (\<lambda>(f, link, k). finite objs \<and> 0 \<notin> objs \<and>
     (\<exists>free sent. fifo_ok (card objs) f link free sent \<and> distinct (free @ sent) \<and>
        set (free @ sent) \<union> H = objs \<and> set (free @ sent) \<inter> H = {}))"

lemma fifo_takes:
  assumes "fifo_ok n f link free sent" "takes (f, link, k) p (f', link', k')"
  shows "link' = link \<and> (got p = {} \<and> fifo_ok n f' link free sent \<or> (\<exists>x ys. got p = {x} \<and> free = x # ys \<and> fifo_ok n f' link ys sent))"
proof -
  have "took n free sent link p (f', link', k')"
    using assms(2) fifo_take[OF assms(1)] unfolding takes_def by (metis insertE singletonD)
  then show ?thesis by (auto simp: took_def got_def)
qed

lemma fifo_receives:
  assumes "fifo_ok n f link free sent" "receives (f, link, k) p (f', link', k')"
  shows "received n free sent link p (f', link', k')"
  using assms(2) fifo_receive[OF assms(1)] unfolding receives_def by (metis insertE singletonD)

lemma fifo_held_room:
  assumes "distinct sent" "set sent \<subseteq> objs" "finite objs" "x \<in> objs" "x \<notin> set sent"
  shows "length sent < card objs"
proof -
  have "card (set sent) < card objs" using assms by (intro psubset_card_mono) auto
  then show ?thesis using distinct_card[OF assms(1)] by simp
qed

lemma fifo_step_inv:
  assumes "fifo_step (H, s) (H', s')" "fifo_inv objs H s"
  shows "fifo_inv objs H' s'"
proof -
  obtain f link k where s: "s = (f, link, k)" by (cases s)
  obtain f' link' k' where s': "s' = (f', link', k')" by (cases s')
  obtain free sent where i: "finite objs" "0 \<notin> objs" "fifo_ok (card objs) f link free sent" "distinct (free @ sent)"
      "set (free @ sent) \<union> H = objs" "set (free @ sent) \<inter> H = {}"
    using assms(2) unfolding fifo_inv_def s by auto
  have room: "length sent < card objs" if "x \<in> H" for x
    using fifo_held_room[of sent objs x] i that by auto
  have mk: "fifo_inv objs H' s'" if "fifo_ok (card objs) f' link' fr se" "distinct (fr @ se)" "set (fr @ se) \<union> H' = objs"
      "set (fr @ se) \<inter> H' = {}" for fr se
    using that i(1,2) unfolding fifo_inv_def s' by auto
  from assms(1) show ?thesis
  proof cases
    case (take p)
    then have "link' = link \<and> (got p = {} \<and> fifo_ok (card objs) f' link free sent \<or>
        (\<exists>x ys. got p = {x} \<and> free = x # ys \<and> fifo_ok (card objs) f' link ys sent))"
      using fifo_takes[OF i(3)] unfolding s s' by blast
    then consider "link' = link" "got p = {}" "fifo_ok (card objs) f' link free sent"
      | x ys where "link' = link" "got p = {x}" "free = x # ys" "fifo_ok (card objs) f' link ys sent" by blast
    then show ?thesis
    proof cases
      case 1
      show ?thesis by (rule mk[of free sent]) (use 1 take(1) i in auto)
    next
      case 2
      show ?thesis by (rule mk[of ys sent]) (use 2 take(1) i in auto)
    qed
  next
    case (return x)
    have "x \<notin> set free" using return(2) i(6) by auto
    then have "fifo_ok (card objs) f' link' (x # free) sent"
      using fifo_return[OF i(3)] return(3) unfolding s s' returns_def by (metis insertE singletonD)
    then show ?thesis by (rule mk) (use return(1,2) i in auto)
  next
    case (send x)
    then have "link' = link" "fifo_ok (card objs) f' link free (sent @ [x])"
      using fifo_send(1)[OF i(3) room] unfolding s s' by blast+
    then show ?thesis by (intro mk[of free "sent @ [x]"]) (use send(1,2) i in auto)
  next
    case (send_ahead x)
    then have "link' = link" "fifo_ok (card objs) f' link free (x # sent)"
      using fifo_send(2)[OF i(3) room] unfolding s s' by blast+
    then show ?thesis by (intro mk[of free "x # sent"]) (use send_ahead(1,2) i in auto)
  next
    case (receive p)
    then have "received (card objs) free sent link p (f', link', k')" using fifo_receives[OF i(3)] unfolding s s' by blast
    then consider "link' = link" "p = None" "fifo_ok (card objs) f' link free sent"
      | x ys where "link' = link" "p = Some x" "sent = x # ys" "fifo_ok (card objs) f' link free ys"
      by (auto simp: received_def)
    then show ?thesis
    proof cases
      case 1
      show ?thesis by (rule mk[of free sent]) (use 1 receive(1) i in auto)
    next
      case 2
      show ?thesis by (rule mk[of free ys]) (use 2 receive(1) i in auto)
    qed
  next
    case (touch x g l k0 v)
    have "x \<notin> set free" using touch i(6) by auto
    then have "fifo_ok (card objs) f' link' free sent" using i(3) touch s s' by (simp add: fifo_ok_def pool_ok_def pool_chain_upd)
    then show ?thesis by (rule mk) (use touch i in auto)
  next
    case (elsewhere g l k0 k1)
    then show ?thesis by (intro mk[of free sent]) (use s s' i in auto)
  qed
qed

lemma fifo_steps_inv: "fifo_step\<^sup>*\<^sup>* (H, s) (H', s') \<Longrightarrow> fifo_inv objs H s \<Longrightarrow> fifo_inv objs H' s'"
  by (induction rule: rtranclp_induct2) (auto intro: fifo_step_inv)

text \<open>What the steps give out nobody held.\<close>

lemma fifo_fresh:
  assumes "fifo_inv objs H s"
  shows "takes s p s' \<Longrightarrow> got p \<subseteq> objs - H" "receives s p s' \<Longrightarrow> set_option p \<subseteq> objs - H"
proof -
  obtain f link k where s: "s = (f, link, k)" by (cases s)
  obtain f' link' k' where s': "s' = (f', link', k')" by (cases s')
  obtain free sent where i: "fifo_ok (card objs) f link free sent" "set (free @ sent) \<union> H = objs" "set (free @ sent) \<inter> H = {}"
    using assms unfolding fifo_inv_def s by auto
  show "takes s p s' \<Longrightarrow> got p \<subseteq> objs - H" using fifo_takes[OF i(1), of k p f' link' k'] i(2,3) unfolding s s' by auto
  show "receives s p s' \<Longrightarrow> set_option p \<subseteq> objs - H"
    using fifo_receives[OF i(1), of k p f' link' k'] i(2,3) unfolding s s' received_def by auto
qed

section \<open>The start\<close>

lemma gpool_load_data:
  "gpool_load n p (g, link, k) = Inr (g', link', k') \<Longrightarrow> pool_load n p (gmp_pool g, link) = Inr (gmp_pool g', link')"
proof (induction n arbitrary: p g link k)
  case (Suc n)
  obtain g1 link1 k1 where s1: "chGuardedPoolAdd p (g, link, k) = Inr (g1, link1, k1)"
      "gpool_load n (p + mp_object_size (gmp_pool g)) (g1, link1, k1) = Inr (g', link', k')"
    using Suc.prems by (auto simp: bindE_eq_Inr)
  have "chPoolAdd p (gmp_pool g, link) = Inr (gmp_pool g1, link1)"
    using s1(1) by (auto simp: chGuardedPoolAdd_def chGuardedPoolFree_def chGuardedPoolFreeI_def chPoolAdd_def chPoolFree_def bindE_eq_Inr)
  then show ?case using Suc.IH[OF s1(2)] by simp
qed simp

lemma mbx_init:
  assumes "chMBObjectInit buf qw qr k = Inr (mb, k')"
  shows "mb_ok mb \<and> \<not> mb_reset mb \<and> mb_messages mb = [] \<and> chMBGetSizeI mb = length buf"
  using assms by (auto simp: chMBObjectInit_def bindE_eq_Inr mb_ok_def ring_ok_def mb_messages_def ring_contents_def chMBGetSizeI_def)

definition obj_addrs :: "u32 \<Rightarrow> u32 \<Rightarrow> nat \<Rightarrow> u32 list" where
  "obj_addrs objbuf objsize n = map (\<lambda>i. objbuf + of_nat i * objsize) [0..<n]"

lemma fifo_init:
  assumes "chFifoObjectInitAligned sem qw qr objsize objn objalign objbuf msgbuf (link, k) = Inr s"
    and objs: "distinct (obj_addrs objbuf objsize objn)" "0 \<notin> set (obj_addrs objbuf objsize objn)"
      "\<forall>x \<in> set (obj_addrs objbuf objsize objn). MEM_IS_ALIGNED x objalign" and "objn \<le> length msgbuf"
  shows "fifo_inv (set (obj_addrs objbuf objsize objn)) {} s"
proof -
  obtain g k1 g' link' k2 mb k3 where i: "chGuardedPoolObjectInitAligned sem objsize objalign k = Inr (g, k1)"
      "chGuardedPoolLoadArray objbuf objn (g, link, k1) = Inr (g', link', k2)"
      "chMBObjectInit (take objn msgbuf) qw qr k2 = Inr (mb, k3)" "s = (\<lparr>of_free = g', of_mbx = mb\<rparr>, link', k3)"
    using assms(1) by (auto simp: chFifoObjectInitAligned_def bindE_eq_Inr)
  have g: "mp_next (gmp_pool g) = 0" "mp_object_size (gmp_pool g) = objsize" "mp_align (gmp_pool g) = objalign" "mp_provider (gmp_pool g) = None"
    using i(1) by (auto simp: chGuardedPoolObjectInitAligned_def chPoolObjectInitAligned_def bindE_eq_Inr)
  have "pool_load objn objbuf (gmp_pool g, link) = Inr (gmp_pool g', link')"
    using i(2) gpool_load_data by (auto simp: chGuardedPoolLoadArray_def bindE_eq_Inr)
  moreover have "pool_ok (gmp_pool g) link []" using g(1) by (simp add: pool_ok_def)
  ultimately have p: "pool_ok (gmp_pool g') link' (rev (obj_addrs objbuf objsize objn))" "mp_provider (gmp_pool g') = None"
    using pool_load_ok[of "gmp_pool g" link "[]" "obj_addrs objbuf objsize objn" objbuf objn] objs g
    by (auto simp: obj_addrs_def)
  have len: "length (obj_addrs objbuf objsize objn) = objn" by (simp add: obj_addrs_def)
  have c: "card (set (obj_addrs objbuf objsize objn)) = objn" unfolding distinct_card[OF objs(1)] len ..
  have "fifo_ok objn \<lparr>of_free = g', of_mbx = mb\<rparr> link' (rev (obj_addrs objbuf objsize objn)) []"
    using p mbx_init[OF i(3)] assms(5) by (simp add: fifo_ok_def)
  then show ?thesis
    unfolding fifo_inv_def i(4) prod.case c
    by (intro conjI exI[of _ "rev (obj_addrs objbuf objsize objn)"] exI[of _ "[]"]) (use objs in auto)
qed

text \<open>The start does not fail while a thread of highest priority runs.\<close>

lemma gpool_load_returns:
  assumes "pool_load n p (gmp_pool g, link) = Inr (mp, link')" "firstprio k \<le> prio k (k_cur k)" "squeue k (gmp_sem g) = []"
    "0 \<le> scnt k (gmp_sem g)" "scnt k (gmp_sem g) + int n \<le> INT_MAX"
  shows "\<exists>g' k'. gpool_load n p (g, link, k) = Inr (g', link', k')"
  using assms
proof (induction n arbitrary: p g link k)
  case (Suc n)
  obtain mp1 link1 where p1: "chPoolFreeI p (gmp_pool g, link) = Inr (mp1, link1)" "pool_load n (p + mp_object_size (gmp_pool g)) (mp1, link1) = Inr (mp, link')"
    using Suc.prems(1) by (auto simp: bindE_eq_Inr chPoolAdd_def chPoolFree_def)
  let ?k = "set_cnt (gmp_sem g) (scnt k (gmp_sem g) + 1) k" and ?g = "g\<lparr>gmp_pool := mp1\<rparr>"
  have k: "firstprio ?k \<le> prio ?k (k_cur ?k)" "squeue ?k (gmp_sem g) = []" "scnt ?k (gmp_sem g) = scnt k (gmp_sem g) + 1"
    using Suc.prems(2,3) by (simp_all add: set_cnt_def upd_sem_def firstprio_def split: list.splits)
  have "chSemSignalI (gmp_sem g) k = Inr ?k"
    using Suc.prems(3-5) by (simp add: chSemSignalI_def sem_consistent_def c_int_def INT_MIN_def Let_def)
  then have "chGuardedPoolAdd p (g, link, k) = Inr (?g, link1, ?k)"
    using p1(1) k(1) by (simp add: chGuardedPoolAdd_def chGuardedPoolFree_def chGuardedPoolFreeI_def chSchRescheduleS_def)
  then show ?case
    using Suc.IH[of "p + mp_object_size (gmp_pool g)" ?g link1 ?k] p1(2) k Suc.prems(4,5) by simp
qed simp

lemma fifo_start:
  assumes al: "objalign \<le> objsize" "objsize mod objalign = 0" "4 \<le> objsize" "PORT_NATURAL_ALIGN \<le> objalign" "MEM_IS_VALID_ALIGNMENT objalign"
    and n: "0 < objn" "int objn \<le> INT_MAX" "objn \<le> length msgbuf"
    and objs: "distinct (obj_addrs objbuf objsize objn)" "0 \<notin> set (obj_addrs objbuf objsize objn)"
      "\<forall>x \<in> set (obj_addrs objbuf objsize objn). MEM_IS_ALIGNED x objalign"
    and run: "firstprio k \<le> prio k (k_cur k)"
  shows "\<exists>s. chFifoObjectInitAligned sem qw qr objsize objn objalign objbuf msgbuf (link, k) = Inr s \<and>
    fifo_inv (set (obj_addrs objbuf objsize objn)) {} s"
proof -
  let ?mp = "\<lparr>mp_next = 0, mp_object_size = objsize, mp_align = objalign, mp_provider = None\<rparr> :: unit memory_pool_t"
  let ?k = "set_cnt sem 0 (set_squeue sem [] k)"
  have "pool_ok ?mp link []" by (simp add: pool_ok_def)
  then obtain mp link' where l: "pool_load objn objbuf (?mp, link) = Inr (mp, link')"
    using pool_load_ok[of ?mp link "[]" "obj_addrs objbuf objsize objn" objbuf objn] objs by (auto simp: obj_addrs_def)
  have "firstprio ?k \<le> prio ?k (k_cur ?k)" "squeue ?k sem = []" "scnt ?k sem = 0"
    using run by (simp_all add: set_cnt_def set_squeue_def upd_sem_def firstprio_def split: list.splits)
  then obtain g' k' where "gpool_load objn objbuf (\<lparr>gmp_sem = sem, gmp_pool = ?mp\<rparr>, link, ?k) = Inr (g', link', k')"
    using gpool_load_returns[of objn objbuf "\<lparr>gmp_sem = sem, gmp_pool = ?mp\<rparr>" link mp link' ?k] l n(2) by auto
  then obtain s where "chFifoObjectInitAligned sem qw qr objsize objn objalign objbuf msgbuf (link, k) = Inr s"
    using al n(1,3) by (simp add: chFifoObjectInitAligned_def chGuardedPoolObjectInitAligned_def chPoolObjectInitAligned_def chSemObjectInit_def
        chGuardedPoolLoadArray_def chMBObjectInit_def)
  with fifo_init[OF this objs n(3)] show ?thesis by blast
qed

section \<open>Jobs are passed like objects\<close>

definition as_fifo :: "jobs_queue_t \<Rightarrow> objects_fifo_t" where
  "as_fifo j = \<lparr>of_free = jq_free j, of_mbx = jq_mbx j\<rparr>"

lemma as_fifo_sel [simp]: "of_free (as_fifo j) = jq_free j" "of_mbx (as_fifo j) = jq_mbx j"
    "as_fifo (j\<lparr>jq_free := g\<rparr>) = (as_fifo j)\<lparr>of_free := g\<rparr>" "as_fifo (j\<lparr>jq_mbx := mb\<rparr>) = (as_fifo j)\<lparr>of_mbx := mb\<rparr>"
  by (simp_all add: as_fifo_def)

lemma jobs_as_fifo:
  "chJobGetI (j, link, k) = Inr (p, j', s') \<Longrightarrow> chFifoTakeObjectI (as_fifo j, link, k) = Inr (p, as_fifo j', s')"
  "chJobGetTimeoutS tmo (j, link, k) = Inr (q, j', s') \<Longrightarrow> chFifoTakeObjectTimeoutS tmo (as_fifo j, link, k) = Inr (q, as_fifo j', s')"
  "chJobGetTimeout tmo (j, link, k) = Inr (q, j', s') \<Longrightarrow> chFifoTakeObjectTimeout tmo (as_fifo j, link, k) = Inr (q, as_fifo j', s')"
  "chJobGet (j, link, k) = Inr (q, j', s') \<Longrightarrow> chFifoTakeObjectTimeout TIME_INFINITE (as_fifo j, link, k) = Inr (q, as_fifo j', s')"
  "chJobPostI x (j, link, k) = Inr (j', s') \<Longrightarrow> chFifoSendObjectI x (as_fifo j, link, k) = Inr (as_fifo j', s')"
  "chJobPostS x (j, link, k) = Inr (j', s') \<Longrightarrow> chFifoSendObjectS x (as_fifo j, link, k) = Inr (as_fifo j', s')"
  "chJobPost x (j, link, k) = Inr (j', s') \<Longrightarrow> chFifoSendObject x (as_fifo j, link, k) = Inr (as_fifo j', s')"
  "chJobPostAheadI x (j, link, k) = Inr (j', s') \<Longrightarrow> chFifoSendObjectAheadI x (as_fifo j, link, k) = Inr (as_fifo j', s')"
  "chJobPostAheadS x (j, link, k) = Inr (j', s') \<Longrightarrow> chFifoSendObjectAheadS x (as_fifo j, link, k) = Inr (as_fifo j', s')"
  "chJobPostAhead x (j, link, k) = Inr (j', s') \<Longrightarrow> chFifoSendObjectAhead x (as_fifo j, link, k) = Inr (as_fifo j', s')"
  by (auto simp: chJobGetI_def chFifoTakeObjectI_def chJobGetTimeoutS_def chFifoTakeObjectTimeoutS_def chJobGetTimeout_def
      chFifoTakeObjectTimeout_def chJobGet_def chJobPostI_def chFifoSendObjectI_def chJobPostS_def chFifoSendObjectS_def chJobPost_def
      chFifoSendObject_def chJobPostAheadI_def chFifoSendObjectAheadI_def chJobPostAheadS_def chFifoSendObjectAheadS_def
      chJobPostAhead_def chFifoSendObjectAhead_def bindE_eq_Inr)

text \<open>
  A dispatched job is the oldest one. Its descriptor goes back to the pool when its function has
  returned; without a function it does not.
\<close>

lemma job_dispatch:
  assumes "fifo_ok n (as_fifo j) link free (x # sent)" "x \<noteq> 0" "x \<notin> set free"
    "chJobDispatchTimeout jd call tmo (w, j, link, k) = Inr (m, w', j', link', k')"
  shows "if jobfunc (jd x) \<noteq> 0
    then m = Some MSG_OK \<and> fifo_ok n (as_fifo j') link' (x # free) sent \<and>
      (\<exists>k1 k2. call (jobfunc (jd x)) (jobarg (jd x)) (w, k1) = Inr (w', k2))
    else m = Some MSG_JOB_NULL \<and> fifo_ok n (as_fifo j') link' free sent \<and> link' = link \<and> w' = w"
proof -
  have ok: "mb_ok (jq_mbx j)" "mb_messages (jq_mbx j) = to_msg x # map to_msg sent" "\<not> mb_reset (jq_mbx j)"
    using assms(1) by (simp_all add: fifo_ok_def)
  obtain mb where mb: "mb_get (jq_mbx j) = Inr (to_msg x, mb)" "mb_ok mb" "mb_messages mb = map to_msg sent"
      "chMBGetSizeI mb = chMBGetSizeI (jq_mbx j)" "mb_qw mb = mb_qw (jq_mbx j)"
    using mb_get_ok[OF ok(1,2)] by blast
  have used: "chMBGetUsedCountI (jq_mbx j) > 0"
    using ok(2) length_mb_messages[of "jq_mbx j"] by (simp add: chMBGetUsedCountI_def)
  have j1: "fifo_ok n (as_fifo (j\<lparr>jq_mbx := mb\<rparr>)) link free sent"
    using assms(1) mb(2-4) mb_put_reset(3)[OF mb(1)] by (simp add: fifo_ok_def)
  obtain k1 m' where e: "job_execute jd call MSG_OK (Some (to_msg x)) (w, j\<lparr>jq_mbx := mb\<rparr>, link, k1) = Inr (m', w', j', link', k')"
      "m = Some m'"
    using assms(4) ok(3) used mb(1)
    by (auto simp: chJobDispatchTimeout_def chMBFetchTimeout_def chMBFetchTimeoutS_def bindE_eq_Inr Let_def)
  show ?thesis
  proof (cases "jobfunc (jd x) = 0")
    case True
    then show ?thesis using e j1 assms(2) by (simp add: job_execute_def)
  next
    case False
    obtain k2 g where c: "call (jobfunc (jd x)) (jobarg (jd x)) (w, k1) = Inr (w', k2)" "m' = MSG_OK"
        "chGuardedPoolFree x (jq_free j, link, k2) = Inr (g, link', k')" "j' = j\<lparr>jq_mbx := mb, jq_free := g\<rparr>"
      using e(1) False assms(2) by (auto simp: job_execute_def bindE_eq_Inr)
    have "chFifoReturnObject x (as_fifo (j\<lparr>jq_mbx := mb\<rparr>), link, k2) = Inr (as_fifo j', link', k')"
      using c(3,4) by (simp add: chFifoReturnObject_def as_fifo_def)
    then have "fifo_ok n (as_fifo j') link' (x # free) sent" using fifo_return[OF j1 assms(3)] by blast
    then show ?thesis using False c(1,2) e(2) by auto
  qed
qed

text \<open>The result that announces a job without function is the one of a reset mailbox.\<close>

lemma job_null_is_reset: "MSG_JOB_NULL = MSG_RESET"
  by (simp add: MSG_JOB_NULL_def MSG_RESET_def)

end
