(* ===== verification/Ch_Deleg.thy ===== *)
theory Ch_Deleg
  imports Ch_Msg
begin

text \<open>
  Delegates: \<^verbatim>\<open>chdelegates.c\<close> and \<^verbatim>\<open>chdelegates.h\<close>. A thread has a function called by another
  thread: it sends it, as a message, the address of a structure on its own stack, with a veneer and
  the arguments, and gets back what the function returned. \<open>cms\<close> holds these structures by their
  addresses. Functions act on the state \<open>'w\<close> of the program and on the kernel.
\<close>

section \<open>Operations\<close>

type_synonym 'w dlg_fn = "msg_t list \<Rightarrow> 'w \<times> kernel_t \<Rightarrow> (msg_t \<times> 'w \<times> kernel_t) result"

text \<open>A variable argument is a function or a message; reading one at the wrong type or past the end is an error.\<close>

datatype 'w va = VFun "'w dlg_fn" | VMsg msg_t

fun va_fun :: "'w va list \<Rightarrow> ('w dlg_fn \<times> 'w va list) result" where
  "va_fun (VFun f # as) = Inr (f, as)"
| "va_fun _ = Inl OutOfBounds"

fun va_msg :: "'w va list \<Rightarrow> (msg_t \<times> 'w va list) result" where
  "va_msg (VMsg m # as) = Inr (m, as)"
| "va_msg _ = Inl OutOfBounds"

type_synonym 'w veneer = "'w va list \<Rightarrow> 'w \<times> kernel_t \<Rightarrow> (msg_t \<times> 'w \<times> kernel_t) result"

definition delegate_fn0 :: "'w veneer" where
  "delegate_fn0 as s = bindE (va_fun as) (\<lambda>(fn0, as). fn0 [] s)"

definition delegate_fn1 :: "'w veneer" where
  "delegate_fn1 as s =
     bindE (va_fun as) (\<lambda>(fn1, as).
     bindE (va_msg as) (\<lambda>(p1, as). fn1 [p1] s))"

definition delegate_fn2 :: "'w veneer" where
  "delegate_fn2 as s =
     bindE (va_fun as) (\<lambda>(fn2, as).
     bindE (va_msg as) (\<lambda>(p1, as).
     bindE (va_msg as) (\<lambda>(p2, as). fn2 [p1, p2] s)))"

definition delegate_fn3 :: "'w veneer" where
  "delegate_fn3 as s =
     bindE (va_fun as) (\<lambda>(fn3, as).
     bindE (va_msg as) (\<lambda>(p1, as).
     bindE (va_msg as) (\<lambda>(p2, as).
     bindE (va_msg as) (\<lambda>(p3, as). fn3 [p1, p2, p3] s))))"

definition delegate_fn4 :: "'w veneer" where
  "delegate_fn4 as s =
     bindE (va_fun as) (\<lambda>(fn4, as).
     bindE (va_msg as) (\<lambda>(p1, as).
     bindE (va_msg as) (\<lambda>(p2, as).
     bindE (va_msg as) (\<lambda>(p3, as).
     bindE (va_msg as) (\<lambda>(p4, as). fn4 [p1, p2, p3, p4] s)))))"

record 'w call_message_t =
  cm_veneer :: "'w veneer"
  cm_args :: "'w va list"

type_synonym 'w cms = "msg_t \<rightharpoonup> 'w call_message_t"

text \<open>The call, up to the sleep in \<open>chMsgSend\<close>, and from there to the end; then the structure is gone.\<close>

definition chDelegateCallVeneer :: "tid \<Rightarrow> msg_t \<Rightarrow> 'w veneer \<Rightarrow> 'w va list \<Rightarrow> 'w cms \<times> kernel_t \<Rightarrow> ('w cms \<times> kernel_t) result" where
  "chDelegateCallVeneer t cm veneer args = (\<lambda>(cms, k).
     let cms = cms(cm \<mapsto> \<lparr>cm_veneer = veneer, cm_args = args\<rparr>) in
     bindE (chMsgSend t cm k) (\<lambda>k. Inr (cms, k)))"

definition chDelegateCallVeneer_resume :: "msg_t \<Rightarrow> 'w cms \<times> kernel_t \<Rightarrow> (msg_t \<times> 'w cms) result" where
  "chDelegateCallVeneer_resume cm = (\<lambda>(cms, k). bindE (chMsgSend_resume k) (\<lambda>msg. Inr (msg, cms(cm := None))))"

definition chDelegateCallDirect0 :: "tid \<Rightarrow> msg_t \<Rightarrow> 'w dlg_fn \<Rightarrow> 'w cms \<times> kernel_t \<Rightarrow> ('w cms \<times> kernel_t) result" where
  "chDelegateCallDirect0 t cm func = chDelegateCallVeneer t cm delegate_fn0 [VFun func]"

definition chDelegateCallDirect1 :: "tid \<Rightarrow> msg_t \<Rightarrow> 'w dlg_fn \<Rightarrow> msg_t \<Rightarrow> 'w cms \<times> kernel_t \<Rightarrow> ('w cms \<times> kernel_t) result" where
  "chDelegateCallDirect1 t cm func p1 = chDelegateCallVeneer t cm delegate_fn1 [VFun func, VMsg p1]"

definition chDelegateCallDirect2 ::
  "tid \<Rightarrow> msg_t \<Rightarrow> 'w dlg_fn \<Rightarrow> msg_t \<Rightarrow> msg_t \<Rightarrow> 'w cms \<times> kernel_t \<Rightarrow> ('w cms \<times> kernel_t) result" where
  "chDelegateCallDirect2 t cm func p1 p2 = chDelegateCallVeneer t cm delegate_fn2 [VFun func, VMsg p1, VMsg p2]"

definition chDelegateCallDirect3 ::
  "tid \<Rightarrow> msg_t \<Rightarrow> 'w dlg_fn \<Rightarrow> msg_t \<Rightarrow> msg_t \<Rightarrow> msg_t \<Rightarrow> 'w cms \<times> kernel_t \<Rightarrow> ('w cms \<times> kernel_t) result" where
  "chDelegateCallDirect3 t cm func p1 p2 p3 = chDelegateCallVeneer t cm delegate_fn3 [VFun func, VMsg p1, VMsg p2, VMsg p3]"

definition chDelegateCallDirect4 ::
  "tid \<Rightarrow> msg_t \<Rightarrow> 'w dlg_fn \<Rightarrow> msg_t \<Rightarrow> msg_t \<Rightarrow> msg_t \<Rightarrow> msg_t \<Rightarrow> 'w cms \<times> kernel_t \<Rightarrow> ('w cms \<times> kernel_t) result" where
  "chDelegateCallDirect4 t cm func p1 p2 p3 p4 =
     chDelegateCallVeneer t cm delegate_fn4 [VFun func, VMsg p1, VMsg p2, VMsg p3, VMsg p4]"

text \<open>The dispatcher, once it has a caller.\<close>

definition deleg_serve :: "tid \<Rightarrow> 'w \<times> 'w cms \<times> kernel_t \<Rightarrow> ('w \<times> 'w cms \<times> kernel_t) result" where
  "deleg_serve tp = (\<lambda>(w, cms, k).
     bindE (chMsgGet tp k) (\<lambda>m.
     case cms m of
       None \<Rightarrow> Inl OutOfBounds
     | Some cmp \<Rightarrow>
         bindE (cm_veneer cmp (cm_args cmp) (w, k)) (\<lambda>(ret, w, k).
         bindE (chMsgRelease tp ret k) (\<lambda>k. Inr (w, cms, k)))))"

definition chDelegateDispatch :: "'w \<times> 'w cms \<times> kernel_t \<Rightarrow> (bool \<times> 'w \<times> 'w cms \<times> kernel_t) result" where
  "chDelegateDispatch = (\<lambda>(w, cms, k).
     bindE (chMsgWait k) (\<lambda>(tp, k).
     case tp of
       None \<Rightarrow> Inr (False, w, cms, k)
     | Some tp \<Rightarrow> bindE (deleg_serve tp (w, cms, k)) (\<lambda>s. Inr (True, s))))"

definition chDelegateDispatch_resume :: "'w \<times> 'w cms \<times> kernel_t \<Rightarrow> ('w \<times> 'w cms \<times> kernel_t) result" where
  "chDelegateDispatch_resume = (\<lambda>(w, cms, k).
     bindE (chMsgWaitS_resume k) (\<lambda>(tp, k). deleg_serve tp (w, cms, k)))"

definition chDelegateDispatchTimeout ::
  "sysinterval_t \<Rightarrow> 'w \<times> 'w cms \<times> kernel_t \<Rightarrow> (msg_t option \<times> 'w \<times> 'w cms \<times> kernel_t) result" where
  "chDelegateDispatchTimeout timeout = (\<lambda>(w, cms, k).
     bindE (chMsgWaitTimeout timeout k) (\<lambda>(tp, k).
     case tp of
       None \<Rightarrow> Inr (None, w, cms, k)
     | Some tp \<Rightarrow> bindE (deleg_serve tp (w, cms, k)) (\<lambda>s. Inr (Some MSG_OK, s))))"

definition chDelegateDispatchTimeout_resume :: "'w \<times> 'w cms \<times> kernel_t \<Rightarrow> (msg_t \<times> 'w \<times> 'w cms \<times> kernel_t) result" where
  "chDelegateDispatchTimeout_resume = (\<lambda>(w, cms, k).
     bindE (chMsgWaitTimeoutS_resume k) (\<lambda>(tp, k).
     case tp of
       None \<Rightarrow> Inr (MSG_TIMEOUT, w, cms, k)
     | Some tp \<Rightarrow> bindE (deleg_serve tp (w, cms, k)) (\<lambda>s. Inr (MSG_OK, s))))"

section \<open>The caller gets the result of its function\<close>

lemma veneers:
  "delegate_fn0 [VFun f] s = f [] s" "delegate_fn1 [VFun f, VMsg a] s = f [a] s" "delegate_fn2 [VFun f, VMsg a, VMsg b] s = f [a, b] s"
  "delegate_fn3 [VFun f, VMsg a, VMsg b, VMsg c] s = f [a, b, c] s"
  "delegate_fn4 [VFun f, VMsg a, VMsg b, VMsg c, VMsg d] s = f [a, b, c, d] s"
  by (simp_all add: delegate_fn0_def delegate_fn1_def delegate_fn2_def delegate_fn3_def delegate_fn4_def)

lemma deleg_serve_ok:
  assumes "msg_inv k" "sched_ok k" "msgqueue k (k_cur k) = s # q" "t_u (k_thr k s) = SentMsg cm"
    "cms cm = Some \<lparr>cm_veneer = v, cm_args = as\<rparr>" "\<And>k. v as (w, k) = Inr (ret, w', k)"
  shows "\<exists>k1 k2. msg_accept k = Inr (s, k1) \<and> deleg_serve s (w, cms, k1) = Inr (w', cms, k2) \<and> msg_inv k2 \<and> sched_ok k2 \<and>
    rdymsg s k2 = Inr ret \<and> tstate k2 s \<in> {CH_STATE_READY, CH_STATE_CURRENT} \<and> msgqueue k2 (k_cur k) = q"
proof -
  obtain k1 k2 where k: "chMsgWait k = Inr (Some s, k1)" "chMsgGet s k1 = Inr cm" "chMsgRelease s ret k1 = Inr k2"
      "msg_inv k2" "sched_ok k2" "rdymsg s k2 = Inr ret" "tstate k2 s \<in> {CH_STATE_READY, CH_STATE_CURRENT}" "msgqueue k2 (k_cur k) = q"
    using msg_exchange[OF assms(1-4), of ret] by blast
  have "msg_accept k = Inr (s, k1)"
    using k(1) assms(3) by (auto simp: chMsgWait_def chMsgWaitS_def chMsgIsPendingI_def bindE_eq_Inr)
  then show ?thesis
    using k(2-8) assms(5,6) by (simp add: deleg_serve_def)
qed

text \<open>A call to a dispatcher that waits for one, if it is the thread that runs next.\<close>

lemma delegate_call_ok:
  assumes inv: "msg_inv k" "k_cur k \<noteq> k_idle k" and d: "d \<in> set (k_tids k)" "d \<noteq> k_cur k" "tstate k d = CH_STATE_WTMSG"
    and v: "\<And>k. v as (w, k) = Inr (ret, w', k)"
  shows "\<exists>k1. chDelegateCallVeneer d cm v as (cms, k) = Inr (cms(cm \<mapsto> \<lparr>cm_veneer = v, cm_args = as\<rparr>), k1) \<and> msg_inv k1 \<and> sched_ok k1 \<and>
    tstate k1 d \<in> {CH_STATE_READY, CH_STATE_CURRENT} \<and>
    (k_cur k1 = d \<longrightarrow> (\<exists>k2. chDelegateDispatch_resume (w, cms(cm \<mapsto> \<lparr>cm_veneer = v, cm_args = as\<rparr>), k1) =
        Inr (w', cms(cm \<mapsto> \<lparr>cm_veneer = v, cm_args = as\<rparr>), k2) \<and> msg_inv k2 \<and> sched_ok k2 \<and>
      tstate k2 (k_cur k) \<in> {CH_STATE_READY, CH_STATE_CURRENT} \<and>
      (k_cur k2 = k_cur k \<longrightarrow> chDelegateCallVeneer_resume cm (cms(cm \<mapsto> \<lparr>cm_veneer = v, cm_args = as\<rparr>), k2) = Inr (ret, cms(cm := None)))))"
proof -
  let ?cms = "cms(cm \<mapsto> \<lparr>cm_veneer = v, cm_args = as\<rparr>)"
  have "msgqueue k d = []" using msgs_okD(5)[of k d] inv(1) d by (simp add: msg_inv_def)
  then obtain k1 where k1: "chMsgSend d cm k = Inr k1" "msg_inv k1" "sched_ok k1" "msgqueue k1 d = [k_cur k]"
      "t_u (k_thr k1 (k_cur k)) = SentMsg cm" "tstate k1 d \<in> {CH_STATE_READY, CH_STATE_CURRENT}"
    using chMsgSend_ok[OF inv d(1,2), of cm] d(3) by auto
  have "\<exists>k2. chDelegateDispatch_resume (w, ?cms, k1) = Inr (w', ?cms, k2) \<and> msg_inv k2 \<and> sched_ok k2 \<and>
      tstate k2 (k_cur k) \<in> {CH_STATE_READY, CH_STATE_CURRENT} \<and>
      (k_cur k2 = k_cur k \<longrightarrow> chDelegateCallVeneer_resume cm (?cms, k2) = Inr (ret, cms(cm := None)))" if "k_cur k1 = d"
  proof -
    have "\<exists>k1' k2. msg_accept k1 = Inr (k_cur k, k1') \<and> deleg_serve (k_cur k) (w, ?cms, k1') = Inr (w', ?cms, k2) \<and> msg_inv k2 \<and>
        sched_ok k2 \<and> rdymsg (k_cur k) k2 = Inr ret \<and> tstate k2 (k_cur k) \<in> {CH_STATE_READY, CH_STATE_CURRENT} \<and> msgqueue k2 (k_cur k1) = []"
      using k1(4,5) that by (intro deleg_serve_ok[OF k1(2,3), where v = v and as = as and cm = cm]) (simp_all add: v)
    then show ?thesis
      by (auto simp: chDelegateDispatch_resume_def chMsgWaitS_resume_def chDelegateCallVeneer_resume_def chMsgSend_resume_def)
  qed
  with k1(1-3,6) show ?thesis by (simp add: chDelegateCallVeneer_def Let_def)
qed

end
