(* ===== verification/Ch_Cache.thy ===== *)
theory Ch_Cache
  imports Ch_Sem
begin

text \<open>
  Caches of objects: \<^verbatim>\<open>chobjcaches.c\<close> and \<^verbatim>\<open>chobjcaches.h\<close>. The buffers of the cache are numbered in the
  order of their addresses. The doubly linked lists are lists: one for each slot of the hash table,
  newest first, and the list of the buffers nobody uses, most recently used first. The functions
  that read and write an object on the medium are parameters; they work on cache and kernel. A call
  that waits returns where it waits, and \<open>_resume\<close> goes on when its caller runs again.
\<close>

unbundle bit_operations_syntax

section \<open>State\<close>

definition OC_FLAG_INLRU :: u32 where "OC_FLAG_INLRU = 1"
definition OC_FLAG_INHASH :: u32 where "OC_FLAG_INHASH = 2"
definition OC_FLAG_SHARED :: u32 where "OC_FLAG_SHARED = 4"
definition OC_FLAG_NOTSYNC :: u32 where "OC_FLAG_NOTSYNC = 8"
definition OC_FLAG_LAZYWRITE :: u32 where "OC_FLAG_LAZYWRITE = 16"
definition OC_FLAG_FORGET :: u32 where "OC_FLAG_FORGET = 32"

lemmas oc_flags = OC_FLAG_INLRU_def OC_FLAG_INHASH_def OC_FLAG_SHARED_def OC_FLAG_NOTSYNC_def OC_FLAG_LAZYWRITE_def OC_FLAG_FORGET_def

record oc_object_t =
  obj_group :: u32
  obj_key :: u32
  obj_sem :: nat
  obj_flags :: u32
  obj_dptr :: u32

record objects_cache_t =
  oc_hashn :: u32
  oc_hash :: "nat list list"
  oc_objn :: u32
  oc_obj :: "nat \<Rightarrow> oc_object_t"
  oc_lru :: "nat list"
  oc_cache_sem :: nat
  oc_lru_sem :: nat

type_synonym ck = "objects_cache_t \<times> kernel_t"
type_synonym oc_io = "nat \<Rightarrow> bool \<Rightarrow> ck \<Rightarrow> (bool \<times> ck) result"

definition upd_obj :: "nat \<Rightarrow> (oc_object_t \<Rightarrow> oc_object_t) \<Rightarrow> objects_cache_t \<Rightarrow> objects_cache_t" where
  "upd_obj x f c = c\<lparr>oc_obj := (oc_obj c)(x := f (oc_obj c x))\<rparr>"

abbreviation flags :: "objects_cache_t \<Rightarrow> nat \<Rightarrow> u32" where
  "flags c x \<equiv> obj_flags (oc_obj c x)"

definition set_flags :: "nat \<Rightarrow> u32 \<Rightarrow> objects_cache_t \<Rightarrow> objects_cache_t" where
  "set_flags x v = upd_obj x (\<lambda>ob. ob\<lparr>obj_flags := v\<rparr>)"

definition OC_HASH_FUNCTION :: "objects_cache_t \<Rightarrow> u32 \<Rightarrow> u32 \<Rightarrow> nat" where
  "OC_HASH_FUNCTION c grp key = unat ((grp + key) AND (oc_hashn c - 1))"

definition HASH_INSERT :: "nat \<Rightarrow> u32 \<Rightarrow> u32 \<Rightarrow> objects_cache_t \<Rightarrow> objects_cache_t result" where
  "HASH_INSERT x grp key c =
     (let h = OC_HASH_FUNCTION c grp key in
      bindE (rd (oc_hash c) (int h)) (\<lambda>slot.
      bindE (wr (oc_hash c) (int h) (x # slot)) (\<lambda>hs. Inr (c\<lparr>oc_hash := hs\<rparr>))))"

definition HASH_REMOVE :: "nat \<Rightarrow> objects_cache_t \<Rightarrow> objects_cache_t" where
  "HASH_REMOVE x c = c\<lparr>oc_hash := map (remove1 x) (oc_hash c)\<rparr>"

definition LRU_INSERT_HEAD :: "nat \<Rightarrow> objects_cache_t \<Rightarrow> objects_cache_t" where
  "LRU_INSERT_HEAD x c = c\<lparr>oc_lru := x # oc_lru c\<rparr>"

definition LRU_INSERT_TAIL :: "nat \<Rightarrow> objects_cache_t \<Rightarrow> objects_cache_t" where
  "LRU_INSERT_TAIL x c = c\<lparr>oc_lru := oc_lru c @ [x]\<rparr>"

definition LRU_REMOVE :: "nat \<Rightarrow> objects_cache_t \<Rightarrow> objects_cache_t" where
  "LRU_REMOVE x c = c\<lparr>oc_lru := remove1 x (oc_lru c)\<rparr>"

section \<open>Operations\<close>

definition hash_get_s :: "objects_cache_t \<Rightarrow> u32 \<Rightarrow> u32 \<Rightarrow> nat option result" where
  "hash_get_s c grp key =
     bindE (rd (oc_hash c) (int (OC_HASH_FUNCTION c grp key))) (\<lambda>slot.
     Inr (find (\<lambda>x. obj_key (oc_obj c x) = key \<and> obj_group (oc_obj c x) = grp) slot))"

text \<open>
  Taking the least recently used buffer, once the semaphore has been passed. On an empty list the
  code takes the header of the list for a buffer.
\<close>

definition lru_take :: "ck \<Rightarrow> (nat \<times> ck) result" where
  "lru_take = (\<lambda>(c, k).
     if oc_lru c = [] then Inl OutOfBounds
     else
       let x = last (oc_lru c) in
       bindE (assertE (flags c x AND OC_FLAG_INLRU = OC_FLAG_INLRU) (Halted ''not in LRU'')) (\<lambda>_.
       bindE (assertE (chSemGetCounterI (obj_sem (oc_obj c x)) k = 1) (Halted ''semaphore counter not 1'')) (\<lambda>_.
       let c = LRU_REMOVE x c; c = set_flags x (flags c x AND NOT OC_FLAG_INLRU) c in
       bindE (chSemFastWaitI (obj_sem (oc_obj c x)) k) (\<lambda>k. Inr (x, c, k)))))"

text \<open>One round after the semaphore: the buffer, or \<open>None\<close> when it had to be written first.\<close>

definition lru_round :: "oc_io \<Rightarrow> ck \<Rightarrow> (nat option \<times> ck) result" where
  "lru_round writef s =
     bindE (lru_take s) (\<lambda>(x, c, k).
     if flags c x AND OC_FLAG_LAZYWRITE = 0 then
       let c = (if flags c x AND OC_FLAG_INHASH \<noteq> 0 then HASH_REMOVE x c else c) in
       Inr (Some x, set_flags x 0 c, k)
     else
       let c = set_flags x (OC_FLAG_INHASH OR OC_FLAG_FORGET) c in
       bindE (writef x True (c, k)) (\<lambda>(_, s). Inr (None, s)))"

text \<open>The loop; the result is \<open>Inr None\<close> when the caller sleeps on the semaphore.\<close>

partial_function (option) lru_get_last_s :: "oc_io \<Rightarrow> ck \<Rightarrow> (nat option \<times> ck) result option" where
  "lru_get_last_s writef s =
     (case chSemWaitS (oc_lru_sem (fst s)) (snd s) of
        Inl e \<Rightarrow> Some (Inl e)
      | Inr w \<Rightarrow>
          if fst w = None then Some (Inr (None, fst s, snd w))
          else case lru_round writef (fst s, snd w) of
            Inl e \<Rightarrow> Some (Inl e)
          | Inr r \<Rightarrow> (case fst r of Some x \<Rightarrow> Some (Inr r) | None \<Rightarrow> lru_get_last_s writef (snd r)))"

definition lru_get_last_s_resume :: "oc_io \<Rightarrow> ck \<Rightarrow> (nat option \<times> ck) result option" where
  "lru_get_last_s_resume writef s =
     (case lru_round writef s of
        Inl e \<Rightarrow> Some (Inl e)
      | Inr r \<Rightarrow> (case fst r of Some x \<Rightarrow> Some (Inr r) | None \<Rightarrow> lru_get_last_s writef (snd r)))"

definition chCacheObjectInit ::
  "u32 \<Rightarrow> u32 \<Rightarrow> u32 \<Rightarrow> u32 \<Rightarrow> nat \<Rightarrow> nat \<Rightarrow> (nat \<Rightarrow> nat) \<Rightarrow> (nat \<Rightarrow> oc_object_t) \<Rightarrow> kernel_t \<Rightarrow> ck result" where
  "chCacheObjectInit osize hashn objn objsz csem lsem osem mem k =
     bindE (assertE (hashn AND (hashn - 1) = 0 \<and> objn > 0 \<and> hashn \<ge> objn \<and> objsz \<ge> osize \<and> objsz AND 3 = 0)
       (Halted ''chCacheObjectInit'')) (\<lambda>_.
     bindE (chSemObjectInit csem 1 k) (\<lambda>k.
     bindE (chSemObjectInit lsem (uint objn) k) (\<lambda>k.
     let c = \<lparr>oc_hashn = hashn, oc_hash = replicate (unat hashn) [], oc_objn = objn, oc_obj = mem, oc_lru = [],
              oc_cache_sem = csem, oc_lru_sem = lsem\<rparr> in
     foldE (\<lambda>i (c, k).
       bindE (chSemObjectInit (osem i) 1 k) (\<lambda>k.
       Inr (upd_obj i (\<lambda>_. \<lparr>obj_group = 0, obj_key = 0, obj_sem = osem i, obj_flags = OC_FLAG_INLRU, obj_dptr = 0\<rparr>)
              (LRU_INSERT_HEAD i c), k)))
     [0..<unat objn] (c, k))))"

datatype get_t = Got nat | WaitObject nat | WaitLru

text \<open>Naming a buffer that was taken from the list, and publishing it.\<close>

definition cache_publish :: "u32 \<Rightarrow> u32 \<Rightarrow> (nat option \<times> ck) result \<Rightarrow> (get_t \<times> ck) result" where
  "cache_publish grp key r =
     bindE r (\<lambda>(x, c, k).
     case x of
       None \<Rightarrow> Inr (WaitLru, c, k)
     | Some x \<Rightarrow>
         let c = upd_obj x (\<lambda>ob. ob\<lparr>obj_group := grp, obj_key := key, obj_flags := OC_FLAG_INHASH OR OC_FLAG_NOTSYNC\<rparr>) c in
         bindE (HASH_INSERT x grp key c) (\<lambda>c. Inr (Got x, c, k)))"

definition chCacheGetObject :: "oc_io \<Rightarrow> u32 \<Rightarrow> u32 \<Rightarrow> ck \<Rightarrow> (get_t \<times> ck) result" where
  "chCacheGetObject writef grp key = (\<lambda>(c, k).
     bindE (hash_get_s c grp key) (\<lambda>hit.
     case hit of
       Some x \<Rightarrow>
         bindE (assertE (flags c x AND OC_FLAG_INHASH = OC_FLAG_INHASH) (Halted ''not in hash'')) (\<lambda>_.
         if chSemGetCounterI (obj_sem (oc_obj c x)) k > 0 then
           bindE (assertE (flags c x AND OC_FLAG_INLRU = OC_FLAG_INLRU) (Halted ''not in LRU'')) (\<lambda>_.
           let c = LRU_REMOVE x c; c = set_flags x (flags c x AND NOT OC_FLAG_INLRU) c in
           bindE (chSemFastWaitI (obj_sem (oc_obj c x)) k) (\<lambda>k. Inr (Got x, c, k)))
         else
           bindE (assertE (flags c x AND OC_FLAG_INLRU = 0) (Halted ''in LRU'')) (\<lambda>_.
           bindE (chSemWaitS (obj_sem (oc_obj c x)) k) (\<lambda>(m, k).
           Inr (if m = None then WaitObject x else Got x, c, k))))
     | None \<Rightarrow> cache_publish grp key (finished (lru_get_last_s writef (c, k)))))"

definition chCacheGetObject_resume :: "oc_io \<Rightarrow> u32 \<Rightarrow> u32 \<Rightarrow> ck \<Rightarrow> (get_t \<times> ck) result" where
  "chCacheGetObject_resume writef grp key s = cache_publish grp key (finished (lru_get_last_s_resume writef s))"

definition chCacheReleaseObjectI :: "nat \<Rightarrow> ck \<Rightarrow> ck result" where
  "chCacheReleaseObjectI x = (\<lambda>(c, k).
     let sem = obj_sem (oc_obj c x) in
     bindE (assertE (flags c x AND (OC_FLAG_INLRU OR OC_FLAG_INHASH OR OC_FLAG_SHARED) = OC_FLAG_INHASH) (Halted ''invalid object state'')) (\<lambda>_.
     bindE (assertE (chSemGetCounterI sem k \<le> 0) (Halted ''semaphore counter greater than 0'')) (\<lambda>_.
     if chSemGetCounterI sem k < 0 then
       let c = set_flags x (flags c x AND (OC_FLAG_INHASH OR OC_FLAG_NOTSYNC OR OC_FLAG_LAZYWRITE)) c in
       bindE (chSemSignalI sem k) (\<lambda>k. Inr (c, k))
     else
       let c = (if flags c x AND OC_FLAG_NOTSYNC \<noteq> 0 then
                  upd_obj x (\<lambda>ob. ob\<lparr>obj_group := 0, obj_key := 0, obj_flags := OC_FLAG_INLRU\<rparr>) (LRU_INSERT_TAIL x (HASH_REMOVE x c))
                else
                  let c = (if flags c x AND OC_FLAG_FORGET = 0 then LRU_INSERT_HEAD x c else LRU_INSERT_TAIL x c);
                      c = set_flags x (flags c x AND (OC_FLAG_INHASH OR OC_FLAG_LAZYWRITE)) c in
                  set_flags x (flags c x OR OC_FLAG_INLRU) c) in
       bindE (chSemSignalI (oc_lru_sem c) k) (\<lambda>k.
       bindE (chSemFastSignalI sem k) (\<lambda>k. Inr (c, k))))))"

definition chCacheReleaseObject :: "nat \<Rightarrow> ck \<Rightarrow> ck result" where
  "chCacheReleaseObject x s =
     bindE (chCacheReleaseObjectI x s) (\<lambda>(c, k). bindE (chSchRescheduleS k) (\<lambda>k. Inr (c, k)))"

definition chCacheReadObject :: "oc_io \<Rightarrow> nat \<Rightarrow> bool \<Rightarrow> ck \<Rightarrow> (bool \<times> ck) result" where
  "chCacheReadObject readf x async = (\<lambda>(c, k). readf x async (set_flags x (flags c x OR OC_FLAG_NOTSYNC) c, k))"

definition chCacheWriteObject :: "oc_io \<Rightarrow> nat \<Rightarrow> bool \<Rightarrow> ck \<Rightarrow> (bool \<times> ck) result" where
  "chCacheWriteObject writef x async = (\<lambda>(c, k). writef x async (set_flags x (flags c x AND NOT OC_FLAG_LAZYWRITE) c, k))"

section \<open>Flags\<close>

text \<open>A flag is a bit of the word.\<close>

lemma flag_bit: "(w::u32) AND 2 ^ n = 0 \<longleftrightarrow> \<not> bit w n"
  by (simp add: and_exp_eq_0_iff_not_bit)

lemma flag_bit_eq:
  assumes "(2::u32) ^ n \<noteq> 0"
  shows "(w::u32) AND 2 ^ n = 2 ^ n \<longleftrightarrow> bit w n"
proof (cases "bit w n")
  case True
  then have "w AND 2 ^ n = 2 ^ n" by (intro bit_eqI) (auto simp: bit_simps)
  then show ?thesis using True by simp
next
  case False
  then show ?thesis using flag_bit[of w n] assms by simp
qed

lemma flag_tests:
  "w AND OC_FLAG_INLRU = OC_FLAG_INLRU \<longleftrightarrow> bit w 0" "w AND OC_FLAG_INLRU = 0 \<longleftrightarrow> \<not> bit w 0"
  "w AND OC_FLAG_INHASH = OC_FLAG_INHASH \<longleftrightarrow> bit w 1" "w AND OC_FLAG_INHASH = 0 \<longleftrightarrow> \<not> bit w 1"
  "w AND OC_FLAG_NOTSYNC = 0 \<longleftrightarrow> \<not> bit w 3" "w AND OC_FLAG_LAZYWRITE = 0 \<longleftrightarrow> \<not> bit w 4" "w AND OC_FLAG_FORGET = 0 \<longleftrightarrow> \<not> bit w 5"
  using flag_bit_eq[of 0 w] flag_bit_eq[of 1 w] flag_bit[of w 0] flag_bit[of w 1] flag_bit[of w 3] flag_bit[of w 4] flag_bit[of w 5]
  unfolding oc_flags by simp_all

lemma flag_bits:
  "bit OC_FLAG_INLRU n \<longleftrightarrow> n = 0" "bit OC_FLAG_INHASH n \<longleftrightarrow> n = 1" "bit OC_FLAG_SHARED n \<longleftrightarrow> n = 2" "bit OC_FLAG_NOTSYNC n \<longleftrightarrow> n = 3"
  "bit OC_FLAG_LAZYWRITE n \<longleftrightarrow> n = 4" "bit OC_FLAG_FORGET n \<longleftrightarrow> n = 5"
proof -
  have e: "bit ((2::u32) ^ m) n \<longleftrightarrow> n = m" if "m < 32" for m using that by (auto simp: bit_simps)
  show "bit OC_FLAG_INLRU n \<longleftrightarrow> n = 0" "bit OC_FLAG_INHASH n \<longleftrightarrow> n = 1" "bit OC_FLAG_SHARED n \<longleftrightarrow> n = 2" "bit OC_FLAG_NOTSYNC n \<longleftrightarrow> n = 3"
    "bit OC_FLAG_LAZYWRITE n \<longleftrightarrow> n = 4" "bit OC_FLAG_FORGET n \<longleftrightarrow> n = 5"
    using e[of 0] e[of 1] e[of 2] e[of 3] e[of 4] e[of 5] unfolding oc_flags by simp_all
qed

text \<open>What the updates of the flags leave, by bit.\<close>

lemma flag_upd:
  "bit (w AND NOT OC_FLAG_INLRU) i \<longleftrightarrow> bit w i \<and> i \<noteq> 0" "bit (w OR OC_FLAG_INLRU) i \<longleftrightarrow> bit w i \<or> i = 0"
  "bit (w AND (OC_FLAG_INHASH OR OC_FLAG_LAZYWRITE)) i \<longleftrightarrow> bit w i \<and> i \<in> {1, 4}"
  "bit (OC_FLAG_INHASH OR OC_FLAG_NOTSYNC) i \<longleftrightarrow> i \<in> {1, 3}"
proof -
  show "bit (w AND NOT OC_FLAG_INLRU) i \<longleftrightarrow> bit w i \<and> i \<noteq> 0"
    using bit_imp_le_length[of w i] by (auto simp: bit_and_iff bit_not_iff flag_bits)
qed (simp_all add: bit_and_iff bit_or_iff flag_bits)

lemma hash_bound: "oc_hashn c \<noteq> 0 \<Longrightarrow> OC_HASH_FUNCTION c grp key < unat (oc_hashn c)"
proof -
  assume "oc_hashn c \<noteq> 0"
  then have "oc_hashn c - 1 < oc_hashn c" by (simp add: word_less_nat_alt measure_unat)
  then show ?thesis
    unfolding OC_HASH_FUNCTION_def by (intro unat_mono) (meson le_less_trans word_and_le1)
qed

section \<open>Invariant\<close>

abbreviation objs :: "objects_cache_t \<Rightarrow> nat set" where
  "objs c \<equiv> {..<unat (oc_objn c)}"

text \<open>
  The table: a buffer is in the slot of its name, and in one only if the flag says so; no two
  buffers have the same name. The list: distinct, with exactly the buffers that have its flag;
  these have a free semaphore, the others are taken and have a name.
\<close>

definition hash_ok :: "objects_cache_t \<Rightarrow> bool" where
  "hash_ok c \<longleftrightarrow> oc_hashn c \<noteq> 0 \<and> length (oc_hash c) = unat (oc_hashn c) \<and>
     (\<forall>h < length (oc_hash c). distinct (oc_hash c ! h) \<and>
        (\<forall>x \<in> set (oc_hash c ! h). x \<in> objs c \<and> bit (flags c x) 1 \<and> OC_HASH_FUNCTION c (obj_group (oc_obj c x)) (obj_key (oc_obj c x)) = h)) \<and>
     (\<forall>x \<in> objs c. bit (flags c x) 1 \<longrightarrow>
        x \<in> set (oc_hash c ! OC_HASH_FUNCTION c (obj_group (oc_obj c x)) (obj_key (oc_obj c x)))) \<and>
     (\<forall>x \<in> objs c. \<forall>y \<in> objs c. bit (flags c x) 1 \<longrightarrow> bit (flags c y) 1 \<longrightarrow> obj_group (oc_obj c x) = obj_group (oc_obj c y) \<longrightarrow>
        obj_key (oc_obj c x) = obj_key (oc_obj c y) \<longrightarrow> x = y)"

definition lru_ok :: "ck \<Rightarrow> bool" where
  "lru_ok = (\<lambda>(c, k). distinct (oc_lru c) \<and> set (oc_lru c) \<subseteq> objs c \<and>
     (\<forall>x \<in> objs c. bit (flags c x) 0 \<longleftrightarrow> x \<in> set (oc_lru c)) \<and>
     (\<forall>x \<in> set (oc_lru c). scnt k (obj_sem (oc_obj c x)) = 1) \<and>
     (\<forall>x \<in> objs c - set (oc_lru c). scnt k (obj_sem (oc_obj c x)) \<le> 0 \<and> bit (flags c x) 1) \<and>
     inj_on (\<lambda>x. obj_sem (oc_obj c x)) (objs c) \<and> (\<forall>x \<in> objs c. obj_sem (oc_obj c x) \<noteq> oc_lru_sem c))"

definition cache_ok :: "ck \<Rightarrow> bool" where
  "cache_ok s \<longleftrightarrow> hash_ok (fst s) \<and> lru_ok s"

lemma find_unique:
  assumes "x \<in> set xs" "P x" "\<And>y. y \<in> set xs \<Longrightarrow> P y \<Longrightarrow> y = x"
  shows "find P xs = Some x"
proof -
  have "find P xs \<noteq> None" using assms(1,2) by (auto simp: find_None_iff)
  then obtain y where y: "find P xs = Some y" by auto
  then have "y \<in> set xs" "P y" by (auto simp: find_Some_iff)
  then show ?thesis using assms(3) y by simp
qed

text \<open>A lookup finds the buffer with the name, if there is one.\<close>

lemma hash_get_ok:
  assumes "hash_ok c"
  shows "hash_get_s c grp key = Inr (find (\<lambda>x. obj_key (oc_obj c x) = key \<and> obj_group (oc_obj c x) = grp) (oc_hash c ! OC_HASH_FUNCTION c grp key))"
    "hash_get_s c grp key = Inr (Some x) \<longleftrightarrow> x \<in> objs c \<and> bit (flags c x) 1 \<and> obj_group (oc_obj c x) = grp \<and> obj_key (oc_obj c x) = key"
    "hash_get_s c grp key = Inr None \<longleftrightarrow> (\<forall>x \<in> objs c. bit (flags c x) 1 \<longrightarrow> \<not> (obj_group (oc_obj c x) = grp \<and> obj_key (oc_obj c x) = key))"
proof -
  let ?P = "\<lambda>x. obj_key (oc_obj c x) = key \<and> obj_group (oc_obj c x) = grp" and ?h = "OC_HASH_FUNCTION c grp key"
  have h: "?h < length (oc_hash c)" using assms hash_bound by (simp add: hash_ok_def)
  then show g: "hash_get_s c grp key = Inr (find ?P (oc_hash c ! ?h))" by (simp add: hash_get_s_def rd_nat_ok)
  have slot: "y \<in> objs c \<and> bit (flags c y) 1" if "y \<in> set (oc_hash c ! ?h)" for y
    using assms h that by (auto simp: hash_ok_def)
  have mem: "y \<in> set (oc_hash c ! ?h)" if "y \<in> objs c" "bit (flags c y) 1" "?P y" for y
    using assms that unfolding hash_ok_def by blast
  have uniq: "y = z" if "y \<in> objs c" "bit (flags c y) 1" "?P y" "z \<in> objs c" "bit (flags c z) 1" "?P z" for y z
    using assms that unfolding hash_ok_def by metis
  show "hash_get_s c grp key = Inr (Some x) \<longleftrightarrow> x \<in> objs c \<and> bit (flags c x) 1 \<and> obj_group (oc_obj c x) = grp \<and> obj_key (oc_obj c x) = key"
  proof
    assume "hash_get_s c grp key = Inr (Some x)"
    then have "x \<in> set (oc_hash c ! ?h)" "?P x" unfolding g by (auto simp: find_Some_iff)
    then show "x \<in> objs c \<and> bit (flags c x) 1 \<and> obj_group (oc_obj c x) = grp \<and> obj_key (oc_obj c x) = key" using slot by blast
  next
    assume x: "x \<in> objs c \<and> bit (flags c x) 1 \<and> obj_group (oc_obj c x) = grp \<and> obj_key (oc_obj c x) = key"
    then have "find ?P (oc_hash c ! ?h) = Some x" using mem slot uniq by (intro find_unique) blast+
    then show "hash_get_s c grp key = Inr (Some x)" using g by simp
  qed
  show "hash_get_s c grp key = Inr None \<longleftrightarrow> (\<forall>x \<in> objs c. bit (flags c x) 1 \<longrightarrow> \<not> (obj_group (oc_obj c x) = grp \<and> obj_key (oc_obj c x) = key))"
    unfolding g using mem slot by (auto simp: find_None_iff)
qed

lemma upd_obj_sel [simp]:
  "oc_obj (upd_obj x f c) y = (if y = x then f (oc_obj c x) else oc_obj c y)" "oc_hashn (upd_obj x f c) = oc_hashn c"
  "oc_hash (upd_obj x f c) = oc_hash c" "oc_objn (upd_obj x f c) = oc_objn c" "oc_lru (upd_obj x f c) = oc_lru c"
  "oc_lru_sem (upd_obj x f c) = oc_lru_sem c" "oc_cache_sem (upd_obj x f c) = oc_cache_sem c"
  by (simp_all add: upd_obj_def)

lemma hash_function_frame: "oc_hashn c' = oc_hashn c \<Longrightarrow> OC_HASH_FUNCTION c' = OC_HASH_FUNCTION c"
  by (simp add: OC_HASH_FUNCTION_def fun_eq_iff)

lemma hash_ok_frame:
  assumes "hash_ok c" "oc_hashn c' = oc_hashn c" "oc_hash c' = oc_hash c" "oc_objn c' = oc_objn c"
    "\<And>x. obj_group (oc_obj c' x) = obj_group (oc_obj c x)" "\<And>x. obj_key (oc_obj c' x) = obj_key (oc_obj c x)"
    "\<And>x. bit (flags c' x) 1 = bit (flags c x) 1"
  shows "hash_ok c'"
  using assms(1) unfolding hash_ok_def assms(2-7) hash_function_frame[OF assms(2)] .

lemma hash_get_frame:
  assumes "oc_hashn c' = oc_hashn c" "oc_hash c' = oc_hash c" "\<And>x. obj_group (oc_obj c' x) = obj_group (oc_obj c x)"
    "\<And>x. obj_key (oc_obj c' x) = obj_key (oc_obj c x)"
  shows "hash_get_s c' grp key = hash_get_s c grp key"
  by (simp add: hash_get_s_def hash_function_frame[OF assms(1)] assms(2-4))

text \<open>Taking a buffer out of the table, and giving it a new name.\<close>

lemma hash_ok_slots:
  assumes "hash_ok c" "h < length (oc_hash c)"
  shows "distinct (oc_hash c ! h)" "x \<in> set (oc_hash c ! h) \<longleftrightarrow>
    x \<in> objs c \<and> bit (flags c x) 1 \<and> OC_HASH_FUNCTION c (obj_group (oc_obj c x)) (obj_key (oc_obj c x)) = h"
  using assms unfolding hash_ok_def by blast+

lemma hash_ok_unique:
  assumes "hash_ok c" "x \<in> objs c" "y \<in> objs c" "bit (flags c x) 1" "bit (flags c y) 1"
    "obj_group (oc_obj c x) = obj_group (oc_obj c y)" "obj_key (oc_obj c x) = obj_key (oc_obj c y)"
  shows "x = y"
  using assms unfolding hash_ok_def by blast

lemma hash_okI:
  assumes "oc_hashn c \<noteq> 0" "length (oc_hash c) = unat (oc_hashn c)" "\<And>h. h < length (oc_hash c) \<Longrightarrow> distinct (oc_hash c ! h)"
    "\<And>h x. h < length (oc_hash c) \<Longrightarrow> x \<in> set (oc_hash c ! h) \<longleftrightarrow>
      x \<in> objs c \<and> bit (flags c x) 1 \<and> OC_HASH_FUNCTION c (obj_group (oc_obj c x)) (obj_key (oc_obj c x)) = h"
    "\<And>x y. x \<in> objs c \<Longrightarrow> y \<in> objs c \<Longrightarrow> bit (flags c x) 1 \<Longrightarrow> bit (flags c y) 1 \<Longrightarrow> obj_group (oc_obj c x) = obj_group (oc_obj c y) \<Longrightarrow>
      obj_key (oc_obj c x) = obj_key (oc_obj c y) \<Longrightarrow> x = y"
  shows "hash_ok c"
  unfolding hash_ok_def
proof (intro conjI allI ballI impI)
  show "oc_hashn c \<noteq> 0" "length (oc_hash c) = unat (oc_hashn c)" by (rule assms(1,2))+
  fix h assume h: "h < length (oc_hash c)"
  show "distinct (oc_hash c ! h)" by (rule assms(3)[OF h])
  fix x assume "x \<in> set (oc_hash c ! h)"
  then show "x \<in> objs c" "bit (flags c x) 1" "OC_HASH_FUNCTION c (obj_group (oc_obj c x)) (obj_key (oc_obj c x)) = h"
    using assms(4)[OF h] by blast+
next
  fix x assume x: "x \<in> objs c" "bit (flags c x) 1"
  have "OC_HASH_FUNCTION c (obj_group (oc_obj c x)) (obj_key (oc_obj c x)) < length (oc_hash c)"
    using hash_bound[OF assms(1)] assms(2) by simp
  from assms(4)[OF this] show "x \<in> set (oc_hash c ! OC_HASH_FUNCTION c (obj_group (oc_obj c x)) (obj_key (oc_obj c x)))"
    using x by blast
next
  fix x y assume "x \<in> objs c" "y \<in> objs c" "bit (flags c x) 1" "bit (flags c y) 1" "obj_group (oc_obj c x) = obj_group (oc_obj c y)"
    "obj_key (oc_obj c x) = obj_key (oc_obj c y)"
  then show "x = y" by (rule assms(5))
qed

lemma hash_ok_drop:
  assumes "hash_ok c" and c': "oc_hashn c' = oc_hashn c" "oc_hash c' = map (remove1 x) (oc_hash c)" "oc_objn c' = oc_objn c"
    and same: "\<And>y. y \<noteq> x \<Longrightarrow> oc_obj c' y = oc_obj c y" and "\<not> bit (flags c' x) 1"
  shows "hash_ok c'"
proof (rule hash_okI)
  have hn: "oc_hashn c \<noteq> 0" "length (oc_hash c) = unat (oc_hashn c)" using assms(1) by (simp_all add: hash_ok_def)
  show "oc_hashn c' \<noteq> 0" "length (oc_hash c') = unat (oc_hashn c')" using hn c' by simp_all
  note f = hash_function_frame[OF c'(1)]
  fix h assume "h < length (oc_hash c')"
  then have h: "h < length (oc_hash c)" using c'(2) by simp
  show "distinct (oc_hash c' ! h)" using hash_ok_slots(1)[OF assms(1) h] c'(2) h by simp
  fix y
  have "y \<in> set (oc_hash c' ! h) \<longleftrightarrow> y \<in> set (oc_hash c ! h) \<and> y \<noteq> x"
    using hash_ok_slots(1)[OF assms(1) h] c'(2) h by auto
  then show "y \<in> set (oc_hash c' ! h) \<longleftrightarrow> y \<in> objs c' \<and> bit (flags c' y) 1 \<and>
      OC_HASH_FUNCTION c' (obj_group (oc_obj c' y)) (obj_key (oc_obj c' y)) = h"
    using hash_ok_slots(2)[OF assms(1) h, of y] same[of y] assms(6) c'(3) f by (cases "y = x") simp_all
next
  fix y z assume "y \<in> objs c'" "z \<in> objs c'" "bit (flags c' y) 1" "bit (flags c' z) 1"
    "obj_group (oc_obj c' y) = obj_group (oc_obj c' z)" "obj_key (oc_obj c' y) = obj_key (oc_obj c' z)"
  moreover from this have "y \<noteq> x" "z \<noteq> x" using assms(6) by auto
  ultimately show "y = z" using hash_ok_unique[OF assms(1), of y z] same c'(3) by simp
qed

lemma hash_ok_insert:
  assumes "hash_ok c" "x \<in> objs c" "\<not> bit (flags c x) 1"
    "\<forall>y \<in> objs c. bit (flags c y) 1 \<longrightarrow> \<not> (obj_group (oc_obj c y) = grp \<and> obj_key (oc_obj c y) = key)" "bit f 1"
    "c1 = upd_obj x (\<lambda>ob. ob\<lparr>obj_group := grp, obj_key := key, obj_flags := f\<rparr>) c"
  shows "\<exists>c'. HASH_INSERT x grp key c1 = Inr c' \<and> hash_ok c' \<and> hash_get_s c' grp key = Inr (Some x) \<and> oc_obj c' = oc_obj c1 \<and>
    oc_lru c' = oc_lru c \<and> oc_objn c' = oc_objn c \<and> oc_lru_sem c' = oc_lru_sem c"
proof -
  let ?h = "OC_HASH_FUNCTION c grp key"
  have hn: "oc_hashn c \<noteq> 0" "length (oc_hash c) = unat (oc_hashn c)" using assms(1) by (simp_all add: hash_ok_def)
  have h: "?h < length (oc_hash c)" using hash_bound[OF hn(1)] hn(2) by simp
  let ?c = "c1\<lparr>oc_hash := (oc_hash c)[?h := x # oc_hash c ! ?h]\<rparr>"
  have f: "OC_HASH_FUNCTION ?c = OC_HASH_FUNCTION c" "OC_HASH_FUNCTION c1 = OC_HASH_FUNCTION c"
    unfolding assms(6) by (auto intro!: hash_function_frame)
  have oh: "oc_hash c1 = oc_hash c" by (simp add: assms(6))
  have ins: "HASH_INSERT x grp key c1 = Inr ?c"
    unfolding HASH_INSERT_def f(2) Let_def oh using rd_nat_ok[OF h] wr_nat_ok[OF h] by simp
  have nx: "x \<notin> set (oc_hash c ! i)" if "i < length (oc_hash c)" for i using hash_ok_slots(2)[OF assms(1) that, of x] assms(3) by simp
  have o: "oc_obj ?c y = (if y = x then (oc_obj c x)\<lparr>obj_group := grp, obj_key := key, obj_flags := f\<rparr> else oc_obj c y)" for y
    by (simp add: assms(6))
  have ok: "hash_ok ?c"
  proof (rule hash_okI)
    show "oc_hashn ?c \<noteq> 0" "length (oc_hash ?c) = unat (oc_hashn ?c)" using hn by (simp_all add: assms(6))
    fix i assume "i < length (oc_hash ?c)"
    then have i: "i < length (oc_hash c)" by simp
    show "distinct (oc_hash ?c ! i)" using hash_ok_slots(1)[OF assms(1) i] nx[OF i] i by (cases "i = ?h") simp_all
    fix y
    have "y \<in> set (oc_hash ?c ! i) \<longleftrightarrow> y \<in> set (oc_hash c ! i) \<or> (y = x \<and> i = ?h)" using i by (cases "i = ?h") auto
    then show "y \<in> set (oc_hash ?c ! i) \<longleftrightarrow> y \<in> objs ?c \<and> bit (flags ?c y) 1 \<and>
        OC_HASH_FUNCTION ?c (obj_group (oc_obj ?c y)) (obj_key (oc_obj ?c y)) = i"
      using hash_ok_slots(2)[OF assms(1) i, of y] nx[OF i] assms(2,5) unfolding o f(1) by (auto simp: assms(6))
  next
    fix y z assume a: "y \<in> objs ?c" "z \<in> objs ?c" "bit (flags ?c y) 1" "bit (flags ?c z) 1"
      "obj_group (oc_obj ?c y) = obj_group (oc_obj ?c z)" "obj_key (oc_obj ?c y) = obj_key (oc_obj ?c z)"
    have b: "y \<in> objs c" "z \<in> objs c" using a(1,2) by (simp_all add: assms(6))
    show "y = z"
    proof (cases "y = x \<or> z = x")
      case True
      then show ?thesis using a(3-6) b assms(4) unfolding o by (auto split: if_splits)
    next
      case False
      then have "bit (flags c y) 1" "bit (flags c z) 1" "obj_group (oc_obj c y) = obj_group (oc_obj c z)" "obj_key (oc_obj c y) = obj_key (oc_obj c z)"
        using a(3-6) unfolding o by simp_all
      then show ?thesis using hash_ok_unique[OF assms(1) b] by blast
    qed
  qed
  have "hash_get_s ?c grp key = Inr (Some x)"
    unfolding hash_get_ok(2)[OF ok] using assms(2,5) by (simp add: o) (simp add: assms(6))
  then show ?thesis using ins ok by (simp add: assms(6))
qed

section \<open>Getting and releasing\<close>

lemma lru_okD:
  assumes "lru_ok (c, k)"
  shows "distinct (oc_lru c)" "set (oc_lru c) \<subseteq> objs c" "x \<in> objs c \<Longrightarrow> bit (flags c x) 0 \<longleftrightarrow> x \<in> set (oc_lru c)"
    "x \<in> set (oc_lru c) \<Longrightarrow> scnt k (obj_sem (oc_obj c x)) = 1"
    "x \<in> objs c \<Longrightarrow> x \<notin> set (oc_lru c) \<Longrightarrow> scnt k (obj_sem (oc_obj c x)) \<le> 0 \<and> bit (flags c x) 1"
    "inj_on (\<lambda>x. obj_sem (oc_obj c x)) (objs c)" "x \<in> objs c \<Longrightarrow> obj_sem (oc_obj c x) \<noteq> oc_lru_sem c"
  using assms unfolding lru_ok_def by auto

lemma lru_ok_frame:
  assumes "lru_ok (c, k)" "oc_lru c' = oc_lru c" "oc_objn c' = oc_objn c" "oc_lru_sem c' = oc_lru_sem c"
    "\<And>x. obj_sem (oc_obj c' x) = obj_sem (oc_obj c x)" "\<And>x. bit (flags c' x) 0 = bit (flags c x) 0" "\<And>x. bit (flags c' x) 1 = bit (flags c x) 1"
  shows "lru_ok (c', k)"
  using assms(1) unfolding lru_ok_def prod.case assms(2-7) .

text \<open>A buffer leaves the list; its flags become \<open>f\<close>, its semaphore is taken.\<close>

lemma lru_ok_leave:
  assumes "lru_ok (c, k)" "x \<in> set (oc_lru c)" and c': "oc_lru c' = remove1 x (oc_lru c)" "oc_objn c' = oc_objn c" "oc_lru_sem c' = oc_lru_sem c"
    and ob: "\<And>y. obj_sem (oc_obj c' y) = obj_sem (oc_obj c y)" "\<And>y. y \<noteq> x \<Longrightarrow> flags c' y = flags c y"
      "\<not> bit (flags c' x) 0" "bit (flags c' x) 1"
    and k': "\<And>s. s \<noteq> oc_lru_sem c \<Longrightarrow> scnt k' s = (if s = obj_sem (oc_obj c x) then 0 else scnt k s)"
  shows "lru_ok (c', k')"
proof -
  note D = lru_okD[OF assms(1)]
  have x: "x \<in> objs c" using D(2) assms(2) by blast
  have lru: "set (oc_lru c') = set (oc_lru c) - {x}" "distinct (oc_lru c')" using D(1) c'(1) by simp_all
  have sem: "scnt k' (obj_sem (oc_obj c y)) = (if y = x then 0 else scnt k (obj_sem (oc_obj c y)))" if "y \<in> objs c" for y
    using k'[OF D(7)[OF that]] inj_onD[OF D(6) _ that x] by auto
  have ob': "objs c' = objs c" by (simp add: c'(2))
  show ?thesis
    unfolding lru_ok_def prod.case ob' lru(1) c'(3) ob(1)
  proof (intro conjI ballI)
    show "distinct (oc_lru c')" "set (oc_lru c) - {x} \<subseteq> objs c" "inj_on (\<lambda>x. obj_sem (oc_obj c x)) (objs c)"
      using lru(2) D(2,6) by blast+
    fix y assume y: "y \<in> objs c"
    show "bit (flags c' y) 0 \<longleftrightarrow> y \<in> set (oc_lru c) - {x}" using D(3)[OF y] ob(2)[of y] ob(3) by (cases "y = x") simp_all
    show "obj_sem (oc_obj c y) \<noteq> oc_lru_sem c" by (rule D(7)[OF y])
  next
    fix y assume y: "y \<in> set (oc_lru c) - {x}"
    then have "y \<in> objs c" using D(2) by blast
    then show "scnt k' (obj_sem (oc_obj c y)) = 1" using sem[of y] D(4)[of y] y by simp
  next
    fix y assume y: "y \<in> objs c - (set (oc_lru c) - {x})"
    then have yo: "y \<in> objs c" by blast
    show "scnt k' (obj_sem (oc_obj c y)) \<le> 0" "bit (flags c' y) 1"
      using sem[OF yo] D(5)[OF yo] y ob(2)[of y] ob(4) by (cases "y = x"; simp)+
  qed
qed

text \<open>
  A hit on a buffer nobody uses: the caller gets it. The semaphore that counts the buffers in the
  list stays as it is, although the list is one shorter.
\<close>

lemma cache_get_hit:
  assumes "cache_ok (c, k)" "hash_get_s c grp key = Inr (Some x)" "x \<in> set (oc_lru c)"
  shows "\<exists>c' k'. chCacheGetObject writef grp key (c, k) = Inr (Got x, c', k') \<and> cache_ok (c', k') \<and>
    (\<forall>g y. hash_get_s c' g y = hash_get_s c g y) \<and> oc_lru c' = remove1 x (oc_lru c) \<and> oc_lru_sem c' = oc_lru_sem c \<and>
    scnt k' (oc_lru_sem c) = scnt k (oc_lru_sem c) \<and> (\<forall>s. squeue k' s = squeue k s)"
proof -
  have ok: "hash_ok c" "lru_ok (c, k)" using assms(1) by (simp_all add: cache_ok_def)
  note D = lru_okD[OF ok(2)]
  have x: "x \<in> objs c" "bit (flags c x) 1" "bit (flags c x) 0" "scnt k (obj_sem (oc_obj c x)) = 1"
    using assms(2,3) hash_get_ok(2)[OF ok(1)] D(3)[of x] D(4)[of x] by auto
  let ?c = "set_flags x (flags c x AND NOT OC_FLAG_INLRU) (LRU_REMOVE x c)" and ?k = "set_cnt (obj_sem (oc_obj c x)) 0 k"
  have get: "chCacheGetObject writef grp key (c, k) = Inr (Got x, ?c, ?k)"
    using assms(2) x(2-4) by (simp add: chCacheGetObject_def chSemGetCounterI_def chSemFastWaitI_def c_int_def INT_MIN_def INT_MAX_def
        flag_tests Let_def) (simp add: LRU_REMOVE_def set_flags_def)
  have sel: "oc_obj (LRU_REMOVE x c) = oc_obj c" by (simp add: LRU_REMOVE_def)
  have h: "hash_ok ?c"
    by (rule hash_ok_frame[OF ok(1)]) (auto simp: set_flags_def LRU_REMOVE_def flag_upd)
  moreover have "lru_ok (?c, ?k)"
    by (rule lru_ok_leave[OF ok(2) assms(3)])
      (use x in \<open>auto simp: set_flags_def LRU_REMOVE_def flag_upd set_cnt_def upd_sem_def\<close>)
  moreover have "hash_get_s ?c g y = hash_get_s c g y" for g y
    by (rule hash_get_frame) (simp_all add: set_flags_def LRU_REMOVE_def)
  ultimately show ?thesis
    using get D(7)[OF x(1)] by (simp add: cache_ok_def) (simp add: set_flags_def LRU_REMOVE_def set_cnt_def upd_sem_def)
qed

text \<open>A miss takes the least recently used buffer, if it need not be written first, and names it.\<close>

lemma cache_get_miss:
  assumes "cache_ok (c, k)" "hash_get_s c grp key = Inr None" "oc_lru c = ys @ [x]" "\<not> bit (flags c x) 4"
    "0 < scnt k (oc_lru_sem c)" "scnt k (oc_lru_sem c) \<le> INT_MAX" "squeue k (oc_lru_sem c) = []"
  shows "\<exists>c' k'. chCacheGetObject writef grp key (c, k) = Inr (Got x, c', k') \<and> cache_ok (c', k') \<and>
    hash_get_s c' grp key = Inr (Some x) \<and> oc_lru c' = ys \<and> oc_lru_sem c' = oc_lru_sem c \<and> oc_objn c' = oc_objn c \<and>
    flags c' x = OC_FLAG_INHASH OR OC_FLAG_NOTSYNC \<and> obj_group (oc_obj c' x) = grp \<and> obj_key (oc_obj c' x) = key \<and>
    scnt k' (obj_sem (oc_obj c' x)) = 0 \<and> (\<forall>y. y \<noteq> x \<longrightarrow> oc_obj c' y = oc_obj c y) \<and>
    scnt k' (oc_lru_sem c) = scnt k (oc_lru_sem c) - 1 \<and> (\<forall>s. squeue k' s = squeue k s)"
proof -
  have ok: "hash_ok c" "lru_ok (c, k)" using assms(1) by (simp_all add: cache_ok_def)
  note D = lru_okD[OF ok(2)]
  have xl: "x \<in> set (oc_lru c)" using assms(3) by simp
  have x: "x \<in> objs c" "bit (flags c x) 0" "scnt k (obj_sem (oc_obj c x)) = 1" "obj_sem (oc_obj c x) \<noteq> oc_lru_sem c"
    using D(2) D(3)[of x] D(4)[OF xl] D(7)[of x] xl by auto
  let ?k1 = "set_cnt (oc_lru_sem c) (scnt k (oc_lru_sem c) - 1) k"
  let ?k2 = "set_cnt (obj_sem (oc_obj c x)) 0 ?k1"
  let ?c1 = "set_flags x (flags c x AND NOT OC_FLAG_INLRU) (LRU_REMOVE x c)"
  let ?c2 = "set_flags x 0 (if bit (flags c x) 1 then HASH_REMOVE x ?c1 else ?c1)"
  have wait: "chSemWaitS (oc_lru_sem c) k = Inr (Some MSG_OK, ?k1)"
    using assms(5-7) by (simp add: chSemWaitS_def sem_consistent_def c_int_def INT_MIN_def Let_def)
  have s1: "scnt ?k1 (obj_sem (oc_obj c x)) = 1" using x(3,4) by (simp add: set_cnt_def upd_sem_def)
  have lx: "last (oc_lru c) = x" "oc_lru c \<noteq> []" using assms(3) by simp_all
  have c1: "oc_obj (LRU_REMOVE x c) = oc_obj c" "obj_sem (oc_obj ?c1 x) = obj_sem (oc_obj c x)"
    by (simp_all add: LRU_REMOVE_def set_flags_def)
  have take: "lru_take (c, ?k1) = Inr (x, ?c1, ?k2)"
    using x(2) lx s1 by (simp add: lru_take_def flag_tests c1 chSemGetCounterI_def chSemFastWaitI_def c_int_def INT_MIN_def INT_MAX_def Let_def)
  have fl: "flags ?c1 x = flags c x AND NOT OC_FLAG_INLRU" by (simp add: set_flags_def c1)
  have round: "lru_round writef (c, ?k1) = Inr (Some x, ?c2, ?k2)"
    using assms(4) by (simp add: lru_round_def take fl flag_tests flag_upd Let_def)
  have loop: "lru_get_last_s writef (c, k) = Some (Inr (Some x, ?c2, ?k2))"
    by (subst lru_get_last_s.simps) (simp add: wait round)
  have nin: "map (remove1 x) (oc_hash c) = oc_hash c" if "\<not> bit (flags c x) 1"
  proof (rule map_idI)
    fix slot assume "slot \<in> set (oc_hash c)"
    then obtain h where h: "h < length (oc_hash c)" "slot = oc_hash c ! h" by (auto simp: in_set_conv_nth)
    then have "x \<notin> set slot" using hash_ok_slots(2)[OF ok(1) h(1), of x] that by simp
    then show "remove1 x slot = slot" by (rule remove1_idem)
  qed
  have h2: "hash_ok ?c2"
    by (rule hash_ok_drop[OF ok(1), of _ x]) (auto simp: set_flags_def LRU_REMOVE_def HASH_REMOVE_def nin)
  have c2: "oc_obj ?c2 y = (if y = x then (oc_obj c x)\<lparr>obj_flags := 0\<rparr> else oc_obj c y)" "oc_objn ?c2 = oc_objn c"
      "oc_lru ?c2 = remove1 x (oc_lru c)" "oc_lru_sem ?c2 = oc_lru_sem c" for y
    by (simp_all add: set_flags_def LRU_REMOVE_def HASH_REMOVE_def)
  let ?c3 = "upd_obj x (\<lambda>ob. ob\<lparr>obj_group := grp, obj_key := key, obj_flags := OC_FLAG_INHASH OR OC_FLAG_NOTSYNC\<rparr>) ?c2"
  have free: "\<forall>y \<in> objs ?c2. bit (flags ?c2 y) 1 \<longrightarrow> \<not> (obj_group (oc_obj ?c2 y) = grp \<and> obj_key (oc_obj ?c2 y) = key)"
    using assms(2) unfolding hash_get_ok(3)[OF ok(1)] c2(1,2) by auto
  obtain c' where c': "HASH_INSERT x grp key ?c3 = Inr c'" "hash_ok c'" "hash_get_s c' grp key = Inr (Some x)" "oc_obj c' = oc_obj ?c3"
      "oc_lru c' = oc_lru ?c2" "oc_objn c' = oc_objn ?c2" "oc_lru_sem c' = oc_lru_sem ?c2"
    using hash_ok_insert[OF h2, of x grp key "OC_FLAG_INHASH OR OC_FLAG_NOTSYNC" ?c3] x(1) free c2 by (auto simp: flag_upd)
  have get: "chCacheGetObject writef grp key (c, k) = Inr (Got x, c', ?k2)"
    using assms(2) c'(1) by (simp add: chCacheGetObject_def loop finished_def cache_publish_def)
  have ob: "oc_obj c' y = (if y = x then (oc_obj c x)\<lparr>obj_group := grp, obj_key := key, obj_flags := OC_FLAG_INHASH OR OC_FLAG_NOTSYNC\<rparr> else oc_obj c y)" for y
    unfolding c'(4) using c2(1) by simp
  have "lru_ok (c', ?k2)"
    by (rule lru_ok_leave[OF ok(2) xl]) (use x(4) c' c2 in \<open>auto simp: ob flag_upd set_cnt_def upd_sem_def\<close>)
  moreover have "x \<notin> set ys" using D(1) assms(3) by simp
  moreover have "scnt ?k2 (oc_lru_sem c) = scnt k (oc_lru_sem c) - 1" "\<forall>s. squeue ?k2 s = squeue k s" "scnt ?k2 (obj_sem (oc_obj c x)) = 0"
    using x(4) by (simp_all add: set_cnt_def upd_sem_def)
  ultimately show ?thesis
    using get c'(2,3,5-7) c2(2-4) assms(3) ob by (simp add: cache_ok_def remove1_append)
qed

text \<open>
  So the counter is ahead of the list after a hit, and the next miss takes a buffer from an empty
  list.
\<close>

lemma cache_miss_on_empty:
  assumes "hash_get_s c grp key = Inr None" "oc_lru c = []" "0 < scnt k (oc_lru_sem c)" "scnt k (oc_lru_sem c) \<le> INT_MAX" "squeue k (oc_lru_sem c) = []"
  shows "chCacheGetObject writef grp key (c, k) = Inl OutOfBounds"
proof -
  have "chSemWaitS (oc_lru_sem c) k = Inr (Some MSG_OK, set_cnt (oc_lru_sem c) (scnt k (oc_lru_sem c) - 1) k)"
    using assms(3-5) by (simp add: chSemWaitS_def sem_consistent_def c_int_def INT_MIN_def Let_def)
  then have "lru_get_last_s writef (c, k) = Some (Inl OutOfBounds)"
    using assms(2) by (subst lru_get_last_s.simps) (simp add: lru_round_def lru_take_def)
  then show ?thesis using assms(1) by (simp add: chCacheGetObject_def finished_def cache_publish_def)
qed

text \<open>A buffer joins the list.\<close>

lemma lru_ok_join:
  assumes "lru_ok (c, k)" "x \<in> objs c" "x \<notin> set (oc_lru c)"
    and c': "set (oc_lru c') = insert x (set (oc_lru c))" "distinct (oc_lru c')" "oc_objn c' = oc_objn c" "oc_lru_sem c' = oc_lru_sem c"
    and ob: "\<And>y. obj_sem (oc_obj c' y) = obj_sem (oc_obj c y)" "\<And>y. y \<noteq> x \<Longrightarrow> flags c' y = flags c y" "bit (flags c' x) 0"
    and k': "\<And>s. s \<noteq> oc_lru_sem c \<Longrightarrow> scnt k' s = (if s = obj_sem (oc_obj c x) then 1 else scnt k s)"
  shows "lru_ok (c', k')"
proof -
  note D = lru_okD[OF assms(1)]
  have sem: "scnt k' (obj_sem (oc_obj c y)) = (if y = x then 1 else scnt k (obj_sem (oc_obj c y)))" if "y \<in> objs c" for y
    using k'[OF D(7)[OF that]] inj_onD[OF D(6) _ that assms(2)] by auto
  have ob': "objs c' = objs c" by (simp add: c'(3))
  show ?thesis
    unfolding lru_ok_def prod.case ob' c'(1,4) ob(1)
  proof (intro conjI ballI)
    show "distinct (oc_lru c')" "insert x (set (oc_lru c)) \<subseteq> objs c" "inj_on (\<lambda>x. obj_sem (oc_obj c x)) (objs c)"
      using c'(2) D(2,6) assms(2) by blast+
    fix y assume y: "y \<in> objs c"
    show "bit (flags c' y) 0 \<longleftrightarrow> y \<in> insert x (set (oc_lru c))" using D(3)[OF y] ob(2)[of y] ob(3) by (cases "y = x") simp_all
    show "obj_sem (oc_obj c y) \<noteq> oc_lru_sem c" by (rule D(7)[OF y])
  next
    fix y assume y: "y \<in> insert x (set (oc_lru c))"
    then have "y \<in> objs c" using D(2) assms(2) by blast
    then show "scnt k' (obj_sem (oc_obj c y)) = 1" using sem[of y] D(4)[of y] y by auto
  next
    fix y assume y: "y \<in> objs c - insert x (set (oc_lru c))"
    then have yo: "y \<in> objs c" by blast
    show "scnt k' (obj_sem (oc_obj c y)) \<le> 0" "bit (flags c' y) 1"
      using sem[OF yo] D(5)[OF yo] y ob(2)[of y] by simp_all
  qed
qed

lemma release_state:
  assumes "\<not> bit w 0" "bit w 1" "\<not> bit w 2"
  shows "w AND (OC_FLAG_INLRU OR OC_FLAG_INHASH OR OC_FLAG_SHARED) = OC_FLAG_INHASH"
  using assms by (intro bit_eqI) (auto simp: bit_and_iff bit_or_iff flag_bits)

text \<open>
  Releasing a buffer whose data is valid, when nobody waits for it: it is found again under its
  name, and the counter of the list goes up with its length.
\<close>

lemma cache_release:
  assumes "cache_ok (c, k)" "x \<in> objs c" "x \<notin> set (oc_lru c)" "\<not> bit (flags c x) 2" "\<not> bit (flags c x) 3"
    "scnt k (obj_sem (oc_obj c x)) = 0" "0 \<le> scnt k (oc_lru_sem c)" "scnt k (oc_lru_sem c) < INT_MAX" "squeue k (oc_lru_sem c) = []"
  shows "\<exists>c' k'. chCacheReleaseObjectI x (c, k) = Inr (c', k') \<and> cache_ok (c', k') \<and>
    (\<forall>g y. hash_get_s c' g y = hash_get_s c g y) \<and> oc_lru_sem c' = oc_lru_sem c \<and>
    oc_lru c' = (if bit (flags c x) 5 then oc_lru c @ [x] else x # oc_lru c) \<and>
    scnt k' (oc_lru_sem c) = scnt k (oc_lru_sem c) + 1 \<and> (\<forall>s. squeue k' s = squeue k s)"
proof -
  have ok: "hash_ok c" "lru_ok (c, k)" using assms(1) by (simp_all add: cache_ok_def)
  note D = lru_okD[OF ok(2)]
  have x: "bit (flags c x) 1" "\<not> bit (flags c x) 0" "obj_sem (oc_obj c x) \<noteq> oc_lru_sem c"
    using D(3)[OF assms(2)] D(5)[OF assms(2,3)] D(7)[OF assms(2)] assms(3) by auto
  let ?l = "if bit (flags c x) 5 then LRU_INSERT_TAIL x c else LRU_INSERT_HEAD x c"
  let ?f = "flags c x AND (OC_FLAG_INHASH OR OC_FLAG_LAZYWRITE)"
  let ?c = "set_flags x (?f OR OC_FLAG_INLRU) (set_flags x ?f ?l)"
  let ?k1 = "set_cnt (oc_lru_sem c) (scnt k (oc_lru_sem c) + 1) k"
  let ?k2 = "set_cnt (obj_sem (oc_obj c x)) 1 ?k1"
  have l: "oc_obj ?l = oc_obj c" "oc_lru_sem ?l = oc_lru_sem c" "oc_objn ?l = oc_objn c" "oc_hash ?l = oc_hash c" "oc_hashn ?l = oc_hashn c"
      "oc_lru ?l = (if bit (flags c x) 5 then oc_lru c @ [x] else x # oc_lru c)"
    by (simp_all add: LRU_INSERT_TAIL_def LRU_INSERT_HEAD_def)
  have c: "oc_obj ?c y = (if y = x then (oc_obj c x)\<lparr>obj_flags := ?f OR OC_FLAG_INLRU\<rparr> else oc_obj c y)" for y
    by (simp add: set_flags_def l(1))
  have c': "oc_lru_sem ?c = oc_lru_sem c" "oc_objn ?c = oc_objn c" "oc_hash ?c = oc_hash c" "oc_hashn ?c = oc_hashn c"
      "oc_lru ?c = (if bit (flags c x) 5 then oc_lru c @ [x] else x # oc_lru c)" "flags (set_flags x ?f ?l) x = ?f"
    using l by (simp_all add: set_flags_def)
  have sig: "chSemSignalI (oc_lru_sem c) k = Inr ?k1"
    using assms(7-9) by (simp add: chSemSignalI_def sem_consistent_def c_int_def INT_MIN_def Let_def)
  have s1: "scnt ?k1 (obj_sem (oc_obj c x)) = 0" using assms(6) x(3) by (simp add: set_cnt_def upd_sem_def)
  have rel: "chCacheReleaseObjectI x (c, k) = Inr (?c, ?k2)"
    unfolding chCacheReleaseObjectI_def Let_def prod.case release_state[OF x(2,1) assms(4)] flag_tests
    using assms(5,6) sig s1
    by (simp add: chSemGetCounterI_def chSemFastSignalI_def c_int_def INT_MIN_def INT_MAX_def set_flags_def LRU_INSERT_TAIL_def LRU_INSERT_HEAD_def)
  have h: "hash_ok ?c"
    by (rule hash_ok_frame[OF ok(1)]) (use c' c x(1) in \<open>auto simp: flag_upd\<close>)
  moreover have "lru_ok (?c, ?k2)"
    by (rule lru_ok_join[OF ok(2) assms(2,3)])
      (use c' c x(3) D(1) assms(3) in \<open>auto simp: flag_upd set_cnt_def upd_sem_def\<close>)
  moreover have "hash_get_s ?c g y = hash_get_s c g y" for g y
    by (rule hash_get_frame) (use c' c in \<open>auto simp del: upd_obj_sel\<close>)
  moreover have "scnt ?k2 (oc_lru_sem c) = scnt k (oc_lru_sem c) + 1" "\<forall>s. squeue ?k2 s = squeue k s"
    using x(3) by (simp_all add: set_cnt_def upd_sem_def)
  ultimately show ?thesis using rel c'(1,5) by (simp add: cache_ok_def)
qed

text \<open>
  An object that was not in the cache gets the least recently used buffer; when its data has been
  filled in and the buffer released, it is in the cache, and of the other names exactly the one
  the buffer had before is not any more.
\<close>

lemma cache_fill:
  assumes "cache_ok (c, k)" "hash_get_s c grp key = Inr None" "oc_lru c = ys @ [x]" "\<not> bit (flags c x) 4"
    "0 < scnt k (oc_lru_sem c)" "scnt k (oc_lru_sem c) \<le> INT_MAX" "squeue k (oc_lru_sem c) = []"
  shows "\<exists>c1 k1 c2 k2. chCacheGetObject writef grp key (c, k) = Inr (Got x, c1, k1) \<and> flags c1 x = OC_FLAG_INHASH OR OC_FLAG_NOTSYNC \<and>
    chCacheReleaseObjectI x (set_flags x OC_FLAG_INHASH c1, k1) = Inr (c2, k2) \<and> cache_ok (c2, k2) \<and> oc_lru c2 = x # ys \<and>
    oc_lru_sem c2 = oc_lru_sem c \<and> scnt k2 (oc_lru_sem c) = scnt k (oc_lru_sem c) \<and> squeue k2 (oc_lru_sem c) = [] \<and>
    (\<forall>g y. hash_get_s c2 g y = (if g = grp \<and> y = key then Inr (Some x) else if hash_get_s c g y = Inr (Some x) then Inr None else hash_get_s c g y))"
proof -
  obtain c1 k1 where c1: "chCacheGetObject writef grp key (c, k) = Inr (Got x, c1, k1)" "cache_ok (c1, k1)"
      "hash_get_s c1 grp key = Inr (Some x)" "oc_lru c1 = ys" "oc_lru_sem c1 = oc_lru_sem c" "oc_objn c1 = oc_objn c"
      "flags c1 x = OC_FLAG_INHASH OR OC_FLAG_NOTSYNC" "obj_group (oc_obj c1 x) = grp" "obj_key (oc_obj c1 x) = key"
      "scnt k1 (obj_sem (oc_obj c1 x)) = 0" "\<forall>y. y \<noteq> x \<longrightarrow> oc_obj c1 y = oc_obj c y"
      "scnt k1 (oc_lru_sem c) = scnt k (oc_lru_sem c) - 1" "\<forall>s. squeue k1 s = squeue k s"
    using cache_get_miss[OF assms, of writef] by blast
  let ?c = "set_flags x OC_FLAG_INHASH c1"
  have ok: "hash_ok c" "hash_ok c1" "lru_ok (c1, k1)" using assms(1) c1(2) by (simp_all add: cache_ok_def)
  have "lru_ok (c, k)" using assms(1) by (simp add: cache_ok_def)
  note lru = lru_okD(1,2)[OF this]
  then have x: "x \<in> objs c" "x \<notin> set ys" using assms(3) by auto
  have h: "hash_ok ?c" by (rule hash_ok_frame[OF ok(2)]) (use c1(7) in \<open>auto simp: set_flags_def flag_upd flag_bits\<close>)
  have "lru_ok (?c, k1)" by (rule lru_ok_frame[OF ok(3)]) (use c1(7) in \<open>auto simp: set_flags_def flag_upd flag_bits\<close>)
  then have ok': "cache_ok (?c, k1)" using h by (simp add: cache_ok_def)
  have sel: "oc_objn ?c = oc_objn c" "oc_lru ?c = ys" "oc_lru_sem ?c = oc_lru_sem c" "flags ?c x = OC_FLAG_INHASH"
      "obj_sem (oc_obj ?c x) = obj_sem (oc_obj c1 x)" using c1 by (simp_all add: set_flags_def)
  obtain c2 k2 where c2: "chCacheReleaseObjectI x (?c, k1) = Inr (c2, k2)" "cache_ok (c2, k2)" "\<forall>g y. hash_get_s c2 g y = hash_get_s ?c g y"
      "oc_lru_sem c2 = oc_lru_sem ?c" "oc_lru c2 = x # ys" "scnt k2 (oc_lru_sem ?c) = scnt k1 (oc_lru_sem ?c) + 1" "\<forall>s. squeue k2 s = squeue k1 s"
    using cache_release[OF ok', of x] x c1(10,12,13) assms(5-7) unfolding sel by (auto simp: flag_bits)
  have old: "hash_get_s c1 g y = (if g = grp \<and> y = key then Inr (Some x) else if hash_get_s c g y = Inr (Some x) then Inr None else hash_get_s c g y)"
    for g y
  proof (cases "g = grp \<and> y = key")
    case False
    have other: "hash_get_s c1 g y = Inr (Some z) \<longleftrightarrow> z \<noteq> x \<and> hash_get_s c g y = Inr (Some z)" for z
      using c1(8,9,11) False unfolding hash_get_ok(2)[OF ok(2)] hash_get_ok(2)[OF ok(1)] c1(6) by auto
    obtain a b where ab: "hash_get_s c1 g y = Inr a" "hash_get_s c g y = Inr b" using hash_get_ok(1)[OF ok(1)] hash_get_ok(1)[OF ok(2)] by blast
    have "a = (if b = Some x then None else b)" using other unfolding ab by (metis option.exhaust option.inject sum.inject(2))
    then show ?thesis unfolding ab using False by auto
  qed (use c1(3) in simp)
  have "hash_get_s ?c g y = hash_get_s c1 g y" for g y by (rule hash_get_frame) (simp_all add: set_flags_def)
  with old c2(3) have "\<forall>g y. hash_get_s c2 g y =
      (if g = grp \<and> y = key then Inr (Some x) else if hash_get_s c g y = Inr (Some x) then Inr None else hash_get_s c g y)" by simp
  with c1(1,7,12,13) c2(1,2,4-7) assms(7) sel(3) show ?thesis by auto
qed

section \<open>Start\<close>

lemma cache_init_loop:
  fixes osem :: "nat \<Rightarrow> nat"
  assumes "inj_on osem {..<m}" "lsem \<notin> osem ` {..<m}" "oc_lru c = []"
  shows "\<exists>c' k'. foldE (\<lambda>i (c, k).
       bindE (chSemObjectInit (osem i) 1 k) (\<lambda>k.
       Inr (upd_obj i (\<lambda>_. \<lparr>obj_group = 0, obj_key = 0, obj_sem = osem i, obj_flags = OC_FLAG_INLRU, obj_dptr = 0\<rparr>)
              (LRU_INSERT_HEAD i c), k))) [0..<m] (c, k) = Inr (c', k') \<and>
    oc_lru c' = rev [0..<m] \<and> oc_hash c' = oc_hash c \<and> oc_hashn c' = oc_hashn c \<and> oc_objn c' = oc_objn c \<and> oc_lru_sem c' = oc_lru_sem c \<and>
    (\<forall>x < m. oc_obj c' x = \<lparr>obj_group = 0, obj_key = 0, obj_sem = osem x, obj_flags = OC_FLAG_INLRU, obj_dptr = 0\<rparr> \<and> scnt k' (osem x) = 1) \<and>
    scnt k' lsem = scnt k lsem \<and> squeue k' lsem = squeue k lsem"
  using assms(1,2)
proof (induction m)
  case 0
  then show ?case using assms(3) by simp
next
  case (Suc m)
  have new: "osem m \<noteq> lsem" "osem x \<noteq> osem m" if "x < m" for x
    using Suc.prems that by (auto simp: inj_on_def)
  have new': "osem m \<noteq> lsem" using Suc.prems(2) by auto
  have "inj_on osem {..<m}" "lsem \<notin> osem ` {..<m}" using Suc.prems by (auto simp: inj_on_def)
  from Suc.IH[OF this] show ?case
    using new new' by (auto simp: foldE_append chSemObjectInit_def LRU_INSERT_HEAD_def less_Suc_eq set_cnt_def set_squeue_def upd_sem_def)
qed

lemma cache_init:
  assumes "chCacheObjectInit osize hashn objn objsz csem lsem osem mem k = Inr (c, k')"
    "inj_on osem {..<unat objn}" "lsem \<notin> osem ` {..<unat objn}"
  shows "cache_ok (c, k')" "oc_lru c = rev [0..<unat objn]" "oc_lru_sem c = lsem" "scnt k' lsem = int (length (oc_lru c))" "squeue k' lsem = []"
    "hash_get_s c grp key = Inr None"
proof -
  let ?c = "\<lparr>oc_hashn = hashn, oc_hash = replicate (unat hashn) [], oc_objn = objn, oc_obj = mem, oc_lru = [],
              oc_cache_sem = csem, oc_lru_sem = lsem\<rparr>"
  let ?k = "set_cnt lsem (uint objn) (set_squeue lsem [] (set_cnt csem 1 (set_squeue csem [] k)))"
  have chk: "objn > 0" "hashn \<ge> objn" and loop: "foldE (\<lambda>i (c, k).
       bindE (chSemObjectInit (osem i) 1 k) (\<lambda>k.
       Inr (upd_obj i (\<lambda>_. \<lparr>obj_group = 0, obj_key = 0, obj_sem = osem i, obj_flags = OC_FLAG_INLRU, obj_dptr = 0\<rparr>)
              (LRU_INSERT_HEAD i c), k))) [0..<unat objn] (?c, ?k) = Inr (c, k')"
    using assms(1) by (auto simp: chCacheObjectInit_def bindE_eq_Inr chSemObjectInit_def Let_def)
  have c: "oc_lru c = rev [0..<unat objn]" "oc_hash c = replicate (unat hashn) []" "oc_hashn c = hashn" "oc_objn c = objn" "oc_lru_sem c = lsem"
      "\<forall>x < unat objn. oc_obj c x = \<lparr>obj_group = 0, obj_key = 0, obj_sem = osem x, obj_flags = OC_FLAG_INLRU, obj_dptr = 0\<rparr> \<and> scnt k' (osem x) = 1"
      "scnt k' lsem = uint objn" "squeue k' lsem = []"
    using cache_init_loop[OF assms(2,3), of ?c ?k] loop by (auto simp: set_cnt_def set_squeue_def upd_sem_def)
  have hn: "hashn \<noteq> 0" using chk by auto
  have ns: "\<forall>x < unat objn. osem x \<noteq> lsem" using assms(3) by blast
  have h: "hash_ok c" by (rule hash_okI) (use c hn in \<open>auto simp: flag_bits\<close>)
  moreover have "lru_ok (c, k')"
    using c assms(2) ns unfolding lru_ok_def prod.case by (auto simp: flag_bits inj_on_def)
  ultimately show "cache_ok (c, k')" by (simp add: cache_ok_def)
  show "oc_lru c = rev [0..<unat objn]" "oc_lru_sem c = lsem" "scnt k' lsem = int (length (oc_lru c))" "squeue k' lsem = []"
    using c(1,5,7,8) by simp_all
  show "hash_get_s c grp key = Inr None" unfolding hash_get_ok(3)[OF h] using c(4,6) by (auto simp: flag_bits)
qed

end
