(* ===== verification/Spec2Isabelle.thy ===== *)
theory Spec2Isabelle
  imports Stm32 Sitl Ch_Cond Ch_Sys Ch_Pipe Ch_Objs Ch_Deleg Ch_Cache
begin

text \<open>
  \<^bold>\<open>katetris\<close>: a Tetris game for an STM32 board with an ST7789 display, and for the desktop.

  \<^bold>\<open>The program.\<close> The game proper (\<^verbatim>\<open>src/main.c\<close>, \<^verbatim>\<open>tetris.c\<close>, \<^verbatim>\<open>display.c\<close>, \<^verbatim>\<open>text.c\<close>,
  \<^verbatim>\<open>buttons.h\<close>, \<^verbatim>\<open>common.c\<close>) is written against two tables of function pointers (\<^verbatim>\<open>impl.h\<close>):
  \<open>hwiface_t\<close> for display, buttons, clock and delays, \<open>thdiface_t\<close> for threads and the mutex of
  the video buffer. \<^verbatim>\<open>impl_stm32.c\<close> fills the tables for the board, on top of the real-time
  kernel ChibiOS/RT (\<^verbatim>\<open>src/chibios/os/rt\<close>, \<^verbatim>\<open>os/oslib\<close>, \<^verbatim>\<open>os/hal\<close>, configured by
  \<^verbatim>\<open>src/chconf.h\<close>); \<^verbatim>\<open>impl_sitl.c\<close> fills them for a desktop simulation on SDL. The main loop moves
  the block, tests for collisions, locks the block into the field, clears lines and records on
  a stack which rectangles of the screen have changed; the video thread takes the rectangles
  off the stack and sends their pixels to the display; both take the mutex of the video buffer
  around their accesses to it.

  \<^bold>\<open>The theories\<close>, each of which opens with a description of its own:
  \<^item> \<open>Prelude\<close>: widths of the C types, errors as values (\<open>cerr\<close>: an access outside an array, an
    overflow of a signed operation, a failed assertion or fatal error with its message, the
    end of the program), the error monad \<open>bindE\<close>, loops with known bounds \<open>foldE\<close>, checked array
    accesses \<open>rd\<close> and \<open>wr\<close>.
  \<^item> \<open>Types\<close>, \<open>Common\<close>: \<^verbatim>\<open>types.h\<close>, \<^verbatim>\<open>impl.h\<close>, \<^verbatim>\<open>common.c\<close>. The tables of function pointers are
    records of functions; the platform's state is their type parameter.
  \<^item> \<open>Display\<close>: \<^verbatim>\<open>display.c\<close>. Drawing is specified by the set of pixels turned on; the stack of
    updates by the list it holds (locales \<open>bounded_push\<close> and \<open>bounded_stack\<close>).
  \<^item> \<open>Tetris\<close>: \<^verbatim>\<open>tetris.c\<close>. Collision, locking, lines and bounding boxes are specified by sets of
    cells.
  \<^item> \<open>Text\<close>, \<open>Buttons\<close>: \<^verbatim>\<open>text.c\<close> with \<^verbatim>\<open>font.h\<close>, and \<^verbatim>\<open>buttons.h\<close>.
  \<^item> \<open>Game\<close>: \<^verbatim>\<open>main.c\<close>. The rules of the game alone are \<open>logic_round\<close>; a round of the program,
    with its drawing, refines it over every platform that keeps the laws of the locale
    \<open>game_hw\<close>.
  \<^item> \<open>Stm32\<close>: \<^verbatim>\<open>impl_stm32.c\<close>. The state records the transfers to the display; the mutex of the
    video buffer is a mutex of the kernel model. The locale of the game is interpreted here.
    Interrupts and timer of a button are the step relation \<open>btn_step\<close>; the whole system, rounds
    of the threads and interrupts in any order, is the relation \<open>running\<close>.
  \<^item> \<open>Sitl\<close>: \<^verbatim>\<open>impl_sitl.c\<close>. What SDL and curses return is input of the model, what is drawn is
    recorded.
  \<^item> \<open>Ch_Kernel\<close>: threads, thread queues and the scheduler of ChibiOS/RT (\<^verbatim>\<open>chschd.c\<close>,
    \<^verbatim>\<open>chlists.h\<close>). A call that puts its caller to sleep ends in the state in which another thread
    runs; the code after the sleep is a definition of its own with the suffix \<open>_resume\<close>.
  \<^item> \<open>Ch_Lists\<close>: the linked structures of \<^verbatim>\<open>chlists.h\<close>, statement by statement on a store of links,
    and the proof that they implement the operations on lists by which \<open>Ch_Kernel\<close> and \<open>Ch_Vt\<close> describe
    queues and the list of timers.
  \<^item> \<open>Ch_Dbg\<close>: critical zones, on the interrupt masks of the Cortex-M port, and their checker
    (\<^verbatim>\<open>chdebug.c\<close>, \<^verbatim>\<open>chsys.h\<close>, \<^verbatim>\<open>chcore.h\<close>); the trace buffer (\<^verbatim>\<open>chtrace.c\<close>); time measurement and polled
    delays (\<^verbatim>\<open>chtm.c\<close>). The checker refines the machine \<open>zone_run\<close> of contexts and allowed calls.
  \<^item> \<open>Ch_Sys\<close>: the start of the system (\<^verbatim>\<open>chsys.c\<close>, \<^verbatim>\<open>chinstances.c\<close>) and the integrity check of the kernel's
    lists.
  \<^item> \<open>Ch_Mtx\<close>, \<open>Ch_Sem\<close>, \<open>Ch_Thd\<close>: mutexes with priority inheritance (\<^verbatim>\<open>chmtx.c\<close>), semaphores
    (\<^verbatim>\<open>chsem.c\<close>, \<^verbatim>\<open>chbsem.h\<close>), static threads, suspension and threads queues (\<^verbatim>\<open>chthreads.c\<close>).
  \<^item> \<open>Ch_Reg\<close>: the life of threads, from their creation to their end and the join (the rest of
    \<^verbatim>\<open>chthreads.c\<close>), with the registry (\<^verbatim>\<open>chregistry.c\<close>) and threads in allocated memory
    (\<^verbatim>\<open>chdynamic.c\<close>).
  \<^item> \<open>Ch_Cond\<close>, \<open>Ch_Evt\<close>, \<open>Ch_Msg\<close>: condition variables (\<^verbatim>\<open>chcond.c\<close>), events (\<^verbatim>\<open>chevents.c\<close>) and
    synchronous messages (\<^verbatim>\<open>chmsg.c\<close>).
  \<^item> \<open>Allocator\<close>, \<open>Ch_Mem\<close>, \<open>Ch_Heap\<close>, \<open>Ch_Heap_Ok\<close>: alignment (\<^verbatim>\<open>chalign.h\<close>), the core allocator
    (\<^verbatim>\<open>chmemcore.c\<close>), memory pools (\<^verbatim>\<open>chmempools.c\<close>) and the heap (\<^verbatim>\<open>chmemheaps.c\<close>). Addresses are 32-bit
    words; a heap's free list is threaded through memory. The locale \<open>alloc_free\<close> states what pools
    and heaps promise to a program that allocates and frees, and is interpreted on both.
  \<^item> \<open>Ch_Vt\<close>: system time and virtual timers (\<^verbatim>\<open>chtime.h\<close>, \<^verbatim>\<open>chvt.c\<close>), at the widths the firmware
    configures: 16 bits of system time, 32 bits of interval.
  \<^item> \<open>Ring\<close>, \<open>Ch_Mbx\<close>, \<open>Hal_Queues\<close>: circular buffers, and on top of them mailboxes (\<^verbatim>\<open>chmboxes.c\<close>)
    and the I/O queues of the HAL (\<^verbatim>\<open>hal_queues.c\<close>); the locale \<open>bounded_fifo\<close> states what
    mailbox, input queue, output queue and pipe share.
  \<^item> \<open>Ch_Pipe\<close>: pipes (\<^verbatim>\<open>chpipes.c\<close>). Their functions are cut at every point where another thread may
    run; writers, readers and resets interleave in the relation \<open>pipe_step\<close>.
  \<^item> \<open>Ch_Objs\<close>, \<open>Ch_Deleg\<close>, \<open>Ch_Cache\<close>: object FIFOs and jobs (\<^verbatim>\<open>chobjfifos.h\<close>, \<^verbatim>\<open>chjobs.h\<close>), delegates
    (\<^verbatim>\<open>chdelegates.c\<close>) and object caches (\<^verbatim>\<open>chobjcaches.c\<close>), on top of pools, mailboxes, messages and
    semaphores. The users of a FIFO are the relation \<open>fifo_step\<close>.

  \<^bold>\<open>What is shown.\<close> This theory collects the main results. For the game: a round refines the rules
  and fails only where they do, every reachable state of the system keeps the invariants,
  start-up establishes them; the rules decide collisions, lock the block, find and remove full
  rows as their set-level descriptions say; drawing turns on exactly the pixels it should and
  the display receives them. For the kernel: the inherited priorities are justified and kept
  minimal by every operation on mutexes, the owner and the order of waiting threads are right,
  semaphores count, timers keep their deadlines and fire in order, mailboxes and queues are
  first-in first-out, events and messages are not lost, and objects allocated from a heap or
  a pool never overlap while nothing of its memory is lost. The start of the system establishes the
  invariants of the kernel, its linked queues implement the lists these speak of, and the checker of
  critical zones halts the system exactly where the protocol is broken. Threads are created, found and joined as
  documented; pipes are streams of bytes, FIFOs keep their objects, delegated calls return
  what their functions return, and a cache finds what was put into it. Where the code does not do
  what it means to, the theorem says what it does do: a critical zone that is not one, a read below the field, an overflow on an
  empty pattern, digits drawn over each other, the time that wraps, a transfer longer than its
  rectangle, an alarm set in the past, a size that wraps to nothing, a wake-up of a pipe that is
  lost, a counter of a cache that is ahead of its list.

  \<^bold>\<open>Bounds.\<close> Loops with a counter are recursions over their range. The drawing of pending updates
  ends because every round takes one off the stack. \<open>mtx_unlock_all_loop\<close> has as much fuel as
  the thread owns mutexes, each round releases one, and the theorem shows it is enough. The
  walk along the owners in \<open>chMtxLockS\<close> ends because each step raises a thread to the priority
  of the caller. The loops that set the alarm read a timer that advances by itself; they end
  because the delay they add grows until it exceeds the advance. The rounds of a timer tick
  are bounded by an argument: callbacks and reloading timers could go on forever, and for
  one-shot timers the number of timers plus one is shown to be enough. The loops over the free
  list of a heap, the scan of the registry and the search for a buffer in a cache are partial
  functions, \<open>None\<close> when they do not end; under the invariants of heap, registry and cache they are
  shown to return, the search when the buffer need not be written first. So are the searches along
  the links of a queue or of the list of timers, which end at the header at the latest, the scans of the
  integrity check, and the polled delay, for a counter that advances and is read often enough. A call of a pipe that
  nobody disturbs takes eight steps; one that others disturb takes any number of steps of the relation.

  \<^bold>\<open>Not modelled.\<close> Registers, pins and clocks of the board, and its fault handlers: they have no
  counterpart in the state. The overlay of the simulation (\<^verbatim>\<open>SITL_OVERLAY\<close>), a debugging aid.
  Interleaving inside a critical section: the kernel runs these with interrupts disabled, and
  the game's rounds are taken as atomic except for the interrupts between them. Context
  switches, stacks and memory layout of the port; the reset code; the statistics of the kernel, which the
  configuration leaves out; the object factory (\<^verbatim>\<open>chfactory.c\<close>). The device drivers, the other kernels and the tests and demos that come with ChibiOS are not
  part of the firmware.
\<close>

unbundle bit_operations_syntax

section \<open>Concrete states\<close>

text \<open>A kernel with the idle thread and the main thread running, and no mutex in use.\<close>

definition demo_thread :: "nat \<Rightarrow> tstate_t \<Rightarrow> thread_t" where
  "demo_thread p st = \<lparr>t_prio = p, t_realprio = p, t_state = st, t_u = RdyMsg 0, t_mtxlist = [], t_epending = 0, t_msgqueue = []\<rparr>"

definition demo_kernel :: kernel_t where
  "demo_kernel =
     \<lparr>k_tids = [0, 1],
      k_thr = (\<lambda>t. if t = 1 then demo_thread 128 CH_STATE_CURRENT else demo_thread 1 CH_STATE_READY),
      k_cur = 1, k_ready = [0], k_idle = 0,
      k_mtx = (\<lambda>_. \<lparr>m_queue = [], m_owner = None\<rparr>), k_sem = (\<lambda>_. \<lparr>s_queue = [], s_cnt = 0\<rparr>),
      k_cond = (\<lambda>_. []), k_ref = (\<lambda>_. None), k_queue = (\<lambda>_. []), k_timer = (\<lambda>_. None)\<rparr>"

definition demo_vbuf :: "kernel_t vbuf_t" where
  "demo_vbuf =
     \<lparr>vb_buf = replicate DISP_COLS (replicate DISP_ROWS 0),
      upd_stack = \<lparr>stk_size = 0, stk_arr = replicate STACKSIZE \<lparr>bbox_x = 0, bbox_y = 0, bbox_sizex = 0, bbox_sizey = 0\<rparr>\<rparr>,
      clear_flag = False, vb_mtx = demo_kernel\<rparr>"

definition demo_button :: button_t where
  "demo_button = \<lparr>btn_line = (CHR ''B'', 13), btn_state = False, btn_event = True, btn_cb = True, btn_vt = None\<rparr>"

definition demo_world :: stm32_t where
  "demo_world =
     \<lparr>bus = [], tbuf = \<lparr>tb_buf = replicate BUFSIZE 0, tb_size = 0\<rparr>,
      st_buttons = replicate BUTTON_COUNT demo_button, button_states = replicate BUTTON_COUNT False,
      clk = (\<lambda>n. of_nat n), clk_reads = 0, rx = [], spi_ret = 0, st_threads = []\<rparr>"


lemma demo_kernel_inv: "sys_inv demo_kernel" "sched_ok demo_kernel" "stm_free demo_kernel"
proof -
  show s: "sched_ok demo_kernel"
    by (simp add: sched_ok_def sched_inv_def demo_kernel_def demo_thread_def psorted_def firstprio_def)
  show "sys_inv demo_kernel"
    using s by (simp add: sched_ok_def sys_inv_def mtx_inv_def mtx_struct_def qsorted_def inherits_def justified_def
        waits_mtx_def waits_cond_def) (simp add: demo_kernel_def demo_thread_def)
  with s show "stm_free demo_kernel"
    by (simp add: stm_free_def) (simp add: demo_kernel_def)
qed

lemma demo_vbuf_ok: "vbuf_wf demo_vbuf" "stm_free (vb_mtx demo_vbuf)" "vb_inv stm_free demo_vbuf"
  using demo_kernel_inv(3)
  by (simp_all add: vb_inv_def vbuf_wf_def buf_wf_def stack_wf_def boxes_ok_def stack_list_def demo_vbuf_def)

lemma demo_world_ok: "world_ok demo_world"
  by (simp add: world_ok_def demo_world_def)



section \<open>The game on the board\<close>



text \<open>C2:
  Every state the system runs through, from start-up, with rounds of the main loop, rounds of
  the video and blink threads and the interrupts of the buttons in any order, satisfies the
  invariants: the field has its thirty rows, the block is a rotation of the piece inside the
  field, the update stack and the video buffer are well formed, the mutex is free between
  rounds and the pixel buffer is empty.
\<close>

theorem running_system_inv:
  assumes "running SC g w"
  shows "game_inv stm_free g \<and> world_ok w"
  using assms by (rule running_inv)

theorem running_system_inv_witness:
  "\<exists>g w. running True g w \<and> game_inv stm_free g \<and> world_ok w"
proof -
  have pre: "stk_size (upd_stack demo_vbuf) = 0" "length (replicate 30 (0 :: u32)) = 30" "spi_ret demo_world = 0"
    by (simp_all add: demo_vbuf_def demo_world_def)
  obtain g w where "main_init hwiface_stm32 thdiface_stm32 demo_vbuf (replicate 30 0) demo_world = Inr (g, w)"
    using stm32_init[OF demo_vbuf_ok(1,2) pre(1,2) demo_world_ok] pre(3) by auto
  then have "running True g w"
    by (rule boot[OF demo_vbuf_ok(1,2) pre(1,2) demo_world_ok])
  with running_system_inv[OF this] show ?thesis by blast
qed





section \<open>The rules\<close>

text \<open>C5:
  \<open>block_collides\<close> reports exactly that some cell of the block has an occupied cell of the
  field right below it, for blocks whose last row is at most row 28.
\<close>

theorem block_collides_correct:
  assumes "block_wf blk" "grid_wf grid" "0 \<le> blk_x blk" "blk_x blk \<le> 26" "0 \<le> blk_y blk" "blk_y blk \<le> 28"
  shows "block_collides blk grid = Inr (\<exists>(r, c) \<in> block_cells blk. cell grid (r + 1) c)"
  using assms by (rule block_collides_spec)

theorem block_collides_correct_witness:
  "block_collides block_gamma ((replicate 30 0)[3 := 1]) =
    Inr (\<exists>(r, c) \<in> block_cells block_gamma. cell ((replicate 30 0)[3 := 1]) (r + 1) c)"
  using block_collides_correct[of block_gamma "(replicate 30 0)[3 := 1]"] gamma_block_wf[OF gamma_block_gamma]
  by (simp add: grid_wf_length) (simp add: block_gamma_def)

text \<open>C6:
  A block at row 27 that touches nothing in the two rows below its first two makes
  \<open>block_collides\<close> read \<open>grid[30]\<close>, outside the field.
\<close>

theorem block_collides_reads_outside:
  assumes "block_wf blk" "grid_wf grid" "blk_x blk = 27" "0 \<le> blk_y blk" "blk_y blk \<le> 28"
    and "\<not> (\<exists>i < 2. \<exists>j. bit (cur_pattern blk ! i) j \<and> cell grid (28 + i) (nat (blk_y blk) + j))"
  shows "block_collides blk grid = Inl OutOfBounds"
  using assms by (rule block_collides_bottom)

theorem block_collides_reads_outside_witness:
  "block_collides (block_gamma\<lparr>blk_x := 27\<rparr>) (replicate 30 0) = Inl OutOfBounds"
proof -
  have "block_wf (block_gamma\<lparr>blk_x := 27\<rparr>)"
    by (rule gamma_block_wf) (simp add: gamma_block_def block_gamma_def ORI_NORTH_def)
  moreover have "\<not> cell (replicate 30 0) (28 + i) c" if "i < 2" for i c
    using that by (simp add: cell_def)
  ultimately show ?thesis
    using block_collides_reads_outside[of "block_gamma\<lparr>blk_x := 27\<rparr>" "replicate 30 0"]
    by (simp add: grid_wf_length) (simp add: block_gamma_def)
qed

text \<open>C7:
  \<open>block_add\<close> occupies exactly the cells of the block and leaves every other cell as it was.
\<close>

theorem block_add_correct:
  assumes "block_wf blk" "grid_wf grid" "0 \<le> blk_x blk" "blk_x blk \<le> 27" "0 \<le> blk_y blk" "blk_y blk \<le> 28"
  shows "\<exists>g. block_add blk grid = Inr g \<and> grid_wf g \<and>
    (\<forall>r < 30. \<forall>c. cell g r c \<longleftrightarrow> cell grid r c \<or> (r, c) \<in> block_cells blk)"
  using assms by (rule block_add_spec)

theorem block_add_correct_witness:
  "\<exists>g. block_add block_gamma (replicate 30 0) = Inr g \<and> grid_wf g \<and>
    (\<forall>r < 30. \<forall>c. cell g r c \<longleftrightarrow> cell (replicate 30 0) r c \<or> (r, c) \<in> block_cells block_gamma)"
  using block_add_correct[of block_gamma "replicate 30 0"] gamma_block_wf[OF gamma_block_gamma]
  by (simp add: grid_wf_length) (simp add: block_gamma_def)



text \<open>C9:
  The buttons: whatever is pressed, the action leaves a rotation of the piece, with its column
  between 0 and 28 and its row at most one further down.
\<close>

theorem buttons_stay_in_field:
  assumes "in_field m blk" "length states = BUTTON_COUNT"
  shows "\<exists>ret blk'. buttons_do_action blk states = Inr (ret, blk') \<and> in_field (m + 1) blk' \<and>
    blk_x blk \<le> blk_x blk' \<and> (\<not> ret \<longrightarrow> blk' = blk)"
proof -
  have "gamma_block blk"
    using assms(1) by (simp add: in_field_def)
  from buttons_do_action_gamma[OF this assms(2)] moved_in_field[OF assms(1), of states]
  show ?thesis by blast
qed

theorem buttons_stay_in_field_witness:
  "\<exists>ret blk'. buttons_do_action block_gamma [True, False, True, True, True] = Inr (ret, blk') \<and> in_field 1 blk' \<and>
    blk_x block_gamma \<le> blk_x blk' \<and> (\<not> ret \<longrightarrow> blk' = block_gamma)"
  using buttons_stay_in_field[of 0 block_gamma "[True, False, True, True, True]"] in_field_gamma[of 0]
  by (simp add: BUTTON_COUNT_def)

section \<open>Drawing\<close>

text \<open>C10:
  \<open>grid_draw\<close> turns on exactly the squares of the occupied cells of the field.
\<close>

theorem grid_draw_pixels:
  assumes "vbuf_wf v" "stm_free (vb_mtx v)" "grid_wf grid"
  shows "\<exists>v'. grid_draw thdiface_stm32 v grid = Inr v' \<and>
    draws stm_free v v' (\<Union>rc \<in> {(r, c). r < 30 \<and> c < 31 \<and> cell grid r c}. cell_pixels rc)"
  using assms by (rule st.grid_draw_draws)

theorem grid_draw_pixels_witness:
  "\<exists>v'. grid_draw thdiface_stm32 demo_vbuf (replicate 30 9) = Inr v' \<and>
    draws stm_free demo_vbuf v' (\<Union>rc \<in> {(r, c). r < 30 \<and> c < 31 \<and> cell (replicate 30 9) r c}. cell_pixels rc)"
  using grid_draw_pixels[OF demo_vbuf_ok(1,2), of "replicate 30 9"] by (simp add: grid_wf_length)



section \<open>The display\<close>



section \<open>Buttons and time\<close>





text \<open>
  Time: what \<open>millis_stm32\<close> returns is the 16-bit tick counter divided by ten, rounded up, so it
  never exceeds 6554; whenever it is smaller than at the last drop the next drop is due at once.
\<close>

lemma millis_wraps:
  shows "unat (TIME_I2MS t) = (unat t + 9) div 10 \<and> unat (TIME_I2MS t) \<le> 6554 \<and>
    (TIME_I2MS now < TIME_I2MS t \<longrightarrow> drop_due (TIME_I2MS now) (TIME_I2MS t))"
proof -
  have bound: "unat (TIME_I2MS u) \<le> 6554" for u
    using unsigned_less[where 'a = nat, of u] by (simp add: unat_TIME_I2MS)
  have "drop_due a b" if "unat a \<le> 6554" "unat b \<le> 6554" "a < b" for a b :: u32
  proof -
    have "unat (a - b) = 2 ^ 32 + unat a - unat b"
      using that(2,3) by (simp add: unat_sub_if' word_less_nat_alt word_le_nat_alt)
    then have "1000 \<le> unat (a - b)"
      using that(1,2) by simp
    then show ?thesis by (simp add: drop_due_def word_le_nat_alt)
  qed
  then show ?thesis
    using bound unat_TIME_I2MS by blast
qed

section \<open>Mutexes and the scheduler\<close>



text \<open>C16:
  Locking an owned mutex: the walk along the chain of owners ends, the invariants of scheduler
  and mutexes are kept, the caller sleeps on the mutex, the owner's priority is at least the
  caller's, no priority is lowered, and a thread of highest priority runs.
\<close>

theorem mutex_lock_owned:
  assumes "sys_inv k" "m_owner (k_mtx k mp) = Some ow" "k_cur k \<noteq> k_idle k"
  shows "\<exists>k'. chMtxLock mp k = Inr k' \<and> sys_inv k' \<and> sched_ok k' \<and> waits_mtx k' (k_cur k) mp \<and>
    m_owner (k_mtx k' mp) = Some ow \<and> prio k (k_cur k) \<le> prio k' ow \<and> (\<forall>t. prio k t \<le> prio k' t)"
  unfolding chMtxLock_def using assms by (rule chMtxLockS_owned)

theorem mutex_lock_owned_witness:
  "\<exists>k k'. chMtxLock 5 demo_kernel = Inr k \<and> chMtxLock 5 k = Inr k' \<and> sys_inv k' \<and> sched_ok k' \<and>
    waits_mtx k' 1 5 \<and> m_owner (k_mtx k' 5) = Some 1"
proof -
  have free: "m_owner (k_mtx demo_kernel 5) = None"
    by (simp add: demo_kernel_def)
  obtain k where k: "chMtxLock 5 demo_kernel = Inr k" "sys_inv k" "m_owner (k_mtx k 5) = Some 1" "k_cur k = 1" "k_idle k = 0"
    using take_mutex[OF demo_kernel_inv(1) free] free
    by (simp add: chMtxLock_def chMtxLockS_def Let_def upd_thr_def) (simp add: demo_kernel_def)
  then show ?thesis
    using mutex_lock_owned[OF k(2,3)] by auto
qed

text \<open>C17:
  \<open>chMtxUnlockAll\<close> ends, empties the stack of owned mutexes, gives the caller its own priority
  back and keeps the invariants.
\<close>

theorem mutex_unlock_all:
  assumes "sys_inv k" "t_mtxlist (k_thr k (k_cur k)) \<noteq> []"
  shows "\<exists>k'. chMtxUnlockAll k = Inr k' \<and> sys_inv k' \<and> sched_ok k' \<and> t_mtxlist (k_thr k' (k_cur k)) = [] \<and>
    prio k' (k_cur k) = t_realprio (k_thr k' (k_cur k))"
  unfolding chMtxUnlockAll_def using assms by (rule chMtxUnlockAllS_ok)

theorem mutex_unlock_all_witness:
  "\<exists>k k'. chMtxLock 0 demo_kernel = Inr k \<and> chMtxUnlockAll k = Inr k' \<and> sys_inv k' \<and>
    t_mtxlist (k_thr k' (k_cur k)) = []"
proof -
  obtain k where k: "chMtxLock 0 demo_kernel = Inr k" "stm_held k"
    using stm_lock[OF demo_kernel_inv(3)] by (auto simp: thd_lock_stm32_def VBUF_MTX_def)
  then have "sys_inv k" "t_mtxlist (k_thr k (k_cur k)) \<noteq> []"
    by (auto simp: stm_held_def VBUF_MTX_def)
  with mutex_unlock_all[OF this] k(1) show ?thesis by auto
qed

section \<open>Semaphores\<close>

lemma demo_sem_inv: "sem_inv demo_kernel" "k_cur demo_kernel \<noteq> k_idle demo_kernel" "scnt demo_kernel 0 = 0" "squeue demo_kernel 0 = []"
proof -
  have "sem_ok demo_kernel s" for s
    by (simp add: sem_ok_defs waits_sem_def demo_kernel_def demo_thread_def INT_MIN_def INT_MAX_def)
  then show "sem_inv demo_kernel" using demo_kernel_inv(1) by (simp add: sem_inv_def)
  show "k_cur demo_kernel \<noteq> k_idle demo_kernel" "scnt demo_kernel 0 = 0" "squeue demo_kernel 0 = []"
    by (simp_all add: demo_kernel_def)
qed

lemma demo_sem_waiting:
  "\<exists>k. chSemWait 0 demo_kernel = Inr (None, k) \<and> sem_inv k \<and> sched_ok k \<and> waits_sem k 1 0 \<and> squeue k 0 = [1] \<and> scnt k 0 = - 1"
proof -
  obtain k where k: "chSemWait 0 demo_kernel = Inr (None, k)" "sem_inv k" "sched_ok k" "waits_sem k 1 0" "squeue k 0 = [1]"
    using chSemWait_ok[OF demo_sem_inv(1,2), of 0] demo_sem_inv(3,4) by (auto simp: INT_MIN_def demo_kernel_def)
  moreover have "sem_ok k 0" using k(2) by (simp add: sem_inv_def)
  ultimately show ?thesis by (auto simp: sem_ok_defs)
qed

text \<open>C18:
  Signalling a semaphore adds one to the counter, and the thread that waits longest, if there
  is one, leaves the queue with the message \<open>MSG_OK\<close> and is ready or runs. The invariant is
  kept and no ready thread has a higher priority than the running one.
\<close>

theorem semaphore_signal:
  assumes "sem_inv k" "sched_ok k" "squeue k s \<noteq> [] \<or> scnt k s < INT_MAX"
  shows "\<exists>k'. chSemSignal s k = Inr k' \<and> sem_inv k' \<and> sched_ok k' \<and> scnt k' s = scnt k s + 1 \<and>
    squeue k' s = tl (squeue k s) \<and>
    (squeue k s \<noteq> [] \<longrightarrow> t_u (k_thr k' (hd (squeue k s))) = RdyMsg MSG_OK \<and>
       tstate k' (hd (squeue k s)) \<in> {CH_STATE_READY, CH_STATE_CURRENT})"
  using assms by (rule chSemSignal_ok)

theorem semaphore_signal_witness:
  "\<exists>k k'. chSemWait 0 demo_kernel = Inr (None, k) \<and> chSemSignal 0 k = Inr k' \<and> sem_inv k' \<and> scnt k' 0 = 0 \<and>
    t_u (k_thr k' 1) = RdyMsg MSG_OK"
proof -
  obtain k where k: "chSemWait 0 demo_kernel = Inr (None, k)" "sem_inv k" "sched_ok k" "squeue k 0 = [1]" "scnt k 0 = - 1"
    using demo_sem_waiting by blast
  with semaphore_signal[OF k(2,3), of 0] show ?thesis by auto
qed

section \<open>Virtual timers\<close>

definition demo_vt :: vt_t where
  "demo_vt =
     \<lparr>v_dlist = [(1, 5), (2, 20)], v_lasttime = 100, v_laststamp = 0, v_reload = (\<lambda>_. 0), v_func = (\<lambda>_. 0),
      v_alarm = Some 105, v_faults = 0, v_clock = (\<lambda>_. 110), v_reads = 1\<rparr>"




text \<open>C20:
  A tick of the system timer, with one-shot timers whose callbacks leave the timers alone and
  while the time stands still, ends within as many rounds as there are timers and one more. It
  triggers exactly the timers whose deadline has been reached, in the order of their
  deadlines; the others keep their deadlines, now counted from the present, and the alarm is
  set for the next one or stopped when there is none.
\<close>

theorem timer_tick:
  assumes "\<forall>i. v_clock v i = now" "\<forall>f t v. cb f t v = Inr v" "\<forall>t \<in> fst ` set (v_dlist v). v_reload v t = 0"
    "length (v_dlist v) < n" "v_dlist v \<noteq> []" "E = unat (now - v_lasttime v)"
  shows "\<exists>v'. chVTDoTickI cb n v = Inr (map fst (takeWhile (\<lambda>(_, x). x \<le> E) (offsets 0 (v_dlist v))), v') \<and>
    offsets 0 (v_dlist v') = map (\<lambda>(t, x). (t, x - E)) (dropWhile (\<lambda>(_, x). x \<le> E) (offsets 0 (v_dlist v))) \<and>
    (if v_dlist v' = [] then v_alarm v' = None
     else v_lasttime v' = now \<and> v_alarm v' = Some (now + ucast (vt_clamp (first_delta (v_dlist v')))))"
  using assms by (rule chVTDoTickI_ok)

theorem timer_tick_witness:
  "\<exists>v'. chVTDoTickI (\<lambda>_ _. Inr) 3 demo_vt = Inr ([1], v') \<and> offsets 0 (v_dlist v') = [(2, 15)]"
  using timer_tick[of demo_vt 110 "\<lambda>_ _. Inr" 3 10] by (auto simp: demo_vt_def)

text \<open>
  The loop of \<open>vt_insert_first\<close>, unlike that of \<open>vt_set_alarm\<close>, sets the alarm from the old
  base time: if the time jumps from 0 to 10 while the first timer is inserted with a delay of
  2 ticks, the call returns with the alarm at 3, which the system timer reaches only after
  it has wrapped around.
\<close>

lemma timer_first_alarm_behind:
  "\<exists>v'. chVTDoSetI 1 2 0 (demo_vt\<lparr>v_dlist := [], v_clock := (\<lambda>i. if i = 0 then 0 else 10), v_reads := 0\<rparr>) = Inr v' \<and>
    v_dlist v' = [(1, 2)] \<and> v_alarm v' = Some 3 \<and> last_read v' = 10"
proof -
  let ?v = "demo_vt\<lparr>v_dlist := [], v_clock := (\<lambda>i. if i = 0 then 0 else 10), v_reads := 0\<rparr>"
  have c: "vt_clamp 2 = 2" by code_simp
  have "\<exists>v'. vt_enqueue 1 2 (?v\<lparr>v_func := (v_func ?v)(1 := 0), v_reload := (v_reload ?v)(1 := 0)\<rparr>) = Inr v' \<and>
      v_dlist v' = [(1, 2)] \<and> v_alarm v' = Some 3 \<and> last_read v' = 10"
    by (simp add: vt_enqueue_def vt_insert_first_def Let_def chVTGetSystemTimeX_def c chTimeAddX_def max_systime
        first_loop.simps[of _ _ 0] first_loop.simps[of _ _ 10] chTimeDiffX_def ST_TIMEDELTA_def last_read_def read_done_def
        vt_skip_fault_def chRFCUCollectFaultsI_def)
  then show ?thesis by (simp add: chVTDoSetI_def TIME_IMMEDIATE_def)
qed

section \<open>Condition variables, events and messages\<close>

text \<open>The demo thread with a mutex.\<close>

lemma demo_locked:
  obtains k where "chMtxLock 5 demo_kernel = Inr k" "sys_inv k" "k_cur k = 1" "k_idle k = 0" "mtxlist k 1 = [5]"
    "mqueue k 5 = []" "k_cond k 0 = []"
proof -
  have free: "m_owner (k_mtx demo_kernel 5) = None" by (simp add: demo_kernel_def)
  let ?k = "upd_thr 1 (\<lambda>t. t\<lparr>t_mtxlist := 5 # t_mtxlist t\<rparr>) (upd_mtx 5 (\<lambda>m. m\<lparr>m_owner := Some 1\<rparr>) demo_kernel)"
  have c: "k_cur demo_kernel = 1" by (simp add: demo_kernel_def)
  show ?thesis
  proof (rule that[of ?k])
    show "sys_inv ?k" using take_mutex[OF demo_kernel_inv(1) free] unfolding c .
    show "chMtxLock 5 demo_kernel = Inr ?k" using free by (simp add: chMtxLock_def chMtxLockS_def Let_def c)
  qed (simp_all add: upd_thr_def upd_mtx_def demo_kernel_def demo_thread_def)
qed

text \<open>C21:
  Waiting on a condition variable releases the mutex locked last, which goes to the thread
  that waits for it first, and puts the caller into the queue of the condition variable; the
  invariants of scheduler and mutexes are kept. When the caller owns no mutex the kernel halts.
\<close>

theorem condition_wait:
  assumes "sys_inv k" "k_cur k \<noteq> k_idle k"
  shows "(t_mtxlist (k_thr k (k_cur k)) = [] \<longrightarrow> chCondWait c k = Inl (Halted ''not owning a mutex'')) \<and>
    (\<forall>mp l. t_mtxlist (k_thr k (k_cur k)) = mp # l \<longrightarrow>
      (\<exists>k'. chCondWait c k = Inr k' \<and> sys_inv k' \<and> sched_ok k' \<and> waits_cond k' (k_cur k) c \<and>
        set (k_cond k' c) = insert (k_cur k) (set (k_cond k c)) \<and> t_mtxlist (k_thr k' (k_cur k)) = l \<and>
        m_owner (k_mtx k' mp) = (case m_queue (k_mtx k mp) of [] \<Rightarrow> None | t # _ \<Rightarrow> Some t)))"
  using chCondWait_ok[OF assms]
  by (simp add: chCondWait_def chCondWaitS_def chMtxGetNextMutexX_def)

theorem condition_wait_witness:
  "\<exists>k k'. chMtxLock 5 demo_kernel = Inr k \<and> chCondWait 0 k = Inr k' \<and> waits_cond k' 1 0 \<and> m_owner (k_mtx k' 5) = None"
proof -
  obtain k where k: "chMtxLock 5 demo_kernel = Inr k" "sys_inv k" "k_cur k = 1" "k_idle k = 0" "mtxlist k 1 = [5]" "mqueue k 5 = []"
    by (rule demo_locked)
  with condition_wait[of k 0] show ?thesis by auto
qed

text \<open>
  Signalling a condition variable wakes the first thread of its queue, one of highest
  priority among those that wait, with the message \<open>MSG_OK\<close>; once it runs, it takes its mutex
  again or waits for it. With nobody waiting a signal has no effect.
\<close>

lemma condition_signal:
  assumes "sys_inv k" "sched_ok k"
  shows "(k_cond k c = [] \<longrightarrow> chCondSignal c k = Inr k) \<and>
    (\<forall>t q. k_cond k c = t # q \<longrightarrow> (\<forall>u \<in> set q. prio k u \<le> prio k t) \<and>
      (\<exists>k'. chCondSignal c k = Inr k' \<and> sys_inv k' \<and> sched_ok k' \<and> k_cond k' = (k_cond k)(c := q) \<and>
        tstate k' t \<in> {CH_STATE_READY, CH_STATE_CURRENT} \<and>
        (k_cur k' = t \<and> t \<noteq> k_idle k' \<longrightarrow>
          (\<exists>k''. chCondWaitS_resume mp k' = Inr (MSG_OK, k'') \<and> sys_inv k'' \<and>
            (if m_owner (k_mtx k' mp) = None then m_owner (k_mtx k'' mp) = Some t else waits_mtx k'' t mp)))))"
proof (intro conjI allI impI)
  show "chCondSignal c k = Inr k" if "k_cond k c = []" using that by (simp add: chCondSignal_def)
  fix t q assume q: "k_cond k c = t # q"
  show "\<forall>u \<in> set q. prio k u \<le> prio k t" by (rule cond_first(5)[OF assms(1) q])
  obtain k' where k': "chCondSignal c k = Inr k'" "sys_inv k'" "sched_ok k'" "k_cond k' = (k_cond k)(c := q)"
      "tstate k' t \<in> {CH_STATE_READY, CH_STATE_CURRENT}" "rdymsg t k' = Inr MSG_OK"
    using chCondSignal_ok[OF assms q] by blast
  have "\<exists>k''. chCondWaitS_resume mp k' = Inr (MSG_OK, k'') \<and> sys_inv k'' \<and>
      (if m_owner (k_mtx k' mp) = None then m_owner (k_mtx k'' mp) = Some t else waits_mtx k'' t mp)"
    if "k_cur k' = t" "t \<noteq> k_idle k'"
    using chCondWaitS_resume_ok[OF k'(2), of MSG_OK mp] k'(6) that by (auto split: if_splits)
  with k' show "\<exists>k'. chCondSignal c k = Inr k' \<and> sys_inv k' \<and> sched_ok k' \<and> k_cond k' = (k_cond k)(c := q) \<and>
      tstate k' t \<in> {CH_STATE_READY, CH_STATE_CURRENT} \<and>
      (k_cur k' = t \<and> t \<noteq> k_idle k' \<longrightarrow>
        (\<exists>k''. chCondWaitS_resume mp k' = Inr (MSG_OK, k'') \<and> sys_inv k'' \<and>
          (if m_owner (k_mtx k' mp) = None then m_owner (k_mtx k'' mp) = Some t else waits_mtx k'' t mp)))"
    by blast
qed

text \<open>C22:
  No event is lost: for a thread that waits for any of the events \<open>m\<close>, a signal records its
  events and wakes the thread exactly when one of them is among \<open>m\<close>; the wait then returns
  precisely the signalled events it waited for and clears them, keeping the others pending.
\<close>

theorem event_signal:
  assumes "evt_inv k" "t \<in> set (k_tids k)" "tstate k t = CH_STATE_WTOREVT" "t_u (k_thr k t) = EwMask m"
  shows "\<exists>k'. chEvtSignal t events k = Inr k' \<and> evt_inv k' \<and> sched_ok k' \<and> epending k' t = epending k t OR events \<and>
    (if events AND m = 0 then tstate k' t = CH_STATE_WTOREVT
     else tstate k' t \<in> {CH_STATE_READY, CH_STATE_CURRENT} \<and> fst (chEvtWaitAny_resume m t k') = events AND m \<and>
       epending (snd (chEvtWaitAny_resume m t k')) t = (epending k t OR events) AND NOT m)"
  using assms by (rule signal_waiting)

theorem event_signal_witness:
  "\<exists>k k'. chEvtWaitAny 5 demo_kernel = Inr (None, k) \<and> chEvtSignal 1 6 k = Inr k' \<and>
    tstate k' 1 \<in> {CH_STATE_READY, CH_STATE_CURRENT} \<and> fst (chEvtWaitAny_resume 5 1 k') = 4"
proof -
  have d: "evt_inv demo_kernel" "k_cur demo_kernel = 1" "k_idle demo_kernel = 0" "k_tids demo_kernel = [0, 1]" "epending demo_kernel 1 = 0"
    using demo_kernel_inv(1) by (simp_all add: evt_inv_def evt_waiting_def) (simp_all add: demo_kernel_def demo_thread_def)
  then obtain k where k: "chEvtWaitAny 5 demo_kernel = Inr (None, k)" "evt_inv k" "1 \<in> set (k_tids k)"
      "tstate k 1 = CH_STATE_WTOREVT" "t_u (k_thr k 1) = EwMask 5"
    using chEvtWaitAny_ok[OF d(1), of 5] by auto
  have "(6 :: u32) AND 5 = 4" by simp
  with event_signal[OF k(2-5), of 6] k(1) show ?thesis by auto
qed

text \<open>
  A message exchange, from the receiver's side: \<open>chMsgWait\<close> returns the sender that has waited
  longest, \<open>chMsgGet\<close> its message, and after \<open>chMsgRelease\<close> the sender runs or is ready with the
  answer; the others stay in the queue and the invariants of the message queues are kept.
\<close>

lemma message_exchange:
  assumes "msg_inv k" "sched_ok k" "t_msgqueue (k_thr k (k_cur k)) = s # q"
  shows "\<exists>m k1 k2. t_u (k_thr k s) = SentMsg m \<and> chMsgWait k = Inr (Some s, k1) \<and> chMsgGet s k1 = Inr m \<and>
    chMsgRelease s answer k1 = Inr k2 \<and> msg_inv k2 \<and> sched_ok k2 \<and> rdymsg s k2 = Inr answer \<and>
    tstate k2 s \<in> {CH_STATE_READY, CH_STATE_CURRENT} \<and> t_msgqueue (k_thr k2 (k_cur k)) = q"
proof -
  have ok: "msgs_ok k" using assms(1) by (simp add: msg_inv_def)
  have s: "s \<in> set (msgqueue k (k_cur k))" using assms(3) by simp
  then obtain m where "t_u (k_thr k s) = SentMsg m"
    using msgs_okD(6)[OF ok msgs_okD(2)[OF ok s]] msgs_okD(3)[OF ok s] by auto
  with msg_exchange[OF assms this] show ?thesis by blast
qed

section \<open>Memory\<close>

text \<open>A heap of 256 bytes at the address 0x2000, with its structure at 0x1000.\<close>

definition demo_heap :: heap_state where
  "demo_heap =
     \<lparr>hs_mem = \<lparr>m_w0 = (\<lambda>_. 0), m_w1 = (\<lambda>_. 0)\<rparr>, hs_core = \<lparr>basemem = 0x8000, topmem = 0x9000\<rparr>,
      hs_provider = (\<lambda>_. False), hs_mtx = (\<lambda>_. 5), hs_default = 0x3000\<rparr>"

lemma demo_heap_init:
  obtains s k where "chHeapObjectInit 0x1000 0x2000 256 demo_heap demo_kernel = Inr (s, k)" "heap_ok (hs_mem s) 0x1000 [(0x2000, 31)]"
    "mowner k (hs_mtx s 0x1000) = None" "mqueue k (hs_mtx s 0x1000) = []" "heap_of 0x1000 s = 0x1000"
proof -
  have h: "heap_header 0x1000 = 0x1004" by (simp add: heap_header_def)
  obtain s k where s: "chHeapObjectInit 0x1000 0x2000 256 demo_heap demo_kernel = Inr (s, k)" "heap_ok (hs_mem s) 0x1000 [(0x2000, 31)]"
      "heap_rep 0x1000 (s, k) (b_bytes (0x2000, 31)) Map.empty"
  proof -
    have u: "unat (0x1004 :: u32) = 0x1004" "unat (0x2000 :: u32) = 0x2000" "unat (256 :: u32) = 256" by simp_all
    note i = heap_init_ok(1)[of "0x1000" "0x2000" 256 "0x2000" 31 demo_heap demo_kernel, unfolded h u]
    have "\<exists>s k. chHeapObjectInit 0x1000 0x2000 256 demo_heap demo_kernel = Inr (s, k) \<and> heap_ok (hs_mem s) 0x1000 [(0x2000, 31)] \<and>
        heap_rep 0x1000 (s, k) (b_bytes (0x2000, 31)) Map.empty"
      by (rule i) simp_all
    with that show ?thesis by blast
  qed
  from that[OF s(1,2) heap_repD(3-5)[OF s(3)]] show ?thesis .
qed



text \<open>
  When a free block has room for it, an allocation returns an aligned area inside the free
  memory, with at least the size asked for (up to 0xFFFFFFF8 bytes) and a header in front, and takes exactly these bytes;
  freeing it restores the list of free blocks.
\<close>

lemma heap_alloc_free:
  assumes "heap_ok (hs_mem s) h bs" "h = heap_of heapp s" "m_owner (k_mtx k (hs_mtx s h)) = None" "m_queue (k_mtx k (hs_mtx s h)) = []"
    "0 < sz" "unat sz \<le> 2 ^ 32 - 8" "MEM_IS_VALID_ALIGNMENT align"
    "\<exists>b \<in> set bs. fits (unat (eff_align align)) (unat (heap_pages sz)) b"
  shows "\<exists>p s' bs' s''. chHeapAllocAligned heapp sz align s k = Inr (Some p, s', k) \<and> heap_ok (hs_mem s') h bs' \<and>
    p \<noteq> 0 \<and> MEM_IS_ALIGNED p align \<and> chHeapGetSize p (hs_mem s') = sz \<and>
    {unat p..<unat p + unat sz} \<subseteq> heap_area (hs_mem s') p \<and> heap_area (hs_mem s') p \<subseteq> free_bytes bs \<and>
    free_bytes bs' = free_bytes bs - heap_area (hs_mem s') p \<and>
    chHeapFree p s' k = Inr (Some (), s'', k) \<and> heap_ok (hs_mem s'') h bs"
proof -
  obtain p s' bs' s'' where p: "chHeapAllocAligned heapp sz align s k = Inr (Some p, s', k)" "heap_ok (hs_mem s') h bs'" "p \<noteq> 0"
      "MEM_IS_ALIGNED p align" "chHeapGetSize p (hs_mem s') = sz" "heap_area (hs_mem s') p \<subseteq> free_bytes bs"
      "free_bytes bs' = free_bytes bs - heap_area (hs_mem s') p" "chHeapFree p s' k = Inr (Some (), s'', k)" "heap_ok (hs_mem s'') h bs"
    using heap_alloc_call[OF assms(1-5,7,8)] by blast
  moreover have "{unat p..<unat p + unat sz} \<subseteq> heap_area (hs_mem s') p"
    using heap_pages_enough(1)[OF assms(6)] by (auto simp: heap_area_def p(5))
  ultimately show ?thesis by blast
qed

text \<open>
  Rounding a size up to pages wraps: an allocation of more than 0xFFFFFFF8 bytes asks for no
  page at all and succeeds, with a header and no memory, in any heap that has a free block.
\<close>

lemma heap_size_wraps:
  assumes "heap_ok (hs_mem s) h (b # bs)" "h = heap_of heapp s" "m_owner (k_mtx k (hs_mtx s h)) = None" "m_queue (k_mtx k (hs_mtx s h)) = []"
    "sz > 0xFFFFFFF8"
  shows "\<exists>p s'. chHeapAlloc heapp sz s k = Inr (Some p, s', k) \<and> p \<noteq> 0 \<and> chHeapGetSize p (hs_mem s') = sz \<and>
    heap_area (hs_mem s') p = {unat p - 8..<unat p}"
proof -
  have z: "heap_pages sz = 0" by (rule heap_pages_wraps[OF assms(5)])
  have v: "MEM_IS_VALID_ALIGNMENT 8" "unat (eff_align 8) = 8" by code_simp+
  have sz: "0 < sz" using assms(5) by (auto simp: word_less_nat_alt)
  have "block_ok b" using assms(1) by (auto simp: heap_ok_def blocks_ok_Cons)
  then have fit: "\<exists>b \<in> set (b # bs). fits (unat (eff_align 8)) (unat (heap_pages sz)) b"
    using fits_no_page by (simp add: z v(2))
  obtain p s' where "chHeapAllocAligned heapp sz 8 s k = Inr (Some p, s', k)" "p \<noteq> 0" "chHeapGetSize p (hs_mem s') = sz"
    using heap_alloc_call[OF assms(1-4) sz v(1) fit] by blast
  then show ?thesis by (auto simp: chHeapAlloc_def CH_HEAP_ALIGNMENT_def heap_area_def z)
qed

section \<open>Mailboxes and I/O queues\<close>





definition demo_oq :: io_queue_t where
  "demo_oq = \<lparr>q_waiting = 0, q_counter = 2, q_buffer = [1, 2, 3], q_wrptr = 2, q_rdptr = 1\<rparr>"

text \<open>C25:
  Writing a block to an output queue with at most two memory copies does the same as putting
  its bytes one at a time, as many as there is room for, and returns their number.
\<close>

theorem queue_write_block:
  assumes "oq_ok q" "bs \<noteq> []"
  shows "oq_write bs q = bindE (foldE oq_put1 (take (q_counter q) bs) q) (\<lambda>q'. Inr (min (q_counter q) (length bs), q'))"
  using assms by (rule oq_write_puts)

theorem queue_write_block_witness:
  "\<exists>q'. oq_write [4, 5, 6] demo_oq = Inr (2, q') \<and> q_buffer q' = [5, 2, 4] \<and> q_wrptr q' = 1"
proof -
  have "oq_ok demo_oq" by (simp add: oq_ok_def ring_ok_def qSizeX_def demo_oq_def)
  with queue_write_block[OF this, of "[4, 5, 6]"] show ?thesis
    by (simp add: demo_oq_def oq_put1_def store_byte_def wr_def Let_def numeral_2_eq_2)
qed

section \<open>Threads and the registry\<close>

text \<open>The demo kernel with a third thread, of a priority and in a state that are given, and a registry for it.\<close>

definition demo_three :: "nat \<Rightarrow> tstate_t \<Rightarrow> kernel_t" where
  "demo_three p st = demo_kernel\<lparr>k_tids := [0, 1, 2], k_thr := (k_thr demo_kernel)(2 := demo_thread p st),
     k_ready := (if st = CH_STATE_READY then [2, 0] else [0])\<rparr>"

definition demo_reg :: reg_t where
  "demo_reg =
     \<lparr>r_life = (\<lambda>t. \<lparr>l_name = Some (if t = 0 then ''idle'' else if t = 1 then ''main'' else ''video''), l_wabase = of_nat (4096 * t),
          l_flags = CH_FLAG_MODE_STATIC, l_refs = 1, l_waiting = [], l_mpool = 0\<rparr>),
      r_heap = demo_heap,
      r_pool = (\<lambda>_. \<lparr>mp_next = 0, mp_object_size = 512, mp_align = 8, mp_provider = None\<rparr>), r_links = (\<lambda>_. 0)\<rparr>"


lemma demo_three_inv:
  assumes "1 < p" "p < 128" "st \<in> {CH_STATE_READY, CH_STATE_SLEEPING, CH_STATE_WTMSG}"
  shows "sys_inv (demo_three p st)" "sched_ok (demo_three p st)"
proof -
  show s: "sched_ok (demo_three p st)"
    using assms by (auto simp: sched_ok_def sched_inv_def demo_three_def demo_kernel_def demo_thread_def psorted_def firstprio_def)
  show "sys_inv (demo_three p st)"
    using s assms by (auto simp: sched_ok_def sys_inv_def mtx_inv_def mtx_struct_def qsorted_def inherits_def justified_def
        waits_mtx_def waits_cond_def demo_three_def demo_kernel_def demo_thread_def psorted_def)
qed

lemma demo_reg_inv: "life_inv (demo_reg, demo_kernel)" "scannable (demo_reg, demo_kernel)"
    "life_inv (demo_reg, demo_three 64 CH_STATE_READY)" "scannable (demo_reg, demo_three 64 CH_STATE_READY)"
  using demo_kernel_inv(1) demo_three_inv(1)[of 64 CH_STATE_READY]
  by (simp_all add: life_inv_def lives_ok_def scannable_def) (simp_all add: demo_reg_def demo_three_def demo_kernel_def demo_thread_def)



text \<open>C27:
  Joining a thread: when a thread with static memory ends, every thread that waits for its end runs
  or is ready, the list of those is empty and the invariants are kept. Each of them returns with the
  exit code, whatever the others have done in between as long as the structure of the ended thread
  is as it was, and gives its reference back; with the last one the thread leaves the registry.
\<close>

theorem thread_join:
  assumes "life_inv (r, k)" "k_cur k = t" "t \<noteq> k_idle k" "0 < l_refs (r_life r t)"
    "l_flags (r_life r t) AND CH_FLAG_MODE_MASK = CH_FLAG_MODE_STATIC"
  shows "\<exists>r' k'. chThdExit msg (r, k) = Inr (r', k') \<and> life_inv (r', k') \<and> sched_ok k' \<and> k_tids k' = k_tids k \<and> l_waiting (r_life r' t) = [] \<and>
    (\<forall>w \<in> set (l_waiting (r_life r t)). tstate k' w \<in> {CH_STATE_READY, CH_STATE_CURRENT}) \<and>
    (\<forall>r1 k1. r_life r1 t = r_life r' t \<and> k_thr k1 t = k_thr k' t \<longrightarrow>
      (\<exists>r2 k2. chThdWait_resume t (r1, k1) = Inr (Ended msg, r2, k2) \<and> l_refs (r_life r2 t) = l_refs (r_life r t) - 1 \<and>
        k_tids k2 = (if l_refs (r_life r t) = 1 then remove1 t (k_tids k1) else k_tids k1)))"
proof -
  have ns: "\<not> static_free r (k_cur k)" using assms(2,4) by (auto simp: static_free_def)
  obtain k' where k': "chThdExit msg (r, k) = Inr (upd_life t (\<lambda>l. l\<lparr>l_waiting := []\<rparr>) r, k')"
      "life_inv (upd_life t (\<lambda>l. l\<lparr>l_waiting := []\<rparr>) r, k')" "sched_ok k'" "k_tids k' = k_tids k"
      "chThdTerminatedX t k'" "exitcode t k' = Inr msg" "\<forall>w \<in> set (waiting r t). tstate k' w \<in> {CH_STATE_READY, CH_STATE_CURRENT}"
    using chThdExit_ok[OF assms(1), of msg] assms(2,3) ns by auto
  have "\<exists>r2 k2. chThdWait_resume t (r1, k1) = Inr (Ended msg, r2, k2) \<and> l_refs (r_life r2 t) = l_refs (r_life r t) - 1 \<and>
      k_tids k2 = (if l_refs (r_life r t) = 1 then remove1 t (k_tids k1) else k_tids k1)"
    if "r_life r1 t = (r_life r t)\<lparr>l_waiting := []\<rparr>" "k_thr k1 t = k_thr k' t" for r1 k1
  proof -
    have "chThdTerminatedX t k1" "exitcode t k1 = Inr msg"
      using k'(5,6) that(2) by (simp_all add: chThdTerminatedX_def exitcode_def)
    from chThdWait_resume_static[OF _ _ this, of r1] show ?thesis using assms(4,5) that(1) by simp
  qed
  then show ?thesis using k' by (intro exI[of _ "upd_life t (\<lambda>l. l\<lparr>l_waiting := []\<rparr>) r"] exI[of _ k']) simp
qed

theorem thread_join_witness:
  "\<exists>r1 k1 r2 k2 r3 k3. chThdWait 2 (demo_reg, demo_three 64 CH_STATE_READY) = Inr (Waiting, r1, k1) \<and> k_cur k1 = 2 \<and>
    chThdExit 7 (r1, k1) = Inr (r2, k2) \<and> tstate k2 1 \<in> {CH_STATE_READY, CH_STATE_CURRENT} \<and>
    chThdWait_resume 2 (r2, k2) = Inr (Ended 7, r3, k3) \<and> k_tids k3 = [0, 1]"
proof -
  let ?k = "demo_three 64 CH_STATE_READY"
  have d: "k_cur ?k = 1" "k_idle ?k = 0" "k_tids ?k = [0, 1, 2]" "tstate ?k 2 = CH_STATE_READY" "refs demo_reg 2 = 1" "waiting demo_reg 2 = []"
      "l_flags (r_life demo_reg 2) = 0"
    by (simp_all add: demo_three_def demo_kernel_def demo_thread_def demo_reg_def CH_FLAG_MODE_STATIC_def)
  obtain r1 k1 where w: "chThdWait 2 (demo_reg, ?k) = Inr (Waiting, r1, k1)" "life_inv (r1, k1)" "sched_ok k1" "k_tids k1 = [0, 1, 2]"
      "waiting r1 2 = [1]" "refs r1 2 = 1" "l_flags (r_life r1 2) = 0"
    using chThdWait_ok[OF demo_reg_inv(3), of 2] d by auto
  have "chThdWait 2 (demo_reg, ?k) = Inr (Waiting, r1, k1) \<Longrightarrow> k_cur k1 = 2 \<and> k_idle k1 = 0"
    by (auto simp: chThdWait_def chThdGetSelfX_def chSchGoSleepS_def pick_next_def demo_three_def demo_kernel_def demo_thread_def demo_reg_def
        kernel_upd Let_def)
  with w(1) have c: "k_cur k1 = 2" "k_idle k1 = 0" by simp_all
  have m: "l_flags (r_life r1 2) AND CH_FLAG_MODE_MASK = CH_FLAG_MODE_STATIC" by (simp add: w(7) CH_FLAG_MODE_STATIC_def)
  obtain r2 k2 where e: "chThdExit 7 (r1, k1) = Inr (r2, k2)" "k_tids k2 = [0, 1, 2]" "tstate k2 1 \<in> {CH_STATE_READY, CH_STATE_CURRENT}"
      "\<exists>r3 k3. chThdWait_resume 2 (r2, k2) = Inr (Ended 7, r3, k3) \<and> k_tids k3 = remove1 2 [0, 1, 2]"
    using thread_join[OF w(2) c(1) _ _ m, of 7] c w(4-6) by fastforce
  then show ?thesis using w(1) c(1) by auto
qed

section \<open>The structures under the kernel\<close>

text \<open>Two rings: at 1 a list with the element 5 alone, at 2 an empty one.\<close>

definition demo_links :: links_t where
  "demo_links = \<lparr>l_next = (\<lambda>x. x)(1 := 5, 5 := 1), l_prev = (\<lambda>x. x)(1 := 5, 5 := 1), l_prio = (\<lambda>x. x)(1 := 0, 2 := 0),
     l_delta = (\<lambda>_. - 1)(5 := 10)\<rparr>"

text \<open>C30:
  The doubly linked queues of the kernel implement lists. For any number of queues in one memory and any
  sequence of insertions and removals (at the end, at the front, at the back, anywhere, by priority behind
  or ahead of its equals), where what is inserted is in no queue, what is taken out is in one and the
  header of a priority queue has a lower priority than its elements: the loops end, every call returns the
  element that the operation on lists gives, and the links represent the lists that it gives.
\<close>

theorem kernel_queues:
  assumes "store_ok hs Q m" "qrun_ok hs (l_prio m) ops Q"
  shows "\<exists>m'. ptr_run ops m = Inr (fst (list_run (l_prio m) ops Q), m') \<and> store_ok hs (snd (list_run (l_prio m) ops Q)) m'"
  using assms by (rule run_refines)

theorem kernel_queues_witness:
  "\<exists>m' Q. ptr_run [QInsert 2 9, QBehind 1 7, QFifo 1, QAhead 1 7, QDequeue 9, QPrio 1 9, QLifo 1] demo_links = Inr ([9, 7, 7, 7, 9, 9, 5], m') \<and>
    store_ok [1, 2] Q m' \<and> Q 1 = [9, 7] \<and> Q 2 = []"
proof -
  let ?Q = "(\<lambda>_. [])(1 := [5])" and ?ops = "[QInsert 2 9, QBehind 1 7, QFifo 1, QAhead 1 7, QDequeue 9, QPrio 1 9, QLifo 1]"
  have s: "store_ok [1, 2] ?Q demo_links"
    by (simp add: store_ok_def ring_def demo_links_def)
  have p: "l_prio demo_links = (\<lambda>x. x)(1 := 0, 2 := 0)" by (simp add: demo_links_def)
  have "qrun_ok [1, 2] (l_prio demo_links) ?ops ?Q"
    unfolding p by (simp add: unlinked_def ch_pqueue_insert_behind_def ch_pqueue_insert_ahead_def ch_sch_prio_insert_def ch_queue_dequeue_def)
  moreover have "fst (list_run (l_prio demo_links) ?ops ?Q) = [9, 7, 7, 7, 9, 9, 5]" "snd (list_run (l_prio demo_links) ?ops ?Q) 1 = [9, 7]"
      "snd (list_run (l_prio demo_links) ?ops ?Q) 2 = []"
    unfolding p by (simp_all add: Let_def ch_pqueue_insert_behind_def ch_pqueue_insert_ahead_def ch_sch_prio_insert_def ch_queue_dequeue_def)
  ultimately show ?thesis using kernel_queues[OF s] by metis
qed

text \<open>C31:
  The delta list of the timers, linked through the timers with a header whose interval is the greatest
  one, implements the list with which the timers are described: inserting a timer that is not in it, at
  its place or in front, and taking any timer out give links and intervals that represent the result
  of the operation on lists; the search for the place ends.
\<close>

theorem timer_links:
  assumes "dring m h dl" "e \<notin> insert h (fst ` set dl)"
  shows "(\<exists>m' dl'. ch_dlist_insert e delta dl = Inr dl' \<and> ch_dlist_insert_ptr h e delta m = Inr m' \<and> dring m' h dl') \<and>
    dring (ch_dlist_insert_after_ptr h e delta m) h ((e, delta) # dl) \<and>
    (\<forall>u \<in> fst ` set dl. dring (dlist_unlink_ptr h u m) h (dlist_unlink u dl))"
  using dlist_insert_refines[OF assms] dlist_insert_after_refines[OF assms] dlist_unlink_refines[OF assms(1)] by blast

theorem timer_links_witness:
  "\<exists>m'. ch_dlist_insert_ptr 1 7 25 demo_links = Inr m' \<and> dring m' 1 [(5, 10), (7, 15)] \<and>
    dring (dlist_unlink_ptr 1 5 demo_links) 1 []"
proof -
  have "dring demo_links 1 [(5, 10)]" by (simp add: dring_def ring_def demo_links_def)
  from timer_links[OF this, of 7 25] show ?thesis by (auto simp: add_delta_def)
qed

section \<open>Critical zones, tracing and start\<close>

definition demo_sys :: sys_t where
  "demo_sys = \<lparr>y_cpu = \<lparr>c_primask = False, c_basepri = 0, c_active = []\<rparr>, y_dbg = \<lparr>isr_cnt = 0, lock_cnt = 0\<rparr>, y_k = demo_kernel\<rparr>"

lemma demo_sys_zone: "in_zone (Thread, False) demo_sys" "no_preemption (y_k demo_sys)"
  by (simp_all add: in_zone_def demo_sys_def CORTEX_BASEPRI_DISABLED_def no_preemption_def demo_kernel_def demo_thread_def firstprio_def)



text \<open>C32:
  \<open>chSysGetStatusAndLockX\<close> enters a critical zone from a thread, an interrupt handler or a critical zone, and
  \<open>chSysRestoreStatusX\<close> with the status it returned goes back to where it was called, whatever the kernel
  has done in between: in a thread with a thread of highest priority running, elsewhere with the kernel as
  it is. Not after \<open>chSysSuspend\<close>: the status says that the system is locked, it is left as it is, and the first
  function that may only be called in a critical zone halts the system.
\<close>

theorem critical_status:
  assumes "in_zone (z, off) s"
  shows "if z = Suspended
    then chSysGetStatusAndLockX s = Inr (CORTEX_BASEPRI_KERNEL, s) \<and> chDbgCheckClassI s = Inl (Halted ''SV#10'')
    else \<exists>sts s1. chSysGetStatusAndLockX s = Inr (sts, s1) \<and> in_zone (critical z, off) s1 \<and> y_k s1 = y_k s \<and>
      (\<forall>k. sched_inv k \<longrightarrow> (\<exists>s2. chSysRestoreStatusX sts (s1\<lparr>y_k := k\<rparr>) = Inr s2 \<and> in_zone (z, off) s2 \<and>
        (if z = Thread then chSchRescheduleS k = Inr (y_k s2) \<and> sched_ok (y_k s2) else y_k s2 = k)))"
proof (cases "z = Suspended")
  case True
  with suspended_not_critical assms show ?thesis by simp
next
  case False
  obtain s1 where s1: "chSysGetStatusAndLockX s = Inr (c_basepri (y_cpu s), s1)" "in_zone (critical z, off) s1" "y_k s1 = y_k s"
    using status_lock[OF assms False] by blast
  have "in_zone (critical z, off) (s1\<lparr>y_k := k\<rparr>)" for k using s1(2) by (simp add: in_zone_def)
  then have "\<exists>s2. chSysRestoreStatusX (c_basepri (y_cpu s)) (s1\<lparr>y_k := k\<rparr>) = Inr s2 \<and> in_zone (z, off) s2 \<and>
      (if z = Thread then chSchRescheduleS k = Inr (y_k s2) \<and> sched_ok (y_k s2) else y_k s2 = k)" if "sched_inv k" for k
    using status_restore[OF assms _ False, of "s1\<lparr>y_k := k\<rparr>"] that by (cases "z = Thread") simp_all
  with s1 show ?thesis using False by (simp split del: if_split)
qed

theorem critical_status_witness:
  "\<exists>sts s1 s2. chSysGetStatusAndLockX demo_sys = Inr (sts, s1) \<and> in_zone (Locked, False) s1 \<and>
    chSysRestoreStatusX sts (s1\<lparr>y_k := demo_kernel\<rparr>) = Inr s2 \<and> in_zone (Thread, False) s2 \<and> y_k s2 = demo_kernel"
proof -
  have "chSchRescheduleS demo_kernel = Inr demo_kernel"
    by (simp add: chSchRescheduleS_def firstprio_def demo_kernel_def demo_thread_def)
  moreover have "sched_inv demo_kernel" using demo_kernel_inv(2) by (simp add: sched_ok_def)
  moreover obtain sts s1 where "chSysGetStatusAndLockX demo_sys = Inr (sts, s1)" "in_zone (Locked, False) s1"
      "\<forall>k. sched_inv k \<longrightarrow> (\<exists>s2. chSysRestoreStatusX sts (s1\<lparr>y_k := k\<rparr>) = Inr s2 \<and> in_zone (Thread, False) s2 \<and> chSchRescheduleS k = Inr (y_k s2) \<and>
        sched_ok (y_k s2))"
    using critical_status[OF demo_sys_zone(1)] by auto
  ultimately show ?thesis by force
qed

text \<open>C33:
  The trace buffer keeps the last 128 records: after any sequence of events, of which those of a suspended
  source leave no trace, it holds, from the oldest to the newest, the last ones of what it held before and
  of the records of the events, each with its kind, data and time; no access is outside the buffer.
\<close>

theorem trace_last:
  assumes "trace_ok tb" "es = map src_event (filter (\<lambda>c. \<not> bit (tb_suspended tb) (src_bit (snd (snd (snd c))))) cs)"
  shows "\<exists>tb'. foldE trace_op cs tb = Inr tb' \<and> trace_ok tb' \<and> length (trace_contents tb') = 128 \<and>
    trace_contents tb' = drop (length es) (trace_contents tb @ es)"
proof -
  have "length (trace_contents tb') = 128" if "trace_ok tb'" for tb'
    using that by (simp add: trace_ok_def trace_contents_def CH_DBG_TRACE_BUFFER_SIZE_def)
  then show ?thesis using trace_run_ok[OF assms(1), of cs] unfolding assms(2) Let_def by blast
qed

definition demo_trace :: trace_buffer_t where
  "demo_trace = \<lparr>tb_suspended = 0, tb_size = 0, tb_ptr = 0,
     tb_buffer = replicate 128 \<lparr>te_type = 7, te_state = 0, te_rtstamp = 0, te_time = 0, te_u = UHalt ''''\<rparr>\<rparr>"

lemma demo_trace_length: "length (tb_buffer demo_trace) = CH_DBG_TRACE_BUFFER_SIZE"
  by (simp add: demo_trace_def CH_DBG_TRACE_BUFFER_SIZE_def)

theorem trace_last_witness:
  "\<exists>tb'. foldE trace_op [(demo_kernel, 3, 0x5000007, TUser 1 2), (demo_kernel, 4, 9, TReady 1 5)] (trace_object_init demo_trace) = Inr tb' \<and>
    drop 126 (trace_contents tb') =
      [\<lparr>te_type = 6, te_state = 0, te_rtstamp = 7, te_time = 3, te_u = UUser 1 2\<rparr>,
       \<lparr>te_type = 1, te_state = 1, te_rtstamp = 9, te_time = 4, te_u = UReady 1 5\<rparr>]"
proof -
  note t = trace_init_ok(1,2)[OF demo_trace_length]
  have l: "length (trace_contents (trace_object_init demo_trace)) = 128"
    using t(1) by (simp add: trace_ok_def trace_contents_def CH_DBG_TRACE_BUFFER_SIZE_def)
  have "tstate demo_kernel 1 = CH_STATE_CURRENT" by (simp add: demo_kernel_def demo_thread_def)
  then show ?thesis
    using trace_last[OF t(1) refl, of "[(demo_kernel, 3, 0x5000007, TUser 1 2), (demo_kernel, 4, 9, TReady 1 5)]"] t(2)[of 4] t(2)[of 0] l
    by auto
qed

text \<open>C28:
  The start of the system: with no synchronisation object in use and a valid working area for the idle
  thread, \<open>chSysInit\<close> ends in the running state, outside of every critical zone with interrupts enabled, with the
  main thread running and the idle thread ready, and with the invariants of scheduler, mutexes, condition
  variables, threads and their lives, semaphores, events, messages, timers and trace buffer, from which
  the other results about the kernel start.
\<close>

theorem system_start:
  assumes "unused os" "td_valid lay (idle_descriptor cfg)" "thd_at lay (idlethread_end cfg) \<noteq> mainthread cfg"
  shows "\<exists>os'. chSysInit lay cfg heap_base heap_end rt os = Inr os' \<and> o_state os' = ch_sys_running \<and>
    started (mainthread cfg) (thd_at lay (idlethread_end cfg)) (o_k os') \<and> in_zone (Thread, False) (o_sys os') \<and> kernel_inv os'"
  using assms by (rule chSysInit_ok)

theorem system_start_witness:
  "\<exists>os'. chSysInit \<lparr>thread_size = 64, wa_size0 = 256\<rparr>
      \<lparr>mainthread = 1, mainthread_base = 0x1000, idlethread_base = 0x5000, idlethread_end = 0x5200, idle_fn = 9\<rparr> 0x8000 0x9000 (\<lambda>i. of_nat i)
      \<lparr>o_state = ch_sys_uninit, o_registered = True, o_offset = 0, o_sys = demo_sys\<lparr>y_dbg := \<lparr>isr_cnt = 3, lock_cnt = 0\<rparr>\<rparr>, o_reg = demo_reg,
       o_vt = demo_vt, o_trace = demo_trace, o_panic = None\<rparr> = Inr os' \<and>
    k_tids (o_k os') = [1, 0x51C0] \<and> k_cur (o_k os') = 1 \<and> sched_ok (o_k os')"
proof -
  let ?lay = "\<lparr>thread_size = 64, wa_size0 = 256\<rparr>"
  let ?cfg = "\<lparr>mainthread = 1, mainthread_base = 0x1000, idlethread_base = 0x5000, idlethread_end = 0x5200, idle_fn = 9\<rparr>"
  let ?os = "\<lparr>o_state = ch_sys_uninit, o_registered = True, o_offset = 0, o_sys = demo_sys\<lparr>y_dbg := \<lparr>isr_cnt = 3, lock_cnt = 0\<rparr>\<rparr>, o_reg = demo_reg,
       o_vt = demo_vt, o_trace = demo_trace, o_panic = None\<rparr>"
  have td: "td_valid ?lay (idle_descriptor ?cfg)" "thd_at ?lay (idlethread_end ?cfg) = 0x51C0" by code_simp+
  have "unused ?os"
    using demo_trace_length by (simp add: unused_def demo_sys_def demo_kernel_def demo_thread_def demo_reg_def INT_MAX_def)
  from system_start[OF this td(1), where heap_base = "0x8000" and heap_end = "0x9000" and rt = "\<lambda>i. of_nat i"] obtain os' where
      "chSysInit ?lay ?cfg 0x8000 0x9000 (\<lambda>i. of_nat i) ?os = Inr os'" "started 1 0x51C0 (o_k os')" "kernel_inv os'"
    unfolding td(2) by auto
  then show ?thesis by (intro exI[of _ os']) (simp add: started_def kernel_inv_def)
qed

section \<open>Pipes\<close>

definition demo_pipe :: "u8 list \<Rightarrow> pipe_t" where
  "demo_pipe buf =
     \<lparr>pp_buffer = buf, pp_wrptr = 0, pp_rdptr = 0, pp_cnt = 0, pp_reset = False, pp_wtr = 0, pp_rtr = 1, pp_cmtx = 0, pp_wmtx = 1, pp_rmtx = 2\<rparr>"


text \<open>A pipe nobody uses yet.\<close>

definition pipe_start :: "pipe_t \<Rightarrow> kernel_t \<Rightarrow> pipe_sys" where
  "pipe_start pp k = \<lparr>ps_pipe = pp, ps_k = k, ps_w = Map.empty, ps_r = Map.empty, ps_z = Map.empty, ps_in = [], ps_out = []\<rparr>"





text \<open>C36:
  A wake-up can be lost. A thread writes two bytes into a pipe of one byte, without a timeout. When it has
  released the common mutex, having found no room for the second byte, and before it suspends
  itself, a thread of higher priority runs, reads the first byte, finds nobody to resume, and
  suspends itself to wait for the second one. Then the writer suspends itself: the pipe is empty,
  both wait for each other for ever and only the idle thread runs.
\<close>

theorem pipe_lost_wakeup:
  "\<exists>s w r. (pipe_step expire)\<^sup>*\<^sup>* (pipe_start (demo_pipe [0]) (demo_three 129 CH_STATE_SLEEPING)) s \<and>
    ps_w s 1 = Some w \<and> c_pc w = P_Suspended \<and> c_bp w = [8] \<and> c_timeout w = TIME_INFINITE \<and>
    ps_r s 2 = Some r \<and> c_pc r = P_Suspended \<and> c_bp r = [7] \<and> c_n r = 1 \<and> c_timeout r = TIME_INFINITE \<and>
    tstate (ps_k s) 1 = CH_STATE_SUSPENDED \<and> tstate (ps_k s) 2 = CH_STATE_SUSPENDED \<and> k_cur (ps_k s) = k_idle (ps_k s) \<and>
    k_ready (ps_k s) = [] \<and> pipe_bytes (ps_pipe s) = []"
proof -
  define ms where "ms = [M_Write [7, 8] TIME_INFINITE] @ replicate 9 M_W @ [M_Expire 2, M_Read 2 TIME_INFINITE] @ replicate 10 M_R @ [M_W]"
  define s0 where "s0 = pipe_start (demo_pipe [0]) (demo_three 129 CH_STATE_SLEEPING)"
  have "case foldE play1 ms s0 of Inl e \<Rightarrow> False | Inr s \<Rightarrow>
      (case ps_w s 1 of None \<Rightarrow> False | Some w \<Rightarrow> c_pc w = P_Suspended \<and> c_bp w = [8] \<and> c_timeout w = TIME_INFINITE) \<and>
      (case ps_r s 2 of None \<Rightarrow> False | Some r \<Rightarrow> c_pc r = P_Suspended \<and> c_bp r = [7] \<and> c_n r = 1 \<and> c_timeout r = TIME_INFINITE) \<and>
      tstate (ps_k s) 1 = CH_STATE_SUSPENDED \<and> tstate (ps_k s) 2 = CH_STATE_SUSPENDED \<and> k_cur (ps_k s) = k_idle (ps_k s) \<and>
      k_ready (ps_k s) = [] \<and> pipe_bytes (ps_pipe s) = []"
    unfolding ms_def s0_def by code_simp
  then obtain s where "foldE play1 ms s0 = Inr s"
      "(case ps_w s 1 of None \<Rightarrow> False | Some w \<Rightarrow> c_pc w = P_Suspended \<and> c_bp w = [8] \<and> c_timeout w = TIME_INFINITE)"
      "(case ps_r s 2 of None \<Rightarrow> False | Some r \<Rightarrow> c_pc r = P_Suspended \<and> c_bp r = [7] \<and> c_n r = 1 \<and> c_timeout r = TIME_INFINITE)"
      "tstate (ps_k s) 1 = CH_STATE_SUSPENDED" "tstate (ps_k s) 2 = CH_STATE_SUSPENDED" "k_cur (ps_k s) = k_idle (ps_k s)"
      "k_ready (ps_k s) = []" "pipe_bytes (ps_pipe s) = []"
    by (auto split: sum.splits)
  with play_steps[OF this(1)] show ?thesis unfolding s0_def by (auto split: option.splits)
qed

section \<open>Queues of objects and delegates\<close>

text \<open>C37:
  Objects of a FIFO are neither lost nor given out twice. The start succeeds; from then on, however
  its users take, send, receive and return objects they hold and write into them, every object is in exactly one place: in
  the pool, in the mailbox or with a user. What is taken or received is an object of the array, and
  one nobody held.
\<close>

theorem fifo_objects:
  assumes "objalign \<le> objsize" "objsize mod objalign = 0" "4 \<le> objsize" "PORT_NATURAL_ALIGN \<le> objalign" "MEM_IS_VALID_ALIGNMENT objalign"
    and "0 < objn" "int objn \<le> INT_MAX" "objn \<le> length msgbuf" "as = obj_addrs objbuf objsize objn"
    and "distinct as" "0 \<notin> set as" "\<forall>x \<in> set as. MEM_IS_ALIGNED x objalign" "sched_ok k"
  shows "\<exists>s0. chFifoObjectInitAligned sem qw qr objsize objn objalign objbuf msgbuf (link, k) = Inr s0 \<and>
    (\<forall>H f link' k'. fifo_step\<^sup>*\<^sup>* ({}, s0) (H, f, link', k') \<longrightarrow>
      (\<exists>free sent. fifo_ok objn f link' free sent \<and> distinct (free @ sent) \<and> set (free @ sent) \<inter> H = {} \<and> set (free @ sent) \<union> H = set as) \<and>
      (\<forall>p s'. takes (f, link', k') p s' \<longrightarrow> got p \<subseteq> set as - H) \<and>
      (\<forall>p s'. receives (f, link', k') p s' \<longrightarrow> set_option p \<subseteq> set as - H))"
proof -
  have "firstprio k \<le> prio k (k_cur k)" using assms(13) by (simp add: sched_ok_def)
  from fifo_start[OF assms(1-8) assms(10-12)[unfolded assms(9)] this]
  obtain s0 where s0: "chFifoObjectInitAligned sem qw qr objsize objn objalign objbuf msgbuf (link, k) = Inr s0" "fifo_inv (set as) {} s0"
    unfolding assms(9) by blast
  have n: "card (set as) = objn" using distinct_card[OF assms(10)] by (simp add: assms(9) obj_addrs_def)
  have inv: "fifo_inv (set as) H (f, l, k)" if "fifo_step\<^sup>*\<^sup>* ({}, s0) (H, f, l, k)" for H f l k
    using fifo_steps_inv[OF that s0(2)] .
  have "\<exists>free sent. fifo_ok objn f l free sent \<and> distinct (free @ sent) \<and> set (free @ sent) \<inter> H = {} \<and> set (free @ sent) \<union> H = set as"
    if "fifo_step\<^sup>*\<^sup>* ({}, s0) (H, f, l, k)" for H f l k
    using inv[OF that] unfolding fifo_inv_def prod.case n by blast
  with s0(1) fifo_fresh[OF inv] show ?thesis by blast
qed

theorem fifo_objects_witness:
  "\<exists>f link k. chFifoObjectInitAligned 3 4 5 16 2 8 0x4000 [0, 0] (\<lambda>_. 0, demo_kernel) = Inr (f, link, k) \<and>
    (\<exists>free sent. fifo_ok 2 f link free sent \<and> distinct (free @ sent) \<and> set (free @ sent) = {0x4000, 0x4010})"
proof -
  have a: "[0x4000, 0x4010] = obj_addrs 0x4000 16 2" "(8 :: u32) \<le> 16" "(16 :: u32) mod 8 = 0" "(4 :: u32) \<le> 16" "PORT_NATURAL_ALIGN \<le> 8"
      "MEM_IS_VALID_ALIGNMENT 8" "int 2 \<le> INT_MAX" "distinct [0x4000, 0x4010 :: u32]"
    by code_simp+
  have b: "0 < (2 :: nat)" "2 \<le> length [0, 0 :: msg_t]" "0 \<notin> set [0x4000, 0x4010 :: u32]" by simp_all
  have c: "\<forall>x \<in> set [0x4000, 0x4010]. MEM_IS_ALIGNED x 8" by code_simp
  note fifo_objects[OF a(2-6) b(1) a(7) b(2) a(1,8) b(3) c demo_kernel_inv(2), of 3 4 5 "\<lambda>_. 0"]
  then obtain s0 where s0: "chFifoObjectInitAligned 3 4 5 16 2 8 0x4000 [0, 0] (\<lambda>_. 0, demo_kernel) = Inr s0"
      "\<forall>H f link k. fifo_step\<^sup>*\<^sup>* ({}, s0) (H, f, link, k) \<longrightarrow>
        (\<exists>free sent. fifo_ok 2 f link free sent \<and> distinct (free @ sent) \<and> set (free @ sent) \<inter> H = {} \<and> set (free @ sent) \<union> H = set [0x4000, 0x4010]) \<and>
        (\<forall>p s'. takes (f, link, k) p s' \<longrightarrow> got p \<subseteq> set [0x4000, 0x4010] - H) \<and>
        (\<forall>p s'. receives (f, link, k) p s' \<longrightarrow> set_option p \<subseteq> set [0x4000, 0x4010] - H)"
    by (elim exE conjE) (rule that)
  obtain f link k where s: "s0 = (f, link, k)" by (cases s0)
  from s0(2)[rule_format, of "{}" f link k, THEN conjunct1] s0(1) show ?thesis by (simp add: s)
qed



section \<open>Caches\<close>


text \<open>A cache of one buffer, over memory that holds anything.\<close>

definition demo_object :: oc_object_t where
  "demo_object = \<lparr>obj_group = 9, obj_key = 9, obj_sem = 9, obj_flags = 9, obj_dptr = 9\<rparr>"

lemma demo_cache_init:
  obtains c k where "chCacheObjectInit 16 1 1 16 1 2 (\<lambda>_. 3) (\<lambda>_. demo_object) demo_kernel = Inr (c, k)" "cache_ok (c, k)" "oc_lru c = [] @ [0]"
    "oc_lru_sem c = 2" "scnt k 2 = 1" "squeue k 2 = []" "\<forall>g y. hash_get_s c g y = Inr None" "flags c 0 AND OC_FLAG_LAZYWRITE = 0"
proof -
  have "\<exists>c k. chCacheObjectInit 16 1 1 16 1 2 (\<lambda>_. 3) (\<lambda>_. demo_object) demo_kernel = Inr (c, k) \<and> flags c 0 = OC_FLAG_INLRU"
    by (simp add: chCacheObjectInit_def chSemObjectInit_def LRU_INSERT_HEAD_def)
  then obtain c k where i: "chCacheObjectInit 16 1 1 16 1 2 (\<lambda>_. 3) (\<lambda>_. demo_object) demo_kernel = Inr (c, k)" "flags c 0 = OC_FLAG_INLRU" by blast
  have j: "inj_on (\<lambda>_. 3 :: nat) {..<unat (1 :: u32)}" "2 \<notin> (\<lambda>_. 3 :: nat) ` {..<unat (1 :: u32)}" by (auto simp: inj_on_def)
  note ci = cache_init[OF i(1) j]
  show ?thesis
  proof (rule that[OF i(1) ci(1)])
    show "oc_lru c = [] @ [0]" "oc_lru_sem c = 2" "scnt k 2 = 1" "squeue k 2 = []" using ci(2-5) by simp_all
    show "\<forall>g y. hash_get_s c g y = Inr None" using ci(6) by blast
    show "flags c 0 AND OC_FLAG_LAZYWRITE = 0" by (simp add: i(2) oc_flags)
  qed
qed


text \<open>C40:
  The counter of the free buffers is wrong after a hit: when the only buffer in the list is taken by
  a call for the object in it, the semaphore that counts the list stays positive, and the next call
  for an object that is not in the cache does not wait but takes the header of the empty list for a
  buffer.
\<close>

theorem cache_counter:
  assumes "cache_ok (c, k)" "hash_get_s c grp key = Inr (Some x)" "oc_lru c = [x]" "hash_get_s c grp' key' = Inr None"
    "s_cnt (k_sem k (oc_lru_sem c)) = 1" "s_queue (k_sem k (oc_lru_sem c)) = []"
  shows "\<exists>c' k'. chCacheGetObject writef grp key (c, k) = Inr (Got x, c', k') \<and> oc_lru c' = [] \<and> s_cnt (k_sem k' (oc_lru_sem c')) = 1 \<and>
    chCacheGetObject writef grp' key' (c', k') = Inl OutOfBounds"
proof -
  have "x \<in> set (oc_lru c)" using assms(3) by simp
  from cache_get_hit[OF assms(1,2) this, of writef] obtain c' k' where c': "chCacheGetObject writef grp key (c, k) = Inr (Got x, c', k')"
      "\<forall>g y. hash_get_s c' g y = hash_get_s c g y" "oc_lru c' = []" "oc_lru_sem c' = oc_lru_sem c"
      "scnt k' (oc_lru_sem c) = scnt k (oc_lru_sem c)" "\<forall>s. squeue k' s = squeue k s"
    using assms(3) by auto
  have "chCacheGetObject writef grp' key' (c', k') = Inl OutOfBounds"
    by (rule cache_miss_on_empty) (use c' assms(4-6) in \<open>auto simp: INT_MAX_def\<close>)
  with c' assms(5) show ?thesis by auto
qed

theorem cache_counter_witness:
  "\<exists>c k c1 k1 c2 k2 c3 k3. chCacheObjectInit 16 1 1 16 1 2 (\<lambda>_. 3) (\<lambda>_. demo_object) demo_kernel = Inr (c, k) \<and>
    chCacheGetObject (\<lambda>_ _ s. Inr (False, s)) 4 5 (c, k) = Inr (Got 0, c1, k1) \<and>
    chCacheReleaseObjectI 0 (set_flags 0 OC_FLAG_INHASH c1, k1) = Inr (c2, k2) \<and>
    chCacheGetObject (\<lambda>_ _ s. Inr (False, s)) 4 5 (c2, k2) = Inr (Got 0, c3, k3) \<and>
    chCacheGetObject (\<lambda>_ _ s. Inr (False, s)) 4 6 (c3, k3) = Inl OutOfBounds"
proof -
  obtain c k where c: "chCacheObjectInit 16 1 1 16 1 2 (\<lambda>_. 3) (\<lambda>_. demo_object) demo_kernel = Inr (c, k)" "cache_ok (c, k)" "oc_lru c = [] @ [0]"
      "oc_lru_sem c = 2" "scnt k 2 = 1" "squeue k 2 = []" "\<forall>g y. hash_get_s c g y = Inr None" "flags c 0 AND OC_FLAG_LAZYWRITE = 0"
    by (rule demo_cache_init)
  have "\<not> bit (flags c 0) 4" using c(8) unfolding flag_tests .
  then obtain c1 k1 c2 k2 where f: "chCacheGetObject (\<lambda>_ _ s. Inr (False, s)) 4 5 (c, k) = Inr (Got 0, c1, k1)"
      "chCacheReleaseObjectI 0 (set_flags 0 OC_FLAG_INHASH c1, k1) = Inr (c2, k2)" "cache_ok (c2, k2)" "oc_lru c2 = [0]" "oc_lru_sem c2 = 2"
      "scnt k2 2 = 1" "squeue k2 2 = []" "hash_get_s c2 4 5 = Inr (Some 0)" "hash_get_s c2 4 6 = Inr None"
    using cache_fill[OF c(2) c(7)[rule_format] c(3), of "\<lambda>_ _ s. Inr (False, s)" 4 5] c(4-7) by (auto simp: INT_MAX_def)
  from cache_counter[OF f(3,8,4,9), of "\<lambda>_ _ s. Inr (False, s)"] f(5-7) obtain c3 k3 where
      "chCacheGetObject (\<lambda>_ _ s. Inr (False, s)) 4 5 (c2, k2) = Inr (Got 0, c3, k3)" "chCacheGetObject (\<lambda>_ _ s. Inr (False, s)) 4 6 (c3, k3) = Inl OutOfBounds"
    by auto
  with c(1) f(1,2) show ?thesis by blast
qed

section \<open>The simulation\<close>

text \<open>
  The simulation's clock is not monotonic: it weighs a second with 100, so for every second
  and every 100 ms that pass just before its end the reading goes back at the turn of the
  second.
\<close>

lemma sitl_clock_goes_back:
  assumes "0 \<le> s" "s < 10000000" "101 \<le> ms" "ms < 1000"
  shows "timespec_ms (s + 1, 0) < timespec_ms (s, ms * 1000000)"
proof -
  have "(ms * 1000000) sdiv 1000000 = ms" "0 sdiv 1000000 = (0 :: int)"
    using assms(3) by (simp_all add: signed_divide_int_def sgn_if)
  then have v: "timespec_ms (s + 1, 0) = word_of_int (s * 100 + 100)" "timespec_ms (s, ms * 1000000) = word_of_int (s * 100 + ms)"
    by (simp_all only: timespec_ms_def prod.case) simp_all
  have lt: "(word_of_int a :: u32) < word_of_int b" if "0 \<le> a" "a < b" "b < 2 ^ 32" for a b
    using that by (simp add: word_less_def take_bit_int_eq_self uint_word_of_int_eq)
  show ?thesis
    unfolding v by (rule lt) (use assms in simp_all)
qed

end
